(* ===== verification/Prelude.thy ===== *)
theory Prelude
  imports Main "HOL-Library.Word" "HOL-Library.Monad_Syntax"
begin

text \<open>
  Shared vocabulary of the development: the machine integer types of the C sources, byte
  memory with explicit bounds (an access outside the allocated object is the value \<open>None\<close>),
  the big-endian wire encodings, and the notion of a routine that emits a fixed sequence of
  bytes at a cursor, which every \<^verbatim>\<open>uint8_t* f(uint8_t* p, ...)\<close> writer of the client follows.
\<close>

unbundle bit_operations_syntax

named_theorems mem_simps "bounded reads and writes of byte memory"
named_theorems wire_simps "lengths and decodings of wire encodings"
named_theorems emit_intros "writers that emit a fixed byte sequence"

type_synonym byte = "8 word"
type_synonym u16 = "16 word"
type_synonym u32 = "32 word"
type_synonym u64 = "64 word"
type_synonym 'a mem = "'a list"


subsection \<open>Bounded memory\<close>

definition mem_load :: "'a mem \<Rightarrow> nat \<Rightarrow> 'a option" where
  "mem_load m i = (if i < length m then Some (m ! i) else None)"

definition mem_read :: "'a mem \<Rightarrow> nat \<Rightarrow> nat \<Rightarrow> 'a list option" where
  "mem_read m i n = (if i + n \<le> length m then Some (take n (drop i m)) else None)"

definition mem_write :: "'a mem \<Rightarrow> nat \<Rightarrow> 'a list \<Rightarrow> 'a mem option" where
  "mem_write m i xs =
     (if i + length xs \<le> length m
      then Some (take i m @ xs @ drop (i + length xs) m) else None)"

lemma mem_load_append [mem_simps]: "mem_load (xs @ y # zs) (length xs) = Some y"
  by (simp add: mem_load_def)

lemma mem_load_in: "i < length m \<Longrightarrow> mem_load m i = Some (m ! i)"
  by (simp add: mem_load_def)

lemma mem_read_append [mem_simps]:
  "n = length ys \<Longrightarrow> mem_read (xs @ ys @ zs) (length xs) n = Some ys"
  by (simp add: mem_read_def)

lemma mem_read_length: "mem_read m i n = Some xs \<Longrightarrow> length xs = n"
  by (auto simp: mem_read_def split: if_splits)

lemma mem_write_append [mem_simps]:
  "length old = length new \<Longrightarrow>
   mem_write (xs @ old @ zs) (length xs) new = Some (xs @ new @ zs)"
  by (simp add: mem_write_def)

lemma mem_write_length: "mem_write m i xs = Some m' \<Longrightarrow> length m' = length m"
  by (auto simp: mem_write_def split: if_splits)

lemma mem_write_None: "mem_write m i xs = None \<longleftrightarrow> length m < i + length xs"
  by (auto simp: mem_write_def)

lemma mem_write_one: "i < length m \<Longrightarrow> mem_write m i [v] = Some (m[i := v])"
  by (simp add: mem_write_def upd_conv_take_nth_drop)

lemma mem_read_after_write:
  "mem_write m i xs = Some m' \<Longrightarrow> mem_read m' i (length xs) = Some xs"
  by (auto simp: mem_write_def mem_read_def split: if_splits)

lemma mem_write_nth:
  assumes "mem_write m i xs = Some m'" and "j < length m"
  shows "m' ! j = (if i \<le> j \<and> j < i + length xs then xs ! (j - i) else m ! j)"
  using assms
  by (auto simp: mem_write_def nth_append min_def split: if_splits)


subsection \<open>Big-endian encodings\<close>

definition be16 :: "u16 \<Rightarrow> byte list" where
  "be16 w = [ucast (drop_bit 8 w), ucast w]"

definition be32 :: "u32 \<Rightarrow> byte list" where
  "be32 w = [ucast (drop_bit 24 w), ucast (drop_bit 16 w), ucast (drop_bit 8 w), ucast w]"

definition be64 :: "u64 \<Rightarrow> byte list" where
  "be64 w = [ucast (drop_bit 56 w), ucast (drop_bit 48 w), ucast (drop_bit 40 w),
     ucast (drop_bit 32 w), ucast (drop_bit 24 w), ucast (drop_bit 16 w),
     ucast (drop_bit 8 w), ucast w]"

text \<open>Reading a big-endian integer of any width: shift left by eight and add the next byte.\<close>

definition be_word :: "byte list \<Rightarrow> 'a::len word" where
  "be_word bs = foldl (\<lambda>v b. push_bit 8 v OR ucast b) 0 bs"

lemma length_be16 [wire_simps, simp]: "length (be16 w) = 2"
  by (simp add: be16_def)

lemma length_be32 [wire_simps, simp]: "length (be32 w) = 4"
  by (simp add: be32_def)

lemma length_be64 [wire_simps, simp]: "length (be64 w) = 8"
  by (simp add: be64_def)

lemma be_word_step:
  "push_bit 8 (drop_bit (k + 8) w) OR ucast (ucast (drop_bit k w) :: byte) = drop_bit k (w :: 'a::len word)"
proof (rule bit_word_eqI)
  fix n assume n: "n < LENGTH('a)"
  show "bit (push_bit 8 (drop_bit (k + 8) w) OR ucast (ucast (drop_bit k w) :: byte)) n = bit (drop_bit k w) n"
    using n by (cases "n < 8") (simp_all add: bit_simps add.commute add.left_commute)
qed

lemma be_word_top:
  "LENGTH('a) = k + 8 \<Longrightarrow> ucast (ucast (drop_bit k w) :: byte) = drop_bit k (w :: 'a::len word)"
proof (rule bit_word_eqI)
  fix n assume n: "n < LENGTH('a)" "LENGTH('a) = k + 8"
  show "bit (ucast (ucast (drop_bit k w) :: byte) :: 'a word) n = bit (drop_bit k w) n"
    using n by (cases "n < 8") (auto simp: bit_simps dest: bit_imp_le_length)
qed

lemma be_word_be16 [wire_simps, simp]: "be_word (be16 w) = w"
  using be_word_step [of 0 w]
  by (simp add: be_word_def be16_def be_word_top)

lemma be_word_be32 [wire_simps, simp]: "be_word (be32 w) = w"
  using be_word_step [of 16 w] be_word_step [of 8 w] be_word_step [of 0 w]
  by (simp add: be_word_def be32_def be_word_top)

lemma be_word_be64 [wire_simps, simp]: "be_word (be64 w) = w"
  using be_word_step [of 48 w] be_word_step [of 40 w] be_word_step [of 32 w]
    be_word_step [of 24 w] be_word_step [of 16 w] be_word_step [of 8 w] be_word_step [of 0 w]
  by (simp add: be_word_def be64_def be_word_top)


lemma byte_eq_iff:
  "(x :: byte) = y \<longleftrightarrow>
   bit x 0 = bit y 0 \<and> bit x 1 = bit y 1 \<and> bit x 2 = bit y 2 \<and> bit x 3 = bit y 3 \<and>
   bit x 4 = bit y 4 \<and> bit x 5 = bit y 5 \<and> bit x 6 = bit y 6 \<and> bit x 7 = bit y 7"
proof (rule iffI)
  assume *: "bit x 0 = bit y 0 \<and> bit x 1 = bit y 1 \<and> bit x 2 = bit y 2 \<and> bit x 3 = bit y 3 \<and>
   bit x 4 = bit y 4 \<and> bit x 5 = bit y 5 \<and> bit x 6 = bit y 6 \<and> bit x 7 = bit y 7"
  show "x = y"
  proof (rule bit_word_eqI)
    fix n assume "n < LENGTH(8)"
    then have "n \<in> {0, 1, 2, 3, 4, 5, 6, 7}" by auto
    with * show "bit x n = bit y n" by auto
  qed
qed simp

lemma length_eq_2: "length xs = 2 \<Longrightarrow> \<exists>a b. xs = [a, b]"
  by (auto simp: numeral_2_eq_2 length_Suc_conv)

lemma length_eq_4: "length xs = 4 \<Longrightarrow> \<exists>a b c d. xs = [a, b, c, d]"
  by (auto simp: numeral_eq_Suc length_Suc_conv)

lemma length_eq_8: "length xs = 8 \<Longrightarrow> \<exists>a b c d e f g h. xs = [a, b, c, d, e, f, g, h]"
  by (auto simp: numeral_eq_Suc length_Suc_conv)

lemma byte_bit_high: "8 \<le> n \<Longrightarrow> \<not> bit (b :: byte) n"
  by (auto dest: bit_imp_le_length)

lemma be16_be_word: "length bs = 2 \<Longrightarrow> be16 (be_word bs) = bs"
  by (drule length_eq_2) (elim exE, simp add: be_word_def be16_def byte_eq_iff bit_simps byte_bit_high)

lemma be32_be_word: "length bs = 4 \<Longrightarrow> be32 (be_word bs) = bs"
  by (drule length_eq_4) (elim exE, simp add: be_word_def be32_def byte_eq_iff bit_simps byte_bit_high)

lemma be64_be_word: "length bs = 8 \<Longrightarrow> be64 (be_word bs) = bs"
  by (drule length_eq_8) (elim exE, simp add: be_word_def be64_def byte_eq_iff bit_simps byte_bit_high)


subsection \<open>Writers at a cursor\<close>

text \<open>
  A writer takes the buffer and the offset of its cursor and returns both updated, or
  \<open>None\<close> when it stores outside the buffer.  \<open>emits f bs\<close> says that, wherever the cursor
  stands, \<open>f\<close> overwrites exactly the next \<open>length bs\<close> bytes with \<open>bs\<close> and moves past them.
\<close>

type_synonym cursor = "byte mem \<times> nat"
type_synonym writer = "byte mem \<Rightarrow> nat \<Rightarrow> cursor option"

definition emits :: "writer \<Rightarrow> byte list \<Rightarrow> bool" where
  "emits f bs \<longleftrightarrow> (\<forall>pre old post. length old = length bs \<longrightarrow>
     f (pre @ old @ post) (length pre) = Some (pre @ bs @ post, length pre + length bs))"

definition seq :: "writer \<Rightarrow> writer \<Rightarrow> writer" where
  "seq f g m p = (case f m p of None \<Rightarrow> None | Some (m', p') \<Rightarrow> g m' p')"

definition put_bytes :: "byte list \<Rightarrow> writer" where
  "put_bytes bs m p = map_option (\<lambda>m'. (m', p + length bs)) (mem_write m p bs)"

lemma seq_bind: "seq f g m p = Option.bind (f m p) (\<lambda>(m, p). g m p)"
  by (simp add: seq_def split: option.split)

lemma emitsI:
  "(\<And>pre old post. length old = length bs \<Longrightarrow>
      f (pre @ old @ post) (length pre) = Some (pre @ bs @ post, length pre + length bs)) \<Longrightarrow>
   emits f bs"
  by (simp add: emits_def)

lemma emitsD:
  "emits f bs \<Longrightarrow> length old = length bs \<Longrightarrow>
   f (pre @ old @ post) (length pre) = Some (pre @ bs @ post, length pre + length bs)"
  by (simp add: emits_def)

lemma emits_put_bytes [emit_intros]: "emits (put_bytes bs) bs"
  by (rule emitsI) (simp add: put_bytes_def mem_simps)

lemma emits_seq [emit_intros]:
  assumes f: "emits f xs" and g: "emits g ys"
  shows "emits (seq f g) (xs @ ys)"
proof (rule emitsI)
  fix pre old post :: "byte list"
  assume "length old = length (xs @ ys)"
  then obtain o1 o2 where o: "old = o1 @ o2" "length o1 = length xs" "length o2 = length ys"
    using that [of "take (length xs) old" "drop (length xs) old"] by simp
  have "f (pre @ o1 @ (o2 @ post)) (length pre) = Some (pre @ xs @ (o2 @ post), length pre + length xs)"
    using f o(2) by (rule emitsD)
  moreover have "g ((pre @ xs) @ o2 @ post) (length (pre @ xs)) =
      Some ((pre @ xs) @ ys @ post, length (pre @ xs) + length ys)"
    using g o(3) by (rule emitsD)
  ultimately show "seq f g (pre @ old @ post) (length pre) =
      Some (pre @ (xs @ ys) @ post, length pre + length (xs @ ys))"
    by (simp add: seq_def o(1) add.assoc)
qed

text \<open>A writer run at the start of a buffer of exactly the emitted length fills it.\<close>

lemma emits_fill:
  assumes "emits f bs" and "length m = length bs"
  shows "f m 0 = Some (bs, length bs)"
  using emitsD [OF assms, of "[]" "[]"] by simp

text \<open>Run anywhere in a buffer with room for what it emits, it changes nothing else.\<close>

lemma emits_within:
  assumes f: "emits f bs" and room: "p + length bs \<le> length m"
  shows "f m p = Some (take p m @ bs @ drop (p + length bs) m, p + length bs)"
proof -
  have m: "m = take p m @ take (length bs) (drop p m) @ drop (p + length bs) m"
    by (metis add.commute append_take_drop_id drop_drop)
  have "f (take p m @ take (length bs) (drop p m) @ drop (p + length bs) m) (length (take p m)) =
      Some (take p m @ bs @ drop (p + length bs) m, length (take p m) + length bs)"
    using f by (rule emitsD) (use room in simp)
  with m show ?thesis
    using room by simp
qed


subsection \<open>Outcomes of code that may not return\<close>

text \<open>
  A run with bounded fuel ends with a result, at an undefined operation, or out of fuel.
\<close>

datatype 'r outcome = Done 'r | Fault | Timeout

fun outcome_bind :: "'r outcome \<Rightarrow> ('r \<Rightarrow> 's outcome) \<Rightarrow> 's outcome" where
  "outcome_bind (Done r) f = f r"
| "outcome_bind Fault f = Fault"
| "outcome_bind Timeout f = Timeout"

lemma outcome_bind_Done: "outcome_bind r f = Done x \<longleftrightarrow> (\<exists>y. r = Done y \<and> f y = Done x)"
  by (cases r) auto


subsection \<open>Walks with a callback\<close>

text \<open>A \<^verbatim>\<open>foreach\<close> over a sequence: the callback can stop the walk by answering false.\<close>

fun walk :: "('a \<Rightarrow> 's \<Rightarrow> bool \<times> 's) \<Rightarrow> 'a list \<Rightarrow> 's \<Rightarrow> bool \<times> 's" where
  "walk cb [] s = (True, s)"
| "walk cb (x # xs) s = (let (go, s) = cb x s in if go then walk cb xs s else (False, s))"


subsection \<open>Evaluation of lists with numerals\<close>

lemma replicate_numeral_simp: "replicate (numeral k) x = x # replicate (pred_numeral k) x"
  by (simp add: numeral_eq_Suc)

lemma list_update_numeral_simp: "(x # xs)[numeral k := y] = x # xs[pred_numeral k := y]"
  by (simp add: numeral_eq_Suc)

lemmas list_numeral_simps = replicate_numeral_simp list_update_numeral_simp


subsection \<open>Word arithmetic without wrap-around\<close>

lemma unat_inc: "unat (i + 1) = Suc (unat i)" if "i < w" for i w :: "'w::len word"
proof -
  have "Suc (unat i) < 2 ^ LENGTH('w)"
    using that unsigned_less [of w, where ?'a = nat] unfolding word_less_nat_alt by linarith
  then show ?thesis
    by (simp add: unat_word_ariths)
qed

lemma unat_add_small: "unat a + unat b < 2 ^ LENGTH('w) \<Longrightarrow> unat (a + b) = unat a + unat b"
  for a b :: "'w::len word"
  by (simp add: unat_word_ariths)

lemma unat_double: "unat a < 2 ^ 31 \<Longrightarrow> unat (a * 2) = 2 * unat a" for a :: u32
  by (simp add: unat_word_ariths)

lemma unat_dec: "0 < w \<Longrightarrow> unat (w - 1) = unat w - 1" for w :: "'w::len word"
  by (subst unat_sub) (simp_all add: word_le_nat_alt word_less_nat_alt)

lemma inc_measure: "i < w \<Longrightarrow> unat w - unat (i + 1) < unat w - unat i" for i w :: "'w::len word"
  by (simp add: unat_inc word_less_nat_alt diff_less_mono2)

end
