(* ===== verification/ByteOrder.thy ===== *)
theory ByteOrder
  imports Prelude
begin

text \<open>
  Byte order macros of \<^verbatim>\<open>modules/common/src/include/citrusleaf/cf_byte_order.h\<close>.  The port
  runs on big-endian hosts (the branch \<^verbatim>\<open>__PPC__ || __hpux\<close>, whose macros are all in the
  header) and on little-endian Linux hosts (where \<^verbatim>\<open>__cpu_to_be32\<close> and its kin of the system
  header exchange the bytes).  A host is its byte order; storing an integer in memory lays
  its bytes out in that order.  The lemmas show that an integer stored after
  \<^verbatim>\<open>cf_swap_to_be\<close> has the same bytes on every host.
\<close>

datatype host = Big_Endian | Little_Endian

definition my_swab16 :: "u16 \<Rightarrow> u16" where
  "my_swab16 x = push_bit 8 (x AND 0x00ff) OR drop_bit 8 (x AND 0xff00)"

definition my_swab32 :: "u32 \<Rightarrow> u32" where
  "my_swab32 x =
     push_bit 24 (x AND 0x000000ff) OR push_bit 8 (x AND 0x0000ff00) OR
     drop_bit 8 (x AND 0x00ff0000) OR drop_bit 24 (x AND 0xff000000)"

definition my_swab64 :: "u64 \<Rightarrow> u64" where
  "my_swab64 x =
     push_bit 56 (x AND 0x00000000000000ff) OR push_bit 40 (x AND 0x000000000000ff00) OR
     push_bit 24 (x AND 0x0000000000ff0000) OR push_bit 8 (x AND 0x00000000ff000000) OR
     drop_bit 8 (x AND 0x000000ff00000000) OR drop_bit 24 (x AND 0x0000ff0000000000) OR
     drop_bit 40 (x AND 0x00ff000000000000) OR drop_bit 56 (x AND 0xff00000000000000)"

fun cf_swap_to_be16 :: "host \<Rightarrow> u16 \<Rightarrow> u16" where
  "cf_swap_to_be16 Big_Endian x = x"
| "cf_swap_to_be16 Little_Endian x = my_swab16 x"

fun cf_swap_to_be32 :: "host \<Rightarrow> u32 \<Rightarrow> u32" where
  "cf_swap_to_be32 Big_Endian x = x"
| "cf_swap_to_be32 Little_Endian x = my_swab32 x"

fun cf_swap_to_be64 :: "host \<Rightarrow> u64 \<Rightarrow> u64" where
  "cf_swap_to_be64 Big_Endian x = x"
| "cf_swap_to_be64 Little_Endian x = my_swab64 x"

fun cf_swap_from_be16 :: "host \<Rightarrow> u16 \<Rightarrow> u16" where
  "cf_swap_from_be16 Big_Endian x = x"
| "cf_swap_from_be16 Little_Endian x = my_swab16 x"

fun cf_swap_from_be32 :: "host \<Rightarrow> u32 \<Rightarrow> u32" where
  "cf_swap_from_be32 Big_Endian x = x"
| "cf_swap_from_be32 Little_Endian x = my_swab32 x"

fun cf_swap_from_be64 :: "host \<Rightarrow> u64 \<Rightarrow> u64" where
  "cf_swap_from_be64 Big_Endian x = x"
| "cf_swap_from_be64 Little_Endian x = my_swab64 x"

fun cf_swap_to_le16 :: "host \<Rightarrow> u16 \<Rightarrow> u16" where
  "cf_swap_to_le16 Big_Endian x = my_swab16 x"
| "cf_swap_to_le16 Little_Endian x = x"

fun cf_swap_to_le32 :: "host \<Rightarrow> u32 \<Rightarrow> u32" where
  "cf_swap_to_le32 Big_Endian x = my_swab32 x"
| "cf_swap_to_le32 Little_Endian x = x"

fun cf_swap_to_le64 :: "host \<Rightarrow> u64 \<Rightarrow> u64" where
  "cf_swap_to_le64 Big_Endian x = my_swab64 x"
| "cf_swap_to_le64 Little_Endian x = x"

text \<open>How a host lays an integer out in memory.\<close>

fun store16 :: "host \<Rightarrow> u16 \<Rightarrow> byte list" where
  "store16 Big_Endian x = be16 x"
| "store16 Little_Endian x = rev (be16 x)"

fun store32 :: "host \<Rightarrow> u32 \<Rightarrow> byte list" where
  "store32 Big_Endian x = be32 x"
| "store32 Little_Endian x = rev (be32 x)"

fun store64 :: "host \<Rightarrow> u64 \<Rightarrow> byte list" where
  "store64 Big_Endian x = be64 x"
| "store64 Little_Endian x = rev (be64 x)"

fun load16 :: "host \<Rightarrow> byte list \<Rightarrow> u16" where
  "load16 Big_Endian bs = be_word bs"
| "load16 Little_Endian bs = be_word (rev bs)"

fun load32 :: "host \<Rightarrow> byte list \<Rightarrow> u32" where
  "load32 Big_Endian bs = be_word bs"
| "load32 Little_Endian bs = be_word (rev bs)"

fun load64 :: "host \<Rightarrow> byte list \<Rightarrow> u64" where
  "load64 Big_Endian bs = be_word bs"
| "load64 Little_Endian bs = be_word (rev bs)"

lemma be16_my_swab16: "be16 (my_swab16 w) = rev (be16 w)"
  by (simp add: my_swab16_def be16_def byte_eq_iff bit_simps)

lemma be32_my_swab32: "be32 (my_swab32 w) = rev (be32 w)"
  by (simp add: my_swab32_def be32_def byte_eq_iff bit_simps)

lemma be64_my_swab64: "be64 (my_swab64 w) = rev (be64 w)"
  by (simp add: my_swab64_def be64_def byte_eq_iff bit_simps)

lemma my_swab16_be_word: "length bs = 2 \<Longrightarrow> my_swab16 (be_word bs) = be_word (rev bs)"
  by (metis be16_be_word be16_my_swab16 be_word_be16)

lemma my_swab32_be_word: "length bs = 4 \<Longrightarrow> my_swab32 (be_word bs) = be_word (rev bs)"
  by (metis be32_be_word be32_my_swab32 be_word_be32)

lemma my_swab64_be_word: "length bs = 8 \<Longrightarrow> my_swab64 (be_word bs) = be_word (rev bs)"
  by (metis be64_be_word be64_my_swab64 be_word_be64)

lemmas swab_simps = be16_my_swab16 be32_my_swab32 be64_my_swab64
  my_swab16_be_word my_swab32_be_word my_swab64_be_word

text \<open>
  On every host, an integer stored after \<^verbatim>\<open>cf_swap_to_be\<close> has its most significant byte
  first, whatever the order of the host, and storing after \<^verbatim>\<open>cf_swap_to_le\<close> its least
  significant byte first: what the client sends does not depend on the machine.
\<close>

theorem stored_order_host_independent:
  "store16 h (cf_swap_to_be16 h x) = be16 x \<and> store16 h (cf_swap_to_le16 h x) = rev (be16 x) \<and>
   store32 h (cf_swap_to_be32 h y) = be32 y \<and> store32 h (cf_swap_to_le32 h y) = rev (be32 y) \<and>
   store64 h (cf_swap_to_be64 h z) = be64 z \<and> store64 h (cf_swap_to_le64 h z) = rev (be64 z)"
  by (cases h) (simp_all add: swab_simps)

text \<open>The same facts one by one, for the writers of the wire formats.\<close>

lemma store_to_be [wire_simps, simp]:
  "store16 h (cf_swap_to_be16 h x) = be16 x" "store32 h (cf_swap_to_be32 h y) = be32 y"
  "store64 h (cf_swap_to_be64 h z) = be64 z"
  by (cases h; simp add: swab_simps)+

lemma load_from_be16: "length bs = 2 \<Longrightarrow> cf_swap_from_be16 h (load16 h bs) = be_word bs"
  by (cases h) (simp_all add: swab_simps)

lemma load_from_be32: "length bs = 4 \<Longrightarrow> cf_swap_from_be32 h (load32 h bs) = be_word bs"
  by (cases h) (simp_all add: swab_simps)

lemma load_from_be64: "length bs = 8 \<Longrightarrow> cf_swap_from_be64 h (load64 h bs) = be_word bs"
  by (cases h) (simp_all add: swab_simps)

end
