(* ===== verification/Base64.thy ===== *)
theory Base64
  imports Prelude
begin

text \<open>
  The base-64 codec of \<^verbatim>\<open>modules/common/src/main/citrusleaf/cf_b64.c\<close> and
  \<^verbatim>\<open>cf_b64.h\<close>, which carries partition ownership bitmaps and UDF contents.  A C buffer is the
  list of its bytes; the input length of a routine is the length of its input list, except in
  the in-place decoder, where input and output share one buffer and the loop is kept as the
  index loop of the source.  Reading or writing outside a buffer is \<open>None\<close>.
\<close>

subsection \<open>Tables\<close>

definition base64_chars :: "byte list" where
  "base64_chars =
     map of_char ''ABCDEFGHIJKLMNOPQRSTUVWXYZabcdefghijklmnopqrstuvwxyz0123456789+/''"

definition base64_valid_a :: "bool list" where
  "base64_valid_a =
       replicate 16 False
     @ replicate 16 False
     @ replicate 11 False @ [True] @ replicate 3 False @ [True]
     @ replicate 10 True @ replicate 6 False
     @ [False] @ replicate 15 True
     @ replicate 11 True @ replicate 5 False
     @ [False] @ replicate 15 True
     @ replicate 11 True @ replicate 5 False
     @ replicate 0x80 False"

definition base64_decode_a :: "byte list" where
  "base64_decode_a =
       [0, 0, 0, 0, 0, 0, 0, 0, 0, 0, 0, 0, 0, 0, 0, 0]
     @ [0, 0, 0, 0, 0, 0, 0, 0, 0, 0, 0, 0, 0, 0, 0, 0]
     @ [0, 0, 0, 0, 0, 0, 0, 0, 0, 0, 0, 62, 0, 0, 0, 63]
     @ [52, 53, 54, 55, 56, 57, 58, 59, 60, 61, 0, 0, 0, 0, 0, 0]
     @ [0, 0, 1, 2, 3, 4, 5, 6, 7, 8, 9, 10, 11, 12, 13, 14]
     @ [15, 16, 17, 18, 19, 20, 21, 22, 23, 24, 25, 0, 0, 0, 0, 0]
     @ [0, 26, 27, 28, 29, 30, 31, 32, 33, 34, 35, 36, 37, 38, 39, 40]
     @ [41, 42, 43, 44, 45, 46, 47, 48, 49, 50, 51, 0, 0, 0, 0, 0]
     @ replicate 0x80 0"

definition EA :: "byte \<Rightarrow> byte" where
  "EA b = base64_chars ! unat b"

definition VA :: "byte \<Rightarrow> bool" where
  "VA b = base64_valid_a ! unat b"

definition DA :: "byte \<Rightarrow> byte" where
  "DA b = base64_decode_a ! unat b"

definition pad :: byte where
  "pad = of_char CHR ''=''"


subsection \<open>Sizes\<close>

definition cf_b64_encoded_len :: "u32 \<Rightarrow> u32" where
  "cf_b64_encoded_len in_size = push_bit 2 ((in_size + 2) div 3)"

definition cf_b64_decoded_buf_size :: "u32 \<Rightarrow> u32" where
  "cf_b64_decoded_buf_size in_len = drop_bit 2 (in_len * 3)"


subsection \<open>Encoding\<close>

text \<open>The characters of a full group of three bytes, then of a last group of one or two.\<close>

definition b64_char0 :: "byte \<Rightarrow> byte" where
  "b64_char0 i0 = EA (drop_bit 2 (i0 AND 0xfc))"

definition b64_char1 :: "byte \<Rightarrow> byte \<Rightarrow> byte" where
  "b64_char1 i0 i1 = EA (push_bit 4 (i0 AND 0x03) + drop_bit 4 (i1 AND 0xf0))"

definition b64_char2 :: "byte \<Rightarrow> byte \<Rightarrow> byte" where
  "b64_char2 i1 i2 = EA (push_bit 2 (i1 AND 0x0f) + drop_bit 6 (i2 AND 0xc0))"

definition b64_char3 :: "byte \<Rightarrow> byte" where
  "b64_char3 i2 = EA (i2 AND 0x3f)"

definition b64_last1 :: "byte \<Rightarrow> byte" where
  "b64_last1 i0 = EA (push_bit 4 (i0 AND 0x03))"

definition b64_last2 :: "byte \<Rightarrow> byte" where
  "b64_last2 i1 = EA (push_bit 2 (i1 AND 0x0f))"

fun cf_b64_encode :: "byte list \<Rightarrow> byte list" where
  "cf_b64_encode (i0 # i1 # i2 # rest) =
     b64_char0 i0 # b64_char1 i0 i1 # b64_char2 i1 i2 # b64_char3 i2 # cf_b64_encode rest"
| "cf_b64_encode [i0] = [b64_char0 i0, b64_last1 i0, pad, pad]"
| "cf_b64_encode [i0, i1] = [b64_char0 i0, b64_char1 i0 i1, b64_last2 i1, pad]"
| "cf_b64_encode [] = []"


subsection \<open>Decoding\<close>

definition b64_byte0 :: "byte \<Rightarrow> byte \<Rightarrow> byte" where
  "b64_byte0 i0 i1 = push_bit 2 (DA i0) OR drop_bit 4 (DA i1)"

definition b64_byte1 :: "byte \<Rightarrow> byte \<Rightarrow> byte" where
  "b64_byte1 i1 i2 = push_bit 4 (DA i1) OR drop_bit 2 (DA i2)"

definition b64_byte2 :: "byte \<Rightarrow> byte \<Rightarrow> byte" where
  "b64_byte2 i2 i3 = push_bit 6 (DA i2) OR DA i3"

text \<open>The loop of \<^verbatim>\<open>cf_b64_decode\<close>: an incomplete last quadruple reads past the input.\<close>

fun b64_decode_loop :: "byte list \<Rightarrow> byte list option" where
  "b64_decode_loop [] = Some []"
| "b64_decode_loop (i0 # i1 # i2 # i3 # rest) =
     map_option (\<lambda>out. b64_byte0 i0 i1 # b64_byte1 i1 i2 # b64_byte2 i2 i3 # out)
       (b64_decode_loop rest)"
| "b64_decode_loop _ = None"

text \<open>The amount by which trailing padding reduces the decoded size.\<close>

definition pad_count :: "byte list \<Rightarrow> nat" where
  "pad_count inp =
     (if inp = [] then 0
      else (if inp ! (length inp - 1) = pad then 1 else 0) +
           (if inp ! (length inp - 2) = pad then 1 else 0))"

definition cf_b64_decode :: "byte list \<Rightarrow> (byte list \<times> nat) option" where
  "cf_b64_decode inp =
     (case b64_decode_loop inp of None \<Rightarrow> None
      | Some out \<Rightarrow> Some (out, length out - pad_count inp))"

function b64_in_place_loop :: "byte mem \<Rightarrow> nat \<Rightarrow> nat \<Rightarrow> nat \<Rightarrow> (byte mem \<times> nat) option" where
  "b64_in_place_loop buf in_len i j =
     (if i < in_len then
        (case mem_read buf i 4 of
           None \<Rightarrow> None
         | Some q \<Rightarrow>
             (case mem_write buf j [b64_byte0 (q ! 0) (q ! 1), b64_byte1 (q ! 1) (q ! 2),
                                    b64_byte2 (q ! 2) (q ! 3)] of
                None \<Rightarrow> None
              | Some buf' \<Rightarrow> b64_in_place_loop buf' in_len (i + 4) (j + 3)))
      else Some (buf, j))"
  by pat_completeness auto
termination
  by (relation "measure (\<lambda>(buf, in_len, i, j). in_len - i)") auto

declare b64_in_place_loop.simps [simp del]

definition cf_b64_decode_in_place :: "byte mem \<Rightarrow> nat \<Rightarrow> (byte mem \<times> nat) option" where
  "cf_b64_decode_in_place in_out in_len =
     (if in_len = 0 then Some (in_out, 0)
      else if in_len < 2 \<or> length in_out < in_len then None
      else (case b64_in_place_loop in_out in_len 0 0 of None \<Rightarrow> None
            | Some (buf, j) \<Rightarrow> Some (buf, j - pad_count (take in_len in_out))))"


subsection \<open>Validation\<close>

definition is_valid_encoded :: "byte list \<Rightarrow> bool" where
  "is_valid_encoded inp =
     (if inp = [] \<or> length inp mod 4 \<noteq> 0 then False
      else if \<not> list_all VA (take (length inp - 2) inp) then False
      else let r = inp ! (length inp - 2); r1 = inp ! (length inp - 1) in
        if r = pad then r1 = pad
        else if \<not> VA r then False
        else r1 = pad \<or> VA r1)"

definition cf_b64_validate_and_decode :: "byte list \<Rightarrow> (byte list \<times> nat) option option" where
  "cf_b64_validate_and_decode inp =
     (if \<not> is_valid_encoded inp then Some None else map_option Some (cf_b64_decode inp))"

definition cf_b64_validate_and_decode_in_place ::
  "byte mem \<Rightarrow> nat \<Rightarrow> (byte mem \<times> nat) option option" where
  "cf_b64_validate_and_decode_in_place in_out in_len =
     (if in_len mod 4 \<noteq> 0 then Some None
      else if length in_out < in_len then None
      else if \<not> is_valid_encoded (take in_len in_out) then Some None
      else map_option Some (cf_b64_decode_in_place in_out in_len))"


subsection \<open>Sextets\<close>

lemma pad_eq: "pad = 61"
  by (simp add: pad_def)

lemma DA_chars: "list_all (\<lambda>v. DA (base64_chars ! v) = of_nat v) [0..<64]"
  by (simp add: DA_def base64_chars_def base64_decode_a_def upt_rec)

lemma VA_chars: "list_all (\<lambda>v. VA (base64_chars ! v) \<and> base64_chars ! v \<noteq> pad) [0..<64]"
  by (simp add: VA_def base64_chars_def base64_valid_a_def nth_append pad_eq upt_rec)

lemma unat_sextet: "\<not> bit x 6 \<Longrightarrow> \<not> bit x 7 \<Longrightarrow> unat (x :: byte) < 64"
proof -
  assume "\<not> bit x 6" "\<not> bit x 7"
  then have "take_bit 6 x = x"
    by (simp add: byte_eq_iff bit_simps)
  then have "unat x = take_bit 6 (unat x)"
    by (metis unsigned_take_bit_eq)
  then show ?thesis
    using take_bit_nat_less_exp [of 6 "unat x"] by simp
qed

lemma EA_sextet:
  assumes "\<not> bit x 6" and "\<not> bit x 7"
  shows "DA (EA x) = x" and "VA (EA x)" and "EA x \<noteq> pad"
proof -
  have "unat x \<in> set [0..<64]"
    using unat_sextet [OF assms] by simp
  with DA_chars VA_chars show "DA (EA x) = x" "VA (EA x)" "EA x \<noteq> pad"
    unfolding list_all_iff EA_def by fastforce+
qed

lemma sextet_bits:
  "\<not> bit (drop_bit 2 (i0 AND 0xfc) :: byte) 6" "\<not> bit (drop_bit 2 (i0 AND 0xfc) :: byte) 7"
  "\<not> bit (i2 AND 0x3f :: byte) 6" "\<not> bit (i2 AND 0x3f :: byte) 7"
  "\<not> bit (push_bit 4 (i0 AND 0x03) :: byte) 6" "\<not> bit (push_bit 4 (i0 AND 0x03) :: byte) 7"
  "\<not> bit (push_bit 2 (i1 AND 0x0f) :: byte) 6" "\<not> bit (push_bit 2 (i1 AND 0x0f) :: byte) 7"
  by (simp_all add: bit_simps byte_bit_high)

lemma sextet_or:
  "push_bit 4 (i0 AND 0x03) + drop_bit 4 (i1 AND 0xf0) =
   push_bit 4 (i0 AND 0x03) OR drop_bit 4 (i1 AND 0xf0 :: byte)"
  "push_bit 2 (i1 AND 0x0f) + drop_bit 6 (i2 AND 0xc0) =
   push_bit 2 (i1 AND 0x0f) OR drop_bit 6 (i2 AND 0xc0 :: byte)"
proof -
  have "push_bit 4 (i0 AND 0x03) AND drop_bit 4 (i1 AND 0xf0 :: byte) = 0"
    "push_bit 2 (i1 AND 0x0f) AND drop_bit 6 (i2 AND 0xc0 :: byte) = 0"
    by (simp_all add: byte_eq_iff bit_simps)
  then show "push_bit 4 (i0 AND 0x03) + drop_bit 4 (i1 AND 0xf0) =
      push_bit 4 (i0 AND 0x03) OR drop_bit 4 (i1 AND 0xf0 :: byte)"
    "push_bit 2 (i1 AND 0x0f) + drop_bit 6 (i2 AND 0xc0) =
      push_bit 2 (i1 AND 0x0f) OR drop_bit 6 (i2 AND 0xc0 :: byte)"
    by (metis add_0 word_plus_and_or)+
qed

lemma DA_pad: "DA pad = 0"
  by (simp add: DA_def base64_decode_a_def pad_eq)

lemma sextet_or_bits:
  "\<not> bit (push_bit 4 (i0 AND 0x03) OR drop_bit 4 (i1 AND 0xf0) :: byte) 6"
  "\<not> bit (push_bit 4 (i0 AND 0x03) OR drop_bit 4 (i1 AND 0xf0) :: byte) 7"
  "\<not> bit (push_bit 2 (i1 AND 0x0f) OR drop_bit 6 (i2 AND 0xc0) :: byte) 6"
  "\<not> bit (push_bit 2 (i1 AND 0x0f) OR drop_bit 6 (i2 AND 0xc0) :: byte) 7"
  by (simp_all add: bit_simps byte_bit_high)

lemmas EA_simps = EA_sextet [OF sextet_bits(1,2)] EA_sextet [OF sextet_bits(3,4)]
  EA_sextet [OF sextet_bits(5,6)] EA_sextet [OF sextet_bits(7,8)]
  EA_sextet [OF sextet_or_bits(1,2)] EA_sextet [OF sextet_or_bits(3,4)]

lemmas b64_char_defs = b64_char0_def b64_char1_def b64_char2_def b64_char3_def
  b64_last1_def b64_last2_def sextet_or

lemma b64_chars_ok [simp]:
  "VA (b64_char0 i0)" "VA (b64_char1 i0 i1)" "VA (b64_char2 i1 i2)" "VA (b64_char3 i2)"
  "VA (b64_last1 i0)" "VA (b64_last2 i1)"
  "b64_char0 i0 \<noteq> pad" "b64_char1 i0 i1 \<noteq> pad" "b64_char2 i1 i2 \<noteq> pad" "b64_char3 i2 \<noteq> pad"
  "b64_last1 i0 \<noteq> pad" "b64_last2 i1 \<noteq> pad"
  unfolding b64_char_defs by (rule EA_simps)+

lemma b64_bytes_of_chars [simp]:
  "b64_byte0 (b64_char0 i0) (b64_char1 i0 i1) = i0"
  "b64_byte1 (b64_char1 i0 i1) (b64_char2 i1 i2) = i1"
  "b64_byte2 (b64_char2 i1 i2) (b64_char3 i2) = i2"
  "b64_byte0 (b64_char0 i0) (b64_last1 i0) = i0"
  "b64_byte1 (b64_char1 i0 i1) (b64_last2 i1) = i1"
  unfolding b64_byte0_def b64_byte1_def b64_byte2_def b64_char_defs EA_simps
  by (simp_all add: byte_eq_iff bit_simps byte_bit_high)


subsection \<open>Round trips\<close>

lemma groups_of_three: "(5 + n) div 3 = Suc (Suc (Suc n) div 3)"
  by presburger

lemma length_cf_b64_encode: "length (cf_b64_encode xs) = 4 * ((length xs + 2) div 3)"
  by (induction xs rule: cf_b64_encode.induct) (simp_all add: groups_of_three)

lemma b64_decode_loop_encode:
  "\<exists>out. b64_decode_loop (cf_b64_encode xs) = Some out \<and> take (length xs) out = xs \<and>
     length out = 3 * ((length xs + 2) div 3)"
  by (induction xs rule: cf_b64_encode.induct) (auto simp: groups_of_three)

text \<open>Padding marks exactly the bytes the last group lacks.\<close>

lemma cf_b64_encode_eq_Nil [simp]: "cf_b64_encode xs = [] \<longleftrightarrow> xs = []"
  by (cases xs rule: cf_b64_encode.cases) simp_all

lemma ends_Cons4:
  assumes "rest \<noteq> []" and "length rest mod 4 = 0"
  shows "(a # b # c # d # rest) ! (length (a # b # c # d # rest) - 1) = rest ! (length rest - 1)"
    and "(a # b # c # d # rest) ! (length (a # b # c # d # rest) - 2) = rest ! (length rest - 2)"
    and "take (length (a # b # c # d # rest) - 2) (a # b # c # d # rest) =
      a # b # c # d # take (length rest - 2) rest"
    and "2 \<le> length rest"
proof -
  from assms obtain k where k: "length rest = Suc (Suc k)"
    by (cases rest; cases "tl rest") auto
  show "(a # b # c # d # rest) ! (length (a # b # c # d # rest) - 1) = rest ! (length rest - 1)"
    "(a # b # c # d # rest) ! (length (a # b # c # d # rest) - 2) = rest ! (length rest - 2)"
    "take (length (a # b # c # d # rest) - 2) (a # b # c # d # rest) =
      a # b # c # d # take (length rest - 2) rest"
    "2 \<le> length rest"
    unfolding k by (simp_all add: k)
qed

lemma encode_mod4: "length (cf_b64_encode xs) mod 4 = 0"
  by (simp add: length_cf_b64_encode)

lemma pad_count_Cons4:
  assumes "rest \<noteq> []" and "length rest mod 4 = 0"
  shows "pad_count (a # b # c # d # rest) = pad_count rest"
  unfolding pad_count_def ends_Cons4 [OF assms] by (simp add: assms)

lemma pad_count_encode: "pad_count (cf_b64_encode xs) = 3 * ((length xs + 2) div 3) - length xs"
proof (induction xs rule: cf_b64_encode.induct)
  case (1 i0 i1 i2 rest)
  show ?case
  proof (cases "rest = []")
    case False
    with 1 show ?thesis
      by (simp add: pad_count_Cons4 encode_mod4 groups_of_three)
  qed (simp add: pad_count_def)
qed (simp_all add: pad_count_def)

lemma cf_b64_decode_encode:
  "\<exists>out. cf_b64_decode (cf_b64_encode xs) = Some (out, length xs) \<and> take (length xs) out = xs \<and>
     length out = 3 * ((length xs + 2) div 3)"
  using b64_decode_loop_encode [of xs]
  by (auto simp: cf_b64_decode_def pad_count_encode)

lemma is_valid_Cons4:
  assumes "rest \<noteq> []" and "length rest mod 4 = 0"
  shows "is_valid_encoded (a # b # c # d # rest) \<longleftrightarrow>
    VA a \<and> VA b \<and> VA c \<and> VA d \<and> is_valid_encoded rest"
  unfolding is_valid_encoded_def ends_Cons4 [OF assms] using assms by (auto simp: ends_Cons4(4))

lemma encode_valid: "xs \<noteq> [] \<Longrightarrow> is_valid_encoded (cf_b64_encode xs)"
proof (induction xs rule: cf_b64_encode.induct)
  case (1 i0 i1 i2 rest)
  show ?case
  proof (cases "rest = []")
    case False
    with 1 show ?thesis
      by (simp add: is_valid_Cons4 encode_mod4)
  qed (simp add: is_valid_encoded_def)
qed (simp_all add: is_valid_encoded_def)


subsection \<open>Decoding in place\<close>

text \<open>
  Three bytes are stored for every four consumed, so the store index never passes the load index:
  what the loop overwrites has been read before.
\<close>

lemma b64_in_place_loop_step:
  "b64_in_place_loop (done @ junk @ [a, b, c, d] @ rest) (length done + length junk + 4 + n)
     (length done + length junk) (length done) =
   b64_in_place_loop ((done @ [b64_byte0 a b, b64_byte1 b c, b64_byte2 c d]) @
       drop 3 (junk @ [a, b, c, d]) @ rest)
     (length done + length junk + 4 + n) (length done + length junk + 4) (length done + 3)"
proof -
  have "mem_read ((done @ junk) @ [a, b, c, d] @ rest) (length (done @ junk)) 4 = Some [a, b, c, d]"
    by (rule mem_read_append) simp
  then have rd: "mem_read (done @ junk @ [a, b, c, d] @ rest) (length done + length junk) 4 =
      Some [a, b, c, d]"
    by simp
  have "mem_write (done @ take 3 (junk @ [a, b, c, d]) @ drop 3 (junk @ [a, b, c, d]) @ rest)
      (length done) [x, y, z] = Some (done @ [x, y, z] @ drop 3 (junk @ [a, b, c, d]) @ rest)" for x y z
    by (rule mem_write_append) simp
  then have wr: "mem_write (done @ junk @ [a, b, c, d] @ rest) (length done) [x, y, z] =
      Some (done @ [x, y, z] @ drop 3 (junk @ [a, b, c, d]) @ rest)" for x y z
    by (metis append.assoc append_take_drop_id)
  show ?thesis
    by (subst b64_in_place_loop.simps) (simp only: rd wr, simp)
qed

lemma b64_in_place_loop_eq:
  assumes "b64_decode_loop inp = Some out"
  shows "b64_in_place_loop (done @ junk @ inp @ rest) (length done + length junk + length inp)
           (length done + length junk) (length done) =
         Some (done @ out @ drop (length out) (junk @ inp) @ rest, length done + length out)"
  using assms
proof (induction inp arbitrary: "done" junk out rule: b64_decode_loop.induct)
  case 1
  then show ?case
    by (simp add: b64_in_place_loop.simps)
next
  case (2 a b c d inp)
  from 2(2) obtain out' where out': "b64_decode_loop inp = Some out'"
    and out: "out = [b64_byte0 a b, b64_byte1 b c, b64_byte2 c d] @ out'"
    by auto
  define new where "new = [b64_byte0 a b, b64_byte1 b c, b64_byte2 c d]"
  define junk' where "junk' = drop 3 (junk @ [a, b, c, d])"
  have len: "length junk' = length junk + 1" "length new = 3"
    by (simp_all add: junk'_def new_def)
  have "drop (length out) (junk @ a # b # c # d # inp) =
      drop (length out') (drop 3 ((junk @ [a, b, c, d]) @ inp))"
    unfolding drop_drop by (simp add: out eval_nat_numeral)
  also have "drop 3 ((junk @ [a, b, c, d]) @ inp) = junk' @ inp"
    unfolding junk'_def by (subst drop_append) simp
  finally have dr: "drop (length out) (junk @ a # b # c # d # inp) = drop (length out') (junk' @ inp)" .
  have "b64_in_place_loop (done @ junk @ a # b # c # d # inp @ rest)
      (length done + length junk + 4 + length inp) (length done + length junk) (length done) =
    b64_in_place_loop ((done @ new) @ junk' @ inp @ rest)
      (length done + length junk + 4 + length inp) (length done + length junk + 4) (length done + 3)"
    using b64_in_place_loop_step [of "done" junk a b c d "inp @ rest" "length inp"]
    unfolding new_def junk'_def by simp
  also have "\<dots> = Some ((done @ new) @ out' @ drop (length out') (junk' @ inp) @ rest,
      length (done @ new) + length out')"
    using 2(1) [OF out', of "done @ new" junk'] by (simp add: len add.commute add.left_commute)
  finally show ?case
    unfolding dr [symmetric] by (simp add: out new_def numeral_eq_Suc)
qed simp_all

lemma b64_decode_loop_total:
  "length inp mod 4 = 0 \<Longrightarrow>
   \<exists>out. b64_decode_loop inp = Some out \<and> 4 * length out = 3 * length inp"
proof (induction inp rule: b64_decode_loop.induct)
  case (2 a b c d inp)
  then have "length inp mod 4 = 0"
    by simp
  with 2(1) show ?case
    by auto
qed simp_all

lemma in_place_bytes:
  assumes "length inp mod 4 = 0"
  obtains out where "b64_decode_loop inp = Some out" "4 * length out = 3 * length inp"
    "cf_b64_decode_in_place (inp @ rest) (length inp) =
       Some (out @ drop (length out) inp @ rest, length out - pad_count inp)"
proof -
  obtain out where out: "b64_decode_loop inp = Some out" "4 * length out = 3 * length inp"
    using b64_decode_loop_total [OF assms] by blast
  show ?thesis
  proof (cases "inp = []")
    case True
    then show ?thesis
      using out by (intro that [of out]) (simp_all add: cf_b64_decode_in_place_def)
  next
    case False
    with assms have "\<not> length inp < 2"
      by (cases inp; cases "tl inp") auto
    then show ?thesis
      using out False b64_in_place_loop_eq [OF out(1), of "[]" "[]" rest]
      by (intro that [of out]) (simp_all add: cf_b64_decode_in_place_def)
  qed
qed


subsection \<open>The codec's contract\<close>

lemma unat_encoded_len:
  assumes "n < 2 ^ 31"
  shows "unat (cf_b64_encoded_len (of_nat n)) = 4 * ((n + 2) div 3)"
proof -
  have "unat (of_nat n + 2 :: u32) = n + 2"
    using assms by (simp add: unat_word_ariths unat_of_nat)
  then have "unat ((of_nat n + 2 :: u32) div 3) = (n + 2) div 3"
    by (simp add: unat_div)
  moreover have "(n + 2) div 3 * 4 < 2 ^ 32"
    using assms by simp
  ultimately show ?thesis
    by (simp add: cf_b64_encoded_len_def push_bit_eq_mult unat_word_ariths)
qed



text \<open>
  Decoding in place agrees with decoding into a second buffer: for an input whose length is a
  multiple of four, both run without leaving their buffers and report the same size,
  the decoded bytes of \<^verbatim>\<open>cf_b64_decode\<close> stand at the start of the shared buffer, and the bytes
  after the input are untouched.
\<close>

theorem decode_in_place_eq:
  assumes "length inp mod 4 = 0"
  shows "\<exists>out n buf. cf_b64_decode inp = Some (out, n) \<and> 4 * length out = 3 * length inp \<and>
    cf_b64_decode_in_place (inp @ rest) (length inp) = Some (buf, n) \<and>
    take (length out) buf = out \<and> drop (length inp) buf = rest \<and> n \<le> length out"
proof -
  obtain out where out: "b64_decode_loop inp = Some out" "4 * length out = 3 * length inp"
    "cf_b64_decode_in_place (inp @ rest) (length inp) =
       Some (out @ drop (length out) inp @ rest, length out - pad_count inp)"
    using in_place_bytes [OF assms] by metis
  then show ?thesis
    by (auto simp: cf_b64_decode_def)
qed

theorem decode_in_place_eq_witness:
  "\<exists>out n buf. cf_b64_decode [65, 81, 61, 61] = Some (out, n) \<and> 4 * length out = 3 * 4 \<and>
    cf_b64_decode_in_place [65, 81, 61, 61, 7] 4 = Some (buf, n) \<and>
    take (length out) buf = out \<and> drop 4 buf = [7] \<and> n \<le> length out"
  using decode_in_place_eq [of "[65, 81, 61, 61]" "[7]"] by (simp add: eval_nat_numeral)

end
