(* ===== verification/CfQueue.thy ===== *)
theory CfQueue
  imports Prelude
begin

text \<open>
  The growing ring buffer of \<^verbatim>\<open>modules/common/src/main/citrusleaf/cf_queue.c\<close> and the
  priority queue of \<^verbatim>\<open>cf_queue_priority.c\<close> built from three of them.  The offsets are 32-bit
  words that only grow until \<^verbatim>\<open>cf_queue_unwrap\<close> brings them back; a slot is the offset modulo
  \<^verbatim>\<open>allocsz\<close>.  An element, \<^verbatim>\<open>elementsz\<close> bytes in the code, is a value of a type
  variable: the code only copies whole elements and compares them for equality.  A slot that was
  never written is \<^const>\<open>None\<close>, and so is the result of an operation that would use a null
  buffer, leave it, or hand out an unwritten slot.  Allocation results are arguments.  Mutexes
  are taken to succeed, and each operation is one atomic step, as under its lock.
\<close>

subsection \<open>State\<close>

record 'a cf_queue =
  threadsafe :: bool
  allocsz :: u32
  write_offset :: u32
  read_offset :: u32
  queue :: "'a option mem option"

definition CF_QUEUE_ALLOCSZ :: u32 where
  "CF_QUEUE_ALLOCSZ = 64"

definition CF_QUEUE_OK :: int where
  "CF_QUEUE_OK = 0"

definition CF_QUEUE_ERR :: int where
  "CF_QUEUE_ERR = - 1"

definition CF_QUEUE_EMPTY :: int where
  "CF_QUEUE_EMPTY = - 2"

definition CF_QUEUE_NOMATCH :: int where
  "CF_QUEUE_NOMATCH = - 3"

definition CF_QUEUE_FOREVER :: int where
  "CF_QUEUE_FOREVER = - 1"

definition CF_QUEUE_NOWAIT :: int where
  "CF_QUEUE_NOWAIT = 0"

lemmas cf_queue_codes = CF_QUEUE_OK_def CF_QUEUE_ERR_def CF_QUEUE_EMPTY_def CF_QUEUE_NOMATCH_def
  CF_QUEUE_FOREVER_def CF_QUEUE_NOWAIT_def

definition CF_Q_SZ :: "'a cf_queue \<Rightarrow> u32" where
  "CF_Q_SZ q = write_offset q - read_offset q"

definition CF_Q_EMPTY :: "'a cf_queue \<Rightarrow> bool" where
  "CF_Q_EMPTY q \<longleftrightarrow> write_offset q = read_offset q"

text \<open>\<^verbatim>\<open>CF_Q_ELEM_PTR\<close>: the slot of an offset; a zero \<^verbatim>\<open>allocsz\<close> divides by zero.\<close>

definition CF_Q_ELEM_PTR :: "'a cf_queue \<Rightarrow> u32 \<Rightarrow> nat option" where
  "CF_Q_ELEM_PTR q i = (if allocsz q = 0 then None else Some (unat (i mod allocsz q)))"

definition elem_load :: "'a cf_queue \<Rightarrow> u32 \<Rightarrow> 'a option" where
  "elem_load q i =
     do { k \<leftarrow> CF_Q_ELEM_PTR q i; slots \<leftarrow> queue q; x \<leftarrow> mem_load slots k; x }"

definition elem_store :: "'a cf_queue \<Rightarrow> u32 \<Rightarrow> 'a \<Rightarrow> 'a cf_queue option" where
  "elem_store q i x =
     do { k \<leftarrow> CF_Q_ELEM_PTR q i; slots \<leftarrow> queue q; slots' \<leftarrow> mem_write slots k [Some x];
          Some (q\<lparr>queue := Some slots'\<rparr>) }"

definition slots_move :: "'a cf_queue \<Rightarrow> nat \<Rightarrow> nat \<Rightarrow> nat \<Rightarrow> 'a cf_queue option" where
  "slots_move q dst src n =
     do { slots \<leftarrow> queue q; xs \<leftarrow> mem_read slots src n; slots' \<leftarrow> mem_write slots dst xs;
          Some (q\<lparr>queue := Some slots'\<rparr>) }"


subsection \<open>Creation, size, growth\<close>

definition cf_queue_create ::
  "bool \<Rightarrow> bool \<Rightarrow> bool \<Rightarrow> bool \<Rightarrow> bool \<Rightarrow> 'a cf_queue option" where
  "cf_queue_create malloc_q malloc_buf mutex_init cond_init ts =
     (if \<not> malloc_q then None
      else if \<not> malloc_buf then None
      else let q = \<lparr>threadsafe = ts, allocsz = CF_QUEUE_ALLOCSZ, write_offset = 0, read_offset = 0,
                    queue = Some (replicate (unat CF_QUEUE_ALLOCSZ) None)\<rparr> in
        if \<not> ts then Some q
        else if \<not> mutex_init then None
        else if \<not> cond_init then None
        else Some q)"

text \<open>The structure as it is zeroed before being freed.\<close>

definition cf_queue_destroy :: "'a cf_queue \<Rightarrow> 'a cf_queue option" where
  "cf_queue_destroy q =
     (case queue q of None \<Rightarrow> None
      | Some _ \<Rightarrow> Some \<lparr>threadsafe = False, allocsz = 0, write_offset = 0, read_offset = 0,
                        queue = None\<rparr>)"

definition cf_queue_sz :: "'a cf_queue \<Rightarrow> int" where
  "cf_queue_sz q = sint (CF_Q_SZ q)"

definition realloc_slots :: "'a option mem option \<Rightarrow> nat \<Rightarrow> 'a option mem" where
  "realloc_slots old n =
     (case old of None \<Rightarrow> replicate n None
      | Some slots \<Rightarrow> take n slots @ replicate (n - length slots) None)"

definition cf_queue_resize :: "bool \<Rightarrow> 'a cf_queue \<Rightarrow> u32 \<Rightarrow> ('a cf_queue \<times> int) option" where
  "cf_queue_resize alloc q new_sz =
     (if CF_Q_SZ q \<noteq> allocsz q then Some (q, - 1)
      else if allocsz q = 0 then None
      else if read_offset q mod allocsz q = 0 then
        (if \<not> alloc then Some (q\<lparr>queue := None\<rparr>, - 1)
         else Some (q\<lparr>queue := Some (realloc_slots (queue q) (unat new_sz)), read_offset := 0,
                      write_offset := allocsz q, allocsz := new_sz\<rparr>, 0))
      else if \<not> alloc then Some (q, - 1)
      else do {
        slots \<leftarrow> queue q;
        let r = unat (read_offset q mod allocsz q);
        let endsz = unat (allocsz q) - r;
        front \<leftarrow> mem_read slots r endsz;
        back \<leftarrow> mem_read slots 0 (unat (allocsz q) - endsz);
        newq \<leftarrow> mem_write (replicate (unat new_sz) None) 0 front;
        newq' \<leftarrow> mem_write newq endsz back;
        Some (q\<lparr>queue := Some newq', write_offset := allocsz q, read_offset := 0,
                allocsz := new_sz\<rparr>, 0) })"

definition cf_queue_unwrap :: "'a cf_queue \<Rightarrow> 'a cf_queue" where
  "cf_queue_unwrap q =
     (let sz = CF_Q_SZ q; r = read_offset q mod allocsz q in
      q\<lparr>read_offset := r, write_offset := r + sz\<rparr>)"

definition unwrap_if_high :: "'a cf_queue \<Rightarrow> 'a cf_queue" where
  "unwrap_if_high q = (if write_offset q AND 0xC0000000 \<noteq> 0 then cf_queue_unwrap q else q)"


subsection \<open>Pushing\<close>

text \<open>Growing a full queue, and the end common to the pushes at the tail.\<close>

definition grow_if_full :: "bool \<Rightarrow> 'a cf_queue \<Rightarrow> ('a cf_queue \<times> int) option" where
  "grow_if_full alloc q =
     (if CF_Q_SZ q = allocsz q then cf_queue_resize alloc q (allocsz q * 2) else Some (q, 0))"

definition push_tail :: "'a cf_queue \<Rightarrow> 'a \<Rightarrow> 'a cf_queue option" where
  "push_tail q ptr =
     do { q \<leftarrow> elem_store q (write_offset q) ptr;
          Some (unwrap_if_high (q\<lparr>write_offset := write_offset q + 1\<rparr>)) }"

definition cf_queue_push :: "bool \<Rightarrow> 'a cf_queue \<Rightarrow> 'a \<Rightarrow> ('a cf_queue \<times> int) option" where
  "cf_queue_push alloc q ptr =
     do { (q, rv) \<leftarrow> grow_if_full alloc q;
          if rv \<noteq> 0 then Some (q, - 1)
          else do { q \<leftarrow> push_tail q ptr; Some (q, 0) } }"

definition cf_queue_push_limit ::
  "bool \<Rightarrow> 'a cf_queue \<Rightarrow> 'a \<Rightarrow> u32 \<Rightarrow> ('a cf_queue \<times> bool) option" where
  "cf_queue_push_limit alloc q ptr limit =
     (if CF_Q_SZ q \<ge> limit then Some (q, False)
      else do { (q, rv) \<leftarrow> grow_if_full alloc q;
          if rv \<noteq> 0 then Some (q, False)
          else do { q \<leftarrow> push_tail q ptr; Some (q, True) } })"

text \<open>The search loop of \<^verbatim>\<open>cf_queue_push_unique\<close>: is the element queued from offset \<open>i\<close> on?\<close>

function queued_from :: "'a cf_queue \<Rightarrow> u32 \<Rightarrow> 'a \<Rightarrow> bool option" where
  "queued_from q i ptr =
     (if i < write_offset q
      then do { x \<leftarrow> elem_load q i; if x = ptr then Some True else queued_from q (i + 1) ptr }
      else Some False)"
  by pat_completeness auto
termination
  by (relation "measure (\<lambda>(q, i, ptr). unat (write_offset q) - unat i)") (auto simp: inc_measure)

declare queued_from.simps [simp del]

definition cf_queue_push_unique :: "bool \<Rightarrow> 'a cf_queue \<Rightarrow> 'a \<Rightarrow> ('a cf_queue \<times> int) option" where
  "cf_queue_push_unique alloc q ptr =
     do { dup \<leftarrow> (if CF_Q_SZ q \<noteq> 0 then queued_from q (read_offset q) ptr else Some False);
          if dup then Some (q, - 2)
          else do { (q, rv) \<leftarrow> grow_if_full alloc q;
            if rv \<noteq> 0 then Some (q, - 1)
            else do { q \<leftarrow> push_tail q ptr; Some (q, 0) } } }"

text \<open>The three ways of making room at the head.\<close>

definition push_front :: "'a cf_queue \<Rightarrow> 'a \<Rightarrow> 'a cf_queue option" where
  "push_front q ptr =
     (if read_offset q = write_offset q then
        do { q \<leftarrow> elem_store q (write_offset q) ptr;
             Some (q\<lparr>write_offset := write_offset q + 1\<rparr>) }
      else if read_offset q > 0 then
        (let q = q\<lparr>read_offset := read_offset q - 1\<rparr> in elem_store q (read_offset q) ptr)
      else do {
        d \<leftarrow> CF_Q_ELEM_PTR q 1; s \<leftarrow> CF_Q_ELEM_PTR q 0;
        q \<leftarrow> slots_move q d s (unat (CF_Q_SZ q));
        q \<leftarrow> elem_store q 0 ptr;
        Some (q\<lparr>write_offset := write_offset q + 1\<rparr>) })"

definition cf_queue_push_head :: "bool \<Rightarrow> 'a cf_queue \<Rightarrow> 'a \<Rightarrow> ('a cf_queue \<times> int) option" where
  "cf_queue_push_head alloc q ptr =
     do { (q, rv) \<leftarrow> grow_if_full alloc q;
          if rv \<noteq> 0 then Some (q, - 1)
          else do { q \<leftarrow> push_front q ptr; Some (unwrap_if_high q, 0) } }"


subsection \<open>Popping\<close>

text \<open>
  Waiting on the condition variable lets other threads run; \<open>wakes\<close> lists the states in which
  the waiting thread finds the queue at its successive wake-ups.  A thread that is not woken again
  is \<open>Blocked\<close>.
\<close>

datatype 'a pop_result = Popped 'a "'a cf_queue" | Empty "'a cf_queue" | Blocked

definition pop_elem :: "'a cf_queue \<Rightarrow> 'a pop_result option" where
  "pop_elem q =
     do { x \<leftarrow> elem_load q (read_offset q);
          let r = read_offset q + 1;
          Some (Popped x (if r = write_offset q then q\<lparr>read_offset := 0, write_offset := 0\<rparr>
                          else q\<lparr>read_offset := r\<rparr>)) }"

fun pop_wait :: "'a cf_queue \<Rightarrow> int \<Rightarrow> 'a cf_queue list \<Rightarrow> 'a pop_result option" where
  "pop_wait q ms_wait wakes =
     (if \<not> CF_Q_EMPTY q then pop_elem q
      else if ms_wait = CF_QUEUE_NOWAIT then Some (Empty q)
      else (case wakes of
              [] \<Rightarrow> Some Blocked
            | q' # wks \<Rightarrow>
                if ms_wait = CF_QUEUE_FOREVER then pop_wait q' ms_wait wks
                else if CF_Q_EMPTY q' then Some (Empty q')
                else pop_wait q' ms_wait wks))"

declare pop_wait.simps [simp del]

definition cf_queue_pop :: "'a cf_queue \<Rightarrow> int \<Rightarrow> 'a cf_queue list \<Rightarrow> 'a pop_result option" where
  "cf_queue_pop q ms_wait wakes =
     (if threadsafe q then pop_wait q ms_wait wakes
      else if CF_Q_EMPTY q then Some (Empty q)
      else pop_elem q)"


subsection \<open>Deleting and iterating\<close>

definition cf_queue_delete_offset :: "'a cf_queue \<Rightarrow> u32 \<Rightarrow> 'a cf_queue option" where
  "cf_queue_delete_offset q i =
     (if allocsz q = 0 then None
      else
        let index = i mod allocsz q; r_index = read_offset q mod allocsz q;
            w_index = write_offset q mod allocsz q in
        if index = r_index then Some (q\<lparr>read_offset := read_offset q + 1\<rparr>)
        else if w_index \<noteq> 0 \<and> index = w_index - 1 then
          Some (q\<lparr>write_offset := write_offset q - 1\<rparr>)
        else if index > r_index then
          do { q \<leftarrow> slots_move q (unat (r_index + 1)) (unat r_index) (unat (index - r_index));
               Some (q\<lparr>read_offset := read_offset q + 1\<rparr>) }
        else if index < w_index then
          do { q \<leftarrow> slots_move q (unat index) (unat (index + 1)) (unat (w_index - index - 1));
               Some (q\<lparr>write_offset := write_offset q - 1\<rparr>) }
        else Some q)"

text \<open>
  A reduce callback reads the element and may change its user data; its result is 0 to go on,
  -1 to stop, -2 to delete the element and stop.
\<close>

type_synonym ('a, 's) reduce_fn = "'a \<Rightarrow> 's \<Rightarrow> int \<times> 's"

function reduce_loop ::
  "'a cf_queue \<Rightarrow> u32 \<Rightarrow> ('a, 's) reduce_fn \<Rightarrow> 's \<Rightarrow> ('a cf_queue \<times> 's) option" where
  "reduce_loop q i cb udata =
     (if i < write_offset q then
        do { x \<leftarrow> elem_load q i;
             let (rv, udata) = cb x udata in
             if rv = - 1 then Some (q, udata)
             else if rv = - 2 then do { q \<leftarrow> cf_queue_delete_offset q i; Some (q, udata) }
             else reduce_loop q (i + 1) cb udata }
      else Some (q, udata))"
  by pat_completeness auto
termination
  by (relation "measure (\<lambda>(q, i, cb, udata). unat (write_offset q) - unat i)")
    (auto simp: inc_measure)

declare reduce_loop.simps [simp del]

definition cf_queue_reduce ::
  "'a cf_queue \<Rightarrow> ('a, 's) reduce_fn \<Rightarrow> 's \<Rightarrow> ('a cf_queue \<times> 's \<times> int) option" where
  "cf_queue_reduce q cb udata =
     do { (q, udata) \<leftarrow> (if CF_Q_SZ q \<noteq> 0 then reduce_loop q (read_offset q) cb udata
                       else Some (q, udata));
          Some (q, udata, 0) }"

text \<open>
  The reverse iteration counts an unsigned offset down; the loop of the code need not end, so it
  is given fuel.
\<close>

fun reduce_reverse_loop ::
  "nat \<Rightarrow> 'a cf_queue \<Rightarrow> u32 \<Rightarrow> ('a, 's) reduce_fn \<Rightarrow> 's \<Rightarrow> ('a cf_queue \<times> 's) outcome" where
  "reduce_reverse_loop 0 q i cb udata = Timeout"
| "reduce_reverse_loop (Suc fuel) q i cb udata =
     (if i \<ge> read_offset q then
        (case elem_load q i of
           None \<Rightarrow> Fault
         | Some x \<Rightarrow>
             let (rv, udata) = cb x udata in
             if rv = - 1 then Done (q, udata)
             else if rv = - 2 then
               (case cf_queue_delete_offset q i of None \<Rightarrow> Fault | Some q \<Rightarrow> Done (q, udata))
             else reduce_reverse_loop fuel q (i - 1) cb udata)
      else Done (q, udata))"

definition cf_queue_reduce_reverse ::
  "nat \<Rightarrow> 'a cf_queue \<Rightarrow> ('a, 's) reduce_fn \<Rightarrow> 's \<Rightarrow> ('a cf_queue \<times> 's \<times> int) outcome" where
  "cf_queue_reduce_reverse fuel q cb udata =
     outcome_bind (if CF_Q_SZ q \<noteq> 0 then reduce_reverse_loop fuel q (write_offset q - 1) cb udata
                   else Done (q, udata))
       (\<lambda>(q, udata). Done (q, udata, 0))"

lemma slots_move_offsets:
  "slots_move q d s n = Some q' \<Longrightarrow> write_offset q' = write_offset q \<and> read_offset q' = read_offset q
     \<and> allocsz q' = allocsz q \<and> threadsafe q' = threadsafe q"
  by (auto simp: slots_move_def split: Option.bind_splits)

lemma delete_offset_write:
  "cf_queue_delete_offset q i = Some q' \<Longrightarrow>
   write_offset q' = write_offset q \<or> write_offset q' = write_offset q - 1"
  by (auto simp: cf_queue_delete_offset_def Let_def dest!: slots_move_offsets
      split: if_splits Option.bind_splits)

text \<open>The loop of \<^verbatim>\<open>cf_queue_delete\<close>; a null \<open>buf\<close> (here \<^const>\<open>None\<close>) matches every element.\<close>

function delete_loop ::
  "'a cf_queue \<Rightarrow> u32 \<Rightarrow> 'a option \<Rightarrow> bool \<Rightarrow> bool \<Rightarrow> ('a cf_queue \<times> bool) option" where
  "delete_loop q i buf only_one found =
     (if i < write_offset q then
        do { hit \<leftarrow> (case buf of None \<Rightarrow> Some True
                   | Some x \<Rightarrow> map_option (\<lambda>y. y = x) (elem_load q i));
             if hit then
               do { q \<leftarrow> cf_queue_delete_offset q i;
                    if only_one then Some (q, True) else delete_loop q (i + 1) buf only_one True }
             else delete_loop q (i + 1) buf only_one found }
      else Some (q, found))"
  by pat_completeness auto
termination
proof (relation "measure (\<lambda>(q, i, buf, one, found). unat (write_offset q) - unat i)", goal_cases)
  case (2 q i buf only_one found hit q')
  then have "i < write_offset q" "unat (write_offset q') \<le> unat (write_offset q)"
    using delete_offset_write [of q i q'] unat_dec [of "write_offset q"]
    by (auto simp: word_less_nat_alt)
  then show ?case
    using inc_measure [of i "write_offset q"] by simp
qed (simp_all add: inc_measure)

declare delete_loop.simps [simp del]

definition cf_queue_delete :: "'a cf_queue \<Rightarrow> 'a option \<Rightarrow> bool \<Rightarrow> ('a cf_queue \<times> int) option" where
  "cf_queue_delete q buf only_one =
     do { (q, found) \<leftarrow> (if CF_Q_SZ q \<noteq> 0 then delete_loop q (read_offset q) buf only_one False
                       else Some (q, False));
          Some (q, if found then CF_QUEUE_OK else CF_QUEUE_EMPTY) }"

definition cf_queue_delete_all :: "'a cf_queue \<Rightarrow> ('a cf_queue \<times> int) option" where
  "cf_queue_delete_all q = cf_queue_delete q None False"


subsection \<open>The ring view of a buffer\<close>

text \<open>The \<open>n\<close> slots from offset \<open>r\<close> on, in queue order.\<close>

definition ring :: "'a list \<Rightarrow> nat \<Rightarrow> nat \<Rightarrow> 'a list" where
  "ring s r n = map (\<lambda>k. s ! ((r + k) mod length s)) [0..<n]"

lemma length_ring [simp]: "length (ring s r n) = n"
  by (simp add: ring_def)

lemma nth_ring: "k < n \<Longrightarrow> ring s r n ! k = s ! ((r + k) mod length s)"
  by (simp add: ring_def)

lemma ring_0 [simp]: "ring s r 0 = []"
  by (simp add: ring_def)

lemma ring_mod: "ring s (r mod length s) n = ring s r n"
  by (simp add: ring_def mod_add_left_eq)

lemma ring_Suc: "ring s r (Suc n) = s ! (r mod length s) # ring s (Suc r) n"
  by (simp add: ring_def map_upt_Suc del: upt_Suc)

lemma ring_full: "ring s r (length s) = drop (r mod length s) s @ take (r mod length s) s"
proof -
  have "ring s r (length s) = rotate r s"
    by (rule nth_equalityI) (simp_all add: nth_ring nth_rotate)
  then show ?thesis
    by (simp add: rotate_drop_take)
qed

lemma ring_no_wrap: "r + n \<le> length s \<Longrightarrow> ring s r n = take n (drop r s)"
  by (rule nth_equalityI) (auto simp: nth_ring)

text \<open>Slots at a distance below the buffer length are different slots.\<close>

lemma slot_distinct: "(r + j) mod a \<noteq> (r + k) mod a" if "j < k" "k - j < a" for r j k a :: nat
proof
  assume "(r + j) mod a = (r + k) mod a"
  then have "a dvd (r + k) - (r + j)"
    using that by (metis mod_eq_dvd_iff_nat nat_add_left_cancel_le less_imp_le)
  with that show False
    by (simp add: nat_dvd_not_less)
qed

lemma ring_update_outside:
  assumes "n \<le> k" and "k < length s"
  shows "ring (s[(r + k) mod length s := x]) r n = ring s r n"
proof (rule nth_equalityI)
  fix i assume "i < length (ring (s[(r + k) mod length s := x]) r n)"
  then have "(r + i) mod length s \<noteq> (r + k) mod length s" "i < n"
    using assms slot_distinct [of i k "length s" r] by auto
  then show "ring (s[(r + k) mod length s := x]) r n ! i = ring s r n ! i"
    by (simp add: nth_ring)
qed simp

lemma ring_snoc:
  assumes "n < length s"
  shows "ring (s[(r + n) mod length s := x]) r (Suc n) = ring s r n @ [x]"
proof -
  have "ring s' r (Suc n) = ring s' r n @ [s' ! ((r + n) mod length s')]" for s' :: "'a list"
    by (simp add: ring_def)
  moreover have "(r + n) mod length s < length s"
    using assms by (intro mod_less_divisor) linarith
  ultimately show ?thesis
    using assms by (simp add: ring_update_outside)
qed


subsection \<open>Representation\<close>

text \<open>
  A queue represents the list of its elements, oldest first.  Between the increment of
  \<^verbatim>\<open>write_offset\<close> and \<^verbatim>\<open>cf_queue_unwrap\<close> only the first of the two predicates holds.
\<close>

definition q_ring :: "'a cf_queue \<Rightarrow> 'a list \<Rightarrow> bool" where
  "q_ring q xs \<longleftrightarrow>
     (\<exists>s. queue q = Some s \<and> length s = unat (allocsz q) \<and> 0 < length s \<and> length s \<le> 2 ^ 30 \<and>
        unat (write_offset q) = unat (read_offset q) + length xs \<and> length xs \<le> length s \<and>
        ring s (unat (read_offset q)) (length xs) = map Some xs)"

definition q_rep :: "'a cf_queue \<Rightarrow> 'a list \<Rightarrow> bool" where
  "q_rep q xs \<longleftrightarrow> q_ring q xs \<and> unat (write_offset q) < 2 ^ 31"

lemma q_ringE:
  assumes "q_ring q xs"
  obtains s where "queue q = Some s" "length s = unat (allocsz q)" "0 < length s" "length s \<le> 2 ^ 30"
    "unat (write_offset q) = unat (read_offset q) + length xs" "length xs \<le> length s"
    "ring s (unat (read_offset q)) (length xs) = map Some xs" "allocsz q \<noteq> 0"
    "unat (CF_Q_SZ q) = length xs"
proof -
  from assms obtain s where s: "queue q = Some s" "length s = unat (allocsz q)" "0 < length s"
      "length s \<le> 2 ^ 30" "unat (write_offset q) = unat (read_offset q) + length xs"
      "length xs \<le> length s" "ring s (unat (read_offset q)) (length xs) = map Some xs"
    unfolding q_ring_def by blast
  moreover from s have "allocsz q \<noteq> 0"
    by auto
  moreover from s have "unat (CF_Q_SZ q) = length xs"
    by (simp add: CF_Q_SZ_def unat_sub word_le_nat_alt)
  ultimately show ?thesis
    by (rule that)
qed

lemma q_rep_ring: "q_rep q xs \<Longrightarrow> q_ring q xs"
  by (simp add: q_rep_def)

lemma q_ring_sz:
  assumes "q_ring q xs"
  shows "unat (CF_Q_SZ q) = length xs" and "CF_Q_SZ q = 0 \<longleftrightarrow> xs = []"
    and "CF_Q_EMPTY q \<longleftrightarrow> xs = []" and "CF_Q_SZ q = allocsz q \<longleftrightarrow> length xs = unat (allocsz q)"
    and "read_offset q = write_offset q \<longleftrightarrow> xs = []"
  using assms by (auto elim!: q_ringE simp: CF_Q_EMPTY_def word_unat_eq_iff simp flip: unat_eq_zero)

lemma q_ring_load:
  assumes "q_ring q xs" and "k < length xs" and "unat i = unat (read_offset q) + k"
  shows "elem_load q i = Some (xs ! k)"
proof -
  obtain s where s: "queue q = Some s" "length s = unat (allocsz q)" "0 < length s"
      "ring s (unat (read_offset q)) (length xs) = map Some xs" "allocsz q \<noteq> 0"
    using assms(1) by (elim q_ringE)
  have "unat (i mod allocsz q) = (unat (read_offset q) + k) mod length s"
    by (simp add: unat_mod assms(3) s)
  moreover have "s ! ((unat (read_offset q) + k) mod length s) = Some (xs ! k)"
    using nth_ring [OF assms(2), of s "unat (read_offset q)"] assms(2) s by simp
  ultimately show ?thesis
    using s by (simp add: elem_load_def CF_Q_ELEM_PTR_def mem_load_def)
qed

lemma mem_write_single: "k < length s \<Longrightarrow> mem_write s k [x] = Some (s[k := x])"
  by (simp add: mem_write_def upd_conv_take_nth_drop)

lemma elem_store_eq:
  assumes "queue q = Some s" and "length s = unat (allocsz q)" and "allocsz q \<noteq> 0"
  shows "elem_store q i x = Some (q\<lparr>queue := Some (s[unat i mod length s := Some x])\<rparr>)"
  using assms by (simp add: elem_store_def CF_Q_ELEM_PTR_def unat_mod mem_write_single unat_gt_0)

lemma store_snoc:
  assumes "q_rep q xs" and "length xs < unat (allocsz q)"
  obtains s where "elem_store q (write_offset q) x = Some (q\<lparr>queue := Some s\<rparr>)"
    "q_ring (q\<lparr>queue := Some s, write_offset := write_offset q + 1\<rparr>) (xs @ [x])"
proof -
  obtain s where s: "queue q = Some s" "length s = unat (allocsz q)" "0 < length s"
      "length s \<le> 2 ^ 30" "unat (write_offset q) = unat (read_offset q) + length xs"
      "ring s (unat (read_offset q)) (length xs) = map Some xs" "allocsz q \<noteq> 0"
    using assms(1) by (elim q_rep_ring [THEN q_ringE])
  let ?s = "s[unat (write_offset q) mod length s := Some x]"
  have "unat (write_offset q) < 2 ^ 31"
    using assms(1) by (simp add: q_rep_def)
  then have "unat (write_offset q + 1) = unat (write_offset q) + 1"
    by (intro trans [OF unat_add_small]) simp_all
  with s assms(2) have "q_ring (q\<lparr>queue := Some ?s, write_offset := write_offset q + 1\<rparr>) (xs @ [x])"
    using ring_snoc [of "length xs" s "unat (read_offset q)" "Some x"]
    unfolding q_ring_def by (intro exI [of _ ?s]) simp
  with s show ?thesis
    by (intro that [of ?s]) (simp_all add: elem_store_eq)
qed

lemma low_offset: "unat w < 2 ^ 30" if "w AND 0xC0000000 = 0" for w :: u32
proof -
  have "NOT (mask 30) = (0xC0000000 :: u32)"
    by (simp add: mask_eq_exp_minus_1)
  moreover have "w = (w AND mask 30) OR (w AND NOT (mask 30))"
    by (simp flip: bit.conj_disj_distrib)
  ultimately have "take_bit 30 w = w"
    using that by (simp add: take_bit_eq_mask)
  then have "unat w = take_bit 30 (unat w)"
    by (metis unsigned_take_bit_eq)
  then show ?thesis
    using take_bit_nat_less_exp [of 30 "unat w"] by simp
qed

lemma q_ring_unwrap:
  assumes "q_ring q xs"
  shows "q_rep (cf_queue_unwrap q) xs"
proof -
  obtain s where s: "queue q = Some s" "length s = unat (allocsz q)" "0 < length s"
      "length s \<le> 2 ^ 30" "unat (write_offset q) = unat (read_offset q) + length xs"
      "length xs \<le> length s" "ring s (unat (read_offset q)) (length xs) = map Some xs"
      "allocsz q \<noteq> 0" "unat (CF_Q_SZ q) = length xs"
    using assms by (elim q_ringE)
  let ?r = "read_offset q mod allocsz q"
  have r: "unat ?r = unat (read_offset q) mod length s"
    by (simp add: unat_mod s)
  with s(3) have "unat ?r < length s"
    by (simp only: mod_less_divisor)
  with s have b: "unat ?r + length xs < 2 ^ 31"
    by simp
  then have "unat (?r + CF_Q_SZ q) = unat ?r + length xs"
    using unat_add_small [of ?r "CF_Q_SZ q"] s by simp
  with s r b show ?thesis
    using ring_mod [of s "unat (read_offset q)" "length xs"]
    by (auto simp: q_rep_def q_ring_def cf_queue_unwrap_def Let_def)
qed

lemma q_rep_unwrap_if_high: "q_ring q xs \<Longrightarrow> q_rep (unwrap_if_high q) xs"
  using low_offset [of "write_offset q"] q_ring_unwrap [of q xs]
  by (auto simp: unwrap_if_high_def q_rep_def)

lemma unwrap_same [simp]:
  "threadsafe (unwrap_if_high q) = threadsafe q" "allocsz (unwrap_if_high q) = allocsz q"
  by (simp_all add: unwrap_if_high_def cf_queue_unwrap_def Let_def)

lemma q_rep_push_tail:
  assumes "q_rep q xs" and "length xs < unat (allocsz q)"
  obtains q' where "push_tail q x = Some q'" "q_rep q' (xs @ [x])" "threadsafe q' = threadsafe q"
    "allocsz q' = allocsz q"
proof -
  obtain s where "elem_store q (write_offset q) x = Some (q\<lparr>queue := Some s\<rparr>)"
      "q_ring (q\<lparr>queue := Some s, write_offset := write_offset q + 1\<rparr>) (xs @ [x])"
    using store_snoc [OF assms] .
  then show ?thesis
    by (intro that [of "unwrap_if_high (q\<lparr>queue := Some s, write_offset := write_offset q + 1\<rparr>)"])
      (auto simp: push_tail_def intro: q_rep_unwrap_if_high)
qed

text \<open>Growth keeps the elements; it is possible while the buffer has at most half the bound.\<close>

lemma resize_contents:
  assumes "q_rep q xs" and "length xs = unat (allocsz q)" and "length xs \<le> 2 ^ 29"
  obtains q' where "cf_queue_resize True q (allocsz q * 2) = Some (q', 0)" "q_rep q' xs"
    "unat (allocsz q') = 2 * length xs" "threadsafe q' = threadsafe q"
proof -
  obtain s where s: "queue q = Some s" "length s = unat (allocsz q)" "0 < length s"
      "ring s (unat (read_offset q)) (length xs) = map Some xs" "allocsz q \<noteq> 0"
    using assms(1) by (elim q_rep_ring [THEN q_ringE])
  define r where "r = unat (read_offset q) mod length s"
  have r: "unat (read_offset q mod allocsz q) = r"
    by (simp add: unat_mod r_def s)
  have "r < length s"
    using s(3) by (simp add: r_def)
  have sz: "unat (allocsz q * 2) = 2 * length s"
    using assms s by (subst unat_double) simp_all
  have full: "drop r s @ take r s = map Some xs"
    using s ring_full [of s "unat (read_offset q)"] assms(2) by (simp add: r_def)
  let ?s = "(drop r s @ take r s) @ replicate (length s) None"
  let ?q = "q\<lparr>queue := Some ?s, write_offset := allocsz q, read_offset := 0, allocsz := allocsz q * 2\<rparr>"
  have "ring ?s 0 (length xs) = map Some xs"
    using assms(2) s \<open>r < length s\<close> by (subst ring_no_wrap) (simp_all add: full)
  then have rep: "q_rep ?q xs"
    unfolding q_rep_def q_ring_def using s sz assms \<open>r < length s\<close> by (simp add: unat_gt_0)
  have "cf_queue_resize True q (allocsz q * 2) = Some (?q, 0)"
  proof (cases "r = 0")
    case True
    with s r q_ring_sz(4) [OF q_rep_ring [OF assms(1)]] assms(2) show ?thesis
      by (simp add: cf_queue_resize_def realloc_slots_def sz unat_eq_zero)
  next
    case False
    then have "read_offset q mod allocsz q \<noteq> 0"
      using r by (metis unat_0)
    with s r q_ring_sz(4) [OF q_rep_ring [OF assms(1)]] assms(2) \<open>r < length s\<close> show ?thesis
      by (simp add: cf_queue_resize_def mem_read_def mem_write_def Let_def sz)
  qed
  with rep s sz assms show ?thesis
    by (intro that [of ?q]) simp_all
qed

lemma grow_contents:
  assumes "q_rep q xs" and "length xs < 2 ^ 29"
  obtains q' where "grow_if_full True q = Some (q', 0)" "q_rep q' xs"
    "length xs < unat (allocsz q')" "threadsafe q' = threadsafe q"
proof (cases "CF_Q_SZ q = allocsz q")
  case True
  then have full: "length xs = unat (allocsz q)"
    using q_ring_sz(4) [OF q_rep_ring [OF assms(1)]] by simp
  have "length xs \<le> 2 ^ 29"
    using assms(2) by simp
  moreover have "0 < length xs"
    using full q_rep_ring [OF assms(1)] by (elim q_ringE) simp
  ultimately show ?thesis
    using resize_contents [OF assms(1) full] True that by (metis grow_if_full_def mult_2 less_add_same_cancel1)
next
  case False
  then have "length xs < unat (allocsz q)"
    using q_ring_sz(4) [OF q_rep_ring [OF assms(1)]] assms(1)
    by (auto elim!: q_ringE dest!: q_rep_ring)
  with False assms(1) show ?thesis
    by (intro that [of q]) (simp_all add: grow_if_full_def)
qed

lemma push_rep:
  assumes "q_rep q xs" and "length xs < 2 ^ 29"
  obtains q' where "cf_queue_push True q x = Some (q', 0)" "q_rep q' (xs @ [x])"
    "threadsafe q' = threadsafe q"
proof -
  obtain q1 where q1: "grow_if_full True q = Some (q1, 0)" "q_rep q1 xs"
      "length xs < unat (allocsz q1)" "threadsafe q1 = threadsafe q"
    using grow_contents [OF assms] .
  obtain q2 where "push_tail q1 x = Some q2" "q_rep q2 (xs @ [x])" "threadsafe q2 = threadsafe q1"
    using q_rep_push_tail [OF q1(2,3)] by metis
  with q1 show ?thesis
    by (intro that [of q2]) (simp_all add: cf_queue_push_def)
qed

lemma push_limit_rep:
  assumes "q_rep q xs" and "length xs < 2 ^ 29" and "length xs < unat limit"
  obtains q' where "cf_queue_push_limit True q x limit = Some (q', True)" "q_rep q' (xs @ [x])"
    "threadsafe q' = threadsafe q"
proof -
  obtain q1 where q1: "grow_if_full True q = Some (q1, 0)" "q_rep q1 xs"
      "length xs < unat (allocsz q1)" "threadsafe q1 = threadsafe q"
    using grow_contents [OF assms(1,2)] .
  obtain q2 where "push_tail q1 x = Some q2" "q_rep q2 (xs @ [x])" "threadsafe q2 = threadsafe q1"
    using q_rep_push_tail [OF q1(2,3)] by metis
  moreover have "\<not> limit \<le> CF_Q_SZ q"
    using assms(3) q_ring_sz(1) [OF q_rep_ring [OF assms(1)]] by (simp add: word_le_nat_alt)
  ultimately show ?thesis
    using q1 by (intro that [of q2]) (simp_all add: cf_queue_push_limit_def)
qed

lemma push_limit_full:
  assumes "q_rep q xs" and "unat limit \<le> length xs"
  shows "cf_queue_push_limit alloc q x limit = Some (q, False)"
  using assms q_ring_sz(1) [OF q_rep_ring [OF assms(1)]]
  by (simp add: cf_queue_push_limit_def word_le_nat_alt)

lemma q_ring_tl:
  assumes "q_ring q (x # xs)"
  shows "q_ring (q\<lparr>read_offset := read_offset q + 1\<rparr>) xs" and "unat (read_offset q + 1) = Suc (unat (read_offset q))"
proof -
  obtain s where s: "queue q = Some s" "length s = unat (allocsz q)" "0 < length s" "length s \<le> 2 ^ 30"
      "unat (write_offset q) = unat (read_offset q) + length (x # xs)" "length (x # xs) \<le> length s"
      "ring s (unat (read_offset q)) (length (x # xs)) = map Some (x # xs)"
    using assms by (elim q_ringE)
  have "read_offset q < write_offset q"
    using s by (simp add: word_less_nat_alt)
  then show inc: "unat (read_offset q + 1) = Suc (unat (read_offset q))"
    by (rule unat_inc)
  from s inc show "q_ring (q\<lparr>read_offset := read_offset q + 1\<rparr>) xs"
    by (auto simp: q_ring_def ring_Suc)
qed

lemma pop_elem_rep:
  assumes "q_rep q (x # xs)"
  obtains q' where "pop_elem q = Some (Popped x q')" "q_rep q' xs" "threadsafe q' = threadsafe q"
proof -
  have ld: "elem_load q (read_offset q) = Some x"
    using q_ring_load [OF q_rep_ring [OF assms], of 0] by simp
  have tl: "q_ring (q\<lparr>read_offset := read_offset q + 1\<rparr>) xs"
    using q_ring_tl [OF q_rep_ring [OF assms]] by simp
  have emp: "read_offset q + 1 = write_offset q \<longleftrightarrow> xs = []"
    using q_ring_sz(5) [OF tl] by simp
  show ?thesis
  proof (cases "xs = []")
    case True
    with tl have "q_rep (q\<lparr>read_offset := 0, write_offset := 0\<rparr>) xs"
      by (auto simp: q_rep_def q_ring_def)
    with ld emp True show ?thesis
      by (intro that [of "q\<lparr>read_offset := 0, write_offset := 0\<rparr>"]) (simp_all add: pop_elem_def)
  next
    case False
    have "q_rep (q\<lparr>read_offset := read_offset q + 1\<rparr>) xs"
      using tl assms by (simp add: q_rep_def)
    with ld emp False show ?thesis
      by (intro that [of "q\<lparr>read_offset := read_offset q + 1\<rparr>"]) (simp_all add: pop_elem_def)
  qed
qed


subsection \<open>Deleting one element\<close>

lemma ring_cong: "r mod length s = r' mod length s \<Longrightarrow> ring s r n = ring s r' n"
  by (metis ring_mod)

lemma wrap_index: "r < a \<Longrightarrow> k \<le> a \<Longrightarrow> (r + k) mod a = (if r + k < a then r + k else r + k - a)"
  for r k a :: nat
  by (simp add: mod_if)

definition without :: "nat \<Rightarrow> 'a list \<Rightarrow> 'a list" where
  "without k xs = take k xs @ drop (Suc k) xs"

lemma length_without: "k < length xs \<Longrightarrow> length (without k xs) = length xs - 1"
  by (simp add: without_def)

lemma nth_without: "k < length xs \<Longrightarrow> j < length xs - 1 \<Longrightarrow>
    without k xs ! j = (if j < k then xs ! j else xs ! Suc j)"
  by (auto simp: without_def nth_append min_def)

lemma map_without: "without k (map f xs) = map f (without k xs)"
  by (simp add: without_def take_map drop_map)

lemma ring_shift_up:
  assumes "r < length s" "r + k < length s" "k < n" "n \<le> length s" "0 < k"
    and "length s' = length s"
    and s': "\<And>p. p < length s \<Longrightarrow> s' ! p = (if r < p \<and> p \<le> r + k then s ! (p - 1) else s ! p)"
  shows "ring s' (Suc r) (n - 1) = without k (ring s r n)"
proof (rule nth_equalityI)
  fix j assume "j < length (ring s' (Suc r) (n - 1))"
  then have j: "j < n - 1"
    by simp
  with assms have "(Suc r + j) mod length s = (if Suc r + j < length s then Suc r + j else Suc r + j - length s)"
    "(r + j) mod length s = (if r + j < length s then r + j else r + j - length s)"
    by (intro wrap_index; simp)+
  with assms(1-6) j s' [of "(Suc r + j) mod length s"]
  show "ring s' (Suc r) (n - 1) ! j = without k (ring s r n) ! j"
    by (simp add: nth_without nth_ring split: if_splits) linarith
qed (use assms in \<open>simp add: length_without\<close>)

lemma ring_shift_down:
  assumes "r < length s" "length s \<le> r + k" "k < n" "n \<le> length s"
    and "length s' = length s"
    and s': "\<And>p. p < length s \<Longrightarrow>
      s' ! p = (if r + k - length s \<le> p \<and> p < r + n - length s - 1 then s ! (Suc p) else s ! p)"
  shows "ring s' r (n - 1) = without k (ring s r n)"
proof (rule nth_equalityI)
  fix j assume "j < length (ring s' r (n - 1))"
  then have j: "j < n - 1"
    by simp
  with assms have "(Suc r + j) mod length s = (if Suc r + j < length s then Suc r + j else Suc r + j - length s)"
    "(r + j) mod length s = (if r + j < length s then r + j else r + j - length s)"
    using wrap_index [of r "length s" "Suc j"] wrap_index [of r "length s" j] by simp_all
  with assms(1-5) j s' [of "(r + j) mod length s"]
  show "ring s' r (n - 1) ! j = without k (ring s r n) ! j"
    by (simp add: nth_without nth_ring Suc_diff_le split: if_splits) linarith
qed (use assms in \<open>simp add: length_without\<close>)

lemma slots_move_eq:
  assumes "queue q = Some s" and "src + n \<le> length s" and "dst + n \<le> length s"
  obtains s' where "slots_move q dst src n = Some (q\<lparr>queue := Some s'\<rparr>)" "length s' = length s"
    "\<And>p. p < length s \<Longrightarrow> s' ! p = (if dst \<le> p \<and> p < dst + n then s ! (src + (p - dst)) else s ! p)"
proof -
  let ?xs = "take n (drop src s)"
  have len: "length ?xs = n"
    using assms by simp
  then obtain s' where s': "mem_write s dst ?xs = Some s'"
    using assms by (auto simp: mem_write_def)
  show ?thesis
  proof (rule that)
    show "slots_move q dst src n = Some (q\<lparr>queue := Some s'\<rparr>)"
      using assms s' by (simp add: slots_move_def mem_read_def)
    show "length s' = length s"
      using s' by (rule mem_write_length)
    fix p assume "p < length s"
    with mem_write_nth [OF s' this]
    show "s' ! p = (if dst \<le> p \<and> p < dst + n then s ! (src + (p - dst)) else s ! p)"
      using assms by (auto simp: len)
  qed
qed

text \<open>\<^verbatim>\<open>cf_queue_delete_offset\<close> read on natural numbers.\<close>

lemma word_pred_iff: "w \<noteq> 0 \<and> x = w - 1 \<longleftrightarrow> unat w = Suc (unat x)" for w x :: "'w::len word"
proof (cases "w = 0")
  case False
  then have "unat (w - 1) = unat w - 1" "unat w \<noteq> 0"
    by (simp_all add: unat_dec word_neq_0_conv word_less_nat_alt)
  moreover have "x = w - 1 \<longleftrightarrow> unat x = unat (w - 1)"
    by (rule word_unat_eq_iff)
  ultimately show ?thesis
    using False by auto
qed simp

lemma delete_offset_nat:
  assumes "allocsz q \<noteq> 0" and "d = unat i mod unat (allocsz q)"
    and "r = unat (read_offset q) mod unat (allocsz q)"
    and "w = unat (write_offset q) mod unat (allocsz q)"
  shows "cf_queue_delete_offset q i =
     (if d = r then Some (q\<lparr>read_offset := read_offset q + 1\<rparr>)
      else if w = Suc d then Some (q\<lparr>write_offset := write_offset q - 1\<rparr>)
      else if r < d then
        map_option (\<lambda>q. q\<lparr>read_offset := read_offset q + 1\<rparr>) (slots_move q (Suc r) r (d - r))
      else if d < w then
        map_option (\<lambda>q. q\<lparr>write_offset := write_offset q - 1\<rparr>)
          (slots_move q d (Suc d) (w - Suc d))
      else Some q)"
proof -
  let ?d = "i mod allocsz q" and ?r = "read_offset q mod allocsz q" and ?w = "write_offset q mod allocsz q"
  have u: "unat ?d = d" "unat ?r = r" "unat ?w = w"
    by (simp_all add: unat_mod assms)
  have "?d = ?r \<longleftrightarrow> d = r" "?d < ?w \<longleftrightarrow> d < w" "?r < ?d \<longleftrightarrow> r < d"
    using u by (simp_all add: word_unat_eq_iff word_less_nat_alt)
  moreover have "?w \<noteq> 0 \<and> ?d = ?w - 1 \<longleftrightarrow> w = Suc d"
    unfolding word_pred_iff u ..
  moreover have "unat (?r + 1) = Suc r" "unat (?d - ?r) = d - r" if "r < d"
    using that u unat_inc [of ?r ?d] by (simp_all add: word_less_nat_alt word_le_nat_alt unat_sub)
  moreover have "unat (?d + 1) = Suc d" "unat (?w - ?d - 1) = w - Suc d" if "d < w"
  proof -
    show "unat (?d + 1) = Suc d"
      using that u unat_inc [of ?d ?w] by (simp add: word_less_nat_alt)
    moreover have "?d + 1 \<le> ?w"
      using that u calculation by (simp add: word_le_nat_alt)
    ultimately show "unat (?w - ?d - 1) = w - Suc d"
      using u by (simp add: unat_sub diff_diff_add)
  qed
  ultimately show ?thesis
    by (simp add: cf_queue_delete_offset_def Let_def assms(1) u map_conv_bind_option comp_def)
qed

lemma q_rep_facts:
  assumes "q_rep q xs"
  shows "unat (write_offset q) = unat (read_offset q) + length xs" and "0 < unat (allocsz q)"
    and "unat (allocsz q) \<le> 2 ^ 30" and "length xs \<le> unat (allocsz q)" and "allocsz q \<noteq> 0"
    and "unat (write_offset q) < 2 ^ 31"
    and "xs \<noteq> [] \<Longrightarrow> unat (read_offset q + 1) = Suc (unat (read_offset q))"
    and "xs \<noteq> [] \<Longrightarrow> unat (write_offset q - 1) = unat (read_offset q) + (length xs - 1)"
proof -
  show w: "unat (write_offset q) = unat (read_offset q) + length xs" and "0 < unat (allocsz q)"
    and "unat (allocsz q) \<le> 2 ^ 30" and "length xs \<le> unat (allocsz q)" and "allocsz q \<noteq> 0"
    using q_rep_ring [OF assms] by (elim q_ringE; simp add: unat_gt_0)+
  show "unat (write_offset q) < 2 ^ 31"
    using assms by (simp add: q_rep_def)
  assume "xs \<noteq> []"
  with w have "read_offset q < write_offset q"
    by (simp add: word_less_nat_alt)
  then show "unat (read_offset q + 1) = Suc (unat (read_offset q))"
    by (rule unat_inc)
  have "0 < write_offset q"
    using w \<open>xs \<noteq> []\<close> by (simp add: word_less_nat_alt)
  then show "unat (write_offset q - 1) = unat (read_offset q) + (length xs - 1)"
    using w \<open>xs \<noteq> []\<close> by (simp add: unat_dec Suc_le_eq)
qed

lemma q_rep_drop_first:
  assumes "q_rep q xs" "k < length xs" "length s' = unat (allocsz q)"
    and "ring s' (Suc (unat (read_offset q))) (length xs - 1) = map Some (without k xs)"
  shows "q_rep (q\<lparr>queue := Some s', read_offset := read_offset q + 1\<rparr>) (without k xs)"
proof -
  have "xs \<noteq> []"
    using assms(2) by auto
  then show ?thesis
    using assms(2-) q_rep_facts [OF assms(1)] by (auto simp: q_rep_def q_ring_def length_without)
qed

lemma q_rep_drop_last:
  assumes "q_rep q xs" "k < length xs" "length s' = unat (allocsz q)"
    and "ring s' (unat (read_offset q)) (length xs - 1) = map Some (without k xs)"
  shows "q_rep (q\<lparr>queue := Some s', write_offset := write_offset q - 1\<rparr>) (without k xs)"
proof -
  have "xs \<noteq> []"
    using assms(2) by auto
  then show ?thesis
    using assms(2-) q_rep_facts [OF assms(1)] by (auto simp: q_rep_def q_ring_def length_without)
qed

lemma ring_take: "k \<le> n \<Longrightarrow> ring s r k = take k (ring s r n)"
  by (simp add: ring_def take_map)

lemma queue_update_same: "queue q = Some s \<Longrightarrow> q\<lparr>queue := Some s\<rparr> = q"
  by (metis cf_queue.surjective cf_queue.update_convs(5) old.unit.exhaust)

lemma delete_cases:
  fixes r k n a d w :: nat
  assumes "r < a" "k < n" "n \<le> a" "d = (if r + k < a then r + k else r + k - a)"
    and "w = (if r + n < a then r + n else r + n - a)"
  obtains (head) "d = r" "k = 0" | (tail) "d \<noteq> r" "w = Suc d" "Suc k = n"
    | (up) "r < d" "w \<noteq> Suc d" "d = r + k" "0 < k" "r + k < a"
    | (down) "d < r" "w \<noteq> Suc d" "d = r + k - a" "a \<le> r + k" "w = r + n - a" "d < w" "w < a"
proof (cases "r + k < a")
  case True
  with assms show ?thesis
    using that(1-3) by (cases "k = 0"; cases "w = Suc d") (simp_all split: if_splits)
next
  case False
  with assms have "d < r" "d = r + k - a" "a \<le> r + k" "w = r + n - a" "d < w" "w < a"
    by (simp_all split: if_splits)
  with False assms show ?thesis
    using that(2,4) by (cases "w = Suc d") simp_all
qed

lemma slots_up:
  assumes "q_rep q xs" "k < length xs" "queue q = Some s" "length s = unat (allocsz q)"
    and r: "r = unat (read_offset q) mod length s" "ring s r (length xs) = map Some xs"
    and k: "0 < k" "r + k < length s"
  obtains s' where "slots_move q (Suc r) r k = Some (q\<lparr>queue := Some s'\<rparr>)"
    "q_rep (q\<lparr>queue := Some s', read_offset := read_offset q + 1\<rparr>) (without k xs)"
proof -
  obtain s' where s': "slots_move q (Suc r) r k = Some (q\<lparr>queue := Some s'\<rparr>)" "length s' = length s"
    "\<And>p. p < length s \<Longrightarrow> s' ! p = (if Suc r \<le> p \<and> p < Suc r + k then s ! (r + (p - Suc r)) else s ! p)"
    using slots_move_eq [OF assms(3), of r k "Suc r"] k by auto
  have "ring s' (Suc r) (length xs - 1) = without k (ring s r (length xs))"
    using s'(2,3) k assms(2,4) q_rep_facts(4) [OF assms(1)]
    by (intro ring_shift_up) (auto simp: Suc_le_eq less_Suc_eq_le)
  moreover have "ring s' (Suc (unat (read_offset q))) (length xs - 1) = ring s' (Suc r) (length xs - 1)"
    by (rule ring_cong) (simp add: s'(2) r mod_Suc_eq)
  ultimately show ?thesis
    using assms s' by (intro that [of s'] q_rep_drop_first) (simp_all add: map_without)
qed

lemma slots_down:
  assumes "q_rep q xs" "k < length xs" "queue q = Some s" "length s = unat (allocsz q)"
    and r: "r = unat (read_offset q) mod length s" "ring s r (length xs) = map Some xs"
    and k: "length s \<le> r + k" "d = r + k - length s" "w = r + length xs - length s"
  obtains s' where "slots_move q d (Suc d) (w - Suc d) = Some (q\<lparr>queue := Some s'\<rparr>)"
    "q_rep (q\<lparr>queue := Some s', write_offset := write_offset q - 1\<rparr>) (without k xs)"
proof -
  have n: "length xs \<le> length s" "r < length s"
    using q_rep_facts [OF assms(1)] assms(4) by (simp_all add: r)
  have b: "Suc d + (w - Suc d) \<le> length s" "d + (w - Suc d) \<le> length s" "d + (w - Suc d) = w - 1"
    using k n assms(2) by linarith+
  obtain s' where s': "slots_move q d (Suc d) (w - Suc d) = Some (q\<lparr>queue := Some s'\<rparr>)"
    "length s' = length s"
    "\<And>p. p < length s \<Longrightarrow> s' ! p = (if d \<le> p \<and> p < d + (w - Suc d) then s ! (Suc d + (p - d)) else s ! p)"
    by (rule slots_move_eq [OF assms(3) b(1,2)]) (rule that)
  have "s' ! p = (if d \<le> p \<and> p < w - 1 then s ! Suc p else s ! p)" if "p < length s" for p
    unfolding s'(3) [OF that] b(3) by simp
  then have "ring s' r (length xs - 1) = without k (ring s r (length xs))"
    using s'(2) k n assms(2) by (intro ring_shift_down) simp_all
  moreover have "ring s' (unat (read_offset q)) (length xs - 1) = ring s' r (length xs - 1)"
    by (rule ring_cong) (simp add: s'(2) r)
  ultimately show ?thesis
    using assms s' by (intro that [of s'] q_rep_drop_last) (simp_all add: map_without)
qed

lemma delete_offset_rep:
  assumes rep: "q_rep q xs" and k: "k < length xs" and i: "unat i = unat (read_offset q) + k"
  obtains q' where "cf_queue_delete_offset q i = Some q'" "q_rep q' (without k xs)"
    "threadsafe q' = threadsafe q"
proof -
  obtain s where s: "queue q = Some s" "length s = unat (allocsz q)"
      "ring s (unat (read_offset q)) (length xs) = map Some xs"
    using rep by (elim q_rep_ring [THEN q_ringE])
  note f = q_rep_facts [OF rep]
  define r d w where "r = unat (read_offset q) mod length s" and "d = (r + k) mod length s"
    and "w = (r + length xs) mod length s"
  have r: "r < length s" "ring s r (length xs) = map Some xs"
    using s f(2) by (simp_all add: r_def ring_mod flip: s(2))
  have d: "d = (if r + k < length s then r + k else r + k - length s)"
    and w: "w = (if r + length xs < length s then r + length xs else r + length xs - length s)"
    unfolding d_def w_def using r k s f by (intro wrap_index; simp)+
  have op: "cf_queue_delete_offset q i =
     (if d = r then Some (q\<lparr>read_offset := read_offset q + 1\<rparr>)
      else if w = Suc d then Some (q\<lparr>write_offset := write_offset q - 1\<rparr>)
      else if r < d then
        map_option (\<lambda>q. q\<lparr>read_offset := read_offset q + 1\<rparr>) (slots_move q (Suc r) r (d - r))
      else if d < w then
        map_option (\<lambda>q. q\<lparr>write_offset := write_offset q - 1\<rparr>)
          (slots_move q d (Suc d) (w - Suc d))
      else Some q)"
    by (rule delete_offset_nat)
      (simp_all add: f(1,5) i d_def w_def r_def mod_add_left_eq flip: s(2))
  have n: "length xs \<le> length s"
    using f s by simp
  from r(1) k n d w show ?thesis
  proof (cases rule: delete_cases)
    case head
    then have "q_rep (q\<lparr>queue := Some s, read_offset := read_offset q + 1\<rparr>) (without k xs)"
      using rep k s by (intro q_rep_drop_first) (auto simp: without_def ring_Suc neq_Nil_conv)
    with head op s(1) show ?thesis
      by (intro that [of "q\<lparr>read_offset := read_offset q + 1\<rparr>"]) (simp_all add: queue_update_same)
  next
    case tail
    then have "q_rep (q\<lparr>queue := Some s, write_offset := write_offset q - 1\<rparr>) (without k xs)"
      using rep k s ring_take [of k "length xs" s]
      by (intro q_rep_drop_last) (auto simp: without_def take_map simp flip: tail(3))
    with tail op s(1) show ?thesis
      by (intro that [of "q\<lparr>write_offset := write_offset q - 1\<rparr>"]) (simp_all add: queue_update_same)
  next
    case up
    then obtain s' where "slots_move q (Suc r) r k = Some (q\<lparr>queue := Some s'\<rparr>)"
      "q_rep (q\<lparr>queue := Some s', read_offset := read_offset q + 1\<rparr>) (without k xs)"
      using slots_up [OF rep k s(1,2) r_def r(2)] by metis
    with up op show ?thesis
      by (intro that [of "q\<lparr>queue := Some s', read_offset := read_offset q + 1\<rparr>"]) simp_all
  next
    case down
    obtain s' where "slots_move q d (Suc d) (w - Suc d) = Some (q\<lparr>queue := Some s'\<rparr>)"
      "q_rep (q\<lparr>queue := Some s', write_offset := write_offset q - 1\<rparr>) (without k xs)"
      by (rule slots_down [OF rep k s(1,2) r_def r(2) down(4,3,5)])
    with down op show ?thesis
      by (intro that [of "q\<lparr>queue := Some s', write_offset := write_offset q - 1\<rparr>"]) simp_all
  qed
qed

end
