(* ===== verification/CfQueueProps.thy ===== *)
theory CfQueueProps
  imports CfQueue
begin

text \<open>
  Correctness of the queue operations against the list of elements they represent: pushes at both
  ends, the search and delete loops, iteration in both directions, and the interface of a bounded
  first-in first-out queue that the connection pool of a node relies on.
\<close>

subsection \<open>Loops over the offsets\<close>

lemma offset_step:
  assumes "q_rep q xs" and "unat i = unat (read_offset q) + k"
  shows "i < write_offset q \<longleftrightarrow> k < length xs"
    and "k < length xs \<Longrightarrow> unat (i + 1) = unat (read_offset q) + Suc k"
proof -
  show lt: "i < write_offset q \<longleftrightarrow> k < length xs"
    using q_rep_facts(1) [OF assms(1)] assms(2) by (simp add: word_less_nat_alt)
  assume "k < length xs"
  then show "unat (i + 1) = unat (read_offset q) + Suc k"
    using unat_inc [of i "write_offset q"] lt assms(2) by simp
qed

lemma queued_from_rep:
  assumes "q_rep q xs" and "unat i = unat (read_offset q) + k" and "k \<le> length xs"
  shows "queued_from q i x = Some (x \<in> set (drop k xs))"
  using assms(2,3)
proof (induction "length xs - k" arbitrary: i k)
  case 0
  then show ?case
    using offset_step(1) [OF assms(1) 0(2)] by (simp add: queued_from.simps)
next
  case (Suc m)
  then have k: "k < length xs"
    by simp
  have "queued_from q (i + 1) x = Some (x \<in> set (drop (Suc k) xs))"
    using Suc(1) [of "Suc k" "i + 1"] Suc(2) offset_step(2) [OF assms(1) Suc(3) k] k by simp
  moreover have "elem_load q i = Some (xs ! k)"
    using q_ring_load [OF q_rep_ring [OF assms(1)] k Suc(3)] .
  ultimately show ?case
    using offset_step(1) [OF assms(1) Suc(3)] k
    by (subst queued_from.simps) (auto simp: Cons_nth_drop_Suc [symmetric])
qed

text \<open>What a reduce does to the list: the callback sees the elements in order.\<close>

fun reduce_list :: "('a, 's) reduce_fn \<Rightarrow> 'a list \<Rightarrow> 's \<Rightarrow> 'a list \<times> 's" where
  "reduce_list cb [] udata = ([], udata)"
| "reduce_list cb (x # xs) udata =
     (let (rv, udata) = cb x udata in
      if rv = - 1 then (x # xs, udata)
      else if rv = - 2 then (xs, udata)
      else let (ys, udata) = reduce_list cb xs udata in (x # ys, udata))"

lemma reduce_loop_rep:
  assumes "q_rep q xs" and "unat i = unat (read_offset q) + k" and "k \<le> length xs"
  shows "\<exists>q'. reduce_loop q i cb u = Some (q', snd (reduce_list cb (drop k xs) u)) \<and>
    q_rep q' (take k xs @ fst (reduce_list cb (drop k xs) u)) \<and> threadsafe q' = threadsafe q"
  using assms(2,3)
proof (induction "length xs - k" arbitrary: i k u)
  case 0
  then show ?case
    using offset_step(1) [OF assms(1) 0(2)] assms(1) by (simp add: reduce_loop.simps)
next
  case (Suc m)
  then have k: "k < length xs"
    by simp
  obtain rv u' where cb: "cb (xs ! k) u = (rv, u')"
    by fastforce
  have ld: "elem_load q i = Some (xs ! k)"
    using q_ring_load [OF q_rep_ring [OF assms(1)] k Suc(3)] .
  have dr: "drop k xs = xs ! k # drop (Suc k) xs" "take (Suc k) xs = take k xs @ [xs ! k]"
    using k by (simp_all add: Cons_nth_drop_Suc take_Suc_conv_app_nth)
  note step = offset_step [OF assms(1) Suc(3)]
  consider "rv = - 1" | "rv = - 2" | "rv \<noteq> - 1" "rv \<noteq> - 2"
    by blast
  then show ?case
  proof cases
    case 1
    then show ?thesis
      using step(1) k ld cb assms(1) dr by (subst reduce_loop.simps) (simp add: id_take_nth_drop [symmetric])
  next
    case 2
    obtain q' where "cf_queue_delete_offset q i = Some q'" "q_rep q' (without k xs)"
        "threadsafe q' = threadsafe q"
      using delete_offset_rep [OF assms(1) k Suc(3)] .
    with 2 show ?thesis
      using step(1) k ld cb dr by (subst reduce_loop.simps) (simp add: without_def)
  next
    case 3
    then show ?thesis
      using Suc(1) [of "Suc k" "i + 1" u'] Suc(2) step k ld cb dr
      by (subst reduce_loop.simps) (auto split: prod.splits)
  qed
qed


subsection \<open>Deleting by value\<close>

lemma without_remove1: "k < length xs \<Longrightarrow> x \<notin> set (take k xs) \<Longrightarrow> xs ! k = x \<Longrightarrow> without k xs = remove1 x xs"
  unfolding without_def
  by (subst (3) id_take_nth_drop [of k xs]) (simp_all add: remove1_append)

lemma delete_loop_one:
  assumes "q_rep q xs" and "unat i = unat (read_offset q) + k" and "k \<le> length xs"
    and "x \<notin> set (take k xs)"
  shows "\<exists>q'. delete_loop q i (Some x) True False = Some (q', x \<in> set xs) \<and>
    q_rep q' (remove1 x xs) \<and> threadsafe q' = threadsafe q"
  using assms(2-4)
proof (induction "length xs - k" arbitrary: i k)
  case 0
  then have "k = length xs"
    by simp
  with 0 show ?case
    using offset_step(1) [OF assms(1) 0(2)] assms(1)
    by (subst delete_loop.simps) (simp add: remove1_idem)
next
  case (Suc m)
  then have k: "k < length xs"
    by simp
  have ld: "elem_load q i = Some (xs ! k)"
    using q_ring_load [OF q_rep_ring [OF assms(1)] k Suc(3)] .
  note step = offset_step [OF assms(1) Suc(3)]
  show ?case
  proof (cases "xs ! k = x")
    case True
    obtain q' where "cf_queue_delete_offset q i = Some q'" "q_rep q' (without k xs)"
        "threadsafe q' = threadsafe q"
      using delete_offset_rep [OF assms(1) k Suc(3)] .
    with True Suc k show ?thesis
      using step(1) ld nth_mem [OF k]
      by (subst delete_loop.simps) (simp add: without_remove1)
  next
    case False
    then have "x \<notin> set (take (Suc k) xs)"
      using Suc(5) k by (simp add: take_Suc_conv_app_nth)
    with False show ?thesis
      using Suc(1) [of "Suc k" "i + 1"] Suc(2) step k ld by (subst delete_loop.simps) simp
  qed
qed

lemma delete_loop_all:
  "q_rep q xs \<Longrightarrow> \<exists>q'. delete_loop q (read_offset q) None False f = Some (q', f \<or> xs \<noteq> []) \<and>
     q_rep q' [] \<and> threadsafe q' = threadsafe q"
proof (induction xs arbitrary: q f)
  case Nil
  then show ?case
    using offset_step(1) [OF Nil, of "read_offset q" 0] by (subst delete_loop.simps) simp
next
  case (Cons x xs)
  let ?q = "q\<lparr>read_offset := read_offset q + 1\<rparr>"
  have "cf_queue_delete_offset q (read_offset q) = Some ?q"
    using q_rep_facts(5) [OF Cons(2)] by (simp add: cf_queue_delete_offset_def)
  moreover have "q_rep ?q xs"
    using q_ring_tl(1) [OF q_rep_ring [OF Cons(2)]] Cons(2) by (simp add: q_rep_def)
  moreover have "read_offset q < write_offset q"
    using offset_step(1) [OF Cons(2), of "read_offset q" 0] by simp
  ultimately show ?case
    using Cons(1) [of ?q True] by (subst delete_loop.simps) simp
qed


subsection \<open>Iterating in reverse\<close>

definition reduce_list_rev :: "('a, 's) reduce_fn \<Rightarrow> 'a list \<Rightarrow> 's \<Rightarrow> 'a list \<times> 's" where
  "reduce_list_rev cb xs udata = map_prod rev id (reduce_list cb (rev xs) udata)"

lemma reduce_reverse_loop_rep:
  assumes "q_rep q xs" and "0 < unat (read_offset q)" and "k \<le> length xs"
    and "unat i + 1 = unat (read_offset q) + k" and "k < fuel"
  shows "\<exists>q'. reduce_reverse_loop fuel q i cb u = Done (q', snd (reduce_list_rev cb (take k xs) u)) \<and>
    q_rep q' (fst (reduce_list_rev cb (take k xs) u) @ drop k xs) \<and> threadsafe q' = threadsafe q"
  using assms(3-5)
proof (induction k arbitrary: i u fuel)
  case 0
  then have "\<not> read_offset q \<le> i" and "\<exists>f. fuel = Suc f"
    by (auto simp: word_le_nat_alt gr0_conv_Suc)
  with assms(1) show ?case
    by (auto simp: reduce_list_rev_def)
next
  case (Suc k)
  then obtain f where f: "fuel = Suc f" "k < f"
    by (cases fuel) auto
  have k: "k < length xs" and i: "unat i = unat (read_offset q) + k" and "read_offset q \<le> i"
    using Suc by (simp_all add: word_le_nat_alt)
  obtain rv u' where cb: "cb (xs ! k) u = (rv, u')"
    by fastforce
  have ld: "elem_load q i = Some (xs ! k)"
    using q_ring_load [OF q_rep_ring [OF assms(1)] k i] .
  have tk: "take (Suc k) xs = take k xs @ [xs ! k]" "drop k xs = xs ! k # drop (Suc k) xs"
    using k by (simp_all add: take_Suc_conv_app_nth Cons_nth_drop_Suc)
  have "unat (i - 1) = unat i - 1"
    using i assms(2) by (intro unat_dec) (simp add: word_less_nat_alt)
  then have IH: "\<exists>q'. reduce_reverse_loop f q (i - 1) cb u' = Done (q', snd (reduce_list_rev cb (take k xs) u')) \<and>
    q_rep q' (fst (reduce_list_rev cb (take k xs) u') @ drop k xs) \<and> threadsafe q' = threadsafe q"
    using Suc(1) [of "i - 1" f u'] k i f assms(2) by simp
  obtain q' where "cf_queue_delete_offset q i = Some q'" "q_rep q' (without k xs)"
      "threadsafe q' = threadsafe q"
    using delete_offset_rep [OF assms(1) k i] .
  with IH cb ld \<open>read_offset q \<le> i\<close> assms(1) show ?case
    by (auto simp: f reduce_list_rev_def tk without_def id_take_nth_drop [OF k, symmetric]
        split: prod.splits)
qed

text \<open>With the read offset at zero the condition of the reverse loop always holds.\<close>

lemma reduce_reverse_loop_stuck:
  assumes "read_offset q = 0" and "\<And>x u. fst (cb x u) \<noteq> - 1 \<and> fst (cb x u) \<noteq> - 2"
  shows "reduce_reverse_loop fuel q i cb u \<noteq> Done r"
proof (induction fuel arbitrary: i u)
  case (Suc fuel)
  then show ?case
    using assms by (auto split: option.splits prod.splits) (metis fst_conv)+
qed simp


subsection \<open>Pushing at the head and without duplicates\<close>

lemma ring_cons:
  assumes "0 < r" and "n < length s"
  shows "ring (s[(r - 1) mod length s := x]) (r - 1) (Suc n) = x # ring s r n"
proof -
  have "ring (s[(r - 1) mod length s := x]) r n = ring s r n"
  proof (rule nth_equalityI)
    fix j assume "j < length (ring (s[(r - 1) mod length s := x]) r n)"
    then have "(r + j) mod length s \<noteq> (r - 1) mod length s" "j < n"
      using assms slot_distinct [of 0 "Suc j" "length s" "r - 1"] by auto
    then show "ring (s[(r - 1) mod length s := x]) r n ! j = ring s r n ! j"
      by (simp add: nth_ring)
  qed simp
  with assms show ?thesis
    by (subst ring_Suc) (simp add: mod_less_divisor [OF le_less_trans [OF le0 assms(2)]])
qed

lemma ring_shift_front:
  assumes "n < length s" and "length s' = length s"
    and "\<And>p. p < length s \<Longrightarrow> s' ! p = (if 1 \<le> p \<and> p < 1 + n then s ! (p - 1) else s ! p)"
  shows "ring (s'[0 := x]) 0 (Suc n) = x # ring s 0 n"
proof (rule nth_equalityI)
  fix j assume "j < length (ring (s'[0 := x]) 0 (Suc n))"
  moreover have "0 < length s'"
    using assms(1,2) by linarith
  ultimately show "ring (s'[0 := x]) 0 (Suc n) ! j = (x # ring s 0 n) ! j"
    using assms by (cases j) (auto simp: nth_ring)
qed simp

lemma push_front_shift:
  assumes "q_rep q xs" and "length xs < unat (allocsz q)" and "xs \<noteq> []" and "read_offset q = 0"
  obtains q' where "push_front q x = Some q'" "q_ring q' (x # xs)" "threadsafe q' = threadsafe q"
proof -
  obtain s where s: "queue q = Some s" "length s = unat (allocsz q)"
      "ring s (unat (read_offset q)) (length xs) = map Some xs"
    using assms(1) by (elim q_rep_ring [THEN q_ringE])
  note f = q_rep_facts [OF assms(1)] and sz = q_ring_sz [OF q_rep_ring [OF assms(1)]]
  have n: "0 < length xs" "length xs < length s" "Suc (length xs) \<le> length s"
    using s assms by simp_all
  obtain s' where s': "slots_move q 1 0 (length xs) = Some (q\<lparr>queue := Some s'\<rparr>)" "length s' = length s"
    "\<And>p. p < length s \<Longrightarrow> s' ! p = (if 1 \<le> p \<and> p < 1 + length xs then s ! (0 + (p - 1)) else s ! p)"
    using slots_move_eq [OF s(1), of 0 "length xs" 1] n by auto
  then have rg: "ring (s'[0 := Some x]) 0 (Suc (length xs)) = Some x # map Some xs"
    using ring_shift_front [OF n(2) s'(2), of "Some x"] s(3) assms(4) by simp
  let ?q = "q\<lparr>queue := Some (s'[0 := Some x]), write_offset := write_offset q + 1\<rparr>"
  have "unat (write_offset q + 1) = unat (write_offset q) + 1"
    using f(6) by (intro trans [OF unat_add_small]) simp_all
  with rg have "q_ring ?q (x # xs)"
    using s s'(2) f n assms(4) by (auto simp: q_ring_def)
  moreover have "1 < unat (allocsz q)"
    using n s(2) by linarith
  then have "unat (1 mod allocsz q) = 1"
    unfolding unat_mod by (simp only: unat_1 mod_less)
  ultimately show ?thesis
    using assms sz s s' f
    by (intro that [of ?q]) (simp_all add: push_front_def elem_store_eq CF_Q_ELEM_PTR_def)
qed

lemma push_front_rep:
  assumes "q_rep q xs" and "length xs < unat (allocsz q)"
  obtains q' where "push_front q x = Some q'" "q_ring q' (x # xs)" "threadsafe q' = threadsafe q"
proof -
  obtain s where s: "queue q = Some s" "length s = unat (allocsz q)"
      "ring s (unat (read_offset q)) (length xs) = map Some xs"
    using assms(1) by (elim q_rep_ring [THEN q_ringE])
  note f = q_rep_facts [OF assms(1)] and sz = q_ring_sz [OF q_rep_ring [OF assms(1)]]
  consider "xs = []" | "xs \<noteq> []" "0 < read_offset q" | "xs \<noteq> []" "read_offset q = 0"
    using word_neq_0_conv [of "read_offset q"] by blast
  then show ?thesis
  proof cases
    case 1
    obtain s' where "elem_store q (write_offset q) x = Some (q\<lparr>queue := Some s'\<rparr>)"
        "q_ring (q\<lparr>queue := Some s', write_offset := write_offset q + 1\<rparr>) (xs @ [x])"
      using store_snoc [OF assms] .
    with 1 sz show ?thesis
      by (intro that [of "q\<lparr>queue := Some s', write_offset := write_offset q + 1\<rparr>"])
        (simp_all add: push_front_def)
  next
    case 2
    let ?r = "read_offset q - 1"
    let ?q = "q\<lparr>read_offset := ?r, queue := Some (s[unat ?r mod length s := Some x])\<rparr>"
    have r: "unat ?r = unat (read_offset q) - 1" "0 < unat (read_offset q)"
      using 2 by (simp_all add: unat_dec word_less_nat_alt)
    have "q_ring ?q (x # xs)"
      using s f r assms(2) ring_cons [OF r(2), of "length xs" s "Some x"]
      by (auto simp: q_ring_def Suc_le_eq)
    then show ?thesis
      using 2 sz s f by (intro that [of ?q]) (simp_all add: push_front_def elem_store_eq)
  next
    case 3
    then show ?thesis
      using push_front_shift [OF assms] that by blast
  qed
qed

lemma push_head_rep:
  assumes "q_rep q xs" and "length xs < 2 ^ 29"
  obtains q' where "cf_queue_push_head True q x = Some (q', 0)" "q_rep q' (x # xs)"
    "threadsafe q' = threadsafe q"
proof -
  obtain q1 where q1: "grow_if_full True q = Some (q1, 0)" "q_rep q1 xs"
      "length xs < unat (allocsz q1)" "threadsafe q1 = threadsafe q"
    using grow_contents [OF assms] .
  obtain q2 where q2: "push_front q1 x = Some q2" "q_ring q2 (x # xs)" "threadsafe q2 = threadsafe q1"
    using push_front_rep [OF q1(2,3)] by metis
  show ?thesis
    using q1 q2 q_rep_unwrap_if_high [OF q2(2)]
    by (intro that [of "unwrap_if_high q2"]) (simp_all add: cf_queue_push_head_def)
qed

lemma push_unique_rep:
  assumes "q_rep q xs" and "length xs < 2 ^ 29"
  shows "\<exists>q' rv. cf_queue_push_unique True q x = Some (q', rv) \<and> threadsafe q' = threadsafe q \<and>
    (if x \<in> set xs then rv = - 2 \<and> q' = q else rv = 0 \<and> q_rep q' (xs @ [x]))"
proof -
  have dup: "(if CF_Q_SZ q \<noteq> 0 then queued_from q (read_offset q) x else Some False) = Some (x \<in> set xs)"
    using queued_from_rep [OF assms(1), of "read_offset q" 0 x] q_ring_sz(2) [OF q_rep_ring [OF assms(1)]]
    by simp
  obtain q1 where q1: "grow_if_full True q = Some (q1, 0)" "q_rep q1 xs"
      "length xs < unat (allocsz q1)" "threadsafe q1 = threadsafe q"
    using grow_contents [OF assms] .
  obtain q2 where "push_tail q1 x = Some q2" "q_rep q2 (xs @ [x])" "threadsafe q2 = threadsafe q1"
    using q_rep_push_tail [OF q1(2,3)] by metis
  with q1 show ?thesis
    by (auto simp: cf_queue_push_unique_def dup)
qed


subsection \<open>The interface of a bounded queue\<close>

text \<open>
  What a client that fills and drains a queue relies on.  \<open>rep q xs\<close>: the queue holds
  \<open>xs\<close>, oldest first; \<open>pop\<close> gives \<^term>\<open>Some None\<close> on an empty queue;
  \<open>push\<close> refuses an element beyond the limit.
\<close>

locale bounded_fifo =
  fixes rep :: "'q \<Rightarrow> 'a list \<Rightarrow> bool"
    and pop :: "'q \<Rightarrow> ('a option \<times> 'q) option"
    and push :: "nat \<Rightarrow> 'q \<Rightarrow> 'a \<Rightarrow> (bool \<times> 'q) option"
    and bound :: nat
  assumes pop_empty: "rep q [] \<Longrightarrow> pop q = Some (None, q)"
    and pop_first: "rep q (x # xs) \<Longrightarrow> \<exists>q'. pop q = Some (Some x, q') \<and> rep q' xs"
    and push_last: "rep q xs \<Longrightarrow> length xs < limit \<Longrightarrow> limit \<le> bound \<Longrightarrow>
      \<exists>q'. push limit q x = Some (True, q') \<and> rep q' (xs @ [x])"
    and push_over: "rep q xs \<Longrightarrow> limit \<le> length xs \<Longrightarrow> push limit q x = Some (False, q)"
begin

lemma push_cases:
  assumes "rep q xs" and "limit \<le> bound"
  obtains q' where "push limit q x = Some (length xs < limit, q')"
    "rep q' (if length xs < limit then xs @ [x] else xs)"
proof (cases "length xs < limit")
  case True
  then obtain q' where "push limit q x = Some (True, q')" "rep q' (xs @ [x])"
    using push_last [OF assms(1) _ assms(2)] by blast
  with True show ?thesis
    by (intro that [of q']) simp_all
next
  case False
  then show ?thesis
    using push_over [OF assms(1), of limit x] assms(1) by (intro that [of q]) simp_all
qed

lemma pop_cases:
  assumes "rep q xs"
  obtains q' where "pop q = Some (case xs of [] \<Rightarrow> None | x # _ \<Rightarrow> Some x, q')" "rep q' (tl xs)"
  using pop_empty [of q] pop_first [of q] assms by (cases xs) auto

end

text \<open>A client's calls, their effect on a queue, and on the list it stands for.\<close>

datatype 'a fifo_call = Give 'a | Take

datatype 'a fifo_reply = Given bool | Taken "'a option"

fun run_calls ::
  "('q \<Rightarrow> ('a option \<times> 'q) option) \<Rightarrow> ('q \<Rightarrow> 'a \<Rightarrow> (bool \<times> 'q) option) \<Rightarrow> 'q \<Rightarrow> 'a fifo_call list \<Rightarrow>
   ('a fifo_reply list \<times> 'q) option" where
  "run_calls pop push q [] = Some ([], q)"
| "run_calls pop push q (Give x # cs) =
     do { (ok, q) \<leftarrow> push q x; (rs, q) \<leftarrow> run_calls pop push q cs; Some (Given ok # rs, q) }"
| "run_calls pop push q (Take # cs) =
     do { (x, q) \<leftarrow> pop q; (rs, q) \<leftarrow> run_calls pop push q cs; Some (Taken x # rs, q) }"

fun list_calls :: "nat \<Rightarrow> 'a list \<Rightarrow> 'a fifo_call list \<Rightarrow> 'a fifo_reply list \<times> 'a list" where
  "list_calls limit xs [] = ([], xs)"
| "list_calls limit xs (Give x # cs) =
     (let (rs, ys) = list_calls limit (if length xs < limit then xs @ [x] else xs) cs
      in (Given (length xs < limit) # rs, ys))"
| "list_calls limit xs (Take # cs) =
     (let (rs, ys) = list_calls limit (tl xs) cs
      in (Taken (case xs of [] \<Rightarrow> None | x # _ \<Rightarrow> Some x) # rs, ys))"

context bounded_fifo
begin

lemma calls_agree:
  assumes "limit \<le> bound" and "rep q xs"
  shows "\<exists>q'. run_calls pop (push limit) q cs = Some (fst (list_calls limit xs cs), q') \<and>
    rep q' (snd (list_calls limit xs cs))"
  using assms(2)
proof (induction cs arbitrary: q xs)
  case (Cons c cs)
  show ?case
  proof (cases c)
    case (Give x)
    obtain q1 where q1: "push limit q x = Some (length xs < limit, q1)"
        "rep q1 (if length xs < limit then xs @ [x] else xs)"
      using push_cases [OF Cons(2) assms(1)] .
    then obtain q2 where "run_calls pop (push limit) q1 cs =
        Some (fst (list_calls limit (if length xs < limit then xs @ [x] else xs) cs), q2)"
        "rep q2 (snd (list_calls limit (if length xs < limit then xs @ [x] else xs) cs))"
      using Cons(1) by blast
    with q1(1) show ?thesis
      by (simp add: Give split_beta)
  next
    case Take
    obtain q1 where q1: "pop q = Some (case xs of [] \<Rightarrow> None | x # _ \<Rightarrow> Some x, q1)" "rep q1 (tl xs)"
      using pop_cases [OF Cons(2)] .
    then obtain q2 where "run_calls pop (push limit) q1 cs = Some (fst (list_calls limit (tl xs) cs), q2)"
        "rep q2 (snd (list_calls limit (tl xs) cs))"
      using Cons(1) by blast
    with q1(1) show ?thesis
      by (simp add: Take split_beta)
  qed
qed simp

lemma calls_bounded:
  "length xs \<le> limit \<Longrightarrow> length (snd (list_calls limit xs cs)) \<le> limit"
  by (induction limit xs cs rule: list_calls.induct) (auto simp: split_beta)

end

text \<open>The two calls of the interface on \<^verbatim>\<open>cf_queue\<close>: popping without waiting, and \<^verbatim>\<open>cf_queue_push_limit\<close>.\<close>

definition q_pop :: "'a cf_queue \<Rightarrow> ('a option \<times> 'a cf_queue) option" where
  "q_pop q = (case cf_queue_pop q CF_QUEUE_NOWAIT [] of
                Some (Popped x q') \<Rightarrow> Some (Some x, q')
              | Some (Empty q') \<Rightarrow> Some (None, q')
              | _ \<Rightarrow> None)"

definition q_push :: "nat \<Rightarrow> 'a cf_queue \<Rightarrow> 'a \<Rightarrow> (bool \<times> 'a cf_queue) option" where
  "q_push limit q x = map_option prod.swap (cf_queue_push_limit True q x (of_nat limit))"

lemma pop_nowait:
  "q_rep q xs \<Longrightarrow> cf_queue_pop q CF_QUEUE_NOWAIT [] = (if xs = [] then Some (Empty q) else pop_elem q)"
  by (simp add: cf_queue_pop_def pop_wait.simps q_ring_sz(3) [OF q_rep_ring])

interpretation cfq: bounded_fifo q_rep q_pop q_push "2 ^ 29"
proof
  fix q :: "'a cf_queue" and x xs limit
  show "q_rep q [] \<Longrightarrow> q_pop q = Some (None, q)"
    by (simp add: q_pop_def pop_nowait)
  show "q_rep q (x # xs) \<Longrightarrow> \<exists>q'. q_pop q = Some (Some x, q') \<and> q_rep q' xs"
    by (auto simp: q_pop_def pop_nowait elim!: pop_elem_rep)
  have lim: "unat (of_nat limit :: u32) = limit" if "limit \<le> 2 ^ 29"
    using that by (simp add: unat_of_nat)
  show "\<exists>q'. q_push limit q x = Some (True, q') \<and> q_rep q' (xs @ [x])"
    if rep: "q_rep q xs" and l: "length xs < limit" "limit \<le> 2 ^ 29"
  proof -
    obtain q' where "cf_queue_push_limit True q x (of_nat limit) = Some (q', True)" "q_rep q' (xs @ [x])"
      using push_limit_rep [OF rep, of "of_nat limit" x] l lim by auto
    then show ?thesis
      by (auto simp: q_push_def)
  qed
  show "q_push limit q x = Some (False, q)" if "q_rep q xs" "limit \<le> length xs"
    using push_limit_full [OF that(1), of "of_nat limit" True x] that q_rep_facts [OF that(1)]
    by (simp add: q_push_def unat_of_nat)
qed

subsection \<open>Properties\<close>

lemma create_rep:
  assumes "cf_queue_create malloc_q malloc_buf mutex_init cond_init ts = Some q"
  shows "q_rep q []" and "threadsafe q = ts"
  using assms by (auto simp: cf_queue_create_def CF_QUEUE_ALLOCSZ_def q_rep_def q_ring_def Let_def
      split: if_splits)

text \<open>
  C11.  A queue fresh from \<^verbatim>\<open>cf_queue_create\<close>, used by any sequence of \<^verbatim>\<open>cf_queue_push_limit\<close> and
  non-waiting \<^verbatim>\<open>cf_queue_pop\<close> calls, answers every call as a bounded first-in first-out list
  does, whatever growth and wrap-around of the offsets the sequence causes: no call faults, an element
  is refused exactly when the queue holds \<open>limit\<close> elements, elements come out in the order in
  which they were accepted, and the queue never holds more than \<open>limit\<close>.
\<close>

theorem queue_is_bounded_fifo:
  assumes "cf_queue_create True True True True ts = Some q" and "limit \<le> 2 ^ 29"
  shows "\<exists>q'. run_calls q_pop (q_push limit) q cs = Some (fst (list_calls limit [] cs), q') \<and>
    q_rep q' (snd (list_calls limit [] cs)) \<and> length (snd (list_calls limit [] cs)) \<le> limit"
  using cfq.calls_agree [OF assms(2) create_rep(1) [OF assms(1)]] cfq.calls_bounded [of "[]" limit cs]
  by auto

theorem queue_is_bounded_fifo_witness:
  "\<exists>q q'. cf_queue_create True True True True True = Some (q :: int cf_queue) \<and>
    run_calls q_pop (q_push 2) q [Give 5, Give 6, Give 7, Take, Take, Take] =
      Some ([Given True, Given True, Given False, Taken (Some 5), Taken (Some 6), Taken None], q')"
proof -
  obtain q :: "int cf_queue" where q: "cf_queue_create True True True True True = Some q"
    by (simp add: cf_queue_create_def Let_def)
  then show ?thesis
    using queue_is_bounded_fifo [OF q, of 2 "[Give 5, Give 6, Give 7, Take, Take, Take]"] by auto
qed

text \<open>
  The three pushes that grow the queue, when the allocation succeeds: \<^verbatim>\<open>cf_queue_push\<close>
  appends, \<^verbatim>\<open>cf_queue_push_head\<close> prepends, and \<^verbatim>\<open>cf_queue_push_unique\<close> appends unless the
  element is queued, when it returns -2 and changes nothing.  All keep the elements already
  queued, also when the buffer grows or the offsets are brought back.
\<close>

theorem queue_pushes:
  assumes "q_rep q xs" and "length xs < 2 ^ 29"
  shows "(\<exists>q'. cf_queue_push True q x = Some (q', 0) \<and> q_rep q' (xs @ [x])) \<and>
    (\<exists>q'. cf_queue_push_head True q x = Some (q', 0) \<and> q_rep q' (x # xs)) \<and>
    (\<exists>q' rv. cf_queue_push_unique True q x = Some (q', rv) \<and>
       (if x \<in> set xs then rv = - 2 \<and> q' = q else rv = 0 \<and> q_rep q' (xs @ [x])))"
proof (intro conjI)
  show "\<exists>q'. cf_queue_push True q x = Some (q', 0) \<and> q_rep q' (xs @ [x])"
    using push_rep [OF assms] by metis
  show "\<exists>q'. cf_queue_push_head True q x = Some (q', 0) \<and> q_rep q' (x # xs)"
    using push_head_rep [OF assms] by metis
qed (use push_unique_rep [OF assms, of x] in blast)

text \<open>A queue whose elements wrap around the end of its 64 slots.\<close>

definition wrapped_queue :: "int cf_queue" where
  "wrapped_queue = \<lparr>threadsafe = False, allocsz = 64, write_offset = 67, read_offset = 63,
     queue = Some ([Some 2, Some 2, Some 3] @ replicate 60 None @ [Some 1])\<rparr>"

lemma wrapped_queue_rep: "q_rep wrapped_queue [1, 2, 2, 3]"
proof -
  let ?s = "[Some 2, Some 2, Some 3] @ replicate 60 None @ [Some (1 :: int)]"
  have len: "length ?s = 64"
    by simp
  have "ring ?s 63 (length [1, 2, 2, 3 :: int]) = map Some [1, 2, 2, 3]"
    unfolding ring_def len by (simp add: upt_rec nth_append)
  with len show ?thesis
    by (simp add: q_rep_def q_ring_def wrapped_queue_def)
qed

theorem queue_pushes_witness:
  "(\<exists>q'. cf_queue_push True wrapped_queue 9 = Some (q', 0) \<and> q_rep q' [1, 2, 2, 3, 9]) \<and>
    (\<exists>q'. cf_queue_push_head True wrapped_queue 9 = Some (q', 0) \<and> q_rep q' [9, 1, 2, 2, 3]) \<and>
    (\<exists>q'. cf_queue_push_unique True wrapped_queue 9 = Some (q', 0) \<and> q_rep q' [1, 2, 2, 3, 9])"
  using queue_pushes [OF wrapped_queue_rep, of 9] by auto

text \<open>
  C26.  Removal: \<^verbatim>\<open>cf_queue_delete_offset\<close> on a queued offset removes exactly that element,
  \<^verbatim>\<open>cf_queue_delete\<close> with \<^verbatim>\<open>only_one\<close> removes the oldest equal element and reports whether there
  was one, and \<^verbatim>\<open>cf_queue_delete_all\<close> empties the queue.
\<close>

theorem queue_deletes:
  assumes "q_rep q xs"
  shows "(\<forall>k i. k < length xs \<and> unat i = unat (read_offset q) + k \<longrightarrow>
       (\<exists>q'. cf_queue_delete_offset q i = Some q' \<and> q_rep q' (take k xs @ drop (Suc k) xs))) \<and>
    (\<exists>q'. cf_queue_delete q (Some x) True =
         Some (q', if x \<in> set xs then CF_QUEUE_OK else CF_QUEUE_EMPTY) \<and> q_rep q' (remove1 x xs)) \<and>
    (\<exists>q' rv. cf_queue_delete_all q = Some (q', rv) \<and> q_rep q' [])"
proof (intro conjI allI impI)
  show "\<exists>q'. cf_queue_delete_offset q i = Some q' \<and> q_rep q' (take k xs @ drop (Suc k) xs)"
    if "k < length xs \<and> unat i = unat (read_offset q) + k" for k i
    using delete_offset_rep [OF assms] that unfolding without_def by metis
  show "\<exists>q'. cf_queue_delete q (Some x) True =
      Some (q', if x \<in> set xs then CF_QUEUE_OK else CF_QUEUE_EMPTY) \<and> q_rep q' (remove1 x xs)"
    using delete_loop_one [OF assms, of "read_offset q" 0 x] q_ring_sz(2) [OF q_rep_ring [OF assms]] assms
    by (auto simp: cf_queue_delete_def)
  show "\<exists>q' rv. cf_queue_delete_all q = Some (q', rv) \<and> q_rep q' []"
    using delete_loop_all [OF assms, of False] q_ring_sz(2) [OF q_rep_ring [OF assms]] assms
    by (auto simp: cf_queue_delete_all_def cf_queue_delete_def)
qed

theorem queue_deletes_witness:
  "(\<exists>q'. cf_queue_delete_offset wrapped_queue 64 = Some q' \<and> q_rep q' [1, 2, 3]) \<and>
    (\<exists>q'. cf_queue_delete wrapped_queue (Some 2) True = Some (q', CF_QUEUE_OK) \<and> q_rep q' [1, 2, 3]) \<and>
    (\<exists>q' rv. cf_queue_delete_all wrapped_queue = Some (q', rv) \<and> q_rep q' [])"
proof -
  have "unat (64 :: u32) = unat (read_offset wrapped_queue) + 1"
    by (simp add: wrapped_queue_def)
  then show ?thesis
    using queue_deletes [OF wrapped_queue_rep, of 2]
      queue_deletes [OF wrapped_queue_rep, of 2, THEN conjunct1, rule_format, of 1 64] by simp
qed

lemma wrapped_delete:
  "cf_queue_delete_offset wrapped_queue 64 =
     Some (wrapped_queue\<lparr>write_offset := 66,
             queue := Some ([Some 2, Some 3, Some 3] @ replicate 60 None @ [Some 1])\<rparr>)"
  by (simp add: cf_queue_delete_offset_def wrapped_queue_def slots_move_def mem_read_def mem_write_def)

text \<open>
  Deleting every element equal to a value, \<^verbatim>\<open>cf_queue_delete\<close> without \<^verbatim>\<open>only_one\<close>, can leave
  such an element behind: where the queue wraps, deletion moves the next element down to the offset
  that the loop then steps over.
\<close>

theorem delete_value_can_miss:
  "\<exists>q'. cf_queue_delete wrapped_queue (Some 2) False = Some (q', CF_QUEUE_OK) \<and> q_rep q' [1, 2, 3]"
proof -
  obtain q' where q': "cf_queue_delete_offset wrapped_queue 64 = Some q'" "q_rep q' [1, 2, 3]"
    using delete_offset_rep [OF wrapped_queue_rep, of 1 64] by (auto simp: wrapped_queue_def without_def)
  have off: "read_offset q' = 63" "write_offset q' = 66" "read_offset wrapped_queue = 63"
      "write_offset wrapped_queue = 67" "CF_Q_SZ wrapped_queue \<noteq> 0"
    using q'(1) unfolding wrapped_delete by (auto simp: wrapped_queue_def CF_Q_SZ_def)
  have "elem_load wrapped_queue 63 = Some 1" "elem_load wrapped_queue 64 = Some 2"
      "elem_load q' 65 = Some 3"
    using q_ring_load [OF q_rep_ring [OF wrapped_queue_rep], of 0 63]
      q_ring_load [OF q_rep_ring [OF wrapped_queue_rep], of 1 64]
      q_ring_load [OF q_rep_ring [OF q'(2)], of 2 65] off by simp_all
  with off q' show ?thesis
    by (simp add: cf_queue_delete_def delete_loop.simps)
qed

text \<open>
  \<^verbatim>\<open>cf_queue_reduce\<close> calls back on the elements from the oldest on, stops at -1, removes the
  element and stops at -2; \<^verbatim>\<open>cf_queue_reduce_reverse\<close> does the same from the newest on and
  returns, provided the read offset is not zero.
\<close>

theorem queue_reduce:
  assumes "q_rep q xs" and "read_offset q \<noteq> 0" and "length xs < fuel"
  shows "(\<exists>q'. cf_queue_reduce q cb u = Some (q', snd (reduce_list cb xs u), 0) \<and>
       q_rep q' (fst (reduce_list cb xs u))) \<and>
    (\<exists>q'. cf_queue_reduce_reverse fuel q cb u = Done (q', snd (reduce_list_rev cb xs u), 0) \<and>
       q_rep q' (fst (reduce_list_rev cb xs u)))"
proof
  note sz = q_ring_sz(2) [OF q_rep_ring [OF assms(1)]]
  show "\<exists>q'. cf_queue_reduce q cb u = Some (q', snd (reduce_list cb xs u), 0) \<and>
      q_rep q' (fst (reduce_list cb xs u))"
    using reduce_loop_rep [OF assms(1), of "read_offset q" 0 cb u] sz assms(1)
    by (auto simp: cf_queue_reduce_def)
  have r: "0 < unat (read_offset q)"
    using assms(2) by (simp add: unat_gt_0)
  show "\<exists>q'. cf_queue_reduce_reverse fuel q cb u = Done (q', snd (reduce_list_rev cb xs u), 0) \<and>
      q_rep q' (fst (reduce_list_rev cb xs u))"
  proof (cases "xs = []")
    case True
    with sz assms(1) show ?thesis
      by (simp add: cf_queue_reduce_reverse_def reduce_list_rev_def)
  next
    case False
    then have "unat (write_offset q - 1) + 1 = unat (read_offset q) + length xs"
      using q_rep_facts(8) [OF assms(1)] by (simp add: Suc_le_eq flip: add_Suc_right)
    then show ?thesis
      using reduce_reverse_loop_rep [OF assms(1) r order.refl _ assms(3), of "write_offset q - 1" cb u]
        False sz by (auto simp: cf_queue_reduce_reverse_def)
  qed
qed

definition sum_until :: "(int, int) reduce_fn" where
  "sum_until x u = (if x = 2 then (- 2, u) else (0, u + x))"

theorem queue_reduce_witness:
  "(\<exists>q'. cf_queue_reduce wrapped_queue sum_until 0 = Some (q', 1, 0) \<and> q_rep q' [1, 2, 3]) \<and>
    (\<exists>q'. cf_queue_reduce_reverse 5 wrapped_queue sum_until 0 = Done (q', 3, 0) \<and> q_rep q' [1, 2, 3])"
proof -
  have "read_offset wrapped_queue \<noteq> 0" "length [1, 2, 2, 3 :: int] < 5"
    by (simp_all add: wrapped_queue_def)
  from queue_reduce [OF wrapped_queue_rep this, of sum_until 0] show ?thesis
    by (simp add: sum_until_def reduce_list_rev_def)
qed

text \<open>
  C28.  \<^verbatim>\<open>cf_queue_reduce_reverse\<close> on a non-empty queue whose read offset is zero never returns
  when the callback answers neither -1 nor -2: the unsigned loop variable steps from 0 to the
  largest offset, which is again at or above the read offset.
\<close>

theorem reduce_reverse_never_returns:
  assumes "q_rep q xs" and "xs \<noteq> []" and "read_offset q = 0"
    and "\<And>x u. fst (cb x u) \<noteq> - 1 \<and> fst (cb x u) \<noteq> - 2"
  shows "cf_queue_reduce_reverse fuel q cb u \<noteq> Done r"
proof -
  have "reduce_reverse_loop fuel q (write_offset q - 1) cb u \<noteq> Done r'" for r'
    by (rule reduce_reverse_loop_stuck) (use assms in auto)
  moreover have "CF_Q_SZ q \<noteq> 0"
    using q_ring_sz(2) [OF q_rep_ring [OF assms(1)]] assms(2) by simp
  ultimately show ?thesis
    by (cases "reduce_reverse_loop fuel q (write_offset q - 1) cb u")
      (auto simp: cf_queue_reduce_reverse_def)
qed

definition front_queue :: "int cf_queue" where
  "front_queue = \<lparr>threadsafe = False, allocsz = 64, write_offset = 1, read_offset = 0,
     queue = Some (Some 7 # replicate 63 None)\<rparr>"

theorem reduce_reverse_never_returns_witness:
  "\<exists>q' :: int cf_queue. q_rep q' [7] \<and> read_offset q' = 0 \<and>
     (\<nexists>fuel r. cf_queue_reduce_reverse fuel q' (\<lambda>x u. (0, u + x)) 0 = Done r)"
proof -
  have "q_rep front_queue [7]"
    by (simp add: q_rep_def q_ring_def front_queue_def ring_def)
  moreover have "read_offset front_queue = 0"
    by (simp add: front_queue_def)
  ultimately show ?thesis
    using reduce_reverse_never_returns [of front_queue "[7]" "\<lambda>x u. (0, u + x)"] by auto
qed

end
