(* ===== verification/PriorityQueue.thy ===== *)
theory PriorityQueue
  imports CfQueueProps
begin

text \<open>
  The priority queue of \<^verbatim>\<open>cf_queue_priority.c\<close>: three unsynchronised queues behind one lock.
  It stands for three lists; popping serves the highest priority that has an element.
\<close>

subsection \<open>State and operations\<close>

record 'a cf_queue_priority =
  pri_threadsafe :: bool
  low_q :: "'a cf_queue"
  medium_q :: "'a cf_queue"
  high_q :: "'a cf_queue"

definition CF_QUEUE_PRIORITY_HIGH :: int where
  "CF_QUEUE_PRIORITY_HIGH = 1"

definition CF_QUEUE_PRIORITY_MEDIUM :: int where
  "CF_QUEUE_PRIORITY_MEDIUM = 2"

definition CF_QUEUE_PRIORITY_LOW :: int where
  "CF_QUEUE_PRIORITY_LOW = 3"

definition CF_Q_PRI_EMPTY :: "'a cf_queue_priority \<Rightarrow> bool" where
  "CF_Q_PRI_EMPTY q \<longleftrightarrow> CF_Q_EMPTY (low_q q) \<and> CF_Q_EMPTY (medium_q q) \<and> CF_Q_EMPTY (high_q q)"

text \<open>
  The arguments say which allocations and initialisations succeed: the structure, the structure and
  buffer of each queue, the mutex, the condition variable.
\<close>

definition cf_queue_priority_create ::
  "bool \<Rightarrow> bool \<times> bool \<Rightarrow> bool \<times> bool \<Rightarrow> bool \<times> bool \<Rightarrow> bool \<Rightarrow> bool \<Rightarrow> bool \<Rightarrow>
   'a cf_queue_priority option" where
  "cf_queue_priority_create malloc_q low medium high mutex_init cond_init ts =
     (if \<not> malloc_q then None
      else case cf_queue_create (fst low) (snd low) True True False of None \<Rightarrow> None
      | Some l \<Rightarrow> (case cf_queue_create (fst medium) (snd medium) True True False of None \<Rightarrow> None
      | Some m \<Rightarrow> (case cf_queue_create (fst high) (snd high) True True False of None \<Rightarrow> None
      | Some h \<Rightarrow>
          let q = \<lparr>pri_threadsafe = ts, low_q = l, medium_q = m, high_q = h\<rparr> in
          if \<not> ts then Some q
          else if \<not> mutex_init then None
          else if \<not> cond_init then None
          else Some q)))"

definition cf_queue_priority_destroy :: "'a cf_queue_priority \<Rightarrow> 'a cf_queue_priority option" where
  "cf_queue_priority_destroy q =
     do { h \<leftarrow> cf_queue_destroy (high_q q); m \<leftarrow> cf_queue_destroy (medium_q q);
          l \<leftarrow> cf_queue_destroy (low_q q);
          Some (q\<lparr>high_q := h, medium_q := m, low_q := l\<rparr>) }"

definition cf_queue_priority_push ::
  "bool \<Rightarrow> 'a cf_queue_priority \<Rightarrow> 'a \<Rightarrow> int \<Rightarrow> ('a cf_queue_priority \<times> int) option" where
  "cf_queue_priority_push alloc q ptr pri =
     (if pri = CF_QUEUE_PRIORITY_HIGH then
        do { (h, rv) \<leftarrow> cf_queue_push alloc (high_q q) ptr; Some (q\<lparr>high_q := h\<rparr>, rv) }
      else if pri = CF_QUEUE_PRIORITY_MEDIUM then
        do { (m, rv) \<leftarrow> cf_queue_push alloc (medium_q q) ptr; Some (q\<lparr>medium_q := m\<rparr>, rv) }
      else if pri = CF_QUEUE_PRIORITY_LOW then
        do { (l, rv) \<leftarrow> cf_queue_push alloc (low_q q) ptr; Some (q\<lparr>low_q := l\<rparr>, rv) }
      else Some (q, - 1))"

text \<open>The pop after any waiting; the element popped, or none, with the return code.\<close>

definition pop_one ::
  "'a cf_queue \<Rightarrow> ('a cf_queue \<Rightarrow> 'a cf_queue_priority) \<Rightarrow>
   ('a cf_queue_priority \<times> 'a option \<times> int) option" where
  "pop_one sub put =
     (case cf_queue_pop sub 0 [] of
        Some (Popped x sub') \<Rightarrow> Some (put sub', Some x, 0)
      | Some (Empty sub') \<Rightarrow> Some (put sub', None, CF_QUEUE_EMPTY)
      | _ \<Rightarrow> None)"

definition priority_pop_ready ::
  "'a cf_queue_priority \<Rightarrow> ('a cf_queue_priority \<times> 'a option \<times> int) option" where
  "priority_pop_ready q =
     (if CF_Q_SZ (high_q q) \<noteq> 0 then pop_one (high_q q) (\<lambda>h. q\<lparr>high_q := h\<rparr>)
      else if CF_Q_SZ (medium_q q) \<noteq> 0 then pop_one (medium_q q) (\<lambda>m. q\<lparr>medium_q := m\<rparr>)
      else if CF_Q_SZ (low_q q) \<noteq> 0 then pop_one (low_q q) (\<lambda>l. q\<lparr>low_q := l\<rparr>)
      else Some (q, None, CF_QUEUE_EMPTY))"

datatype 'a pri_result = Returned "'a cf_queue_priority" "'a option" int | Waiting

fun priority_pop_wait ::
  "'a cf_queue_priority \<Rightarrow> int \<Rightarrow> 'a cf_queue_priority list \<Rightarrow> 'a pri_result option" where
  "priority_pop_wait q ms_wait wakes =
     (if \<not> CF_Q_PRI_EMPTY q then
        map_option (\<lambda>(q, x, rv). Returned q x rv) (priority_pop_ready q)
      else if ms_wait = CF_QUEUE_NOWAIT then Some (Returned q None CF_QUEUE_EMPTY)
      else (case wakes of
              [] \<Rightarrow> Some Waiting
            | q' # wks \<Rightarrow>
                if ms_wait = CF_QUEUE_FOREVER then priority_pop_wait q' ms_wait wks
                else if CF_Q_PRI_EMPTY q' then Some (Returned q' None CF_QUEUE_EMPTY)
                else priority_pop_wait q' ms_wait wks))"

declare priority_pop_wait.simps [simp del]

definition cf_queue_priority_pop ::
  "'a cf_queue_priority \<Rightarrow> int \<Rightarrow> 'a cf_queue_priority list \<Rightarrow> 'a pri_result option" where
  "cf_queue_priority_pop q ms_wait wakes =
     (if pri_threadsafe q then priority_pop_wait q ms_wait wakes
      else map_option (\<lambda>(q, x, rv). Returned q x rv) (priority_pop_ready q))"

definition cf_queue_priority_sz :: "'a cf_queue_priority \<Rightarrow> int" where
  "cf_queue_priority_sz q = cf_queue_sz (high_q q) + cf_queue_sz (medium_q q) + cf_queue_sz (low_q q)"

text \<open>
  The search of \<^verbatim>\<open>cf_queue_priority_reduce_pop\<close>: the callback answers -1 for an element to take
  at once, -2 for the best candidate so far.
\<close>

function candidate_loop ::
  "'a cf_queue \<Rightarrow> u32 \<Rightarrow> ('a, 's) reduce_fn \<Rightarrow> 's \<Rightarrow> u32 option \<Rightarrow> (u32 option \<times> 's) option" where
  "candidate_loop q i cb udata found =
     (if i < write_offset q then
        do { x \<leftarrow> elem_load q i;
             let (rv, udata) = cb x udata in
             if rv = - 1 then Some (Some i, udata)
             else candidate_loop q (i + 1) cb udata (if rv = - 2 then Some i else found) }
      else Some (found, udata))"
  by pat_completeness auto
termination
  by (relation "measure (\<lambda>(q, i, cb, udata, found). unat (write_offset q) - unat i)")
    (auto simp: inc_measure)

declare candidate_loop.simps [simp del]

definition reduce_pop_from ::
  "'a cf_queue \<Rightarrow> ('a cf_queue \<Rightarrow> 'a cf_queue_priority) \<Rightarrow> ('a, 's) reduce_fn \<Rightarrow> 's \<Rightarrow>
   ('a cf_queue_priority \<times> 'a option \<times> 's \<times> int) option" where
  "reduce_pop_from sub put cb udata =
     do { (found, udata) \<leftarrow> candidate_loop sub (read_offset sub) cb udata None;
          (case found of
             None \<Rightarrow> Some (put sub, None, udata, CF_QUEUE_NOMATCH)
           | Some i \<Rightarrow>
               do { x \<leftarrow> elem_load sub i; sub' \<leftarrow> cf_queue_delete_offset sub i;
                    Some (put sub', Some x, udata, 0) }) }"

definition cf_queue_priority_reduce_pop ::
  "'a cf_queue_priority \<Rightarrow> ('a, 's) reduce_fn \<Rightarrow> 's \<Rightarrow>
   ('a cf_queue_priority \<times> 'a option \<times> 's \<times> int) option" where
  "cf_queue_priority_reduce_pop q cb udata =
     (if CF_Q_SZ (high_q q) \<noteq> 0 then reduce_pop_from (high_q q) (\<lambda>h. q\<lparr>high_q := h\<rparr>) cb udata
      else if CF_Q_SZ (medium_q q) \<noteq> 0 then
        reduce_pop_from (medium_q q) (\<lambda>m. q\<lparr>medium_q := m\<rparr>) cb udata
      else if CF_Q_SZ (low_q q) \<noteq> 0 then reduce_pop_from (low_q q) (\<lambda>l. q\<lparr>low_q := l\<rparr>) cb udata
      else Some (q, None, udata, CF_QUEUE_NOMATCH))"


subsection \<open>The three lists\<close>

definition pri_rep :: "'a cf_queue_priority \<Rightarrow> 'a list \<Rightarrow> 'a list \<Rightarrow> 'a list \<Rightarrow> bool" where
  "pri_rep q hs ms ls \<longleftrightarrow> q_rep (high_q q) hs \<and> q_rep (medium_q q) ms \<and> q_rep (low_q q) ls \<and>
     \<not> threadsafe (high_q q) \<and> \<not> threadsafe (medium_q q) \<and> \<not> threadsafe (low_q q)"

lemma pri_create_rep:
  "cf_queue_priority_create malloc_q low medium high mutex_init cond_init ts = Some q \<Longrightarrow>
   pri_rep q [] [] [] \<and> pri_threadsafe q = ts"
  by (auto simp: cf_queue_priority_create_def pri_rep_def create_rep Let_def
      split: option.splits if_splits)

lemma pri_push_rep:
  assumes "pri_rep q hs ms ls" and "length hs < 2 ^ 29" "length ms < 2 ^ 29" "length ls < 2 ^ 29"
  shows "\<exists>q'. cf_queue_priority_push True q x CF_QUEUE_PRIORITY_HIGH = Some (q', 0) \<and>
      pri_rep q' (hs @ [x]) ms ls"
    and "\<exists>q'. cf_queue_priority_push True q x CF_QUEUE_PRIORITY_MEDIUM = Some (q', 0) \<and>
      pri_rep q' hs (ms @ [x]) ls"
    and "\<exists>q'. cf_queue_priority_push True q x CF_QUEUE_PRIORITY_LOW = Some (q', 0) \<and>
      pri_rep q' hs ms (ls @ [x])"
proof -
  have pr: "\<exists>sub'. cf_queue_push True sub x = Some (sub', 0) \<and> q_rep sub' (xs @ [x]) \<and>
      threadsafe sub' = threadsafe sub" if "q_rep sub xs" "length xs < 2 ^ 29" for sub xs
    by (rule push_rep [OF that, of x]) blast
  obtain h where "cf_queue_push True (high_q q) x = Some (h, 0)" "q_rep h (hs @ [x])" "\<not> threadsafe h"
    using pr [of "high_q q" hs] assms by (auto simp: pri_rep_def)
  with assms(1) show "\<exists>q'. cf_queue_priority_push True q x CF_QUEUE_PRIORITY_HIGH = Some (q', 0) \<and>
      pri_rep q' (hs @ [x]) ms ls"
    by (simp add: cf_queue_priority_push_def pri_rep_def)
  obtain m where "cf_queue_push True (medium_q q) x = Some (m, 0)" "q_rep m (ms @ [x])" "\<not> threadsafe m"
    using pr [of "medium_q q" ms] assms by (auto simp: pri_rep_def)
  with assms(1) show "\<exists>q'. cf_queue_priority_push True q x CF_QUEUE_PRIORITY_MEDIUM = Some (q', 0) \<and>
      pri_rep q' hs (ms @ [x]) ls"
    by (simp add: cf_queue_priority_push_def pri_rep_def CF_QUEUE_PRIORITY_HIGH_def
        CF_QUEUE_PRIORITY_MEDIUM_def)
  obtain l where "cf_queue_push True (low_q q) x = Some (l, 0)" "q_rep l (ls @ [x])" "\<not> threadsafe l"
    using pr [of "low_q q" ls] assms by (auto simp: pri_rep_def)
  with assms(1) show "\<exists>q'. cf_queue_priority_push True q x CF_QUEUE_PRIORITY_LOW = Some (q', 0) \<and>
      pri_rep q' hs ms (ls @ [x])"
    by (simp add: cf_queue_priority_push_def pri_rep_def CF_QUEUE_PRIORITY_HIGH_def
        CF_QUEUE_PRIORITY_MEDIUM_def CF_QUEUE_PRIORITY_LOW_def)
qed

lemma pri_sizes:
  assumes "pri_rep q hs ms ls"
  shows "CF_Q_SZ (high_q q) = 0 \<longleftrightarrow> hs = []" "CF_Q_SZ (medium_q q) = 0 \<longleftrightarrow> ms = []"
    "CF_Q_SZ (low_q q) = 0 \<longleftrightarrow> ls = []" "CF_Q_PRI_EMPTY q \<longleftrightarrow> hs = [] \<and> ms = [] \<and> ls = []"
  using assms by (auto simp: pri_rep_def CF_Q_PRI_EMPTY_def q_ring_sz(2,3) [OF q_rep_ring])

lemma pop_one_rep:
  assumes "q_rep sub (x # xs)" and "\<not> threadsafe sub"
  obtains sub' where "pop_one sub put = Some (put sub', Some x, 0)" "q_rep sub' xs" "\<not> threadsafe sub'"
proof -
  obtain sub' where "pop_elem sub = Some (Popped x sub')" "q_rep sub' xs" "threadsafe sub' = threadsafe sub"
    using pop_elem_rep [OF assms(1)] .
  with assms show ?thesis
    by (intro that [of sub'])
      (simp_all add: pop_one_def cf_queue_pop_def q_ring_sz(3) [OF q_rep_ring])
qed

text \<open>What a pop does to the three lists.\<close>

fun pri_pop_lists ::
  "'a list \<Rightarrow> 'a list \<Rightarrow> 'a list \<Rightarrow> 'a option \<times> 'a list \<times> 'a list \<times> 'a list" where
  "pri_pop_lists (h # hs) ms ls = (Some h, hs, ms, ls)"
| "pri_pop_lists [] (m # ms) ls = (Some m, [], ms, ls)"
| "pri_pop_lists [] [] (l # ls) = (Some l, [], [], ls)"
| "pri_pop_lists [] [] [] = (None, [], [], [])"

lemma priority_pop_ready_rep:
  assumes "pri_rep q hs ms ls" and "pri_pop_lists hs ms ls = (x, hs', ms', ls')"
  shows "\<exists>q'. priority_pop_ready q =
      Some (q', x, if x = None then CF_QUEUE_EMPTY else 0) \<and> pri_rep q' hs' ms' ls'"
  using assms
proof (induction hs ms ls rule: pri_pop_lists.induct)
  case (1 h hs ms ls)
  then obtain sub' where "pop_one (high_q q) (\<lambda>h. q\<lparr>high_q := h\<rparr>) = Some (q\<lparr>high_q := sub'\<rparr>, Some h, 0)"
      "q_rep sub' hs" "\<not> threadsafe sub'"
    using pop_one_rep [of "high_q q" h hs "\<lambda>h. q\<lparr>high_q := h\<rparr>"] by (auto simp: pri_rep_def)
  with 1 show ?case
    using pri_sizes [OF 1(1)] by (auto simp: priority_pop_ready_def pri_rep_def)
next
  case (2 m ms ls)
  then obtain sub' where "pop_one (medium_q q) (\<lambda>h. q\<lparr>medium_q := h\<rparr>) = Some (q\<lparr>medium_q := sub'\<rparr>, Some m, 0)"
      "q_rep sub' ms" "\<not> threadsafe sub'"
    using pop_one_rep [of "medium_q q" m ms "\<lambda>h. q\<lparr>medium_q := h\<rparr>"] by (auto simp: pri_rep_def)
  with 2 show ?case
    using pri_sizes [OF 2(1)] by (auto simp: priority_pop_ready_def pri_rep_def)
next
  case (3 l ls)
  then obtain sub' where "pop_one (low_q q) (\<lambda>h. q\<lparr>low_q := h\<rparr>) = Some (q\<lparr>low_q := sub'\<rparr>, Some l, 0)"
      "q_rep sub' ls" "\<not> threadsafe sub'"
    using pop_one_rep [of "low_q q" l ls "\<lambda>h. q\<lparr>low_q := h\<rparr>"] by (auto simp: pri_rep_def)
  with 3 show ?case
    using pri_sizes [OF 3(1)] by (auto simp: priority_pop_ready_def pri_rep_def)
next
  case 4
  then show ?case
    using pri_sizes [OF 4(1)] by (auto simp: priority_pop_ready_def)
qed

text \<open>
  C27.  A pop without waiting serves the highest priority that has an element, in the order of
  pushing within a priority, leaves the other queues alone, and returns \<^verbatim>\<open>CF_QUEUE_EMPTY\<close>
  exactly when all three are empty; so does a thread woken by a push that waited for an element.
\<close>

theorem priority_pop_order:
  assumes "pri_rep q hs ms ls" and "pri_pop_lists hs ms ls = (x, hs', ms', ls')"
    and "q = q0 \<and> wakes = [] \<and> ms_wait = CF_QUEUE_NOWAIT \<or>
      pri_rep q0 [] [] [] \<and> pri_threadsafe q0 \<and> wakes = [q] \<and> ms_wait \<noteq> CF_QUEUE_NOWAIT \<and> x \<noteq> None"
  shows "\<exists>q'. cf_queue_priority_pop q0 ms_wait wakes =
      Some (Returned q' x (if x = None then CF_QUEUE_EMPTY else 0)) \<and> pri_rep q' hs' ms' ls'"
proof -
  obtain q' where q': "priority_pop_ready q = Some (q', x, if x = None then CF_QUEUE_EMPTY else 0)"
      "pri_rep q' hs' ms' ls'"
    using priority_pop_ready_rep [OF assms(1,2)] by blast
  have emp: "CF_Q_PRI_EMPTY q \<longleftrightarrow> x = None" and "x = None \<Longrightarrow> hs' = hs \<and> ms' = ms \<and> ls' = ls"
    using assms(2) pri_sizes(4) [OF assms(1)]
    by (cases hs; cases ms; cases ls; auto)+
  moreover have "CF_Q_PRI_EMPTY q0" if "pri_rep q0 [] [] []"
    using pri_sizes(4) [OF that] by simp
  ultimately show ?thesis
    using assms(1,3) q' by (auto simp: cf_queue_priority_pop_def priority_pop_wait.simps)
qed

theorem priority_pop_order_witness:
  "\<exists>q q' :: int cf_queue_priority. pri_rep q [] [4, 5] [6] \<and>
     cf_queue_priority_pop q CF_QUEUE_NOWAIT [] = Some (Returned q' (Some 4) 0) \<and> pri_rep q' [] [5] [6]"
proof -
  obtain q0 :: "int cf_queue_priority" where "pri_rep q0 [] [] []"
    using pri_create_rep [of True "(True, True)" "(True, True)" "(True, True)" True True False]
    by (auto simp: cf_queue_priority_create_def cf_queue_create_def Let_def)
  then obtain q1 :: "int cf_queue_priority" where "pri_rep q1 [] [4] []"
    using pri_push_rep(2) [of q0 "[]" "[]" "[]" 4] by auto
  then obtain q2 :: "int cf_queue_priority" where "pri_rep q2 [] [4, 5] []"
    using pri_push_rep(2) [of q1 "[]" "[4]" "[]" 5] by auto
  then obtain q :: "int cf_queue_priority" where "pri_rep q [] [4, 5] [6]"
    using pri_push_rep(3) [of q2 "[]" "[4, 5]" "[]" 6] by auto
  then show ?thesis
    using priority_pop_order [of q "[]" "[4, 5]" "[6]" "Some 4" "[]" "[5]" "[6]" q "[]" CF_QUEUE_NOWAIT]
    by auto
qed

end
