(* ===== verification/Counted.thy ===== *)
theory Counted
  imports Prelude "HOL-Library.Multiset"
begin

text \<open>
  Objects on the heap with reference counts.  A heap is a list of objects, freed ones are nothing; a pointer is an index,
  and a new object gets the next one, so that no address is used twice.  The cluster keeps three such heaps: nodes, arrays of
  nodes and arrays of partition tables (\<^verbatim>\<open>as_node_reserve\<close>, \<^verbatim>\<open>as_nodes_reserve\<close>, \<^verbatim>\<open>as_partition_tables_reserve\<close> and the
  releases).  Their common contract is a locale: if the count of every object is the number of its owners, then reserving
  and releasing keep it so, an object is freed exactly with its last owner, and no owner meets a freed object.
\<close>

type_synonym 'a heap = "'a option list"

definition obj :: "'a heap \<Rightarrow> nat \<Rightarrow> 'a option" where
  "obj h i = (if i < length h then h ! i else None)"

definition set_obj :: "nat \<Rightarrow> 'a option \<Rightarrow> 'a heap \<Rightarrow> 'a heap" where
  "set_obj i x h = h[i := x]"

definition new_obj :: "'a \<Rightarrow> 'a heap \<Rightarrow> 'a heap" where
  "new_obj x h = h @ [Some x]"

lemma obj_set_obj [simp]: "obj (set_obj i x h) j = (if j = i \<and> i < length h then x else obj h j)"
  by (auto simp: obj_def set_obj_def)

lemma length_set_obj [simp]: "length (set_obj i x h) = length h"
  by (simp add: set_obj_def)

lemma obj_new_obj [simp]: "obj (new_obj x h) j = (if j = length h then Some x else obj h j)"
  by (auto simp: obj_def new_obj_def nth_append)

lemma length_new_obj [simp]: "length (new_obj x h) = Suc (length h)"
  by (simp add: new_obj_def)

lemma obj_Some_length: "obj h i = Some x \<Longrightarrow> i < length h"
  by (auto simp: obj_def split: if_splits)

text \<open>\<open>counted cnt h M\<close>: the objects of the heap are those with an owner in \<open>M\<close>, and count their owners.\<close>

definition counted :: "('a \<Rightarrow> u32) \<Rightarrow> 'a heap \<Rightarrow> nat multiset \<Rightarrow> bool" where
  "counted cnt h M \<longleftrightarrow>
     size M < 2 ^ 32 \<and> (\<forall>i. i \<in># M \<longrightarrow> obj h i \<noteq> None) \<and> (\<forall>i x. obj h i = Some x \<longrightarrow> i \<in># M \<and> unat (cnt x) = count M i)"

lemma counted_obj:
  assumes "counted cnt h M" and "i \<in># M"
  obtains x where "obj h i = Some x" "unat (cnt x) = count M i" "i < length h"
  using assms obj_Some_length by (fastforce simp: counted_def)

lemma counted_live: "counted cnt h M \<Longrightarrow> obj h i \<noteq> None \<longleftrightarrow> i \<in># M"
  by (auto simp: counted_def)

lemma counted_new:
  assumes "counted cnt h M" and "cnt x = 1" and "size M + 1 < 2 ^ 32"
  shows "counted cnt (new_obj x h) (add_mset (length h) M)"
proof -
  have "obj h (length h) = None"
    by (simp add: obj_def)
  with assms(1) have "length h \<notin># M"
    using counted_live by metis
  with assms show ?thesis
    by (auto simp: counted_def count_eq_zero_iff)
qed

text \<open>Changing an object without its count.\<close>

lemma counted_upd:
  assumes "counted cnt h M" and "obj h i = Some x" and "cnt y = cnt x"
  shows "counted cnt (set_obj i (Some y) h) M"
  using assms obj_Some_length [OF assms(2)] by (auto simp: counted_def)

locale refcount =
  fixes cnt :: "'a \<Rightarrow> u32"
    and reserve :: "'a heap \<Rightarrow> nat \<Rightarrow> 'a heap option"
    and release :: "'a heap \<Rightarrow> nat \<Rightarrow> ('a heap \<times> 'a option) option"
  assumes reserve_live: "obj h i = Some x \<Longrightarrow> \<exists>y. reserve h i = Some (set_obj i (Some y) h) \<and> cnt y = cnt x + 1"
    and release_last: "obj h i = Some x \<Longrightarrow> cnt x = 1 \<Longrightarrow> \<exists>y. release h i = Some (set_obj i None h, Some y)"
    and release_other: "obj h i = Some x \<Longrightarrow> cnt x \<noteq> 1 \<Longrightarrow>
      \<exists>y. release h i = Some (set_obj i (Some y) h, None) \<and> cnt y = cnt x - 1"
begin

lemma reserve_counted:
  assumes "counted cnt h M" and "i \<in># M" and "size M + 1 < 2 ^ 32"
  shows "\<exists>h'. reserve h i = Some h' \<and> counted cnt h' (add_mset i M)"
proof -
  obtain x where x: "obj h i = Some x" "unat (cnt x) = count M i" "i < length h"
    using counted_obj [OF assms(1,2)] .
  obtain y where y: "reserve h i = Some (set_obj i (Some y) h)" "cnt y = cnt x + 1"
    using reserve_live [OF x(1)] by blast
  have "count M i < 2 ^ 32 - 1"
    using assms(3) count_le_size [of M i] by simp
  then have "unat (cnt x + 1) = Suc (count M i)"
    using x(2) by (simp add: unat_plus_simple [THEN iffD1] word_le_nat_alt unat_word_ariths)
  with assms x y show ?thesis
    by (auto simp: counted_def)
qed

lemma release_counted:
  assumes "counted cnt h (add_mset i M)"
  shows "\<exists>h' d. release h i = Some (h', d) \<and> counted cnt h' M \<and> (d \<noteq> None \<longleftrightarrow> i \<notin># M)"
proof -
  obtain x where x: "obj h i = Some x" "unat (cnt x) = count (add_mset i M) i" "i < length h"
    using counted_obj [OF assms, of i] by auto
  show ?thesis
  proof (cases "i \<in># M")
    case True
    then have c: "unat (cnt x) = Suc (count M i)" "count M i \<noteq> 0"
      using x(2) by auto
    then have "cnt x \<noteq> 1"
      by (metis One_nat_def nat.inject unsigned_1)
    then obtain y where y: "release h i = Some (set_obj i (Some y) h, None)" "cnt y = cnt x - 1"
      using release_other [OF x(1)] by blast
    have "unat (cnt x - 1) = count M i"
      using c(1) by (metis diff_Suc_1 nat.distinct(1) unat_0 unat_minus_one)
    with assms x y True show ?thesis
      by (auto simp: counted_def split: if_splits)
  next
    case False
    then have "cnt x = 1"
      using x(2) by (metis One_nat_def count_add_mset not_in_iff unat_1 word_unat_eq_iff)
    then obtain y where "release h i = Some (set_obj i None h, Some y)"
      using release_last [OF x(1)] by blast
    with assms x False show ?thesis
      by (auto simp: counted_def split: if_splits)
  qed
qed

end

end
