(* ===== verification/KvTable.thy ===== *)
theory KvTable
  imports Prelude
begin

text \<open>
  The contract of a keyed table, the interface behind which the hash tables of the client stand.
  \<open>usable\<close> says which keys it accepts, and \<open>norm\<close> sends a key to what the table compares of it.  A client that issues a sequence of
  calls sees the answers of a finite map.
\<close>

locale kv_table =
  fixes invar :: "'t \<Rightarrow> bool"
    and usable :: "'k \<Rightarrow> bool"
    and lookup :: "'t \<Rightarrow> 'n \<rightharpoonup> 'v"
    and norm :: "'k \<Rightarrow> 'n"
    and put :: "'t \<Rightarrow> 'k \<Rightarrow> 'v \<Rightarrow> 't option"
    and get :: "'t \<Rightarrow> 'k \<Rightarrow> 'v option option"
    and remove :: "'t \<Rightarrow> 'k \<Rightarrow> 't option"
  assumes put_law: "invar t \<Longrightarrow> usable k \<Longrightarrow> \<exists>t'. put t k v = Some t' \<and> invar t' \<and> lookup t' = (lookup t)(norm k \<mapsto> v)"
    and get_law: "invar t \<Longrightarrow> usable k \<Longrightarrow> get t k = Some (lookup t (norm k))"
    and remove_law: "invar t \<Longrightarrow> usable k \<Longrightarrow> \<exists>t'. remove t k = Some t' \<and> invar t' \<and> lookup t' = (lookup t)(norm k := None)"

text \<open>A client's calls on a table, and on the map it stands for.\<close>

datatype ('k, 'v) table_call = Put (call_key: 'k) 'v | Get (call_key: 'k) | Remove (call_key: 'k)

fun run_table ::
  "('t \<Rightarrow> 'k \<Rightarrow> 'v \<Rightarrow> 't option) \<Rightarrow> ('t \<Rightarrow> 'k \<Rightarrow> 'v option option) \<Rightarrow> ('t \<Rightarrow> 'k \<Rightarrow> 't option) \<Rightarrow>
   't \<Rightarrow> ('k, 'v) table_call list \<Rightarrow> ('v option list \<times> 't) option" where
  "run_table put get remove t [] = Some ([], t)"
| "run_table put get remove t (Put k v # cs) = do { t \<leftarrow> put t k v; run_table put get remove t cs }"
| "run_table put get remove t (Remove k # cs) = do { t \<leftarrow> remove t k; run_table put get remove t cs }"
| "run_table put get remove t (Get k # cs) =
     do { v \<leftarrow> get t k; (vs, t) \<leftarrow> run_table put get remove t cs; Some (v # vs, t) }"

fun map_calls ::
  "('k \<Rightarrow> 'n) \<Rightarrow> ('n \<rightharpoonup> 'v) \<Rightarrow> ('k, 'v) table_call list \<Rightarrow> 'v option list \<times> ('n \<rightharpoonup> 'v)" where
  "map_calls norm m [] = ([], m)"
| "map_calls norm m (Put k v # cs) = map_calls norm (m(norm k \<mapsto> v)) cs"
| "map_calls norm m (Remove k # cs) = map_calls norm (m(norm k := None)) cs"
| "map_calls norm m (Get k # cs) = (let (vs, m') = map_calls norm m cs in (m (norm k) # vs, m'))"

context kv_table
begin

lemma calls_like_map:
  "invar t \<Longrightarrow> list_all (\<lambda>c. usable (call_key c)) cs \<Longrightarrow> \<exists>t'. run_table put get remove t cs = Some (fst (map_calls norm (lookup t) cs), t') \<and>
     invar t' \<and> lookup t' = snd (map_calls norm (lookup t) cs)"
proof (induction cs arbitrary: t)
  case (Cons c cs)
  have rest: "list_all (\<lambda>c. usable (call_key c)) cs"
    using Cons(3) by simp
  show ?case
  proof (cases c)
    case (Put k v)
    then have k: "usable k"
      using Cons(3) by simp
    obtain t1 where t1: "put t k v = Some t1" "invar t1" "lookup t1 = (lookup t)(norm k \<mapsto> v)"
      using put_law [OF Cons(2) k] by blast
    show ?thesis
      using Cons(1) [OF t1(2) rest] unfolding t1(3) Put run_table.simps map_calls.simps t1(1) Option.bind_lunit .
  next
    case (Remove k)
    then have k: "usable k"
      using Cons(3) by simp
    obtain t1 where t1: "remove t k = Some t1" "invar t1" "lookup t1 = (lookup t)(norm k := None)"
      using remove_law [OF Cons(2) k] by blast
    show ?thesis
      using Cons(1) [OF t1(2) rest] unfolding t1(3) Remove run_table.simps map_calls.simps t1(1) Option.bind_lunit .
  next
    case (Get k)
    then show ?thesis
      using Cons(1) [OF Cons(2)] get_law [OF Cons(2), of k] Cons(3) by (auto simp: split_beta)
  qed
qed simp

end

end
