(* ===== verification/Shash.thy ===== *)
theory Shash
  imports Prelude
begin

text \<open>
  The chained hash table of \<^verbatim>\<open>modules/common/src/main/citrusleaf/cf_shash.c\<close>.  Every bucket has
  a first element inside the table, used or not, and a chain of allocated elements behind it.
  A key or value, \<^verbatim>\<open>key_len\<close> or \<^verbatim>\<open>value_len\<close> bytes in the code, is a value of a
  type variable: the code compares whole keys and copies whole values.  Memory fresh from
  \<^verbatim>\<open>malloc\<close> has arbitrary contents, an argument of \<open>shash_create\<close>.  The result
  \<^const>\<open>None\<close> of an operation is the division by a zero \<^verbatim>\<open>table_len\<close>.  Locks are taken to
  succeed and each operation is one atomic step.
\<close>

subsection \<open>State\<close>

record ('k, 'v) shash_elem =
  in_use :: bool
  key :: 'k
  "value" :: 'v

type_synonym ('k, 'v) bucket = "('k, 'v) shash_elem \<times> ('k, 'v) shash_elem list"

record ('k, 'v) shash =
  elements :: u32
  table_len :: u32
  flags :: u32
  h_fn :: "'k \<Rightarrow> u32"
  table :: "('k, 'v) bucket list"

definition SHASH_ERR_FOUND :: int where
  "SHASH_ERR_FOUND = - 4"

definition SHASH_ERR_NOTFOUND :: int where
  "SHASH_ERR_NOTFOUND = - 3"

definition SHASH_ERR :: int where
  "SHASH_ERR = - 1"

definition SHASH_OK :: int where
  "SHASH_OK = 0"

definition SHASH_CR_MT_BIGLOCK :: u32 where
  "SHASH_CR_MT_BIGLOCK = 0x04"

definition SHASH_CR_MT_MANYLOCK :: u32 where
  "SHASH_CR_MT_MANYLOCK = 0x08"

definition SHASH_REDUCE_DELETE :: int where
  "SHASH_REDUCE_DELETE = 1"

lemmas shash_codes = SHASH_ERR_FOUND_def SHASH_ERR_NOTFOUND_def SHASH_ERR_def SHASH_OK_def
  SHASH_REDUCE_DELETE_def

definition has_flag :: "('k, 'v) shash \<Rightarrow> u32 \<Rightarrow> bool" where
  "has_flag h f \<longleftrightarrow> flags h AND f \<noteq> 0"

text \<open>The outcome of creation: the table, or an error.  \<open>junk\<close> is what fresh memory holds.\<close>

definition shash_create ::
  "bool \<Rightarrow> bool \<Rightarrow> bool \<Rightarrow> bool \<Rightarrow> ('k, 'v) shash_elem \<Rightarrow> ('k \<Rightarrow> u32) \<Rightarrow> u32 \<Rightarrow> u32 \<Rightarrow>
   ('k, 'v) shash option \<times> int" where
  "shash_create malloc_h malloc_table mutex_init malloc_locks junk fn sz flgs =
     (if \<not> malloc_h then (None, SHASH_ERR)
      else if flgs AND SHASH_CR_MT_BIGLOCK \<noteq> 0 \<and> flgs AND SHASH_CR_MT_MANYLOCK \<noteq> 0 then (None, SHASH_ERR)
      else if \<not> malloc_table then (None, SHASH_ERR)
      else if flgs AND SHASH_CR_MT_BIGLOCK \<noteq> 0 \<and> \<not> mutex_init then (None, SHASH_ERR)
      else if flgs AND SHASH_CR_MT_MANYLOCK \<noteq> 0 \<and> \<not> malloc_locks then (None, SHASH_ERR)
      else (Some \<lparr>elements = 0, table_len = sz, flags = flgs, h_fn = fn,
                  table = replicate (unat sz) (junk\<lparr>in_use := False\<rparr>, [])\<rparr>, SHASH_OK))"

text \<open>The bucket index of a key.\<close>

definition shash_index :: "('k, 'v) shash \<Rightarrow> 'k \<Rightarrow> nat option" where
  "shash_index h k = (if table_len h = 0 then None else Some (unat (h_fn h k mod table_len h)))"

definition new_elem :: "'k \<Rightarrow> 'v \<Rightarrow> ('k, 'v) shash_elem" where
  "new_elem k v = \<lparr>in_use = True, key = k, value = v\<rparr>"

text \<open>The walk along a chain, comparing keys, and the overwriting of the value it stops at.\<close>

fun chain_find :: "'k \<Rightarrow> ('k, 'v) shash_elem list \<Rightarrow> 'v option" where
  "chain_find k [] = None"
| "chain_find k (e # es) = (if key e = k then Some (value e) else chain_find k es)"

fun chain_set :: "'k \<Rightarrow> 'v \<Rightarrow> ('k, 'v) shash_elem list \<Rightarrow> ('k, 'v) shash_elem list" where
  "chain_set k v [] = []"
| "chain_set k v (e # es) = (if key e = k then e\<lparr>value := v\<rparr> # es else e # chain_set k v es)"

definition bucket_set :: "'k \<Rightarrow> 'v \<Rightarrow> ('k, 'v) bucket \<Rightarrow> ('k, 'v) bucket" where
  "bucket_set k v b = (let es = chain_set k v (fst b # snd b) in (hd es, tl es))"


subsection \<open>Size and lookup\<close>

fun used_length :: "('k, 'v) shash_elem list \<Rightarrow> nat" where
  "used_length [] = 0"
| "used_length (e # es) = (if \<not> in_use e then 0 else Suc (used_length es))"

definition shash_get_size :: "('k, 'v) shash \<Rightarrow> u32" where
  "shash_get_size h =
     (if has_flag h SHASH_CR_MT_MANYLOCK
      then of_nat (sum_list (map (\<lambda>b. used_length (fst b # snd b)) (table h)))
      else elements h)"

definition shash_get :: "('k, 'v) shash \<Rightarrow> 'k \<Rightarrow> ('v option \<times> int) option" where
  "shash_get h k =
     do { i \<leftarrow> shash_index h k;
          let b = table h ! i;
          Some (if \<not> in_use (fst b) then (None, SHASH_ERR_NOTFOUND)
                else (case chain_find k (fst b # snd b) of
                        Some v \<Rightarrow> (Some v, SHASH_OK)
                      | None \<Rightarrow> (None, SHASH_ERR_NOTFOUND))) }"

text \<open>The lock that \<^verbatim>\<open>shash_get_vlock\<close> keeps when it finds the key.\<close>

datatype shash_lock = BigLock | BucketLock nat

definition lock_of :: "('k, 'v) shash \<Rightarrow> nat \<Rightarrow> shash_lock option" where
  "lock_of h i =
     (if has_flag h SHASH_CR_MT_BIGLOCK then Some BigLock
      else if has_flag h SHASH_CR_MT_MANYLOCK then Some (BucketLock i)
      else None)"

definition shash_get_vlock ::
  "('k, 'v) shash \<Rightarrow> 'k \<Rightarrow> ('v option \<times> shash_lock option \<times> int) option" where
  "shash_get_vlock h k =
     do { i \<leftarrow> shash_index h k;
          (v, rv) \<leftarrow> shash_get h k;
          Some (v, if rv = SHASH_OK then lock_of h i else None, rv) }"


subsection \<open>Insertion\<close>

definition set_bucket :: "('k, 'v) shash \<Rightarrow> nat \<Rightarrow> ('k, 'v) bucket \<Rightarrow> ('k, 'v) shash" where
  "set_bucket h i b = h\<lparr>table := (table h)[i := b]\<rparr>"

definition shash_put :: "bool \<Rightarrow> ('k, 'v) shash \<Rightarrow> 'k \<Rightarrow> 'v \<Rightarrow> (('k, 'v) shash \<times> int) option" where
  "shash_put malloc h k v =
     do { i \<leftarrow> shash_index h k;
          let b = table h ! i;
          Some (if \<not> in_use (fst b) then
                  ((set_bucket h i (new_elem k v, snd b))\<lparr>elements := elements h + 1\<rparr>, SHASH_OK)
                else if chain_find k (fst b # snd b) \<noteq> None then
                  (set_bucket h i (bucket_set k v b), SHASH_OK)
                else if \<not> malloc then (h, SHASH_ERR)
                else ((set_bucket h i (fst b, new_elem k v # snd b))\<lparr>elements := elements h + 1\<rparr>,
                      SHASH_OK)) }"

definition shash_put_unique ::
  "bool \<Rightarrow> ('k, 'v) shash \<Rightarrow> 'k \<Rightarrow> 'v \<Rightarrow> (('k, 'v) shash \<times> int) option" where
  "shash_put_unique malloc h k v =
     do { i \<leftarrow> shash_index h k;
          let b = table h ! i;
          Some (if \<not> in_use (fst b) then
                  ((set_bucket h i (new_elem k v, snd b))\<lparr>elements := elements h + 1\<rparr>, SHASH_OK)
                else if chain_find k (fst b # snd b) \<noteq> None then (h, SHASH_ERR_FOUND)
                else if \<not> malloc then (h, SHASH_ERR)
                else ((set_bucket h i (fst b, new_elem k v # snd b))\<lparr>elements := elements h + 1\<rparr>,
                      SHASH_OK)) }"

definition shash_put_duplicate ::
  "bool \<Rightarrow> ('k, 'v) shash \<Rightarrow> 'k \<Rightarrow> 'v \<Rightarrow> (('k, 'v) shash \<times> int) option" where
  "shash_put_duplicate malloc h k v =
     do { i \<leftarrow> shash_index h k;
          let b = table h ! i;
          Some (if \<not> in_use (fst b) then
                  ((set_bucket h i (new_elem k v, snd b))\<lparr>elements := elements h + 1\<rparr>, SHASH_OK)
                else if \<not> malloc then (h, SHASH_ERR)
                else ((set_bucket h i (fst b, new_elem k v # snd b))\<lparr>elements := elements h + 1\<rparr>,
                      SHASH_OK)) }"

text \<open>
  \<^verbatim>\<open>shash_update\<close>: \<open>old_buf\<close> says whether the caller gave a buffer for the old value.
  The update function reads the old value (absent without a buffer, or without the key), may
  write the new value in place and change its user data.
\<close>

type_synonym ('k, 'v, 's) update_fn = "'k \<Rightarrow> 'v option \<Rightarrow> 'v \<Rightarrow> 's \<Rightarrow> 'v \<times> 's"

definition shash_update ::
  "bool \<Rightarrow> ('k, 'v) shash \<Rightarrow> 'k \<Rightarrow> bool \<Rightarrow> 'v \<Rightarrow> ('k, 'v, 's) update_fn \<Rightarrow> 's \<Rightarrow>
   (('k, 'v) shash \<times> 's \<times> int) option" where
  "shash_update malloc h k old_buf v_new update_fn udata =
     do { i \<leftarrow> shash_index h k;
          let b = table h ! i;
          let found = (if in_use (fst b) then chain_find k (fst b # snd b) else None);
          let v_old = (if old_buf then found else None);
          let (v, udata) = update_fn k v_old v_new udata;
          Some (if \<not> in_use (fst b) then
                  ((set_bucket h i (new_elem k v, snd b))\<lparr>elements := elements h + 1\<rparr>, udata, SHASH_OK)
                else if found = None then
                  (if \<not> malloc then (h, udata, SHASH_ERR)
                   else ((set_bucket h i (fst b, new_elem k v # snd b))\<lparr>elements := elements h + 1\<rparr>,
                         udata, SHASH_OK))
                else ((set_bucket h i (bucket_set k v b))
                        \<lparr>elements := (if v_old = None then elements h + 1 else elements h)\<rparr>,
                      udata, SHASH_OK)) }"


subsection \<open>Deletion\<close>

text \<open>Unlinking behind a predecessor; at the head, the next element is copied into the table.\<close>

fun chain_remove :: "'k \<Rightarrow> ('k, 'v) shash_elem list \<Rightarrow> ('k, 'v) shash_elem list option" where
  "chain_remove k [] = None"
| "chain_remove k (e # es) =
     (if key e = k then Some es else map_option (Cons e) (chain_remove k es))"

definition bucket_remove :: "'k \<Rightarrow> ('k, 'v) bucket \<Rightarrow> ('k, 'v) bucket option" where
  "bucket_remove k b =
     (if key (fst b) = k then
        (case snd b of [] \<Rightarrow> Some ((fst b)\<lparr>in_use := False\<rparr>, []) | e # es \<Rightarrow> Some (e, es))
      else map_option (\<lambda>c. (fst b, c)) (chain_remove k (snd b)))"

definition shash_delete_lockfree :: "('k, 'v) shash \<Rightarrow> 'k \<Rightarrow> (('k, 'v) shash \<times> int) option" where
  "shash_delete_lockfree h k =
     do { i \<leftarrow> shash_index h k;
          let b = table h ! i;
          Some (if \<not> in_use (fst b) then (h, SHASH_ERR_NOTFOUND)
                else (case bucket_remove k b of
                        None \<Rightarrow> (h, SHASH_ERR_NOTFOUND)
                      | Some b' \<Rightarrow> ((set_bucket h i b')\<lparr>elements := elements h - 1\<rparr>, SHASH_OK))) }"

definition shash_delete :: "('k, 'v) shash \<Rightarrow> 'k \<Rightarrow> (('k, 'v) shash \<times> int) option" where
  "shash_delete h k = shash_delete_lockfree h k"

definition shash_get_and_delete ::
  "('k, 'v) shash \<Rightarrow> 'k \<Rightarrow> (('k, 'v) shash \<times> 'v option \<times> int) option" where
  "shash_get_and_delete h k =
     do { i \<leftarrow> shash_index h k;
          let b = table h ! i;
          Some (if \<not> in_use (fst b) then (h, None, SHASH_ERR_NOTFOUND)
                else (case bucket_remove k b of
                        None \<Rightarrow> (h, None, SHASH_ERR_NOTFOUND)
                      | Some b' \<Rightarrow> ((set_bucket h i b')\<lparr>elements := elements h - 1\<rparr>,
                                   chain_find k (fst b # snd b), SHASH_OK))) }"

definition shash_deleteall_lockfree :: "('k, 'v) shash \<Rightarrow> ('k, 'v) shash" where
  "shash_deleteall_lockfree h =
     h\<lparr>table := map (\<lambda>b. ((fst b)\<lparr>in_use := False\<rparr>, [])) (table h), elements := 0\<rparr>"

definition shash_deleteall :: "('k, 'v) shash \<Rightarrow> ('k, 'v) shash" where
  "shash_deleteall h = shash_deleteall_lockfree h"

text \<open>\<^verbatim>\<open>shash_destroy\<close> frees every chain element, then the table: the elements it frees.\<close>

definition shash_destroy :: "('k, 'v) shash \<Rightarrow> ('k, 'v) shash_elem list" where
  "shash_destroy h = concat (map snd (table h))"


subsection \<open>Iteration\<close>

type_synonym ('k, 'v, 's) shash_reduce_fn = "'k \<Rightarrow> 'v \<Rightarrow> 's \<Rightarrow> int \<times> 's"

fun reduce_chain :: "('k, 'v, 's) shash_reduce_fn \<Rightarrow> ('k, 'v) shash_elem list \<Rightarrow> 's \<Rightarrow> int \<times> 's" where
  "reduce_chain fn [] udata = (0, udata)"
| "reduce_chain fn (e # es) udata =
     (if \<not> in_use e then (0, udata)
      else let (rv, udata) = fn (key e) (value e) udata in
        if rv \<noteq> 0 then (rv, udata) else reduce_chain fn es udata)"

fun reduce_table :: "('k, 'v, 's) shash_reduce_fn \<Rightarrow> ('k, 'v) bucket list \<Rightarrow> 's \<Rightarrow> int \<times> 's" where
  "reduce_table fn [] udata = (0, udata)"
| "reduce_table fn (b # bs) udata =
     (let (rv, udata) = reduce_chain fn (fst b # snd b) udata in
      if rv \<noteq> 0 then (rv, udata) else reduce_table fn bs udata)"

definition shash_reduce :: "('k, 'v) shash \<Rightarrow> ('k, 'v, 's) shash_reduce_fn \<Rightarrow> 's \<Rightarrow> int \<times> 's" where
  "shash_reduce h fn udata = reduce_table fn (table h) udata"

text \<open>
  Reduction with deletion, behind a kept element and at the head of a bucket: the result code, the
  elements left, the number deleted.
\<close>

fun rd_chain ::
  "('k, 'v, 's) shash_reduce_fn \<Rightarrow> ('k, 'v) shash_elem list \<Rightarrow> 's \<Rightarrow>
   int \<times> ('k, 'v) shash_elem list \<times> nat \<times> 's" where
  "rd_chain fn [] udata = (0, [], 0, udata)"
| "rd_chain fn (e # es) udata =
     (if \<not> in_use e then (0, e # es, 0, udata)
      else let (rv, udata) = fn (key e) (value e) udata in
        if rv = SHASH_REDUCE_DELETE then
          (let (rv, es, n, udata) = rd_chain fn es udata in (rv, es, Suc n, udata))
        else if rv \<noteq> 0 then (rv, e # es, 0, udata)
        else (let (rv, es, n, udata) = rd_chain fn es udata in (rv, e # es, n, udata)))"

fun rd_bucket ::
  "('k, 'v, 's) shash_reduce_fn \<Rightarrow> ('k, 'v) shash_elem \<Rightarrow> ('k, 'v) shash_elem list \<Rightarrow> 's \<Rightarrow>
   int \<times> ('k, 'v) bucket \<times> nat \<times> 's" where
  "rd_bucket fn e es udata =
     (if \<not> in_use e then (0, (e, es), 0, udata)
      else let (rv, udata) = fn (key e) (value e) udata in
        if rv = SHASH_REDUCE_DELETE then
          (case es of
             [] \<Rightarrow> (0, (e\<lparr>in_use := False\<rparr>, []), 1, udata)
           | e' # es' \<Rightarrow>
               (let (rv, b, n, udata) = rd_bucket fn e' es' udata in (rv, b, Suc n, udata)))
        else if rv \<noteq> 0 then (rv, (e, es), 0, udata)
        else (let (rv, es, n, udata) = rd_chain fn es udata in (rv, (e, es), n, udata)))"

declare rd_bucket.simps [simp del]

fun rd_table ::
  "('k, 'v, 's) shash_reduce_fn \<Rightarrow> ('k, 'v) bucket list \<Rightarrow> 's \<Rightarrow>
   int \<times> ('k, 'v) bucket list \<times> nat \<times> 's" where
  "rd_table fn [] udata = (0, [], 0, udata)"
| "rd_table fn (b # bs) udata =
     (let (rv, b, n, udata) = rd_bucket fn (fst b) (snd b) udata in
      if rv \<noteq> 0 then (rv, b # bs, n, udata)
      else let (rv, bs, m, udata) = rd_table fn bs udata in (rv, b # bs, n + m, udata))"

definition shash_reduce_delete ::
  "('k, 'v) shash \<Rightarrow> ('k, 'v, 's) shash_reduce_fn \<Rightarrow> 's \<Rightarrow> ('k, 'v) shash \<times> 's \<times> int" where
  "shash_reduce_delete h fn udata =
     (let (rv, bs, n, udata) = rd_table fn (table h) udata in
      (h\<lparr>table := bs, elements := elements h - of_nat n\<rparr>, udata, rv))"

end
