(* ===== verification/ShashProps.thy ===== *)
theory ShashProps
  imports Shash KvTable
begin

text \<open>
  Correctness of the chained hash table: its invariant, the finite map it stands for, the element
  count, the traversals, and the table contract.
\<close>

subsection \<open>Entries and invariant\<close>

definition elem_kv :: "('k, 'v) shash_elem \<Rightarrow> 'k \<times> 'v" where
  "elem_kv e = (key e, value e)"

lemma fst_elem_kv [simp]: "fst (elem_kv e) = key e" "fst \<circ> elem_kv = key" "snd (elem_kv e) = value e"
  by (simp_all add: elem_kv_def fun_eq_iff)

definition bucket_kvs :: "('k, 'v) bucket \<Rightarrow> ('k \<times> 'v) list" where
  "bucket_kvs b = (if in_use (fst b) then map elem_kv (fst b # snd b) else [])"

definition entries :: "('k, 'v) shash \<Rightarrow> ('k \<times> 'v) list" where
  "entries h = concat (map bucket_kvs (table h))"

definition bucket_of :: "('k, 'v) shash \<Rightarrow> 'k \<Rightarrow> nat" where
  "bucket_of h k = unat (h_fn h k mod table_len h)"

definition bucket_ok :: "('k, 'v) bucket \<Rightarrow> bool" where
  "bucket_ok b \<longleftrightarrow> (in_use (fst b) \<or> snd b = []) \<and> list_all in_use (snd b)"

definition shash_ok :: "('k, 'v) shash \<Rightarrow> bool" where
  "shash_ok h \<longleftrightarrow> table_len h \<noteq> 0 \<and> length (table h) = unat (table_len h) \<and>
     list_all bucket_ok (table h) \<and>
     (\<forall>i<length (table h). \<forall>k\<in>fst ` set (bucket_kvs (table h ! i)). bucket_of h k = i) \<and>
     elements h = of_nat (length (entries h))"

text \<open>No key twice: kept by every operation but \<^verbatim>\<open>shash_put_duplicate\<close>.\<close>

definition shash_inv :: "('k, 'v) shash \<Rightarrow> bool" where
  "shash_inv h \<longleftrightarrow> shash_ok h \<and> list_all (\<lambda>b. distinct (map fst (bucket_kvs b))) (table h)"

definition shash_lookup :: "('k, 'v) shash \<Rightarrow> 'k \<rightharpoonup> 'v" where
  "shash_lookup h k = map_of (bucket_kvs (table h ! bucket_of h k)) k"

lemma bucket_of_less: "shash_ok h \<Longrightarrow> bucket_of h k < length (table h)"
  by (simp add: shash_ok_def bucket_of_def unat_mod unat_gt_0)

lemma shash_index_ok: "shash_ok h \<Longrightarrow> shash_index h k = Some (bucket_of h k)"
  by (simp add: shash_ok_def shash_index_def bucket_of_def)

lemma chain_find_map_of: "chain_find k es = map_of (map elem_kv es) k"
  by (induction es) (auto simp: elem_kv_def)

lemma keys_chain_set [simp]: "map key (chain_set k v es) = map key es"
  by (induction es) auto

lemma in_use_chain_set [simp]: "list_all in_use (chain_set k v es) = list_all in_use es"
  by (induction es) auto

lemma map_of_chain_set:
  "chain_find k es \<noteq> None \<Longrightarrow>
   map_of (map elem_kv (chain_set k v es)) = (map_of (map elem_kv es))(k \<mapsto> v)"
  by (induction es) (auto simp: elem_kv_def fun_eq_iff split: if_splits)

lemma length_chain_set [simp]: "length (chain_set k v es) = length es"
  by (induction es) auto

lemma keys_elem_kv: "map fst (map elem_kv es) = map key es"
  by (simp add: elem_kv_def)

text \<open>Replacing one bucket.\<close>

lemma length_entries_update:
  assumes "i < length (table h)"
  shows "length (entries (set_bucket h i b)) + length (bucket_kvs (table h ! i)) =
    length (entries h) + length (bucket_kvs b)"
proof -
  let ?f = "\<lambda>b. length (bucket_kvs b)"
  have "sum_list (map ?f ((table h)[i := b])) + ?f (table h ! i) = sum_list (map ?f (table h)) + ?f b"
    using assms elem_le_sum_list [of i "map ?f (table h)"] by (simp add: map_update sum_list_update)
  then show ?thesis
    by (simp add: entries_def set_bucket_def length_concat comp_def)
qed

lemma set_bucket_ok:
  assumes "shash_ok h" and "i < length (table h)" and "bucket_ok b"
    and "\<forall>k\<in>fst ` set (bucket_kvs b). bucket_of h k = i"
  shows "shash_ok ((set_bucket h i b)\<lparr>elements := of_nat (length (entries (set_bucket h i b)))\<rparr>)"
proof -
  let ?h = "(set_bucket h i b)\<lparr>elements := of_nat (length (entries (set_bucket h i b)))\<rparr>"
  have "entries ?h = entries (set_bucket h i b)" "table ?h = (table h)[i := b]" "table_len ?h = table_len h"
      "bucket_of ?h = bucket_of h" "elements ?h = of_nat (length (entries (set_bucket h i b)))"
    by (simp_all add: entries_def set_bucket_def bucket_of_def fun_eq_iff)
  with assms show ?thesis
    unfolding shash_ok_def by (auto simp: list_all_length nth_list_update)
qed

lemma shash_okD:
  assumes "shash_ok h"
  shows "bucket_ok (table h ! bucket_of h k)"
    and "k' \<in> fst ` set (bucket_kvs (table h ! bucket_of h k)) \<Longrightarrow> bucket_of h k' = bucket_of h k"
    and "elements h = of_nat (length (entries h))"
  using assms bucket_of_less [OF assms, of k] by (auto simp: shash_ok_def list_all_length)

lemma set_bucket_lookup:
  assumes "shash_ok h" and "h' = (set_bucket h (bucket_of h k) b)\<lparr>elements := n\<rparr>"
    and "map_of (bucket_kvs b) = (map_of (bucket_kvs (table h ! bucket_of h k)))(k := x)"
  shows "shash_lookup h' = (shash_lookup h)(k := x)"
proof
  fix k'
  have "bucket_of h' k' = bucket_of h k'"
    by (simp add: assms(2) set_bucket_def bucket_of_def)
  then show "shash_lookup h' k' = ((shash_lookup h)(k := x)) k'"
    using assms(3) bucket_of_less [OF assms(1)]
    by (auto simp: shash_lookup_def assms(2) set_bucket_def nth_list_update)
qed

lemma set_bucket_inv:
  assumes "shash_inv h" and "shash_ok h'" and "h' = (set_bucket h i b)\<lparr>elements := n\<rparr>"
    and "distinct (map fst (bucket_kvs b))"
  shows "shash_inv h'"
  using assms(1,2,4) unfolding assms(3)
  by (auto simp: shash_inv_def set_bucket_def list_all_iff dest!: set_mp [OF set_update_subset_insert])


subsection \<open>Insertion\<close>

text \<open>The three ways in which a put changes a bucket: first use, overwriting, a new chain element.\<close>

lemma first_use:
  assumes "bucket_ok b" and "\<not> in_use (fst b)"
  shows "bucket_kvs (new_elem k v, snd b) = [(k, v)]" and "bucket_kvs b = []"
    and "bucket_ok (new_elem k v, snd b)"
  using assms by (simp_all add: bucket_ok_def bucket_kvs_def new_elem_def elem_kv_def)

lemma new_link:
  assumes "bucket_ok b" and "in_use (fst b)"
  shows "bucket_kvs (fst b, new_elem k v # snd b) = elem_kv (fst b) # (k, v) # map elem_kv (snd b)"
    and "bucket_kvs b = elem_kv (fst b) # map elem_kv (snd b)"
    and "bucket_ok (fst b, new_elem k v # snd b)"
  using assms by (simp_all add: bucket_ok_def bucket_kvs_def new_elem_def elem_kv_def)

lemma overwrite:
  assumes "bucket_ok b" and "in_use (fst b)" and "chain_find k (fst b # snd b) \<noteq> None"
  shows "map_of (bucket_kvs (bucket_set k v b)) = (map_of (bucket_kvs b))(k \<mapsto> v)"
    and "map fst (bucket_kvs (bucket_set k v b)) = map fst (bucket_kvs b)"
    and "bucket_ok (bucket_set k v b)"
    and "length (bucket_kvs (bucket_set k v b)) = length (bucket_kvs b)"
proof -
  define es where "es = chain_set k v (fst b # snd b)"
  have ne: "es = hd es # tl es"
    by (simp add: es_def)
  have "list_all in_use es"
    using assms by (simp add: es_def bucket_ok_def del: chain_set.simps)
  then have use: "in_use (hd es)" "list_all in_use (tl es)"
    by (subst (asm) ne, simp)+
  then have kvs: "bucket_kvs (bucket_set k v b) = map elem_kv es"
    by (metis bucket_kvs_def bucket_set_def es_def fst_conv snd_conv ne)
  have old: "bucket_kvs b = map elem_kv (fst b # snd b)"
    using assms by (simp add: bucket_kvs_def)
  show "map_of (bucket_kvs (bucket_set k v b)) = (map_of (bucket_kvs b))(k \<mapsto> v)"
    unfolding kvs old es_def by (rule map_of_chain_set [OF assms(3)])
  show "map fst (bucket_kvs (bucket_set k v b)) = map fst (bucket_kvs b)"
    unfolding kvs old es_def keys_elem_kv by simp
  then show "length (bucket_kvs (bucket_set k v b)) = length (bucket_kvs b)"
    by (metis length_map)
  show "bucket_ok (bucket_set k v b)"
    using use by (simp add: bucket_ok_def bucket_set_def es_def Let_def)
qed


subsection \<open>One bucket step\<close>

lemma bucket_step:
  assumes "shash_inv h" and "b = table h ! bucket_of h k" and "bucket_ok b'"
    and "fst ` set (bucket_kvs b') \<subseteq> insert k (fst ` set (bucket_kvs b))"
    and "distinct (map fst (bucket_kvs b'))"
    and "map_of (bucket_kvs b') = (map_of (bucket_kvs b))(k := x)"
    and "n + of_nat (length (bucket_kvs b)) = elements h + of_nat (length (bucket_kvs b'))"
  shows "shash_inv ((set_bucket h (bucket_of h k) b')\<lparr>elements := n\<rparr>)"
    and "shash_lookup ((set_bucket h (bucket_of h k) b')\<lparr>elements := n\<rparr>) = (shash_lookup h)(k := x)"
proof -
  let ?i = "bucket_of h k" and ?h = "(set_bucket h (bucket_of h k) b')\<lparr>elements := n\<rparr>"
  have ok: "shash_ok h"
    using assms(1) by (simp add: shash_inv_def)
  note len = length_entries_update [OF bucket_of_less [OF ok], of k b']
  have "of_nat (length (entries (set_bucket h ?i b')) + length (bucket_kvs b)) =
      (of_nat (length (entries h) + length (bucket_kvs b')) :: u32)"
    using len unfolding assms(2) by simp
  then have n: "n = of_nat (length (entries (set_bucket h ?i b')))"
    using assms(7) shash_okD(3) [OF ok] by (metis add_right_cancel of_nat_add)
  have "\<forall>k'\<in>fst ` set (bucket_kvs b'). bucket_of h k' = ?i"
    using assms(2,4) shash_okD(2) [OF ok, of _ k] by blast
  then have "shash_ok ?h"
    unfolding n by (rule set_bucket_ok [OF ok bucket_of_less [OF ok] assms(3)])
  then show "shash_inv ?h"
    by (rule set_bucket_inv [OF assms(1) _ refl assms(5)])
  show "shash_lookup ?h = (shash_lookup h)(k := x)"
    using ok assms(2,6) by (intro set_bucket_lookup) auto
qed

lemma bucket_facts:
  assumes "shash_inv h" and "b = table h ! bucket_of h k"
  shows "bucket_ok b" "distinct (map fst (bucket_kvs b))" "shash_index h k = Some (bucket_of h k)"
    "shash_lookup h k = map_of (bucket_kvs b) k"
    "in_use (fst b) \<Longrightarrow> chain_find k (fst b # snd b) = shash_lookup h k"
    "\<not> in_use (fst b) \<Longrightarrow> shash_lookup h k = None"
proof -
  have ok: "shash_ok h"
    using assms(1) by (simp add: shash_inv_def)
  show "bucket_ok b" "shash_index h k = Some (bucket_of h k)"
    using shash_okD(1) [OF ok] shash_index_ok [OF ok] assms(2) by auto
  show "distinct (map fst (bucket_kvs b))"
    using assms bucket_of_less [OF ok] by (auto simp: shash_inv_def list_all_length)
  show "shash_lookup h k = map_of (bucket_kvs b) k"
    by (simp add: shash_lookup_def assms(2))
  then show "in_use (fst b) \<Longrightarrow> chain_find k (fst b # snd b) = shash_lookup h k"
    "\<not> in_use (fst b) \<Longrightarrow> shash_lookup h k = None"
    by (simp_all add: bucket_kvs_def chain_find_map_of)
qed

lemma step_first_use:
  assumes "shash_inv h" and "b = table h ! bucket_of h k" and "\<not> in_use (fst b)"
  shows "shash_inv ((set_bucket h (bucket_of h k) (new_elem k v, snd b))\<lparr>elements := elements h + 1\<rparr>)"
    and "shash_lookup ((set_bucket h (bucket_of h k) (new_elem k v, snd b))\<lparr>elements := elements h + 1\<rparr>) =
      (shash_lookup h)(k \<mapsto> v)"
  using first_use [OF bucket_facts(1) [OF assms(1,2)] assms(3)]
  by (intro bucket_step [OF assms(1,2)]; simp)+

lemma step_new_link:
  assumes "shash_inv h" and "b = table h ! bucket_of h k" and "in_use (fst b)" and "shash_lookup h k = None"
  shows "shash_inv ((set_bucket h (bucket_of h k) (fst b, new_elem k v # snd b))\<lparr>elements := elements h + 1\<rparr>)"
    and "shash_lookup ((set_bucket h (bucket_of h k) (fst b, new_elem k v # snd b))
        \<lparr>elements := elements h + 1\<rparr>) = (shash_lookup h)(k \<mapsto> v)"
proof -
  note f = bucket_facts [OF assms(1,2)] and l = new_link [OF bucket_facts(1) [OF assms(1,2)] assms(3)]
  have k: "k \<notin> fst ` set (bucket_kvs b)"
    using assms(4) f(4) by (simp add: map_of_eq_None_iff)
  then have "k \<noteq> key (fst b)" "k \<notin> key ` set (snd b)"
    unfolding l(2) by (auto simp: image_image)
  then have "distinct (map fst (bucket_kvs (fst b, new_elem k v # snd b)))"
    "map_of (bucket_kvs (fst b, new_elem k v # snd b)) = (map_of (bucket_kvs b))(k \<mapsto> v)"
    using f(2) unfolding l(1,2) by (simp_all add: image_image) (simp add: elem_kv_def fun_eq_iff)
  with l show "shash_inv ((set_bucket h (bucket_of h k) (fst b, new_elem k v # snd b))\<lparr>elements := elements h + 1\<rparr>)"
    "shash_lookup ((set_bucket h (bucket_of h k) (fst b, new_elem k v # snd b))
        \<lparr>elements := elements h + 1\<rparr>) = (shash_lookup h)(k \<mapsto> v)"
    by (intro bucket_step [OF assms(1,2)]; auto)+
qed

lemma step_overwrite:
  assumes "shash_inv h" and "b = table h ! bucket_of h k" and "in_use (fst b)" and "shash_lookup h k \<noteq> None"
  shows "shash_inv (set_bucket h (bucket_of h k) (bucket_set k v b))"
    and "shash_lookup (set_bucket h (bucket_of h k) (bucket_set k v b)) = (shash_lookup h)(k \<mapsto> v)"
proof -
  note f = bucket_facts [OF assms(1,2)]
  have found: "chain_find k (fst b # snd b) \<noteq> None"
    using assms(4) f(5) [OF assms(3)] by simp
  note o = overwrite [OF f(1) assms(3) found]
  have "set_bucket h (bucket_of h k) (bucket_set k v b) =
      (set_bucket h (bucket_of h k) (bucket_set k v b))\<lparr>elements := elements h\<rparr>"
    by (simp add: set_bucket_def)
  moreover have "fst ` set (bucket_kvs (bucket_set k v b)) = fst ` set (bucket_kvs b)"
    using o(2) by (metis list.set_map)
  ultimately show "shash_inv (set_bucket h (bucket_of h k) (bucket_set k v b))"
    "shash_lookup (set_bucket h (bucket_of h k) (bucket_set k v b)) = (shash_lookup h)(k \<mapsto> v)"
    using bucket_step [OF assms(1,2) o(3), where x = "Some v" and n = "elements h"] o f(2)
    by (metis subset_insertI)+
qed

lemma put_inv:
  assumes "shash_inv h"
  obtains h' where "shash_put True h k v = Some (h', SHASH_OK)" "shash_inv h'"
    "shash_lookup h' = (shash_lookup h)(k \<mapsto> v)"
proof -
  define b where "b = table h ! bucket_of h k"
  note f = bucket_facts [OF assms b_def]
  consider "\<not> in_use (fst b)" | "in_use (fst b)" "shash_lookup h k = None"
    | "in_use (fst b)" "shash_lookup h k \<noteq> None"
    by blast
  then show ?thesis
  proof cases
    case 1
    then show ?thesis
      using step_first_use [OF assms b_def 1] f(3)
      by (intro that [of "(set_bucket h (bucket_of h k) (new_elem k v, snd b))\<lparr>elements := elements h + 1\<rparr>"])
        (simp_all add: shash_put_def flip: b_def)
  next
    case 2
    then show ?thesis
      using step_new_link [OF assms b_def 2] f(3) f(5) [OF 2(1)]
      by (intro that [of "(set_bucket h (bucket_of h k) (fst b, new_elem k v # snd b))\<lparr>elements := elements h + 1\<rparr>"])
        (simp_all add: shash_put_def flip: b_def del: chain_find.simps)
  next
    case 3
    then show ?thesis
      using step_overwrite [OF assms b_def 3] f(3) f(5) [OF 3(1)]
      by (intro that [of "set_bucket h (bucket_of h k) (bucket_set k v b)"])
        (simp_all add: shash_put_def flip: b_def del: chain_find.simps)
  qed
qed

lemma get_inv: "shash_inv h \<Longrightarrow> shash_get h k =
    Some (shash_lookup h k, if shash_lookup h k = None then SHASH_ERR_NOTFOUND else SHASH_OK)"
  using bucket_facts [OF _ refl, of h k]
  by (auto simp: shash_get_def Let_def simp del: chain_find.simps split: option.splits)


subsection \<open>Deletion\<close>

lemma chain_remove_None: "chain_remove k es = None \<longleftrightarrow> k \<notin> key ` set es"
  by (induction es) auto

lemma chain_remove_Some:
  "chain_remove k es = Some es' \<Longrightarrow> distinct (map key es) \<Longrightarrow>
   map_of (map elem_kv es') = (map_of (map elem_kv es))(k := None) \<and>
   key ` set es' = key ` set es - {k} \<and> distinct (map key es') \<and> length es = Suc (length es') \<and>
   set es' \<subseteq> set es"
proof (induction es arbitrary: es')
  case (Cons e es)
  show ?case
  proof (cases "key e = k")
    case True
    with Cons(2,3) show ?thesis
      by (auto simp: fun_eq_iff elem_kv_def map_of_eq_None_iff image_image)
  next
    case False
    then obtain es'' where "chain_remove k es = Some es''" "es' = e # es''"
      using Cons(2) by auto
    with False Cons show ?thesis
      by (auto simp: fun_eq_iff elem_kv_def)
  qed
qed simp

text \<open>What removing a key leaves of a bucket.\<close>

definition removed :: "'k \<Rightarrow> ('k, 'v) bucket \<Rightarrow> ('k, 'v) bucket \<Rightarrow> bool" where
  "removed k b b' \<longleftrightarrow> bucket_ok b' \<and> map_of (bucket_kvs b') = (map_of (bucket_kvs b))(k := None) \<and>
     fst ` set (bucket_kvs b') \<subseteq> fst ` set (bucket_kvs b) \<and> distinct (map fst (bucket_kvs b')) \<and>
     length (bucket_kvs b) = Suc (length (bucket_kvs b'))"

lemma used_kvs: "in_use e \<Longrightarrow> bucket_kvs (e, es) = elem_kv e # map elem_kv es"
  by (simp add: bucket_kvs_def)

lemma removed_head:
  assumes "in_use e" "list_all in_use es" "distinct (map key (e # es))"
  shows "\<exists>b'. bucket_remove (key e) (e, es) = Some b' \<and> removed (key e) (e, es) b'"
proof (cases es)
  case Nil
  with assms(1) show ?thesis
    by (simp add: bucket_remove_def removed_def bucket_ok_def bucket_kvs_def elem_kv_def)
next
  case (Cons e' es')
  have "map_of (map elem_kv es) = (map_of (map elem_kv (e # es)))(key e := None)"
    using assms(3) by (auto simp: fun_eq_iff elem_kv_def map_of_eq_None_iff image_image)
  with Cons assms show ?thesis
    by (auto simp: bucket_remove_def removed_def bucket_ok_def used_kvs)
qed

lemma removed_chain:
  assumes "in_use e" "list_all in_use es" "distinct (map key (e # es))" "key e \<noteq> k" "k \<in> key ` set es"
  shows "\<exists>b'. bucket_remove k (e, es) = Some b' \<and> removed k (e, es) b'"
proof -
  obtain es' where es': "chain_remove k es = Some es'"
    using assms(5) chain_remove_None [of k es] by blast
  have r: "map_of (map elem_kv es') = (map_of (map elem_kv es))(k := None)"
    "key ` set es' = key ` set es - {k}" "distinct (map key es')" "length es = Suc (length es')"
    "set es' \<subseteq> set es"
    using chain_remove_Some [OF es'] assms(3) by simp_all
  have "list_all in_use es'"
    using assms(2) r(5) by (auto simp: list_all_iff)
  moreover have "map_of (elem_kv e # map elem_kv es') = (map_of (elem_kv e # map elem_kv es))(k := None)"
    using r(1) assms(4) by (simp add: fun_eq_iff elem_kv_def)
  ultimately have "removed k (e, es) (e, es')"
    using assms r by (auto simp: removed_def used_kvs bucket_ok_def image_image)
  moreover have "bucket_remove k (e, es) = Some (e, es')"
    using es' assms(4) by (simp add: bucket_remove_def)
  ultimately show ?thesis
    by blast
qed

lemma bucket_remove_cases:
  assumes "bucket_ok b" and "in_use (fst b)" and "distinct (map fst (bucket_kvs b))"
  shows "map_of (bucket_kvs b) k = None \<Longrightarrow> bucket_remove k b = None"
    and "map_of (bucket_kvs b) k \<noteq> None \<Longrightarrow> \<exists>b'. bucket_remove k b = Some b' \<and> removed k b b'"
proof -
  obtain e es where b: "b = (e, es)"
    by (cases b)
  have use: "in_use e" "list_all in_use es" "distinct (map key (e # es))"
    using assms by (simp_all add: b bucket_ok_def used_kvs)
  show "bucket_remove k b = None" if "map_of (bucket_kvs b) k = None"
    using that use by (auto simp: b used_kvs bucket_remove_def map_of_eq_None_iff image_image chain_remove_None)
  show "\<exists>b'. bucket_remove k b = Some b' \<and> removed k b b'" if "map_of (bucket_kvs b) k \<noteq> None"
    using that removed_head [OF use] removed_chain [OF use, of k] use
    by (cases "key e = k") (auto simp: b used_kvs map_of_eq_None_iff image_image)
qed

lemma get_and_delete_inv:
  assumes "shash_inv h"
  obtains h' where "shash_get_and_delete h k = Some (h', shash_lookup h k,
      if shash_lookup h k = None then SHASH_ERR_NOTFOUND else SHASH_OK)"
    "shash_delete h k = Some (h', if shash_lookup h k = None then SHASH_ERR_NOTFOUND else SHASH_OK)"
    "shash_inv h'" "shash_lookup h' = (shash_lookup h)(k := None)"
proof -
  define b where "b = table h ! bucket_of h k"
  note f = bucket_facts [OF assms b_def] and defs = shash_get_and_delete_def shash_delete_def shash_delete_lockfree_def
  consider "\<not> in_use (fst b)" | "in_use (fst b)" "shash_lookup h k = None"
    | "in_use (fst b)" "shash_lookup h k \<noteq> None"
    by blast
  then show ?thesis
  proof cases
    case 1
    then show ?thesis
      using f(3) f(6) [OF 1] assms by (intro that [of h]) (simp_all add: defs fun_upd_idem flip: b_def)
  next
    case 2
    then show ?thesis
      using f(3,4) bucket_remove_cases(1) [OF f(1) 2(1) f(2), of k] assms
      by (intro that [of h]) (simp_all add: defs fun_upd_idem flip: b_def)
  next
    case 3
    obtain b' where b': "bucket_remove k b = Some b'" "removed k b b'"
      using bucket_remove_cases(2) [OF f(1) 3(1) f(2), of k] 3(2) f(4) by auto
    let ?h = "(set_bucket h (bucket_of h k) b')\<lparr>elements := elements h - 1\<rparr>"
    have "shash_inv ?h" "shash_lookup ?h = (shash_lookup h)(k := None)"
      using b'(2) by (intro bucket_step [OF assms b_def]; auto simp: removed_def)+
    then show ?thesis
      using f(3) b'(1) 3 f(5) [OF 3(1)]
      by (intro that [of ?h]) (auto simp add: defs simp flip: b_def simp del: chain_find.simps)
  qed
qed


subsection \<open>Atomic update, bulk deletion, traversal\<close>

lemma update_inv:
  assumes "shash_inv h" and "update_fn k (shash_lookup h k) v_new u = (v, u')"
  obtains h' where "shash_update True h k True v_new update_fn u = Some (h', u', SHASH_OK)"
    "shash_inv h'" "shash_lookup h' = (shash_lookup h)(k \<mapsto> v)"
proof -
  define b where "b = table h ! bucket_of h k"
  note f = bucket_facts [OF assms(1) b_def]
  consider "\<not> in_use (fst b)" | "in_use (fst b)" "shash_lookup h k = None"
    | "in_use (fst b)" "shash_lookup h k \<noteq> None"
    by blast
  then show ?thesis
  proof cases
    case 1
    then show ?thesis
      using step_first_use [OF assms(1) b_def 1] f(3) f(6) [OF 1] assms(2)
      by (intro that [of "(set_bucket h (bucket_of h k) (new_elem k v, snd b))\<lparr>elements := elements h + 1\<rparr>"])
        (simp_all add: shash_update_def flip: b_def)
  next
    case 2
    then show ?thesis
      using step_new_link [OF assms(1) b_def 2] f(3) f(5) [OF 2(1)] assms(2)
      by (intro that [of "(set_bucket h (bucket_of h k) (fst b, new_elem k v # snd b))\<lparr>elements := elements h + 1\<rparr>"])
        (simp_all add: shash_update_def flip: b_def del: chain_find.simps)
  next
    case 3
    have "(set_bucket h (bucket_of h k) (bucket_set k v b))\<lparr>elements := elements h\<rparr> =
        set_bucket h (bucket_of h k) (bucket_set k v b)"
      by (simp add: set_bucket_def)
    with 3 show ?thesis
      using step_overwrite [OF assms(1) b_def 3] f(3) f(5) [OF 3(1)] assms(2)
      by (intro that [of "set_bucket h (bucket_of h k) (bucket_set k v b)"])
        (auto simp add: shash_update_def simp flip: b_def simp del: chain_find.simps)
  qed
qed

lemma deleteall_inv:
  assumes "shash_inv h"
  shows "shash_inv (shash_deleteall h)" and "shash_lookup (shash_deleteall h) = Map.empty"
proof -
  have empty: "bucket_kvs (e\<lparr>in_use := False\<rparr>, []) = []" for e :: "('a, 'b) shash_elem"
    by (simp add: bucket_kvs_def)
  have "entries (shash_deleteall h) = []"
    by (simp add: entries_def shash_deleteall_def shash_deleteall_lockfree_def comp_def empty)
  moreover have "bucket_of (shash_deleteall h) = bucket_of h"
    by (simp add: fun_eq_iff bucket_of_def shash_deleteall_def shash_deleteall_lockfree_def)
  ultimately show "shash_inv (shash_deleteall h)"
    using assms
    by (auto simp: shash_inv_def shash_ok_def shash_deleteall_def shash_deleteall_lockfree_def
        list_all_length bucket_ok_def empty)
  show "shash_lookup (shash_deleteall h) = Map.empty"
  proof
    fix k
    have "bucket_of h k < length (table h)"
      using assms bucket_of_less [of h k] by (simp add: shash_inv_def)
    then show "shash_lookup (shash_deleteall h) k = None"
      by (simp add: shash_lookup_def bucket_of_def shash_deleteall_def shash_deleteall_lockfree_def empty)
  qed
qed

text \<open>What a traversal does to the entries, in table order.\<close>

fun fold_entries :: "('k, 'v, 's) shash_reduce_fn \<Rightarrow> ('k \<times> 'v) list \<Rightarrow> 's \<Rightarrow> int \<times> 's" where
  "fold_entries fn [] u = (0, u)"
| "fold_entries fn (e # es) u =
     (let (rv, u) = fn (fst e) (snd e) u in if rv \<noteq> 0 then (rv, u) else fold_entries fn es u)"

lemma fold_entries_append:
  "fold_entries fn (xs @ ys) u =
     (let (rv, u) = fold_entries fn xs u in if rv \<noteq> 0 then (rv, u) else fold_entries fn ys u)"
  by (induction xs arbitrary: u) (auto simp: split_beta Let_def)

lemma reduce_chain_entries:
  "list_all in_use es \<Longrightarrow> reduce_chain fn es u = fold_entries fn (map elem_kv es) u"
  by (induction es arbitrary: u) (simp_all add: elem_kv_def split_beta Let_def)

lemma reduce_bucket_entries:
  "bucket_ok b \<Longrightarrow> reduce_chain fn (fst b # snd b) u = fold_entries fn (bucket_kvs b) u"
proof (cases "in_use (fst b)")
  case True
  moreover assume "bucket_ok b"
  ultimately show ?thesis
    by (subst reduce_chain_entries) (simp_all add: bucket_ok_def bucket_kvs_def)
qed (simp add: bucket_kvs_def)

lemma reduce_table_entries:
  "list_all bucket_ok bs \<Longrightarrow> reduce_table fn bs u = fold_entries fn (concat (map bucket_kvs bs)) u"
  by (induction bs arbitrary: u)
    (simp_all add: reduce_bucket_entries fold_entries_append split_beta Let_def del: reduce_chain.simps)

fun fold_delete ::
  "('k, 'v, 's) shash_reduce_fn \<Rightarrow> ('k \<times> 'v) list \<Rightarrow> 's \<Rightarrow> int \<times> ('k \<times> 'v) list \<times> 's" where
  "fold_delete fn [] u = (0, [], u)"
| "fold_delete fn (e # es) u =
     (let (rv, u) = fn (fst e) (snd e) u in
      if rv = SHASH_REDUCE_DELETE then fold_delete fn es u
      else if rv \<noteq> 0 then (rv, e # es, u)
      else let (rv, es, u) = fold_delete fn es u in (rv, e # es, u))"

lemma fold_delete_append:
  "fold_delete fn (xs @ ys) u =
     (let (rv, xs', u) = fold_delete fn xs u in
      if rv \<noteq> 0 then (rv, xs' @ ys, u)
      else let (rv, ys', u) = fold_delete fn ys u in (rv, xs' @ ys', u))"
  by (induction xs arbitrary: u) (auto simp: split_beta Let_def)

lemma fold_delete_sub: "fst (snd (fold_delete fn xs u)) = xs' \<Longrightarrow> set xs' \<subseteq> set xs \<and>
    length xs' \<le> length xs \<and> (distinct (map fst xs) \<longrightarrow> distinct (map fst xs'))"
proof (induction xs arbitrary: u xs')
  case (Cons x xs)
  obtain rv u' where fn: "fn (fst x) (snd x) u = (rv, u')"
    by fastforce
  note IH = Cons(1) [of u', OF refl]
  then have "fst ` set (fst (snd (fold_delete fn xs u'))) \<subseteq> fst ` set xs"
    by blast
  with Cons(2) fn IH show ?case
    by (auto simp: split_beta Let_def split: if_splits)
qed simp

lemma rd_chain_entries:
  assumes "list_all in_use es" and "rd_chain fn es u = (rv, es', n, u')"
  shows "fold_delete fn (map elem_kv es) u = (rv, map elem_kv es', u') \<and>
    list_all in_use es' \<and> length es = length es' + n"
  using assms
proof (induction es arbitrary: u rv es' n u')
  case (Cons e es)
  obtain r w where fn: "fn (key e) (value e) u = (r, w)"
    by fastforce
  obtain rv1 es1 n1 u1 where rd: "rd_chain fn es w = (rv1, es1, n1, u1)"
    by (metis prod_cases4)
  show ?case
    using Cons.IH [OF _ rd] Cons.prems fn rd by (auto split: if_splits)
qed simp

lemma rd_bucket_entries:
  assumes "list_all in_use (e # es)" and "rd_bucket fn e es u = (rv, b', n, u')"
  shows "fold_delete fn (map elem_kv (e # es)) u = (rv, bucket_kvs b', u') \<and> bucket_ok b' \<and>
    length (e # es) = length (bucket_kvs b') + n"
  using assms
proof (induction es arbitrary: e u rv b' n u')
  case Nil
  obtain r w where "fn (key e) (value e) u = (r, w)"
    by fastforce
  with Nil show ?case
    by (auto simp: rd_bucket.simps bucket_kvs_def bucket_ok_def split: if_splits)
next
  case (Cons e' es)
  obtain r w where fn: "fn (key e) (value e) u = (r, w)"
    by fastforce
  obtain rv1 b1 n1 u1 where rb: "rd_bucket fn e' es w = (rv1, b1, n1, u1)"
    by (metis prod_cases4)
  obtain rv2 es2 n2 u2 where rc: "rd_chain fn (e' # es) w = (rv2, es2, n2, u2)"
    by (metis prod_cases4)
  have use: "in_use e" "list_all in_use (e' # es)"
    using Cons(2) by simp_all
  note IH = Cons(1) [OF use(2) rb] and ch = rd_chain_entries [OF use(2) rc]
  consider "r = SHASH_REDUCE_DELETE" | "r \<noteq> SHASH_REDUCE_DELETE" "r \<noteq> 0" | "r = 0"
    by blast
  then show ?case
  proof cases
    case 1
    with Cons(3) use(1) fn rb have "rv = rv1" "b' = b1" "n = Suc n1" "u' = u1"
      by (auto simp: rd_bucket.simps [of fn e])
    with 1 IH fn show ?thesis
      by simp
  next
    case 2
    with Cons(3) use(1) fn have "rv = r" "b' = (e, e' # es)" "n = 0" "u' = w"
      by (auto simp: rd_bucket.simps [of fn e])
    with 2 fn use show ?thesis
      by (simp add: used_kvs bucket_ok_def)
  next
    case 3
    with Cons(3) use(1) fn rc have "rv = rv2" "b' = (e, es2)" "n = n2" "u' = u2"
      by (auto simp: rd_bucket.simps [of fn e] SHASH_REDUCE_DELETE_def)
    with 3 fn use ch show ?thesis
      by (simp add: used_kvs bucket_ok_def SHASH_REDUCE_DELETE_def del: rd_chain.simps)
  qed
qed

lemma all_nat_less_Suc: "(\<forall>i<Suc n. P i) \<longleftrightarrow> P 0 \<and> (\<forall>i<n. P (Suc i))"
  by (auto simp: less_Suc_eq_0_disj)

lemma rd_table_entries:
  assumes "list_all bucket_ok bs" and "rd_table fn bs u = (rv, bs', n, u')"
  shows "fold_delete fn (concat (map bucket_kvs bs)) u = (rv, concat (map bucket_kvs bs'), u') \<and>
    list_all bucket_ok bs' \<and> length bs' = length bs \<and>
    length (concat (map bucket_kvs bs)) = length (concat (map bucket_kvs bs')) + n \<and>
    (\<forall>i<length bs. set (bucket_kvs (bs' ! i)) \<subseteq> set (bucket_kvs (bs ! i)) \<and>
       (distinct (map fst (bucket_kvs (bs ! i))) \<longrightarrow> distinct (map fst (bucket_kvs (bs' ! i)))))"
  using assms
proof (induction bs arbitrary: u rv bs' n u')
  case (Cons b bs)
  obtain rv1 b1 n1 u1 where rb: "rd_bucket fn (fst b) (snd b) u = (rv1, b1, n1, u1)"
    by (metis prod_cases4)
  obtain rv2 bs2 n2 u2 where rt: "rd_table fn bs u1 = (rv2, bs2, n2, u2)"
    by (metis prod_cases4)
  have b: "fold_delete fn (bucket_kvs b) u = (rv1, bucket_kvs b1, u1) \<and> bucket_ok b1 \<and>
      length (bucket_kvs b) = length (bucket_kvs b1) + n1"
  proof (cases "in_use (fst b)")
    case True
    with Cons(2) rd_bucket_entries [of "fst b" "snd b" fn u, OF _ rb] show ?thesis
      by (simp add: bucket_kvs_def bucket_ok_def)
  next
    case False
    with rb Cons(2) show ?thesis
      by (auto simp: rd_bucket.simps bucket_kvs_def)
  qed
  then have sub: "set (bucket_kvs b1) \<subseteq> set (bucket_kvs b) \<and>
      (distinct (map fst (bucket_kvs b)) \<longrightarrow> distinct (map fst (bucket_kvs b1)))"
    using fold_delete_sub [of fn "bucket_kvs b" u "bucket_kvs b1"] by simp
  note IH = Cons(1) [OF _ rt]
  show ?case
  proof (cases "rv1 = 0")
    case True
    with Cons(3) rb rt have "rv = rv2" "bs' = b1 # bs2" "n = n1 + n2" "u' = u2"
      by auto
    with True Cons(2) b sub IH show ?thesis
      by (simp add: fold_delete_append all_nat_less_Suc)
  next
    case False
    with Cons(3) rb have "rv = rv1" "bs' = b1 # bs" "n = n1" "u' = u1"
      by auto
    with False Cons(2) b sub show ?thesis
      by (simp add: fold_delete_append all_nat_less_Suc)
  qed
qed simp

text \<open>The entries, read as an association list, are the map.\<close>

lemma concat_keys:
  assumes "\<forall>i<length bs. \<forall>k\<in>fst ` set (bucket_kvs (bs ! i)). f k = n + i"
    and "\<forall>b\<in>set bs. distinct (map fst (bucket_kvs b))"
  shows "distinct (map fst (concat (map bucket_kvs bs))) \<and>
    (\<forall>k. map_of (concat (map bucket_kvs bs)) k =
       (if n \<le> f k \<and> f k < n + length bs then map_of (bucket_kvs (bs ! (f k - n))) k else None))"
  using assms
proof (induction bs arbitrary: n)
  case (Cons b bs)
  have b: "\<forall>k\<in>fst ` set (bucket_kvs b). f k = n" and bs: "\<forall>i<length bs. \<forall>k\<in>fst ` set (bucket_kvs (bs ! i)). f k = Suc n + i"
    using Cons(2) by (simp_all add: all_nat_less_Suc)
  have IH: "distinct (map fst (concat (map bucket_kvs bs)))"
    "\<And>k. map_of (concat (map bucket_kvs bs)) k =
       (if Suc n \<le> f k \<and> f k < Suc n + length bs then map_of (bucket_kvs (bs ! (f k - Suc n))) k else None)"
    using Cons(1) [OF bs] Cons(3) by simp_all
  have later: "Suc n \<le> f k" if "k \<in> fst ` set (concat (map bucket_kvs bs))" for k
    using IH(2) [of k] that by (metis (no_types, lifting) map_of_eq_None_iff)
  have "distinct (map fst (concat (map bucket_kvs (b # bs))))"
    using IH(1) b later Cons(3) by fastforce
  moreover have "map_of (concat (map bucket_kvs (b # bs))) k =
      (if n \<le> f k \<and> f k < n + length (b # bs) then map_of (bucket_kvs ((b # bs) ! (f k - n))) k else None)" for k
  proof (cases "f k = n")
    case True
    then show ?thesis
      using IH(2) [of k] by (simp add: map_add_def split: option.splits)
  next
    case False
    then have "map_of (bucket_kvs b) k = None" "n \<le> f k \<longleftrightarrow> Suc n \<le> f k"
      using b by (auto simp: map_of_eq_None_iff)
    moreover have "(b # bs) ! (f k - n) = bs ! (f k - Suc n)" if "Suc n \<le> f k"
      using that by (simp add: nth_Cons')
    ultimately show ?thesis
      using IH(2) [of k] by (simp add: map_add_def split: option.splits)
  qed
  ultimately show ?case
    by blast
qed auto

lemma entries_lookup:
  assumes "shash_inv h"
  shows "distinct (map fst (entries h))" and "map_of (entries h) = shash_lookup h"
    and "length (entries h) = card (dom (shash_lookup h))"
proof -
  have ok: "shash_ok h"
    using assms by (simp add: shash_inv_def)
  have "\<forall>i<length (table h). \<forall>k\<in>fst ` set (bucket_kvs (table h ! i)). bucket_of h k = 0 + i"
    "\<forall>b\<in>set (table h). distinct (map fst (bucket_kvs b))"
    using assms by (simp_all add: shash_inv_def shash_ok_def list_all_iff)
  note c = concat_keys [OF this]
  show d: "distinct (map fst (entries h))"
    using c unfolding entries_def by blast
  show m: "map_of (entries h) = shash_lookup h"
    using c bucket_of_less [OF ok] by (auto simp: fun_eq_iff entries_def shash_lookup_def)
  show "length (entries h) = card (dom (shash_lookup h))"
    unfolding m [symmetric] dom_map_of_conv_image_fst using d
    by (metis distinct_card length_map set_map)
qed

lemma reduce_delete_inv:
  assumes "shash_inv h" and "shash_reduce_delete h fn u = (h', u', rv)"
  shows "fold_delete fn (entries h) u = (rv, entries h', u')" and "shash_inv h'"
proof -
  obtain bs n where rd: "rd_table fn (table h) u = (rv, bs, n, u')"
      and h': "h' = h\<lparr>table := bs, elements := elements h - of_nat n\<rparr>"
    using assms(2) by (auto simp: shash_reduce_delete_def split: prod.splits)
  have ok: "shash_ok h" "list_all bucket_ok (table h)"
    using assms by (simp_all add: shash_inv_def shash_ok_def)
  note r = rd_table_entries [OF ok(2) rd]
  show "fold_delete fn (entries h) u = (rv, entries h', u')"
    using r by (simp add: entries_def h')
  have "bucket_of h' = bucket_of h"
    by (simp add: h' bucket_of_def fun_eq_iff)
  moreover have "elements h' = of_nat (length (entries h'))"
    using r shash_okD(3) [OF ok(1)] by (simp add: entries_def h')
  ultimately have "shash_ok h'"
    using r ok(1) unfolding shash_ok_def by (fastforce simp: h')
  then show "shash_inv h'"
    using r assms(1) unfolding shash_inv_def by (simp add: h' list_all_length)
qed


subsection \<open>Properties\<close>

lemma create_inv:
  assumes "shash_create mh mt mi ml junk fn sz flgs = (Some h, rv)" and "sz \<noteq> 0"
  shows "shash_inv h" and "shash_lookup h = Map.empty"
proof -
  have h: "h = \<lparr>elements = 0, table_len = sz, flags = flgs, h_fn = fn,
      table = replicate (unat sz) (junk\<lparr>in_use := False\<rparr>, [])\<rparr>"
    using assms(1) by (auto simp: shash_create_def split: if_splits)
  have kvs: "bucket_kvs (junk\<lparr>in_use := False\<rparr>, []) = []"
    by (simp add: bucket_kvs_def)
  have "entries h = []"
    by (simp add: entries_def h kvs)
  then show inv: "shash_inv h"
    using assms(2) by (auto simp: shash_inv_def shash_ok_def h list_all_length bucket_ok_def kvs)
  show "shash_lookup h = Map.empty"
    using bucket_of_less [of h] inv by (auto simp: fun_eq_iff shash_lookup_def shash_inv_def h kvs)
qed

text \<open>The calls of the table contract, when allocation succeeds.\<close>

definition sh_put :: "('k, 'v) shash \<Rightarrow> 'k \<Rightarrow> 'v \<Rightarrow> ('k, 'v) shash option" where
  "sh_put h k v = map_option fst (shash_put True h k v)"

definition sh_get :: "('k, 'v) shash \<Rightarrow> 'k \<Rightarrow> 'v option option" where
  "sh_get h k = map_option fst (shash_get h k)"

definition sh_remove :: "('k, 'v) shash \<Rightarrow> 'k \<Rightarrow> ('k, 'v) shash option" where
  "sh_remove h k = map_option fst (shash_delete h k)"

interpretation sh: kv_table shash_inv "\<lambda>_. True" shash_lookup id sh_put sh_get sh_remove
proof
  fix h :: "('a, 'b) shash" and k v
  assume inv: "shash_inv h"
  obtain h' where "shash_put True h k v = Some (h', SHASH_OK)" "shash_inv h'"
      "shash_lookup h' = (shash_lookup h)(k \<mapsto> v)"
    using put_inv [OF inv] .
  then show "\<exists>t'. sh_put h k v = Some t' \<and> shash_inv t' \<and> shash_lookup t' = (shash_lookup h)(id k \<mapsto> v)"
    by (auto simp: sh_put_def)
  show "sh_get h k = Some (shash_lookup h (id k))"
    by (simp add: sh_get_def get_inv [OF inv])
  obtain h' where "shash_delete h k = Some (h', if shash_lookup h k = None then SHASH_ERR_NOTFOUND else SHASH_OK)"
      "shash_inv h'" "shash_lookup h' = (shash_lookup h)(k := None)"
    using get_and_delete_inv [OF inv] .
  then show "\<exists>t'. sh_remove h k = Some t' \<and> shash_inv t' \<and> shash_lookup t' = (shash_lookup h)(id k := None)"
    by (auto simp: sh_remove_def)
qed

text \<open>
  C12.  A table fresh from \<^verbatim>\<open>shash_create\<close> with at least one bucket behaves as a finite map under every
  sequence of \<^verbatim>\<open>shash_put\<close>, \<^verbatim>\<open>shash_get\<close> and \<^verbatim>\<open>shash_delete\<close>: whatever the hash function and
  the collisions, a get returns the value last put under its key and not deleted since.
\<close>

theorem shash_like_map:
  assumes "shash_create True True True True junk fn sz flgs = (Some h, SHASH_OK)" and "sz \<noteq> 0"
  shows "\<exists>h'. run_table sh_put sh_get sh_remove h cs = Some (fst (map_calls id Map.empty cs), h') \<and>
    shash_inv h' \<and> shash_lookup h' = snd (map_calls id Map.empty cs)"
  using sh.calls_like_map [OF create_inv(1) [OF assms], of cs] create_inv(2) [OF assms] by (simp add: list.pred_True)

text \<open>A table in which every key collides.\<close>

definition one_bucket :: "(int, int) shash" where
  "one_bucket = the (fst (shash_create True True True True \<lparr>in_use = True, key = 0, value = 0\<rparr> (\<lambda>k. 5) 1 0))"

lemma one_bucket_create:
  "shash_create True True True True \<lparr>in_use = True, key = 0, value = 0\<rparr> (\<lambda>k. 5) 1 0 =
     (Some one_bucket, SHASH_OK)"
  by (simp add: one_bucket_def shash_create_def)

theorem shash_like_map_witness:
  "\<exists>h'. run_table sh_put sh_get sh_remove one_bucket
       [Put 1 10, Put 2 20, Put 1 11, Remove 2, Get 1, Get 2] = Some ([Some 11, None], h')"
  using shash_like_map [OF one_bucket_create, of "[Put 1 10, Put 2 20, Put 1 11, Remove 2, Get 1, Get 2]"]
  by auto

lemma used_length_bucket: "bucket_ok b \<Longrightarrow> used_length (fst b # snd b) = length (bucket_kvs b)"
proof -
  have "list_all in_use es \<Longrightarrow> used_length es = length es" for es :: "('a, 'b) shash_elem list"
    by (induction es) auto
  then show "bucket_ok b \<Longrightarrow> used_length (fst b # snd b) = length (bucket_kvs b)"
    by (auto simp: bucket_ok_def bucket_kvs_def)
qed

lemma get_size_inv:
  assumes "shash_inv h"
  shows "shash_get_size h = of_nat (card (dom (shash_lookup h)))"
proof -
  have ok: "shash_ok h" "list_all bucket_ok (table h)"
    using assms by (simp_all add: shash_inv_def shash_ok_def)
  then have sizes: "map (\<lambda>b. used_length (fst b # snd b)) (table h) = map (\<lambda>b. length (bucket_kvs b)) (table h)"
    by (simp add: list_all_iff used_length_bucket del: used_length.simps)
  show ?thesis
    unfolding shash_get_size_def shash_okD(3) [OF ok(1)] entries_lookup(3) [OF assms, symmetric] sizes
    by (simp add: entries_def length_concat comp_def del: used_length.simps)
qed

lemma put_unique_inv:
  assumes "shash_inv h"
  shows "shash_lookup h k \<noteq> None \<Longrightarrow> shash_put_unique m h k v = Some (h, SHASH_ERR_FOUND)"
    and "shash_lookup h k = None \<Longrightarrow> shash_put_unique True h k v = shash_put True h k v"
proof -
  define b where "b = table h ! bucket_of h k"
  note f = bucket_facts [OF assms b_def]
  show "shash_put_unique m h k v = Some (h, SHASH_ERR_FOUND)" if "shash_lookup h k \<noteq> None"
    using that f(3,5,6) by (auto simp: shash_put_unique_def simp flip: b_def simp del: chain_find.simps)
  show "shash_put_unique True h k v = shash_put True h k v" if "shash_lookup h k = None"
    using that f(3,5,6)
    by (auto simp: shash_put_unique_def shash_put_def simp flip: b_def simp del: chain_find.simps)
qed

text \<open>
  The operations that report what was there: \<^verbatim>\<open>shash_put_unique\<close> refuses a present key,
  \<^verbatim>\<open>shash_get_and_delete\<close> returns and removes, \<^verbatim>\<open>shash_update\<close> with a buffer for the old
  value stores what the update function makes of it.  Each keeps the invariant, and the
  size that \<^verbatim>\<open>shash_get_size\<close> then reports is the number of keys, with and without \<^verbatim>\<open>MANYLOCK\<close>.
\<close>

theorem shash_conditional_ops:
  assumes "shash_inv h" and "update_fn k (shash_lookup h k) v u = (v', u')"
  shows "(if shash_lookup h k \<noteq> None then shash_put_unique True h k v = Some (h, SHASH_ERR_FOUND)
     else \<exists>h'. shash_put_unique True h k v = Some (h', SHASH_OK) \<and> shash_inv h' \<and>
       shash_lookup h' = (shash_lookup h)(k \<mapsto> v)) \<and>
    (\<exists>h'. shash_get_and_delete h k = Some (h', shash_lookup h k,
           if shash_lookup h k = None then SHASH_ERR_NOTFOUND else SHASH_OK) \<and>
       shash_inv h' \<and> shash_lookup h' = (shash_lookup h)(k := None)) \<and>
    (\<exists>h'. shash_update True h k True v update_fn u = Some (h', u', SHASH_OK) \<and>
       shash_inv h' \<and> shash_lookup h' = (shash_lookup h)(k \<mapsto> v') \<and>
       shash_get_size h' = of_nat (card (dom (shash_lookup h'))))"
proof (intro conjI)
  show "if shash_lookup h k \<noteq> None then shash_put_unique True h k v = Some (h, SHASH_ERR_FOUND)
     else \<exists>h'. shash_put_unique True h k v = Some (h', SHASH_OK) \<and> shash_inv h' \<and>
       shash_lookup h' = (shash_lookup h)(k \<mapsto> v)"
  proof (cases "shash_lookup h k = None")
    case True
    obtain h' where "shash_put True h k v = Some (h', SHASH_OK)" "shash_inv h'"
        "shash_lookup h' = (shash_lookup h)(k \<mapsto> v)"
      using put_inv [OF assms(1)] .
    with True put_unique_inv(2) [OF assms(1) True, of v] show ?thesis
      by simp
  next
    case False
    with put_unique_inv(1) [OF assms(1) False, of True v] show ?thesis
      by simp
  qed
  show "\<exists>h'. shash_get_and_delete h k = Some (h', shash_lookup h k,
           if shash_lookup h k = None then SHASH_ERR_NOTFOUND else SHASH_OK) \<and>
       shash_inv h' \<and> shash_lookup h' = (shash_lookup h)(k := None)"
    using get_and_delete_inv [OF assms(1), of k] by metis
  show "\<exists>h'. shash_update True h k True v update_fn u = Some (h', u', SHASH_OK) \<and>
       shash_inv h' \<and> shash_lookup h' = (shash_lookup h)(k \<mapsto> v') \<and>
       shash_get_size h' = of_nat (card (dom (shash_lookup h')))"
  proof -
    obtain h' where "shash_update True h k True v update_fn u = Some (h', u', SHASH_OK)" "shash_inv h'"
        "shash_lookup h' = (shash_lookup h)(k \<mapsto> v')"
      using update_inv [OF assms(1), of update_fn k v u v' u', OF assms(2)] by blast
    with get_size_inv [of h'] show ?thesis
      by auto
  qed
qed

theorem shash_conditional_ops_witness:
  "\<exists>h'. shash_update True one_bucket 3 True 7 (\<lambda>k old v u. (v, u + 1)) (0 :: int) = Some (h', 1, SHASH_OK) \<and>
     shash_lookup h' = [3 \<mapsto> 7] \<and> shash_get_size h' = 1"
proof -
  have "shash_inv one_bucket" "shash_lookup one_bucket = Map.empty"
    using create_inv [OF one_bucket_create] by simp_all
  then show ?thesis
    using shash_conditional_ops [of one_bucket "\<lambda>k old v u. (v, u + 1)" 3 7 "0 :: int" 7 1] by auto
qed

text \<open>
  Traversals: \<^verbatim>\<open>shash_reduce\<close> calls back on every entry once, in table order, and stops at
  the first non-zero answer, which it returns; \<^verbatim>\<open>shash_reduce_delete\<close> removes exactly the
  entries answered with 1, stops at any other non-zero answer, and leaves a table whose element
  count is again its number of keys.  The entries are those of the map, without repetition.
\<close>

theorem shash_traversals:
  assumes "shash_inv h" and "shash_reduce_delete h fn u = (h', u', rv)"
  shows "shash_reduce h fn u = fold_entries fn (entries h) u \<and>
    map_of (entries h) = shash_lookup h \<and> distinct (map fst (entries h)) \<and>
    fold_delete fn (entries h) u = (rv, entries h', u') \<and> shash_inv h' \<and>
    elements h' = of_nat (card (dom (shash_lookup h')))"
proof -
  have "list_all bucket_ok (table h)"
    using assms by (simp add: shash_inv_def shash_ok_def)
  then have "shash_reduce h fn u = fold_entries fn (entries h) u"
    by (simp add: shash_reduce_def entries_def reduce_table_entries)
  moreover have "elements h' = of_nat (card (dom (shash_lookup h')))"
    using reduce_delete_inv(2) [OF assms] entries_lookup(3) [of h'] shash_okD(3) [of h']
    by (simp add: shash_inv_def)
  ultimately show ?thesis
    using reduce_delete_inv [OF assms] entries_lookup [OF assms(1)] by simp
qed

definition one_key :: "(int, int) shash" where
  "one_key = fst (the (shash_put True one_bucket 3 7))"

lemma one_key_eq:
  "one_key = \<lparr>elements = 1, table_len = 1, flags = 0, h_fn = \<lambda>k. 5,
     table = [(\<lparr>in_use = True, key = 3, value = 7\<rparr>, [])]\<rparr>"
  by (simp add: one_key_def one_bucket_def shash_create_def shash_put_def shash_index_def set_bucket_def
      new_elem_def)

lemma one_key_inv: "shash_inv one_key" "shash_lookup one_key = [3 \<mapsto> 7]"
proof -
  have inv: "shash_inv one_bucket" and lk: "shash_lookup one_bucket = Map.empty"
    using create_inv [OF one_bucket_create] by simp_all
  obtain h' where "shash_put True one_bucket 3 7 = Some (h', SHASH_OK)" "shash_inv h'"
      "shash_lookup h' = (shash_lookup one_bucket)(3 \<mapsto> 7)"
    using put_inv [OF inv] .
  with lk show "shash_inv one_key" "shash_lookup one_key = [3 \<mapsto> 7]"
    by (simp_all add: one_key_def)
qed

theorem shash_traversals_witness:
  "\<exists>h'. shash_reduce_delete one_key (\<lambda>k v u. (1, u + v)) (0 :: int) = (h', 7, 0) \<and> shash_inv h' \<and>
     elements h' = 0"
proof -
  obtain h' where r: "shash_reduce_delete one_key (\<lambda>k v u. (1, u + v)) (0 :: int) = (h', 7, 0)"
      and "elements h' = 0"
    by (simp add: one_key_eq shash_reduce_delete_def rd_bucket.simps SHASH_REDUCE_DELETE_def)
  with shash_traversals [OF one_key_inv(1) r] show ?thesis
    by blast
qed

text \<open>
  \<^verbatim>\<open>shash_update\<close> called without a buffer for the old value on a key that is present counts the
  key a second time: the table has one key, and \<^verbatim>\<open>shash_get_size\<close> reports two.
\<close>

theorem update_counts_twice:
  "\<exists>h' u. shash_update True one_key 3 False 8 (\<lambda>k old v u. (v, u)) (0 :: int) = Some (h', u, SHASH_OK) \<and>
     shash_lookup h' = [3 \<mapsto> 8] \<and> shash_get_size h' = 2"
  by (simp add: one_key_eq shash_update_def shash_index_def bucket_set_def set_bucket_def shash_get_size_def
      has_flag_def shash_lookup_def fun_eq_iff bucket_of_def bucket_kvs_def elem_kv_def)

end
