(* ===== verification/AsVal.thy ===== *)
theory AsVal
  imports Prelude
begin

text \<open>
  The values the client stores in bins, lists and maps (\<^verbatim>\<open>as_val.h\<close> and the value types derived
  from it), their hash codes, and the key comparison of \<^verbatim>\<open>as_hashmap.c\<close>.

  A string is the bytes up to its length; the buffer behind it carries a terminating zero after
  them.  A list holds pointers to values, so an entry may be null, and so may the value of a map
  entry and the two sides of a pair.  A map is the sequence of entries its \<^verbatim>\<open>foreach\<close> visits.  A
  record is opaque: the code below only asks for its type.
\<close>

datatype as_val =
    AsNil
  | AsBoolean bool
  | AsInteger u64
  | AsString "byte list"
  | AsBytes byte "byte list"
  | AsList "as_val option list"
  | AsMap "(as_val \<times> as_val option) list"
  | AsRec
  | AsPair "as_val option" "as_val option"

datatype as_val_t =
  AS_UNKNOWN | AS_NIL | AS_BOOLEAN | AS_INTEGER | AS_STRING | AS_LIST | AS_MAP | AS_REC | AS_PAIR | AS_BYTES

fun as_val_type :: "as_val \<Rightarrow> as_val_t" where
  "as_val_type AsNil = AS_NIL"
| "as_val_type (AsBoolean _) = AS_BOOLEAN"
| "as_val_type (AsInteger _) = AS_INTEGER"
| "as_val_type (AsString _) = AS_STRING"
| "as_val_type (AsBytes _ _) = AS_BYTES"
| "as_val_type (AsList _) = AS_LIST"
| "as_val_type (AsMap _) = AS_MAP"
| "as_val_type AsRec = AS_REC"
| "as_val_type (AsPair _ _) = AS_PAIR"

text \<open>The particle types of \<^verbatim>\<open>as_bytes.h\<close>.\<close>

definition AS_BYTES_UNDEF :: byte where "AS_BYTES_UNDEF = 0"
definition AS_BYTES_INTEGER :: byte where "AS_BYTES_INTEGER = 1"
definition AS_BYTES_STRING :: byte where "AS_BYTES_STRING = 3"
definition AS_BYTES_BLOB :: byte where "AS_BYTES_BLOB = 4"
definition AS_BYTES_MAP :: byte where "AS_BYTES_MAP = 19"
definition AS_BYTES_LIST :: byte where "AS_BYTES_LIST = 20"

lemmas as_bytes_types =
  AS_BYTES_UNDEF_def AS_BYTES_INTEGER_def AS_BYTES_STRING_def AS_BYTES_BLOB_def AS_BYTES_MAP_def
  AS_BYTES_LIST_def

text \<open>What a C string function sees of a buffer: the bytes before the first zero.\<close>

definition c_str :: "byte list \<Rightarrow> byte list" where
  "c_str s = takeWhile (\<lambda>c. c \<noteq> 0) s"

lemma c_str_id: "0 \<notin> set s \<Longrightarrow> c_str s = s"
  unfolding c_str_def by (induction s) auto

lemma c_str_nul_free [simp]: "0 \<notin> set (c_str s)"
  unfolding c_str_def by (auto dest: set_takeWhileD)

lemma c_str_idem [simp]: "c_str (c_str s) = c_str s"
  by (rule c_str_id) simp


subsection \<open>Hash codes\<close>

text \<open>
  Plain \<^verbatim>\<open>char\<close> is signed on some of the supported platforms and unsigned on others; \<open>char_signed\<close>
  says which.
\<close>

definition char_to_int :: "bool \<Rightarrow> byte \<Rightarrow> u32" where
  "char_to_int char_signed c = (if char_signed then scast c else ucast c)"

definition sdbm :: "u32 \<Rightarrow> u32 \<Rightarrow> u32" where
  "sdbm c hash = c + push_bit 6 hash + push_bit 16 hash - hash"

definition as_string_val_hashcode :: "bool \<Rightarrow> byte list \<Rightarrow> u32" where
  "as_string_val_hashcode char_signed s = fold (\<lambda>c. sdbm (char_to_int char_signed c)) (c_str s) 0"

text \<open>
  The loop \<^verbatim>\<open>while (--len)\<close> leaves out the last byte.  With no bytes at all the counter starts below
  zero, so the loop reads on past the buffer.
\<close>

definition as_bytes_val_hashcode :: "byte list \<Rightarrow> u32 option" where
  "as_bytes_val_hashcode b =
     (if b = [] then None else Some (fold (\<lambda>c. sdbm (ucast c)) (butlast b) 0))"

text \<open>A record hashes through its own hooks; it is never a key and its hash is left out.\<close>

fun as_val_hashcode :: "bool \<Rightarrow> as_val \<Rightarrow> u32 option" where
  "as_val_hashcode cs AsNil = Some 0"
| "as_val_hashcode cs (AsBoolean b) = Some (if b then 1 else 0)"
| "as_val_hashcode cs (AsInteger i) = Some (ucast i)"
| "as_val_hashcode cs (AsString s) = Some (as_string_val_hashcode cs s)"
| "as_val_hashcode cs (AsBytes _ b) = as_bytes_val_hashcode b"
| "as_val_hashcode cs (AsList _) = Some 0"
| "as_val_hashcode cs (AsMap _) = Some 1"
| "as_val_hashcode cs AsRec = None"
| "as_val_hashcode cs (AsPair _ _) = Some 0"


subsection \<open>Keys of a map\<close>

fun is_valid_key_type :: "as_val option \<Rightarrow> bool" where
  "is_valid_key_type None = False"
| "is_valid_key_type (Some k) =
     (case as_val_type k of
        AS_NIL \<Rightarrow> True | AS_BOOLEAN \<Rightarrow> True | AS_INTEGER \<Rightarrow> True | AS_STRING \<Rightarrow> True | AS_BYTES \<Rightarrow> True
      | _ \<Rightarrow> False)"

fun eq_val :: "as_val \<Rightarrow> as_val \<Rightarrow> bool" where
  "eq_val AsNil AsNil = True"
| "eq_val (AsBoolean a) (AsBoolean b) = (a = b)"
| "eq_val (AsInteger a) (AsInteger b) = (a = b)"
| "eq_val (AsString a) (AsString b) = (c_str a = c_str b)"
| "eq_val (AsBytes _ a) (AsBytes _ b) = (length a = length b \<and> a = b)"
| "eq_val _ _ = False"

text \<open>What the map compares of a key: a string up to its first zero, a blob without its type.\<close>

fun key_norm :: "as_val \<Rightarrow> as_val" where
  "key_norm (AsString s) = AsString (c_str s)"
| "key_norm (AsBytes _ b) = AsBytes AS_BYTES_BLOB b"
| "key_norm k = k"

text \<open>A key the map accepts and can hash.\<close>

definition hashable_key :: "as_val \<Rightarrow> bool" where
  "hashable_key k \<longleftrightarrow> is_valid_key_type (Some k) \<and> (\<forall>t. k \<noteq> AsBytes t [])"

lemma hashable_key_simps [simp]:
  "hashable_key AsNil" "hashable_key (AsBoolean b)" "hashable_key (AsInteger i)"
  "hashable_key (AsString s)" "hashable_key (AsBytes t bs) \<longleftrightarrow> bs \<noteq> []"
  "\<not> hashable_key (AsList xs)" "\<not> hashable_key (AsMap es)" "\<not> hashable_key AsRec"
  "\<not> hashable_key (AsPair x y)"
  by (auto simp: hashable_key_def)

lemma eq_val_iff:
  "is_valid_key_type (Some a) \<Longrightarrow> is_valid_key_type (Some b) \<Longrightarrow> eq_val a b \<longleftrightarrow> key_norm a = key_norm b"
  by (cases a; cases b; force)

lemma hashable_key_valid: "hashable_key k \<Longrightarrow> is_valid_key_type (Some k)"
  by (simp add: hashable_key_def)

lemma hashable_key_hash: "hashable_key k \<Longrightarrow> \<exists>h. as_val_hashcode cs k = Some h"
  by (cases k) (auto simp: as_bytes_val_hashcode_def)

text \<open>Keys that compare equal hash alike, and so go to the same slot.\<close>

lemma hashcode_key_norm: "as_val_hashcode cs (key_norm k) = as_val_hashcode cs k"
  by (cases k) (auto simp: as_string_val_hashcode_def)

lemma eq_hashcode: "key_norm a = key_norm b \<Longrightarrow> as_val_hashcode cs a = as_val_hashcode cs b"
  using hashcode_key_norm by metis

end
