(* ===== verification/ArrayList.thy ===== *)
theory ArrayList
  imports AsVal
begin

text \<open>
  The growable array of values, \<^verbatim>\<open>as_arraylist.c\<close>: the behaviour behind every list value of the
  client, and what the msgpack decoder fills.

  \<open>elements\<close> is the allocated array of pointers (a null pointer is \<open>None\<close>, a null array the empty
  list), \<open>capacity\<close> what the code believes its length to be.  Sizes and capacities are 32-bit words
  as in the code.  An access outside the array, or a \<^verbatim>\<open>memset\<close> whose length has wrapped, is the result
  \<open>None\<close>; the argument \<open>ok\<close> says whether the allocation the call makes succeeds.
\<close>

record 'v as_arraylist =
  block_size :: u32
  capacity :: u32
  al_size :: u32
  elements :: "'v option list"
  al_free :: bool

datatype as_arraylist_status =
  AS_ARRAYLIST_OK | AS_ARRAYLIST_ERR_ALLOC | AS_ARRAYLIST_ERR_MAX | AS_ARRAYLIST_ERR_INDEX

definition as_arraylist_init :: "bool \<Rightarrow> u32 \<Rightarrow> u32 \<Rightarrow> 'v as_arraylist" where
  "as_arraylist_init ok cap block =
     \<lparr> block_size = block, capacity = cap, al_size = 0,
       elements = (if 0 < cap \<and> ok then replicate (unat cap) None else []), al_free = (0 < cap) \<rparr>"

text \<open>The first flag is the allocation of the list itself, the second that of its elements.\<close>

definition as_arraylist_new :: "bool \<Rightarrow> bool \<Rightarrow> u32 \<Rightarrow> u32 \<Rightarrow> 'v as_arraylist option" where
  "as_arraylist_new ok ok_elements cap block =
     (if \<not> ok then None
      else Some \<lparr> block_size = block, capacity = cap, al_size = 0,
        elements = (if 0 < cap \<and> ok_elements then replicate (unat cap) None else []),
        al_free = (0 < cap) \<rparr>)"

text \<open>
  The destroyed values, and whether the array is given back to the allocator.
\<close>

definition as_arraylist_release :: "'v as_arraylist \<Rightarrow> ('v as_arraylist \<times> 'v list \<times> bool) option" where
  "as_arraylist_release l =
     (if elements l = [] then Some (l\<lparr>al_size := 0, capacity := 0\<rparr>, [], False)
      else do {
        vs \<leftarrow> mem_read (elements l) 0 (unat (al_size l));
        Some (l\<lparr>elements := [], al_size := 0, capacity := 0\<rparr>, List.map_filter id vs, al_free l) })"

text \<open>
  Growing.  The new capacity is an \<^verbatim>\<open>int\<close>: from $2^{31}$ on it turns into a request for more bytes
  than there are addresses, which cannot be met.
\<close>

definition as_arraylist_ensure ::
  "bool \<Rightarrow> 'v as_arraylist \<Rightarrow> u32 \<Rightarrow> ('v as_arraylist \<times> as_arraylist_status) option" where
  "as_arraylist_ensure ok l delta =
     (if al_size l + delta > capacity l then
        if block_size l = 0 then Some (l, AS_ARRAYLIST_ERR_MAX)
        else
          let new_room = (al_size l + delta) - capacity l;
              new_blocks = (new_room + block_size l) div block_size l;
              new_capacity = capacity l + new_blocks * block_size l in
          if \<not> ok \<or> 2 ^ 31 \<le> new_capacity then Some (l, AS_ARRAYLIST_ERR_ALLOC)
          else if new_capacity < capacity l then None
          else Some
            (l\<lparr>elements := elements l @ replicate (unat new_capacity - unat (capacity l)) None,
               capacity := new_capacity\<rparr>, AS_ARRAYLIST_OK)
      else Some (l, AS_ARRAYLIST_OK))"

definition as_arraylist_size :: "'v as_arraylist \<Rightarrow> u32" where
  "as_arraylist_size l = al_size l"

definition as_arraylist_get :: "'v as_arraylist \<Rightarrow> u32 \<Rightarrow> 'v option option" where
  "as_arraylist_get l i = (if i < al_size l then mem_load (elements l) (unat i) else Some None)"

definition store_elem :: "'v as_arraylist \<Rightarrow> nat \<Rightarrow> 'v option \<Rightarrow> 'v as_arraylist option" where
  "store_elem l i v = do { es \<leftarrow> mem_write (elements l) i [v]; Some (l\<lparr>elements := es\<rparr>) }"

definition as_arraylist_set ::
  "bool \<Rightarrow> 'v as_arraylist \<Rightarrow> u32 \<Rightarrow> 'v option \<Rightarrow> ('v as_arraylist \<times> as_arraylist_status) option" where
  "as_arraylist_set ok l i v = do {
     (l, rc) \<leftarrow> (if capacity l \<le> i then as_arraylist_ensure ok l ((i + 1) - al_size l)
                else Some (l, AS_ARRAYLIST_OK));
     if rc \<noteq> AS_ARRAYLIST_OK then Some (l, rc)
     else do {
       l \<leftarrow> store_elem l (unat i) v;
       Some (if al_size l \<le> i then l\<lparr>al_size := i + 1\<rparr> else l, rc) } }"

text \<open>The loop that moves the elements from \<open>i\<close> down to \<open>index\<close> one place up.\<close>

function shift_up :: "'v as_arraylist \<Rightarrow> u32 \<Rightarrow> u32 \<Rightarrow> 'v as_arraylist option" where
  "shift_up l i index =
     (if i > index then do {
        v \<leftarrow> mem_load (elements l) (unat (i - 1));
        l \<leftarrow> store_elem l (unat i) v;
        shift_up l (i - 1) index }
      else Some l)"
  by auto
termination
  by (relation "measure (\<lambda>(_, i, _). unat i)")
    (auto simp: unat_dec word_less_nat_alt unat_eq_zero intro!: diff_less)

declare shift_up.simps [simp del]

definition as_arraylist_insert ::
  "bool \<Rightarrow> 'v as_arraylist \<Rightarrow> u32 \<Rightarrow> 'v option \<Rightarrow> ('v as_arraylist \<times> as_arraylist_status) option" where
  "as_arraylist_insert ok l index v =
     (let delta = (if index > al_size l then index + 1 - al_size l else 1) in
      do {
        (l, rc) \<leftarrow> as_arraylist_ensure ok l delta;
        if rc \<noteq> AS_ARRAYLIST_OK then Some (l, rc)
        else do {
          l \<leftarrow> shift_up l (al_size l) index;
          l \<leftarrow> store_elem l (unat index) v;
          Some (if index > al_size l then l\<lparr>al_size := index + 1\<rparr> else l\<lparr>al_size := al_size l + 1\<rparr>,
                AS_ARRAYLIST_OK) } })"

definition as_arraylist_append ::
  "bool \<Rightarrow> 'v as_arraylist \<Rightarrow> 'v option \<Rightarrow> ('v as_arraylist \<times> as_arraylist_status) option" where
  "as_arraylist_append ok l v = as_arraylist_insert ok l (al_size l) v"

definition as_arraylist_prepend ::
  "bool \<Rightarrow> 'v as_arraylist \<Rightarrow> 'v option \<Rightarrow> ('v as_arraylist \<times> as_arraylist_status) option" where
  "as_arraylist_prepend ok l v = as_arraylist_insert ok l 0 v"

text \<open>The loop that moves the elements from \<open>i\<close> on one place down.\<close>

function shift_down :: "'v as_arraylist \<Rightarrow> u32 \<Rightarrow> 'v as_arraylist option" where
  "shift_down l i =
     (if i < al_size l then do {
        v \<leftarrow> mem_load (elements l) (unat i);
        es \<leftarrow> mem_write (elements l) (unat (i - 1)) [v];
        shift_down (l\<lparr>elements := es\<rparr>) (i + 1) }
      else Some l)"
  by auto
termination
  by (relation "measure (\<lambda>(l, i). unat (al_size l) - unat i)") (auto simp: inc_measure)

declare shift_down.simps [simp del]

definition as_arraylist_remove ::
  "'v as_arraylist \<Rightarrow> u32 \<Rightarrow> ('v as_arraylist \<times> as_arraylist_status) option" where
  "as_arraylist_remove l index =
     (if index \<ge> al_size l then Some (l, AS_ARRAYLIST_ERR_INDEX)
      else do {
        l \<leftarrow> shift_down l (index + 1);
        l \<leftarrow> Some (l\<lparr>al_size := al_size l - 1\<rparr>);
        l \<leftarrow> store_elem l (unat (al_size l)) None;
        Some (l, AS_ARRAYLIST_OK) })"

text \<open>
  Concatenation.  The second list may be the first one: then its size and elements change as the
  loop writes.  The loop runs at most as often as the array has free places, so \<open>n\<close>, the length of
  the array, is fuel enough: each round writes one more place.
\<close>

fun concat_loop :: "nat \<Rightarrow> 'v as_arraylist \<Rightarrow> 'v as_arraylist option \<Rightarrow> nat \<Rightarrow> 'v as_arraylist option" where
  "concat_loop n l other i =
     (let l2 = (case other of None \<Rightarrow> l | Some l2 \<Rightarrow> l2) in
      if i < unat (al_size l2) then do {
        v \<leftarrow> mem_load (elements l2) i;
        l \<leftarrow> store_elem l (unat (al_size l)) v;
        (case n of 0 \<Rightarrow> None
         | Suc n \<Rightarrow> concat_loop n (l\<lparr>al_size := al_size l + 1\<rparr>) other (Suc i)) }
      else Some l)"

declare concat_loop.simps [simp del]

definition as_arraylist_concat ::
  "bool \<Rightarrow> 'v as_arraylist \<Rightarrow> 'v as_arraylist option \<Rightarrow> ('v as_arraylist \<times> as_arraylist_status) option" where
  "as_arraylist_concat ok l other =
     (let l2 = (case other of None \<Rightarrow> l | Some l2 \<Rightarrow> l2) in
      do {
        (l, rc) \<leftarrow> as_arraylist_ensure ok l (al_size l2);
        if rc \<noteq> AS_ARRAYLIST_OK then Some (l, rc)
        else do {
          l \<leftarrow> concat_loop (length (elements l)) l other 0;
          Some (l, AS_ARRAYLIST_OK) } })"

function trim_loop :: "'v as_arraylist \<Rightarrow> u32 \<Rightarrow> 'v as_arraylist option" where
  "trim_loop l i =
     (if i < al_size l then do {
        es \<leftarrow> mem_write (elements l) (unat i) [None];
        trim_loop (l\<lparr>elements := es\<rparr>) (i + 1) }
      else Some l)"
  by auto
termination
  by (relation "measure (\<lambda>(l, i). unat (al_size l) - unat i)") (auto simp: inc_measure)

declare trim_loop.simps [simp del]

definition as_arraylist_trim ::
  "'v as_arraylist \<Rightarrow> u32 \<Rightarrow> ('v as_arraylist \<times> as_arraylist_status) option" where
  "as_arraylist_trim l index =
     (if index \<ge> al_size l then Some (l, AS_ARRAYLIST_ERR_INDEX)
      else do {
        l \<leftarrow> trim_loop l index;
        Some (l\<lparr>al_size := index\<rparr>, AS_ARRAYLIST_OK) })"

definition as_arraylist_head :: "'v as_arraylist \<Rightarrow> 'v option option" where
  "as_arraylist_head l = mem_load (elements l) 0"

text \<open>
  The loop of \<^verbatim>\<open>as_arraylist_tail\<close>: it reads the element to copy from the new list itself.
\<close>

function tail_loop :: "'v as_arraylist \<Rightarrow> 'v as_arraylist \<Rightarrow> nat \<Rightarrow> nat \<Rightarrow> 'v as_arraylist option" where
  "tail_loop l l2 i j =
     (if i < unat (al_size l) then do {
        e \<leftarrow> mem_load (elements l) i;
        v \<leftarrow> (case e of Some _ \<Rightarrow> mem_load (elements l2) i | None \<Rightarrow> Some None);
        l2 \<leftarrow> store_elem l2 j v;
        tail_loop l l2 (Suc i) (Suc j) }
      else Some l2)"
  by auto
termination
  by (relation "measure (\<lambda>(l, _, i, _). unat (al_size l) - i)") auto

declare tail_loop.simps [simp del]

text \<open>The results: not defined, a null pointer, or the new list.\<close>

definition as_arraylist_tail :: "'v as_arraylist \<Rightarrow> 'v as_arraylist option option" where
  "as_arraylist_tail l =
     (if al_size l = 0 then Some None
      else do {
        l2 \<leftarrow> as_arraylist_new True True (al_size l - 1) (block_size l);
        l2 \<leftarrow> tail_loop l l2 1 0;
        Some (Some l2) })"

text \<open>The copying loop shared by \<^verbatim>\<open>as_arraylist_drop\<close> and \<^verbatim>\<open>as_arraylist_take\<close>.\<close>

function copy_loop :: "'v as_arraylist \<Rightarrow> 'v as_arraylist \<Rightarrow> nat \<Rightarrow> nat \<Rightarrow> 'v as_arraylist option" where
  "copy_loop l l2 i j =
     (if j < unat (al_size l2) then do {
        v \<leftarrow> mem_load (elements l) i;
        es \<leftarrow> mem_write (elements l2) j [v];
        copy_loop l (l2\<lparr>elements := es\<rparr>) (Suc i) (Suc j) }
      else Some l2)"
  by auto
termination
  by (relation "measure (\<lambda>(_, l2, _, j). unat (al_size l2) - j)") auto

declare copy_loop.simps [simp del]

definition as_arraylist_drop :: "'v as_arraylist \<Rightarrow> u32 \<Rightarrow> 'v as_arraylist option" where
  "as_arraylist_drop l n =
     (let sz = al_size l; c = (if n < sz then n else sz) in
      do {
        l2 \<leftarrow> as_arraylist_new True True (sz - c) (block_size l);
        copy_loop l (l2\<lparr>al_size := sz - c\<rparr>) (unat c) 0 })"

definition as_arraylist_take :: "'v as_arraylist \<Rightarrow> u32 \<Rightarrow> 'v as_arraylist option" where
  "as_arraylist_take l n =
     (let sz = al_size l; c = (if n < sz then n else sz) in
      do {
        l2 \<leftarrow> as_arraylist_new True True c (block_size l);
        copy_loop l (l2\<lparr>al_size := c\<rparr>) 0 0 })"

text \<open>The callback sees the elements in order and can stop the walk.\<close>

function al_foreach_from ::
  "'v as_arraylist \<Rightarrow> nat \<Rightarrow> ('v option \<Rightarrow> 's \<Rightarrow> bool \<times> 's) \<Rightarrow> 's \<Rightarrow> (bool \<times> 's) option" where
  "al_foreach_from l i cb s =
     (if i < unat (al_size l) then do {
        v \<leftarrow> mem_load (elements l) i;
        let (go, s) = cb v s in if go then al_foreach_from l (Suc i) cb s else Some (False, s) }
      else Some (True, s))"
  by auto
termination
  by (relation "measure (\<lambda>(l, i, _). unat (al_size l) - i)") auto

declare al_foreach_from.simps [simp del]

definition as_arraylist_foreach ::
  "'v as_arraylist \<Rightarrow> ('v option \<Rightarrow> 's \<Rightarrow> bool \<times> 's) \<Rightarrow> 's \<Rightarrow> (bool \<times> 's) option" where
  "as_arraylist_foreach l cb s = al_foreach_from l 0 cb s"

text \<open>The typed accessors, on lists of values; a value of another type reads as a null pointer.\<close>

fun as_integer_fromval :: "as_val option \<Rightarrow> u64 option" where
  "as_integer_fromval (Some (AsInteger i)) = Some i"
| "as_integer_fromval _ = None"

definition as_integer_getorelse :: "u64 option \<Rightarrow> u64 \<Rightarrow> u64" where
  "as_integer_getorelse i fallback = (case i of Some v \<Rightarrow> v | None \<Rightarrow> fallback)"

definition as_arraylist_get_int64 :: "as_val as_arraylist \<Rightarrow> u32 \<Rightarrow> u64 option" where
  "as_arraylist_get_int64 l i =
     do { v \<leftarrow> as_arraylist_get l i; Some (as_integer_getorelse (as_integer_fromval v) 0) }"

fun as_string_fromval :: "as_val option \<Rightarrow> byte list option" where
  "as_string_fromval (Some (AsString s)) = Some s"
| "as_string_fromval _ = None"

definition as_arraylist_get_str :: "as_val as_arraylist \<Rightarrow> u32 \<Rightarrow> byte list option option" where
  "as_arraylist_get_str l i = do { v \<leftarrow> as_arraylist_get l i; Some (as_string_fromval v) }"

definition as_arraylist_set_int64 where
  "as_arraylist_set_int64 ok l i n = as_arraylist_set ok l i (Some (AsInteger n))"

definition as_arraylist_set_str where
  "as_arraylist_set_str ok l i s = as_arraylist_set ok l i (Some (AsString (c_str s)))"

definition as_arraylist_append_int64 where
  "as_arraylist_append_int64 ok l n = as_arraylist_append ok l (Some (AsInteger n))"

definition as_arraylist_append_str where
  "as_arraylist_append_str ok l s = as_arraylist_append ok l (Some (AsString (c_str s)))"

end
