(* ===== verification/ArrayListProps.thy ===== *)
theory ArrayListProps
  imports ArrayList
begin

text \<open>
  Correctness of the array list against the list of pointers it holds, and the interface of a
  growable list through which the msgpack decoder fills it.
\<close>

subsection \<open>The represented list\<close>

definition al_rep :: "'v as_arraylist \<Rightarrow> 'v option list \<Rightarrow> bool" where
  "al_rep l xs \<longleftrightarrow>
     unat (al_size l) = length xs \<and> length xs \<le> unat (capacity l) \<and> unat (capacity l) < 2 ^ 31 \<and>
     elements l = xs @ replicate (unat (capacity l) - length xs) None"

lemma al_rep_len: "al_rep l xs \<Longrightarrow> length (elements l) = unat (capacity l)"
  by (auto simp: al_rep_def)

lemma store_elem_in:
  "i < length (elements l) \<Longrightarrow> store_elem l i v = Some (l\<lparr>elements := (elements l)[i := v]\<rparr>)"
  by (simp add: store_elem_def mem_write_one)

lemma al_new_rep:
  assumes "unat cap < 2 ^ 31"
  shows "\<exists>l. as_arraylist_new True True cap block = Some l \<and> al_rep l [] \<and> block_size l = block \<and>
    capacity l = cap \<and> elements l = replicate (unat cap) None"
  using assms by (cases "cap = 0") (auto simp: as_arraylist_new_def al_rep_def word_gt_0)

text \<open>The list after a store at any index, and after an insertion: gaps are null pointers.\<close>

definition list_at :: "'v option list \<Rightarrow> nat \<Rightarrow> 'v option" where
  "list_at xs i = (if i < length xs then xs ! i else None)"

definition pad :: "'v option list \<Rightarrow> nat \<Rightarrow> 'v option list" where
  "pad xs n = xs @ replicate (n - length xs) None"

definition list_put :: "'v option list \<Rightarrow> nat \<Rightarrow> 'v option \<Rightarrow> 'v option list" where
  "list_put xs i v = (pad xs (Suc i))[i := v]"

definition list_insert :: "'v option list \<Rightarrow> nat \<Rightarrow> 'v option \<Rightarrow> 'v option list" where
  "list_insert xs i v = take i (pad xs i) @ v # drop i xs"

definition list_del :: "'v option list \<Rightarrow> nat \<Rightarrow> 'v option list" where
  "list_del xs i = take i xs @ drop (Suc i) xs"

lemma length_pad [simp]: "length (pad xs n) = max (length xs) n"
  by (simp add: pad_def)

lemma pad_nth: "i < length (pad xs n) \<Longrightarrow> pad xs n ! i = list_at xs i"
  by (auto simp: pad_def list_at_def nth_append)

lemma length_list_put [simp]: "length (list_put xs i v) = max (length xs) (Suc i)"
  by (simp add: list_put_def)

lemma length_list_insert [simp]: "length (list_insert xs i v) = Suc (max (length xs) i)"
  by (simp add: list_insert_def)


subsection \<open>Growing\<close>

lemma grown_capacity:
  fixes n delta cap block :: u32
  assumes room: "unat n + unat delta + unat block < 2 ^ 31" and "n \<le> cap" and "cap < n + delta" and "block \<noteq> 0"
  defines "new_cap \<equiv> cap + ((n + delta - cap) + block) div block * block"
  shows "unat n + unat delta \<le> unat new_cap" and "unat new_cap < 2 ^ 31" and "cap \<le> new_cap"
proof -
  have nd: "unat (n + delta) = unat n + unat delta"
    using room by (intro unat_add_small) simp
  have lt: "unat cap < unat n + unat delta"
    using assms(3) nd by (simp add: word_less_nat_alt)
  have room1: "unat (n + delta - cap) = unat n + unat delta - unat cap"
    using nd assms(3) by (simp add: unat_sub)
  have room2: "unat (n + delta - cap + block) = unat n + unat delta - unat cap + unat block"
    using room room1 by (subst unat_add_small) simp_all
  define x where "x = unat n + unat delta - unat cap"
  define q where "q = (x + unat block) div unat block * unat block"
  have b: "0 < unat block"
    using assms(4) by (simp add: unat_gt_0)
  have q: "q \<le> x + unat block" "x < q"
    using b div_mult_mod_eq [of "x + unat block" "unat block"] mod_less_divisor [OF b, of "x + unat block"]
    unfolding q_def by linarith+
  have small: "unat cap + (x + unat block) < 2 ^ 31" "unat n + unat delta = unat cap + x"
    using room lt by (simp_all add: x_def)
  have d: "unat ((n + delta - cap + block) div block) = (x + unat block) div unat block"
    by (simp only: unat_div room2 x_def)
  have "unat ((n + delta - cap + block) div block * block) = q"
    using unat_mult_lem [of "(n + delta - cap + block) div block" block] q small unfolding d q_def [symmetric]
    by simp
  then have "unat new_cap = unat cap + q"
    unfolding new_cap_def using q small by (subst unat_add_small) simp_all
  then show "unat n + unat delta \<le> unat new_cap" "unat new_cap < 2 ^ 31" "cap \<le> new_cap"
    using q small by (simp_all add: word_le_nat_alt)
qed

lemma ensure_rep:
  assumes "al_rep l xs" and "length xs + unat delta + unat (block_size l) < 2 ^ 31" and "block_size l \<noteq> 0"
  shows "\<exists>l'. as_arraylist_ensure True l delta = Some (l', AS_ARRAYLIST_OK) \<and> al_rep l' xs \<and>
    length xs + unat delta \<le> unat (capacity l') \<and> block_size l' = block_size l"
proof (cases "capacity l < al_size l + delta")
  case True
  let ?c = "capacity l + ((al_size l + delta - capacity l) + block_size l) div block_size l * block_size l"
  have sz: "unat (al_size l) = length xs" "al_size l \<le> capacity l"
    using assms(1) by (auto simp: al_rep_def word_le_nat_alt)
  note g = grown_capacity [of "al_size l" delta "block_size l" "capacity l", OF _ sz(2) True assms(3), unfolded sz(1), OF assms(2)]
  have "\<not> 2 ^ 31 \<le> ?c" "\<not> ?c < capacity l"
    using g(2,3) by (simp_all add: word_le_nat_alt not_less)
  moreover have "al_rep (l\<lparr>elements := elements l @ replicate (unat ?c - unat (capacity l)) None, capacity := ?c\<rparr>) xs"
    using assms(1) g(2,3) by (auto simp: al_rep_def word_le_nat_alt replicate_add [symmetric])
  ultimately show ?thesis
    using True assms(3) g(1) by (auto simp: as_arraylist_ensure_def Let_def)
next
  case False
  have "unat (al_size l + delta) = length xs + unat delta"
    using assms(1,2) by (subst unat_add_small) (auto simp: al_rep_def)
  then show ?thesis
    using False assms(1) by (auto simp: as_arraylist_ensure_def word_less_nat_alt)
qed

subsection \<open>The operations\<close>

lemma al_rep_iff:
  "al_rep l xs \<longleftrightarrow>
     unat (al_size l) = length xs \<and> length xs \<le> unat (capacity l) \<and> unat (capacity l) < 2 ^ 31 \<and>
     length (elements l) = unat (capacity l) \<and> (\<forall>i < unat (capacity l). elements l ! i = list_at xs i)"
proof -
  have "elements l = xs @ replicate (unat (capacity l) - length xs) None \<longleftrightarrow>
    length (elements l) = unat (capacity l) \<and> (\<forall>i < unat (capacity l). elements l ! i = list_at xs i)"
    if "length xs \<le> unat (capacity l)"
    using that by (auto simp: list_eq_iff_nth_eq nth_append list_at_def)
  then show ?thesis
    by (auto simp: al_rep_def)
qed

lemma get_rep: "al_rep l xs \<Longrightarrow> as_arraylist_get l i = Some (list_at xs (unat i))"
  by (auto simp: as_arraylist_get_def al_rep_iff list_at_def word_less_nat_alt mem_load_def)

lemma list_at_put: "list_at (list_put xs i v) j = (if j = i then v else list_at xs j)"
  by (auto simp: list_at_def list_put_def pad_def nth_append nth_list_update)

lemma list_at_insert:
  "list_at (list_insert xs i v) j = (if j < i then list_at xs j else if j = i then v else list_at xs (j - 1))"
  by (auto simp: list_at_def list_insert_def pad_def nth_append nth_Cons' min_def)

lemma list_at_del: "list_at (list_del xs i) j = (if j < i then list_at xs j else list_at xs (Suc j))"
  by (auto simp: list_at_def list_del_def nth_append min_def)

lemma unat_succ: "unat i + 1 < 2 ^ 32 \<Longrightarrow> unat (i + 1) = Suc (unat i)" for i :: u32
  by (subst unat_add_small) simp_all

lemma set_rep:
  assumes "al_rep l xs" and "block_size l \<noteq> 0"
    and "max (length xs) (Suc (unat i)) + unat (block_size l) < 2 ^ 31"
  shows "\<exists>l'. as_arraylist_set True l i v = Some (l', AS_ARRAYLIST_OK) \<and> al_rep l' (list_put xs (unat i) v) \<and>
    block_size l' = block_size l"
proof -
  have i1: "unat (i + 1) = Suc (unat i)"
    using assms(3) by (intro unat_succ) simp
  have "\<exists>l1. (if capacity l \<le> i then as_arraylist_ensure True l ((i + 1) - al_size l)
             else Some (l, AS_ARRAYLIST_OK)) = Some (l1, AS_ARRAYLIST_OK) \<and>
    al_rep l1 xs \<and> unat i < unat (capacity l1) \<and> block_size l1 = block_size l"
  proof (cases "capacity l \<le> i")
    case True
    have "al_size l \<le> i + 1"
      using assms(1) True i1 by (auto simp: al_rep_def word_le_nat_alt)
    then have "unat (i + 1 - al_size l) = Suc (unat i) - length xs"
      using assms(1) i1 by (subst unat_sub) (auto simp: al_rep_def)
    then show ?thesis
      using ensure_rep [OF assms(1) _ assms(2), of "i + 1 - al_size l"] assms(1,3) True
      by (auto simp: al_rep_def word_le_nat_alt)
  qed (use assms(1) in \<open>auto simp: word_le_nat_alt\<close>)
  then obtain l1 where l1: "(if capacity l \<le> i then as_arraylist_ensure True l ((i + 1) - al_size l)
             else Some (l, AS_ARRAYLIST_OK)) = Some (l1, AS_ARRAYLIST_OK)"
    "al_rep l1 xs" "unat i < unat (capacity l1)" "block_size l1 = block_size l"
    by blast
  let ?l = "l1\<lparr>elements := (elements l1)[unat i := v]\<rparr>"
  have "al_rep (if al_size ?l \<le> i then ?l\<lparr>al_size := i + 1\<rparr> else ?l) (list_put xs (unat i) v)"
    using l1(2,3) i1 by (auto simp: al_rep_iff list_at_put nth_list_update word_le_nat_alt)
  then show ?thesis
    using l1 by (auto simp: as_arraylist_set_def al_rep_len store_elem_in)
qed

lemma shift_up_spec:
  "unat i < length (elements l) \<Longrightarrow> index \<le> i \<Longrightarrow>
   \<exists>es. shift_up l i index = Some (l\<lparr>elements := es\<rparr>) \<and> length es = length (elements l) \<and>
     (\<forall>j < length es. es ! j = (if unat index < j \<and> j \<le> unat i then elements l ! (j - 1) else elements l ! j))"
proof (induction "unat i" arbitrary: l i)
  case 0
  then show ?case
    by (subst shift_up.simps) (auto simp: word_less_nat_alt intro!: exI [of _ "elements l"])
next
  case (Suc n)
  show ?case
  proof (cases "index < i")
    case True
    have n: "unat (i - 1) = n"
      using Suc(2) True by (subst unat_dec) (auto simp: word_less_nat_alt)
    let ?l = "l\<lparr>elements := (elements l)[unat i := elements l ! n]\<rparr>"
    have "\<exists>es. shift_up ?l (i - 1) index = Some (?l\<lparr>elements := es\<rparr>) \<and> length es = length (elements ?l) \<and>
      (\<forall>j < length es. es ! j = (if unat index < j \<and> j \<le> unat (i - 1) then elements ?l ! (j - 1) else elements ?l ! j))"
      using Suc(2,3) True n by (intro Suc(1)) (auto simp: word_le_nat_alt word_less_nat_alt)
    then obtain es where es: "shift_up ?l (i - 1) index = Some (?l\<lparr>elements := es\<rparr>)" "length es = length (elements ?l)"
      "\<And>j. j < length es \<Longrightarrow> es ! j = (if unat index < j \<and> j \<le> n then elements ?l ! (j - 1) else elements ?l ! j)"
      unfolding n by blast
    have "shift_up l i index = Some (l\<lparr>elements := es\<rparr>)"
      using es(1) True Suc(2,3) n
      by (subst shift_up.simps) (simp add: mem_load_def store_elem_in)
    moreover have "es ! j = (if unat index < j \<and> j \<le> unat i then elements l ! (j - 1) else elements l ! j)"
      if "j < length es" for j
      using es(2) es(3) [OF that] Suc(3) True that
      by (auto simp: nth_list_update word_less_nat_alt Suc(2) [symmetric])
    ultimately show ?thesis
      using es(2) by auto
  next
    case False
    then show ?thesis
      using Suc(4) by (subst shift_up.simps) (auto simp: word_less_nat_alt intro!: exI [of _ "elements l"])
  qed
qed

lemma shift_up_any:
  assumes "index \<le> i \<Longrightarrow> unat i < length (elements l)"
  shows "\<exists>es. shift_up l i index = Some (l\<lparr>elements := es\<rparr>) \<and> length es = length (elements l) \<and>
     (\<forall>j < length es. es ! j = (if unat index < j \<and> j \<le> unat i then elements l ! (j - 1) else elements l ! j))"
proof (cases "index \<le> i")
  case False
  then show ?thesis
    by (subst shift_up.simps) (auto simp: word_le_nat_alt word_less_nat_alt intro!: exI [of _ "elements l"])
qed (use assms shift_up_spec in blast)

lemma insert_rep:
  assumes "al_rep l xs" and "block_size l \<noteq> 0"
    and "Suc (max (length xs) (unat i)) + unat (block_size l) < 2 ^ 31"
  shows "\<exists>l'. as_arraylist_insert True l i v = Some (l', AS_ARRAYLIST_OK) \<and> al_rep l' (list_insert xs (unat i) v) \<and>
    block_size l' = block_size l"
proof -
  define delta where "delta = (if i > al_size l then i + 1 - al_size l else 1)"
  have sz: "unat (al_size l) = length xs" and i1: "unat (i + 1) = Suc (unat i)"
    using assms(1,3) by (auto simp: al_rep_def intro!: unat_succ)
  have s1: "unat (al_size l + 1) = Suc (length xs)"
    using assms(3) sz by (subst unat_succ) simp_all
  have "al_size l < i \<Longrightarrow> al_size l \<le> i + 1"
    using i1 by (simp add: word_le_nat_alt word_less_nat_alt)
  then have delta: "length xs + unat delta = Suc (max (length xs) (unat i))"
    using sz i1 by (auto simp: delta_def unat_sub word_less_nat_alt)
  have "\<exists>l1. as_arraylist_ensure True l delta = Some (l1, AS_ARRAYLIST_OK) \<and> al_rep l1 xs \<and>
    length xs + unat delta \<le> unat (capacity l1) \<and> block_size l1 = block_size l"
    using assms(3) delta by (intro ensure_rep [OF assms(1) _ assms(2)]) linarith
  then obtain l1 where l1: "as_arraylist_ensure True l delta = Some (l1, AS_ARRAYLIST_OK)" "al_rep l1 xs"
    "Suc (max (length xs) (unat i)) \<le> unat (capacity l1)" "block_size l1 = block_size l"
    unfolding delta by blast
  have sz1: "unat (al_size l1) = length xs" "al_size l1 = al_size l"
    using l1(2) sz by (auto simp: al_rep_def intro: word_unat_eq_iff [THEN iffD2])
  have "\<exists>es. shift_up l1 (al_size l1) i = Some (l1\<lparr>elements := es\<rparr>) \<and> length es = length (elements l1) \<and>
     (\<forall>j < length es. es ! j = (if unat i < j \<and> j \<le> length xs then elements l1 ! (j - 1) else elements l1 ! j))"
    using shift_up_any [of i "al_size l1" l1] l1(2,3) sz1 by (auto simp: al_rep_len)
  then obtain es where es: "shift_up l1 (al_size l1) i = Some (l1\<lparr>elements := es\<rparr>)"
    "length es = length (elements l1)"
    "\<And>j. j < length es \<Longrightarrow> es ! j = (if unat i < j \<and> j \<le> length xs then elements l1 ! (j - 1) else elements l1 ! j)"
    by blast
  let ?l = "l1\<lparr>elements := es[unat i := v]\<rparr>"
  let ?l' = "if i > al_size ?l then ?l\<lparr>al_size := i + 1\<rparr> else ?l\<lparr>al_size := al_size ?l + 1\<rparr>"
  have nth: "es[unat i := v] ! j = list_at (list_insert xs (unat i) v) j" if "j < unat (capacity l1)" for j
  proof -
    have at: "elements l1 ! k = list_at xs k" if "k < unat (capacity l1)" for k
      using l1(2) that by (simp add: al_rep_iff)
    have "j < length es" "list_at xs j = None" if "length xs \<le> j"
      using that es(2) al_rep_len [OF l1(2)] \<open>j < _\<close> by (auto simp: list_at_def)
    moreover have "list_at xs (j - 1) = None" if "length xs < j"
      using that by (auto simp: list_at_def)
    ultimately show ?thesis
      using es(3) [of j] es(2) al_rep_len [OF l1(2)] that at [of j] at [of "j - 1"]
      by (cases j "unat i" rule: linorder_cases) (auto simp: list_at_insert not_le)
  qed
  have "al_rep ?l' (list_insert xs (unat i) v)"
    using l1(2,3) sz1 i1 s1 es(2) nth by (auto simp: al_rep_iff word_less_nat_alt)
  moreover have "as_arraylist_insert True l i v = Some (?l', AS_ARRAYLIST_OK)"
    using l1(1,3) es(1,2) al_rep_len [OF l1(2)]
    by (auto simp: as_arraylist_insert_def delta_def [symmetric] store_elem_in)
  ultimately show ?thesis
    using l1(4) by (intro exI [of _ ?l']) simp
qed

lemma shift_down_spec:
  "0 < i \<Longrightarrow> i \<le> al_size l \<Longrightarrow> unat (al_size l) \<le> length (elements l) \<Longrightarrow>
   \<exists>es. shift_down l i = Some (l\<lparr>elements := es\<rparr>) \<and> length es = length (elements l) \<and>
     (\<forall>j < length es. es ! j =
        (if unat i \<le> Suc j \<and> Suc j < unat (al_size l) then elements l ! Suc j else elements l ! j))"
proof (induction "unat (al_size l) - unat i" arbitrary: l i)
  case 0
  then show ?case
    by (subst shift_down.simps)
      (auto simp: word_less_nat_alt word_le_nat_alt intro!: exI [of _ "elements l"])
next
  case (Suc n)
  then have lt: "i < al_size l"
    by (simp add: word_less_nat_alt)
  have i1: "unat (i + 1) = Suc (unat i)" "unat (i - 1) = unat i - 1"
    using unat_inc [OF lt] unat_dec [OF Suc(3)] by auto
  have pos: "0 < unat i" "unat i < unat (al_size l)"
    using Suc(3) lt by (auto simp: unat_gt_0 word_less_nat_alt)
  let ?l = "l\<lparr>elements := (elements l)[unat i - 1 := elements l ! unat i]\<rparr>"
  have "\<exists>es. shift_down ?l (i + 1) = Some (?l\<lparr>elements := es\<rparr>) \<and> length es = length (elements ?l) \<and>
     (\<forall>j < length es. es ! j =
        (if unat (i + 1) \<le> Suc j \<and> Suc j < unat (al_size ?l) then elements ?l ! Suc j else elements ?l ! j))"
    using Suc(2,5) i1 pos
    by (intro Suc(1)) (auto simp: word_le_nat_alt word_less_nat_alt unat_gt_0)
  then obtain es where es: "shift_down ?l (i + 1) = Some (?l\<lparr>elements := es\<rparr>)" "length es = length (elements l)"
    "\<And>j. j < length es \<Longrightarrow> es ! j =
       (if Suc (unat i) \<le> Suc j \<and> Suc j < unat (al_size l) then elements ?l ! Suc j else elements ?l ! j)"
    unfolding i1 by auto
  have "shift_down l i = Some (l\<lparr>elements := es\<rparr>)"
    using lt Suc(5) es(1) i1 pos by (subst shift_down.simps) (simp add: mem_load_def mem_write_one)
  moreover have "es ! j = (if unat i \<le> Suc j \<and> Suc j < unat (al_size l) then elements l ! Suc j else elements l ! j)"
    if "j < length es" for j
    using es(2) es(3) [OF that] that pos by (cases "Suc j = unat i") (auto simp: nth_list_update)
  ultimately show ?case
    using es(2) by auto
qed

lemma remove_rep:
  assumes "al_rep l xs" and "unat i < length xs"
  shows "\<exists>l'. as_arraylist_remove l i = Some (l', AS_ARRAYLIST_OK) \<and> al_rep l' (list_del xs (unat i)) \<and>
    block_size l' = block_size l"
proof -
  have lt: "i < al_size l" and sz: "unat (al_size l) = length xs" "length xs \<le> unat (capacity l)"
    using assms by (auto simp: al_rep_def word_less_nat_alt)
  have i1: "unat (i + 1) = Suc (unat i)"
    by (rule unat_inc [OF lt])
  have le: "0 < i + 1" "i + 1 \<le> al_size l" "unat (al_size l) \<le> length (elements l)"
    using i1 sz assms al_rep_len [OF assms(1)] by (auto simp: word_le_nat_alt word_less_nat_alt)
  obtain es where es: "shift_down l (i + 1) = Some (l\<lparr>elements := es\<rparr>)" "length es = length (elements l)"
    "\<And>j. j < length es \<Longrightarrow> es ! j = (if unat i \<le> j \<and> Suc j < length xs then elements l ! Suc j else elements l ! j)"
    using shift_down_spec [OF le] unfolding i1 sz(1) by auto
  have dec: "unat (al_size l - 1) = length xs - 1"
    using lt sz by (subst unat_dec) (auto simp: word_less_nat_alt)
  let ?l' = "l\<lparr>al_size := al_size l - 1, elements := es[length xs - 1 := None]\<rparr>"
  have "as_arraylist_remove l i = Some (?l', AS_ARRAYLIST_OK)"
    using lt es(1,2) dec assms sz al_rep_len [OF assms(1)]
    by (simp add: as_arraylist_remove_def store_elem_in not_le)
  moreover have "es[length xs - 1 := None] ! j = list_at (list_del xs (unat i)) j" if "j < unat (capacity l)" for j
  proof -
    have at: "elements l ! k = list_at xs k" if "k < unat (capacity l)" for k
      using assms(1) that by (simp add: al_rep_iff)
    have out: "list_at xs k = None" if "length xs \<le> k" for k
      using that by (simp add: list_at_def)
    have "es ! j = (if unat i \<le> j \<and> Suc j < length xs then list_at xs (Suc j) else list_at xs j)"
      using es(2) es(3) [of j] at that sz al_rep_len [OF assms(1)] by simp
    then show ?thesis
      using assms(2) that es(2) al_rep_len [OF assms(1)] out [of j] out [of "Suc j"]
      by (cases "length xs - 1 = j") (auto simp: nth_list_update list_at_del)
  qed
  ultimately show ?thesis
    using assms dec sz es(2) al_rep_len [OF assms(1)]
    by (intro exI [of _ ?l']) (auto simp: al_rep_iff list_del_def)
qed

lemma trim_loop_spec:
  "i \<le> al_size l \<Longrightarrow> unat (al_size l) \<le> length (elements l) \<Longrightarrow>
   \<exists>es. trim_loop l i = Some (l\<lparr>elements := es\<rparr>) \<and> length es = length (elements l) \<and>
     (\<forall>j < length es. es ! j = (if unat i \<le> j \<and> j < unat (al_size l) then None else elements l ! j))"
proof (induction "unat (al_size l) - unat i" arbitrary: l i)
  case 0
  then show ?case
    by (subst trim_loop.simps)
      (auto simp: word_less_nat_alt word_le_nat_alt intro!: exI [of _ "elements l"])
next
  case (Suc n)
  then have lt: "i < al_size l"
    by (simp add: word_less_nat_alt)
  note i1 = unat_inc [OF lt]
  let ?l = "l\<lparr>elements := (elements l)[unat i := None]\<rparr>"
  have "\<exists>es. trim_loop ?l (i + 1) = Some (?l\<lparr>elements := es\<rparr>) \<and> length es = length (elements ?l) \<and>
     (\<forall>j < length es. es ! j = (if unat (i + 1) \<le> j \<and> j < unat (al_size ?l) then None else elements ?l ! j))"
    using Suc(2,4) i1 lt by (intro Suc(1)) (auto simp: word_le_nat_alt word_less_nat_alt)
  then obtain es where es: "trim_loop ?l (i + 1) = Some (?l\<lparr>elements := es\<rparr>)" "length es = length (elements l)"
    "\<And>j. j < length es \<Longrightarrow> es ! j = (if Suc (unat i) \<le> j \<and> j < unat (al_size l) then None else elements ?l ! j)"
    unfolding i1 by auto
  have "trim_loop l i = Some (l\<lparr>elements := es\<rparr>)"
    using lt Suc(4) es(1) by (subst trim_loop.simps) (simp add: mem_write_one word_less_nat_alt)
  moreover have "es ! j = (if unat i \<le> j \<and> j < unat (al_size l) then None else elements l ! j)"
    if "j < length es" for j
    using es(2) es(3) [OF that] that lt by (cases "j = unat i") (auto simp: word_less_nat_alt)
  ultimately show ?case
    using es(2) by auto
qed

lemma trim_rep:
  assumes "al_rep l xs" and "unat i < length xs"
  shows "\<exists>l'. as_arraylist_trim l i = Some (l', AS_ARRAYLIST_OK) \<and> al_rep l' (take (unat i) xs) \<and>
    block_size l' = block_size l"
proof -
  have lt: "i < al_size l" and sz: "unat (al_size l) = length xs" "length xs \<le> unat (capacity l)"
    using assms by (auto simp: al_rep_def word_less_nat_alt)
  obtain es where es: "trim_loop l i = Some (l\<lparr>elements := es\<rparr>)" "length es = length (elements l)"
    "\<And>j. j < length es \<Longrightarrow> es ! j = (if unat i \<le> j \<and> j < length xs then None else elements l ! j)"
    using trim_loop_spec [OF less_imp_le [OF lt]] sz al_rep_len [OF assms(1)] by auto
  let ?l' = "l\<lparr>elements := es, al_size := i\<rparr>"
  have "as_arraylist_trim l i = Some (?l', AS_ARRAYLIST_OK)"
    using lt es(1) by (simp add: as_arraylist_trim_def not_le)
  moreover have "al_rep ?l' (take (unat i) xs)"
    using es(2,3) assms al_rep_len [OF assms(1)] by (auto simp: al_rep_iff list_at_def)
  ultimately show ?thesis
    by auto
qed

lemma push_slot_rep:
  assumes "al_rep l xs" and "length xs < unat (capacity l)"
  shows "al_rep (l\<lparr>elements := (elements l)[length xs := v], al_size := al_size l + 1\<rparr>) (xs @ [v])"
proof -
  have "unat (al_size l + 1) = Suc (length xs)"
    using assms by (subst unat_succ) (auto simp: al_rep_def)
  then show ?thesis
    using assms by (auto simp: al_rep_iff nth_list_update list_at_def nth_append)
qed

lemma concat_loop_rep:
  assumes "al_rep l2 ys"
  shows "al_rep l xs \<Longrightarrow> i \<le> length ys \<Longrightarrow> length xs + (length ys - i) \<le> unat (capacity l) \<Longrightarrow>
    length ys - i \<le> n \<Longrightarrow>
    \<exists>l'. concat_loop n l (Some l2) i = Some l' \<and> al_rep l' (xs @ drop i ys) \<and> block_size l' = block_size l"
proof (induction "length ys - i" arbitrary: l xs i n)
  case 0
  then show ?case
    using assms by (subst concat_loop.simps) (auto simp: al_rep_def)
next
  case (Suc k)
  obtain m where n: "n = Suc m"
    using Suc(2,6) by (cases n) auto
  have ld: "mem_load (elements l2) i = Some (ys ! i)" "i < unat (al_size l2)"
    using assms Suc(2) by (auto simp: mem_load_def al_rep_def nth_append)
  let ?l = "l\<lparr>elements := (elements l)[length xs := ys ! i], al_size := al_size l + 1\<rparr>"
  have "al_rep ?l (xs @ [ys ! i])"
    using Suc(2,3,5) by (intro push_slot_rep) auto
  then have "\<exists>l'. concat_loop m ?l (Some l2) (Suc i) = Some l' \<and> al_rep l' ((xs @ [ys ! i]) @ drop (Suc i) ys) \<and>
    block_size l' = block_size ?l"
    using Suc(2,4-6) n by (intro Suc(1)) auto
  moreover have "store_elem l (unat (al_size l)) (ys ! i) = Some (l\<lparr>elements := (elements l)[length xs := ys ! i]\<rparr>)"
    using Suc(2,3,5) al_rep_len [OF Suc(3)] by (subst store_elem_in) (simp_all add: al_rep_iff)
  ultimately show ?case
    using ld n Suc(2) by (subst concat_loop.simps) (simp add: Cons_nth_drop_Suc)
qed

lemma concat_rep:
  assumes "al_rep l xs" and "al_rep l2 ys" and "block_size l \<noteq> 0"
    and "length xs + length ys + unat (block_size l) < 2 ^ 31"
  shows "\<exists>l'. as_arraylist_concat True l (Some l2) = Some (l', AS_ARRAYLIST_OK) \<and> al_rep l' (xs @ ys) \<and>
    block_size l' = block_size l"
proof -
  have sz2: "unat (al_size l2) = length ys"
    using assms(2) by (simp add: al_rep_def)
  obtain l1 where l1: "as_arraylist_ensure True l (al_size l2) = Some (l1, AS_ARRAYLIST_OK)" "al_rep l1 xs"
    "length xs + length ys \<le> unat (capacity l1)" "block_size l1 = block_size l"
    using ensure_rep [OF assms(1) _ assms(3), of "al_size l2"] assms(4) unfolding sz2 by blast
  obtain l' where "concat_loop (length (elements l1)) l1 (Some l2) 0 = Some l'" "al_rep l' (xs @ drop 0 ys)"
    "block_size l' = block_size l1"
    using concat_loop_rep [OF assms(2) l1(2), of 0 "length (elements l1)"] l1(3) al_rep_len [OF l1(2)] by auto
  then show ?thesis
    using l1 by (simp add: as_arraylist_concat_def)
qed

text \<open>Appending a list to itself: the loop chases its own end until it leaves the array.\<close>

lemma concat_loop_self:
  "al_rep l xs \<Longrightarrow> i < length xs \<Longrightarrow> concat_loop n l None i = None"
proof (induction n arbitrary: l xs i)
  case 0
  then show ?case
    by (subst concat_loop.simps) (auto simp: al_rep_def split: Option.bind_splits)
next
  case (Suc n)
  show ?case
  proof (cases "length xs < unat (capacity l)")
    case True
    have "concat_loop n (l\<lparr>elements := (elements l)[length xs := v], al_size := al_size l + 1\<rparr>) None (Suc i) = None" for v
      using Suc(1) [OF push_slot_rep [OF Suc(2) True]] Suc(3) by simp
    then show ?thesis
      using Suc(2,3) True al_rep_len [OF Suc(2)]
      by (subst concat_loop.simps) (simp add: al_rep_def mem_load_def store_elem_in)
  next
    case False
    then show ?thesis
      using Suc(2,3) al_rep_len [OF Suc(2)]
      by (subst concat_loop.simps) (simp add: al_rep_def mem_load_def store_elem_def mem_write_def)
  qed
qed

lemma copy_loop_spec:
  "unat (al_size l2) \<le> length (elements l2) \<Longrightarrow> j \<le> unat (al_size l2) \<Longrightarrow>
   i + (unat (al_size l2) - j) \<le> length (elements l) \<Longrightarrow>
   copy_loop l l2 i j = Some (l2\<lparr>elements := take j (elements l2) @
     take (unat (al_size l2) - j) (drop i (elements l)) @ drop (unat (al_size l2)) (elements l2)\<rparr>)"
proof (induction "unat (al_size l2) - j" arbitrary: l2 i j)
  case 0
  then show ?case
    by (subst copy_loop.simps) simp
next
  case (Suc n)
  let ?l = "l2\<lparr>elements := (elements l2)[j := elements l ! i]\<rparr>"
  have "copy_loop l ?l (Suc i) (Suc j) = Some (?l\<lparr>elements := take (Suc j) (elements ?l) @
     take (unat (al_size ?l) - Suc j) (drop (Suc i) (elements l)) @ drop (unat (al_size ?l)) (elements ?l)\<rparr>)"
    using Suc(2-) by (intro Suc(1)) auto
  moreover have "take (Suc j) ((elements l2)[j := v]) = take j (elements l2) @ [v]" for v
    using Suc(2-) by (simp add: take_Suc_conv_app_nth)
  moreover have "take (unat (al_size l2) - j) (drop i (elements l)) =
      elements l ! i # take (unat (al_size l2) - Suc j) (drop (Suc i) (elements l))"
    using Suc(2-) by (subst Cons_nth_drop_Suc [symmetric]) (auto simp: take_Cons' Suc_diff_Suc)
  ultimately show ?case
    using Suc(2-) by (subst copy_loop.simps) (auto simp: mem_load_def mem_write_one)
qed

lemma slice_rep:
  assumes "al_rep l xs" and "unat c + unat i \<le> length xs"
  shows "\<exists>l2 l'. as_arraylist_new True True c b = Some l2 \<and> copy_loop l (l2\<lparr>al_size := c\<rparr>) (unat i) 0 = Some l' \<and>
    al_rep l' (take (unat c) (drop (unat i) xs))"
proof -
  have cap: "length xs \<le> unat (capacity l)" "unat (capacity l) < 2 ^ 31"
    "elements l = xs @ replicate (unat (capacity l) - length xs) None"
    using assms(1) by (auto simp: al_rep_def)
  then obtain l2 where l2: "as_arraylist_new True True c b = Some (l2 :: 'a as_arraylist)" "al_rep l2 []"
    "capacity l2 = c" "elements l2 = replicate (unat c) None"
    using al_new_rep [of c b, where ?'a = 'a] assms(2) by auto
  have "copy_loop l (l2\<lparr>al_size := c\<rparr>) (unat i) 0 =
      Some (l2\<lparr>al_size := c, elements := take (unat c) (drop (unat i) (elements l))\<rparr>)"
    using l2 assms al_rep_len [OF assms(1)] cap(1) by (subst copy_loop_spec) simp_all
  moreover have "take (unat c) (drop (unat i) (elements l)) = take (unat c) (drop (unat i) xs)"
    using assms(2) unfolding cap(3) by simp
  ultimately show ?thesis
    using l2 cap assms(2) by (auto simp: al_rep_def)
qed

lemma drop_rep:
  assumes "al_rep l xs"
  shows "\<exists>l'. as_arraylist_drop l n = Some l' \<and> al_rep l' (drop (unat n) xs)"
proof -
  let ?c = "if n < al_size l then n else al_size l"
  have sz: "unat (al_size l) = length xs" "?c \<le> al_size l"
    using assms by (auto simp: al_rep_def)
  have len: "unat (al_size l - ?c) = length xs - unat ?c"
    using sz by (subst unat_sub) auto
  have "drop (unat ?c) xs = drop (unat n) xs"
    using sz by (auto simp: word_less_nat_alt)
  then show ?thesis
    using slice_rep [OF assms, of "al_size l - ?c" ?c "block_size l"] sz len
    by (auto simp: as_arraylist_drop_def Let_def word_less_nat_alt)
qed

lemma take_rep:
  assumes "al_rep l xs"
  shows "\<exists>l'. as_arraylist_take l n = Some l' \<and> al_rep l' (take (unat n) xs)"
proof -
  let ?c = "if n < al_size l then n else al_size l"
  have sz: "unat (al_size l) = length xs"
    using assms by (auto simp: al_rep_def)
  then have "take (unat ?c) xs = take (unat n) xs" "unat ?c \<le> length xs"
    by (auto simp: word_less_nat_alt)
  then show ?thesis
    using slice_rep [OF assms, of ?c 0 "block_size l"]
    by (auto simp: as_arraylist_take_def Let_def word_less_nat_alt)
qed

lemma foreach_from_rep:
  assumes "al_rep l xs"
  shows "i \<le> length xs \<Longrightarrow> al_foreach_from l i cb s = Some (walk cb (drop i xs) s)"
proof (induction "length xs - i" arbitrary: i s)
  case 0
  then show ?case
    using assms by (subst al_foreach_from.simps) (auto simp: al_rep_def)
next
  case (Suc n)
  have "mem_load (elements l) i = Some (xs ! i)" "i < unat (al_size l)" "drop i xs = xs ! i # drop (Suc i) xs"
    using assms Suc(2) by (auto simp: al_rep_def mem_load_def nth_append Cons_nth_drop_Suc)
  then show ?case
    using Suc(1) [of "Suc i"] Suc(2) by (subst al_foreach_from.simps) (auto split: prod.split)
qed

lemma foreach_rep: "al_rep l xs \<Longrightarrow> as_arraylist_foreach l cb s = Some (walk cb xs s)"
  using foreach_from_rep [of l xs 0] by (simp add: as_arraylist_foreach_def)

text \<open>The copy loop of the tail operation reads one place past the end of the new list.\<close>

lemma tail_loop_faults:
  assumes "al_rep l xs" and "xs \<noteq> []" and "last xs \<noteq> None"
  shows "0 < i \<Longrightarrow> i < length xs \<Longrightarrow> length (elements l2) = length xs - 1 \<Longrightarrow> j = i - 1 \<Longrightarrow>
    tail_loop l l2 i j = None"
proof (induction "length xs - i" arbitrary: i j l2)
  case (Suc n)
  have ld: "mem_load (elements l) i = Some (xs ! i)" "i < unat (al_size l)"
    using assms Suc(2,4) by (auto simp: al_rep_def mem_load_def nth_append)
  show ?case
  proof (cases "Suc i < length xs")
    case True
    have rec: "tail_loop l (l2\<lparr>elements := (elements l2)[j := v]\<rparr>) (Suc i) (Suc j) = None" for v
      using Suc(2-) True by (intro Suc(1)) auto
    then have "tail_loop l l2 i j = None" if "xs ! i = None"
      using that Suc(5,6) ld True by (subst tail_loop.simps) (simp add: mem_load_def store_elem_in)
    moreover have "tail_loop l l2 i j = None" if "xs ! i = Some v" for v
      using that rec Suc(5,6) ld True by (subst tail_loop.simps) (simp add: mem_load_def store_elem_in)
    ultimately show ?thesis
      by (cases "xs ! i") auto
  next
    case False
    then have "i = length xs - 1"
      using Suc(4) by simp
    then have "\<exists>v. xs ! i = Some v" "mem_load (elements l2) i = None"
      using assms(2,3) Suc(5) by (auto simp: last_conv_nth mem_load_def)
    then show ?thesis
      using ld by (subst tail_loop.simps) auto
  qed
qed simp


subsection \<open>The interface of a growable list\<close>

text \<open>
  What the users of a list value rely on: reads, stores at any index, insertions and removals act on
  a list of pointers, as long as it stays below \<open>bound\<close>.
\<close>

locale growable_list =
  fixes rep :: "'l \<Rightarrow> 'v option list \<Rightarrow> bool"
    and bound :: nat
    and at :: "'l \<Rightarrow> u32 \<Rightarrow> 'v option option"
    and store :: "'l \<Rightarrow> u32 \<Rightarrow> 'v option \<Rightarrow> 'l option"
    and ins :: "'l \<Rightarrow> u32 \<Rightarrow> 'v option \<Rightarrow> 'l option"
    and del :: "'l \<Rightarrow> u32 \<Rightarrow> 'l option"
  assumes bound_width: "bound < 2 ^ 32"
    and at_law: "rep l xs \<Longrightarrow> at l i = Some (list_at xs (unat i))"
    and store_law: "rep l xs \<Longrightarrow> max (length xs) (Suc (unat i)) \<le> bound \<Longrightarrow>
      \<exists>l'. store l i v = Some l' \<and> rep l' (list_put xs (unat i) v)"
    and ins_law: "rep l xs \<Longrightarrow> Suc (max (length xs) (unat i)) \<le> bound \<Longrightarrow>
      \<exists>l'. ins l i v = Some l' \<and> rep l' (list_insert xs (unat i) v)"
    and del_law: "rep l xs \<Longrightarrow> \<exists>l'. del l i = Some l' \<and> rep l' (list_del xs (unat i))"

datatype 'v list_call = List_At u32 | List_Set u32 "'v option" | List_Insert u32 "'v option" | List_Remove u32

fun run_list ::
  "('l \<Rightarrow> u32 \<Rightarrow> 'v option option) \<Rightarrow> ('l \<Rightarrow> u32 \<Rightarrow> 'v option \<Rightarrow> 'l option) \<Rightarrow>
   ('l \<Rightarrow> u32 \<Rightarrow> 'v option \<Rightarrow> 'l option) \<Rightarrow> ('l \<Rightarrow> u32 \<Rightarrow> 'l option) \<Rightarrow>
   'l \<Rightarrow> 'v list_call list \<Rightarrow> ('v option list \<times> 'l) option" where
  "run_list at store ins del l [] = Some ([], l)"
| "run_list at store ins del l (List_At i # cs) =
     do { v \<leftarrow> at l i; (vs, l) \<leftarrow> run_list at store ins del l cs; Some (v # vs, l) }"
| "run_list at store ins del l (List_Set i v # cs) = do { l \<leftarrow> store l i v; run_list at store ins del l cs }"
| "run_list at store ins del l (List_Insert i v # cs) = do { l \<leftarrow> ins l i v; run_list at store ins del l cs }"
| "run_list at store ins del l (List_Remove i # cs) = do { l \<leftarrow> del l i; run_list at store ins del l cs }"

fun on_list :: "'v option list \<Rightarrow> 'v list_call list \<Rightarrow> 'v option list \<times> 'v option list" where
  "on_list xs [] = ([], xs)"
| "on_list xs (List_At i # cs) = (let (vs, ys) = on_list xs cs in (list_at xs (unat i) # vs, ys))"
| "on_list xs (List_Set i v # cs) = on_list (list_put xs (unat i) v) cs"
| "on_list xs (List_Insert i v # cs) = on_list (list_insert xs (unat i) v) cs"
| "on_list xs (List_Remove i # cs) = on_list (list_del xs (unat i)) cs"

text \<open>How much a call can lengthen the list.\<close>

fun growth :: "'v list_call \<Rightarrow> nat" where
  "growth (List_Set i _) = Suc (unat i)"
| "growth (List_Insert i _) = Suc (unat i)"
| "growth _ = 0"

text \<open>The filling loop of the decoder: value \<open>k\<close> goes to index \<open>k\<close>, null pointers are skipped.\<close>

fun fill :: "('l \<Rightarrow> u32 \<Rightarrow> 'v option \<Rightarrow> 'l option) \<Rightarrow> 'l \<Rightarrow> nat \<Rightarrow> 'v option list \<Rightarrow> 'l option" where
  "fill store l i [] = Some l"
| "fill store l i (None # vs) = fill store l (Suc i) vs"
| "fill store l i (Some v # vs) = do { l \<leftarrow> store l (of_nat i) (Some v); fill store l (Suc i) vs }"

fun fill_list :: "'v option list \<Rightarrow> nat \<Rightarrow> 'v option list \<Rightarrow> 'v option list" where
  "fill_list xs i [] = xs"
| "fill_list xs i (None # vs) = fill_list xs (Suc i) vs"
| "fill_list xs i (Some v # vs) = fill_list (list_put xs i (Some v)) (Suc i) vs"

context growable_list
begin

lemma calls_like_list:
  "rep l xs \<Longrightarrow> length xs + sum_list (map growth cs) \<le> bound \<Longrightarrow>
   \<exists>l'. run_list at store ins del l cs = Some (fst (on_list xs cs), l') \<and> rep l' (snd (on_list xs cs))"
proof (induction cs arbitrary: l xs)
  case (Cons c cs)
  show ?case
  proof (cases c)
    case (List_At i)
    then show ?thesis
      using Cons(1) [OF Cons(2)] Cons(3) at_law [OF Cons(2), of i] by (auto simp: split_beta)
  next
    case (List_Set i v)
    then obtain l1 where l1: "store l i v = Some l1" "rep l1 (list_put xs (unat i) v)"
      using store_law [OF Cons(2), of i v] Cons(3) by auto
    then show ?thesis
      using Cons(1) [OF l1(2)] Cons(3) List_Set by auto
  next
    case (List_Insert i v)
    then have "Suc (max (length xs) (unat i)) \<le> bound"
      using Cons(3) by (simp add: max_def)
    then obtain l1 where l1: "ins l i v = Some l1" "rep l1 (list_insert xs (unat i) v)"
      using ins_law [OF Cons(2), of i v] by blast
    then show ?thesis
      using Cons(1) [OF l1(2)] Cons(3) List_Insert by auto
  next
    case (List_Remove i)
    obtain l1 where l1: "del l i = Some l1" "rep l1 (list_del xs (unat i))"
      using del_law [OF Cons(2)] by blast
    moreover have "length (list_del xs (unat i)) \<le> length xs"
      by (simp add: list_del_def)
    ultimately show ?thesis
      using Cons(1) [OF l1(2)] Cons(3) List_Remove by auto
  qed
qed simp

lemma fill_rep:
  "rep l xs \<Longrightarrow> length xs \<le> bound \<Longrightarrow> i + length vs \<le> bound \<Longrightarrow>
   \<exists>l'. fill store l i vs = Some l' \<and> rep l' (fill_list xs i vs)"
proof (induction vs arbitrary: l xs i)
  case (Cons x vs)
  have i: "unat (of_nat i :: u32) = i"
    using Cons(4) bound_width by (simp add: unat_of_nat)
  show ?case
  proof (cases x)
    case (Some v)
    obtain l1 where l1: "store l (of_nat i) (Some v) = Some l1" "rep l1 (list_put xs i (Some v))"
      using store_law [OF Cons(2), of "of_nat i" "Some v"] Cons(3,4) unfolding i by auto
    then show ?thesis
      using Cons(1) [OF l1(2), of "Suc i"] Cons(3,4) Some by auto
  qed (use Cons in auto)
qed simp

end

text \<open>Filling an empty list reproduces the values up to the last one that is not null.\<close>

lemma fill_list_dense: "fill_list xs (length xs) (map Some vs) = xs @ map Some vs"
proof (induction vs arbitrary: xs)
  case (Cons v vs)
  have "list_put xs (length xs) (Some v) = xs @ [Some v]"
    by (simp add: list_put_def pad_def)
  then show ?case
    using Cons [of "xs @ [Some v]"] by simp
qed simp

text \<open>The array list provides it, for block sizes up to $2^{30}$ and as many elements.\<close>

definition al_growing :: "'v as_arraylist \<Rightarrow> 'v option list \<Rightarrow> bool" where
  "al_growing l xs \<longleftrightarrow> al_rep l xs \<and> 0 < block_size l \<and> unat (block_size l) < 2 ^ 30"

text \<open>The calls with their status: a call that reports an error has no result here.\<close>

definition ok_list :: "('v as_arraylist \<times> as_arraylist_status) option \<Rightarrow> 'v as_arraylist option" where
  "ok_list r = do { (l, rc) \<leftarrow> r; if rc = AS_ARRAYLIST_OK then Some l else None }"

definition al_store :: "'v as_arraylist \<Rightarrow> u32 \<Rightarrow> 'v option \<Rightarrow> 'v as_arraylist option" where
  "al_store l i v = ok_list (as_arraylist_set True l i v)"

definition al_insert :: "'v as_arraylist \<Rightarrow> u32 \<Rightarrow> 'v option \<Rightarrow> 'v as_arraylist option" where
  "al_insert l i v = ok_list (as_arraylist_insert True l i v)"

text \<open>Removing past the end only reports the bad index.\<close>

definition al_remove :: "'v as_arraylist \<Rightarrow> u32 \<Rightarrow> 'v as_arraylist option" where
  "al_remove l i = map_option fst (as_arraylist_remove l i)"

lemma remove_past_end:
  assumes "al_rep l xs" and "length xs \<le> unat i"
  shows "as_arraylist_remove l i = Some (l, AS_ARRAYLIST_ERR_INDEX)"
  using assms by (auto simp: as_arraylist_remove_def al_rep_def word_le_nat_alt)

interpretation al: growable_list al_growing "2 ^ 30" as_arraylist_get al_store al_insert al_remove
proof unfold_locales
  fix l :: "'a as_arraylist" and xs i v
  assume l: "al_growing l xs"
  show "as_arraylist_get l i = Some (list_at xs (unat i))"
    using l get_rep by (auto simp: al_growing_def)
  show "\<exists>l'. al_store l i v = Some l' \<and> al_growing l' (list_put xs (unat i) v)"
    if "max (length xs) (Suc (unat i)) \<le> 2 ^ 30"
    using l that set_rep [of l xs i v]
    by (auto simp: al_growing_def al_store_def ok_list_def word_gt_0 max_def split: if_splits)
  show "\<exists>l'. al_insert l i v = Some l' \<and> al_growing l' (list_insert xs (unat i) v)"
    if "Suc (max (length xs) (unat i)) \<le> 2 ^ 30"
    using l that insert_rep [of l xs i v]
    by (auto simp: al_growing_def al_insert_def ok_list_def word_gt_0 max_def split: if_splits)
  show "\<exists>l'. al_remove l i = Some l' \<and> al_growing l' (list_del xs (unat i))"
  proof (cases "unat i < length xs")
    case True
    then show ?thesis
      using l remove_rep [of l xs i] by (auto simp: al_growing_def al_remove_def)
  next
    case False
    then show ?thesis
      using l remove_past_end [of l xs i] by (auto simp: al_growing_def al_remove_def list_del_def)
  qed
qed simp


subsection \<open>Properties\<close>

text \<open>
  C14. Any sequence of reads, stores, insertions and removals on an array list that can grow answers
  what the same calls answer on a list of pointers: a store or an insertion past the end fills the gap
  with null pointers, a read past the end is null, a removal past the end changes nothing.
\<close>

theorem arraylist_like_list:
  assumes "al_rep l xs" and "0 < block_size l" and "unat (block_size l) < 2 ^ 30"
    and "length xs + sum_list (map growth cs) \<le> 2 ^ 30"
  shows "\<exists>l'. run_list as_arraylist_get al_store al_insert al_remove l cs = Some (fst (on_list xs cs), l') \<and>
    al_rep l' (snd (on_list xs cs))"
  using al.calls_like_list [of l xs cs] assms by (auto simp: al_growing_def)

text \<open>A list with two places that grows by two.\<close>

definition small_list :: "int as_arraylist" where
  "small_list = as_arraylist_init True 2 2"

lemma small_list_rep: "al_rep small_list []"
  by (simp add: small_list_def as_arraylist_init_def al_rep_def)

lemma small_list_block [simp]: "block_size small_list = 2"
  by (simp add: small_list_def as_arraylist_init_def)

definition some_calls :: "int list_call list" where
  "some_calls = [List_Set 4 (Some 7), List_Insert 1 (Some 5), List_At 5, List_At 9, List_Remove 0, List_At 0]"

lemma some_calls_on_list:
  "on_list [] some_calls = ([Some 7, None, Some 5], [Some 5, None, None, None, Some 7])"
  by (simp add: some_calls_def list_put_def list_insert_def list_del_def list_at_def pad_def list_numeral_simps)

theorem arraylist_like_list_witness:
  "\<exists>l'. run_list as_arraylist_get al_store al_insert al_remove small_list some_calls =
       Some ([Some 7, None, Some 5], l') \<and> al_rep l' [Some 5, None, None, None, Some 7]"
proof -
  have "length ([] :: int option list) + sum_list (map growth some_calls) \<le> 2 ^ 30"
    by (simp add: some_calls_def)
  then show ?thesis
    using arraylist_like_list [OF small_list_rep, of some_calls] by (simp add: some_calls_on_list)
qed

text \<open>
  The whole-list operations: concatenation appends the elements of the second list in order, trim
  keeps the elements before the index, drop and take return new lists with the rest and the beginning
  (any count is allowed), and a walk shows the callback every element in order until it says stop.
\<close>

theorem arraylist_bulk:
  assumes "al_rep l xs" and "al_rep l2 ys" and "0 < block_size l"
    and "length xs + length ys + unat (block_size l) < 2 ^ 31"
  shows "(\<exists>l'. as_arraylist_concat True l (Some l2) = Some (l', AS_ARRAYLIST_OK) \<and> al_rep l' (xs @ ys)) \<and>
    (\<exists>l' rc. as_arraylist_trim l n = Some (l', rc) \<and> al_rep l' (take (unat n) xs) \<and>
       (rc = AS_ARRAYLIST_OK \<longleftrightarrow> unat n < length xs)) \<and>
    (\<exists>l'. as_arraylist_drop l n = Some l' \<and> al_rep l' (drop (unat n) xs)) \<and>
    (\<exists>l'. as_arraylist_take l n = Some l' \<and> al_rep l' (take (unat n) xs)) \<and>
    as_arraylist_foreach l cb s = Some (walk cb xs s)"
proof (intro conjI)
  show "\<exists>l'. as_arraylist_concat True l (Some l2) = Some (l', AS_ARRAYLIST_OK) \<and> al_rep l' (xs @ ys)"
    using concat_rep [OF assms(1,2)] assms(3,4) by (auto simp: word_gt_0)
  show "\<exists>l' rc. as_arraylist_trim l n = Some (l', rc) \<and> al_rep l' (take (unat n) xs) \<and>
       (rc = AS_ARRAYLIST_OK \<longleftrightarrow> unat n < length xs)"
  proof (cases "unat n < length xs")
    case False
    moreover from this have "as_arraylist_trim l n = Some (l, AS_ARRAYLIST_ERR_INDEX)"
      using assms(1) by (auto simp: as_arraylist_trim_def al_rep_def word_le_nat_alt)
    ultimately show ?thesis
      using assms(1) by auto
  qed (use trim_rep [OF assms(1)] in blast)
qed (rule drop_rep [OF assms(1)] take_rep [OF assms(1)] foreach_rep [OF assms(1)])+

definition pair_list :: "int as_arraylist" where
  "pair_list = \<lparr> block_size = 2, capacity = 4, al_size = 2, elements = [Some 1, Some 2, None, None], al_free = True \<rparr>"

lemma pair_list_rep: "al_rep pair_list [Some 1, Some 2]"
  by (simp add: pair_list_def al_rep_def list_numeral_simps)

theorem arraylist_bulk_witness:
  "(\<exists>l'. as_arraylist_concat True pair_list (Some pair_list) = Some (l', AS_ARRAYLIST_OK) \<and>
      al_rep l' [Some 1, Some 2, Some 1, Some 2]) \<and>
   (\<exists>l'. as_arraylist_drop pair_list 1 = Some l' \<and> al_rep l' [Some 2])"
  using arraylist_bulk [OF pair_list_rep pair_list_rep, where n = 1 and cb = "\<lambda>_ s. (True, s)" and s = "()"]
  by (simp add: pair_list_def [THEN arg_cong, of block_size])

text \<open>
  A store or an insertion that needs room and cannot get it, because the list may not grow or
  because the allocation fails, reports that and leaves the list as it was.
\<close>

theorem arraylist_no_room:
  assumes "al_rep l xs" and "unat (capacity l) \<le> unat i" and "unat i < 2 ^ 32 - 1"
  shows "(block_size l = 0 \<longrightarrow> as_arraylist_set ok l i v = Some (l, AS_ARRAYLIST_ERR_MAX) \<and>
      as_arraylist_insert ok l i v = Some (l, AS_ARRAYLIST_ERR_MAX)) \<and>
    (block_size l \<noteq> 0 \<longrightarrow> as_arraylist_set False l i v = Some (l, AS_ARRAYLIST_ERR_ALLOC) \<and>
      as_arraylist_insert False l i v = Some (l, AS_ARRAYLIST_ERR_ALLOC))"
proof -
  have i1: "unat (i + 1) = Suc (unat i)" and sz: "unat (al_size l) \<le> unat (capacity l)"
    using assms by (auto simp: al_rep_def intro!: unat_succ)
  have le: "capacity l \<le> i" "capacity l < i + 1" "al_size l \<le> i"
    using assms(2) i1 sz by (auto simp: word_le_nat_alt word_less_nat_alt)
  then have "\<not> al_size l < i \<Longrightarrow> al_size l = i"
    by simp
  with le show ?thesis
    by (auto simp: as_arraylist_set_def as_arraylist_insert_def as_arraylist_ensure_def)
qed

theorem arraylist_no_room_witness:
  "as_arraylist_insert False small_list 2 (Some 7) = Some (small_list, AS_ARRAYLIST_ERR_ALLOC)"
proof -
  have "capacity small_list = 2"
    by (simp add: small_list_def as_arraylist_init_def)
  then show ?thesis
    using arraylist_no_room [OF small_list_rep, of 2 True "Some 7"] by simp
qed

text \<open>
  Appending a list to itself never returns a list: the loop compares its index with a size that
  grows with every element it copies, and runs on until it writes outside the array.
\<close>

theorem concat_with_itself:
  assumes "al_rep l xs" and "xs \<noteq> []" and "0 < block_size l"
    and "2 * length xs + unat (block_size l) < 2 ^ 31"
  shows "as_arraylist_concat True l None = None"
proof -
  have "unat (al_size l) = length xs"
    using assms(1) by (simp add: al_rep_def)
  then obtain l1 where "as_arraylist_ensure True l (al_size l) = Some (l1, AS_ARRAYLIST_OK)" "al_rep l1 xs"
    using ensure_rep [OF assms(1), of "al_size l"] assms(3,4) by (auto simp: word_gt_0)
  then show ?thesis
    using concat_loop_self [of l1 xs 0] assms(2) by (simp add: as_arraylist_concat_def)
qed

theorem concat_with_itself_witness: "as_arraylist_concat True pair_list None = None"
  using concat_with_itself [OF pair_list_rep] by (simp add: pair_list_def)

text \<open>
  The tail of a list with a last element that is not null, and at least one element before it, is
  never computed: the loop reads the elements to copy from the new list instead of the old one and
  leaves its array by one place.
\<close>

theorem tail_reads_outside:
  assumes "al_rep l xs" and "2 \<le> length xs" and "last xs \<noteq> None"
  shows "as_arraylist_tail l = None"
proof -
  have sz: "unat (al_size l) = length xs" "length xs < 2 ^ 31"
    using assms(1) by (auto simp: al_rep_def)
  have "0 < al_size l"
    using sz assms(2) by (cases xs) (auto simp: word_less_nat_alt)
  then have n: "unat (al_size l - 1) = length xs - 1" "al_size l \<noteq> 0"
    using sz unat_dec [of "al_size l"] by auto
  then obtain l2 where "as_arraylist_new True True (al_size l - 1) (block_size l) = Some (l2 :: 'a as_arraylist)"
    "length (elements l2) = length xs - 1"
    using al_new_rep [of "al_size l - 1" "block_size l", where ?'a = 'a] sz(2) by fastforce
  moreover have "xs \<noteq> []" "1 < length xs"
    using assms(2) by auto
  ultimately show ?thesis
    using tail_loop_faults [OF assms(1) _ assms(3), of 1 l2 0] n(2) by (simp add: as_arraylist_tail_def)
qed

theorem tail_reads_outside_witness: "as_arraylist_tail pair_list = None"
  using tail_reads_outside [OF pair_list_rep] by simp

text \<open>
  A list created with no initial capacity and grown by a store is released without giving its
  array back: the flag that says the array is to be freed is set by the constructor only.
\<close>

theorem zero_capacity_list_leaks:
  assumes "as_arraylist_new True True 0 block = Some l" and "0 < block" and "unat block < 2 ^ 30" and "unat i < 2 ^ 30"
  shows "\<exists>l'. as_arraylist_set True l i (Some v) = Some (l', AS_ARRAYLIST_OK) \<and> elements l' \<noteq> [] \<and>
    as_arraylist_release l' = Some (l'\<lparr>elements := [], al_size := 0, capacity := 0\<rparr>, [v], False)"
proof -
  have l: "al_rep l []" "block_size l = block" "al_free l = False"
    using assms(1) by (auto simp: as_arraylist_new_def al_rep_def)
  obtain l' where l': "as_arraylist_set True l i (Some v) = Some (l', AS_ARRAYLIST_OK)"
    "al_rep l' (list_put [] (unat i) (Some v))"
    using set_rep [OF l(1), of i "Some v"] l(2) assms(2-4) by (auto simp: word_gt_0)
  have "al_free l' = False"
    using l'(1) l(3)
    by (auto simp: as_arraylist_set_def as_arraylist_ensure_def store_elem_def Let_def
        split: if_splits Option.bind_splits)
  moreover have put: "list_put [] n (Some v) = replicate n None @ [Some v]" for n
    by (induction n) (simp_all add: list_put_def pad_def)
  moreover have "mem_read (elements l') 0 (unat (al_size l')) = Some (replicate (unat i) None @ [Some v])" "elements l' \<noteq> []"
    using l'(2) unfolding put by (auto simp: al_rep_def mem_read_def)
  moreover have "List.map_filter id (replicate n None @ [Some v]) = [v]" for n
    by (induction n) (auto simp: map_filter_simps)
  ultimately show ?thesis
    using l'(1) by (auto simp: as_arraylist_release_def)
qed

theorem zero_capacity_list_leaks_witness:
  "\<exists>l l'. as_arraylist_new True True 0 8 = Some (l :: int as_arraylist) \<and>
     as_arraylist_set True l 0 (Some 7) = Some (l', AS_ARRAYLIST_OK) \<and> elements l' \<noteq> [] \<and>
     as_arraylist_release l' = Some (l'\<lparr>elements := [], al_size := 0, capacity := 0\<rparr>, [7], False)"
proof -
  obtain l where l: "as_arraylist_new True True 0 8 = Some (l :: int as_arraylist)"
    by (simp add: as_arraylist_new_def)
  from zero_capacity_list_leaks [OF this, of 0 7] l show ?thesis
    by auto
qed

end
