(* ===== verification/HashMap.thy ===== *)
theory HashMap
  imports AsVal KvTable "HOL-Library.Multiset"
begin

text \<open>
  The hash map behind every map value of the client, \<^verbatim>\<open>as_hashmap.c\<close>: a main table with one element per
  slot, and an array of extra elements that are linked into chains by index, with removed ones kept on a
  free queue.

  A null pointer is \<open>None\<close>, a null array the empty list, index 0 the end of a chain.  The indexes into
  the extra elements are natural numbers: the array would have to exceed $2^{32}$ elements before the
  32-bit indexes of the code differ.  A null or outside access is the result \<open>None\<close>.  So is a chain walk
  that takes more steps than there are elements: such a walk has come back to a place it passed and never
  ends.  \<open>cs\<close> says whether plain \<^verbatim>\<open>char\<close> is signed, which string hashes depend on, and \<open>ok\<close> whether the
  allocation the call makes succeeds.
\<close>

record 'v as_hashmap_element =
  p_key :: "as_val option"
  p_val :: "'v option"
  el_next :: nat

record 'v as_hashmap =
  hm_count :: u32
  table_capacity :: u32
  table :: "'v as_hashmap_element list"
  capacity_step :: nat
  extra_capacity :: nat
  extras :: "'v as_hashmap_element list"
  insert_at :: nat
  free_q :: nat

definition zero_element :: "'v as_hashmap_element" where
  "zero_element = \<lparr> p_key = None, p_val = None, el_next = 0 \<rparr>"

definition as_hashmap_cons :: "bool \<Rightarrow> u32 \<Rightarrow> 'v as_hashmap option" where
  "as_hashmap_cons ok capacity =
     (let cap = (if capacity > 1 then capacity else 1) in
      if \<not> ok then None
      else Some
        \<lparr> hm_count = 0, table_capacity = cap, table = replicate (unat cap) zero_element,
          capacity_step = (let step = unat cap div 2 in if step < 2 then 2 else step),
          extra_capacity = 0, extras = [], insert_at = 1, free_q = 0 \<rparr>)"

definition as_hashmap_init :: "bool \<Rightarrow> u32 \<Rightarrow> 'v as_hashmap option" where
  "as_hashmap_init ok capacity = as_hashmap_cons ok capacity"

definition as_hashmap_new :: "bool \<Rightarrow> bool \<Rightarrow> u32 \<Rightarrow> 'v as_hashmap option" where
  "as_hashmap_new ok ok_table capacity = (if \<not> ok then None else as_hashmap_cons ok_table capacity)"

definition as_hashmap_size :: "'v as_hashmap \<Rightarrow> u32" where
  "as_hashmap_size m = hm_count m"

text \<open>Elements by address: in the main table or among the extra elements.\<close>

datatype slot = Main nat | Extra nat

fun elem_at :: "'v as_hashmap \<Rightarrow> slot \<Rightarrow> 'v as_hashmap_element option" where
  "elem_at m (Main i) = mem_load (table m) i"
| "elem_at m (Extra j) = mem_load (extras m) j"

fun put_elem :: "'v as_hashmap \<Rightarrow> slot \<Rightarrow> 'v as_hashmap_element \<Rightarrow> 'v as_hashmap option" where
  "put_elem m (Main i) e = do { es \<leftarrow> mem_write (table m) i [e]; Some (m\<lparr>table := es\<rparr>) }"
| "put_elem m (Extra j) e = do { es \<leftarrow> mem_write (extras m) j [e]; Some (m\<lparr>extras := es\<rparr>) }"

definition hash_slot :: "bool \<Rightarrow> 'v as_hashmap \<Rightarrow> as_val \<Rightarrow> nat option" where
  "hash_slot cs m k = do { h \<leftarrow> as_val_hashcode cs k; Some (unat (h mod table_capacity m)) }"

text \<open>
  Following a chain from an element in use: whether the key was found, and where the walk stopped.
\<close>

fun find_slot :: "nat \<Rightarrow> 'v as_hashmap \<Rightarrow> slot \<Rightarrow> as_val \<Rightarrow> (bool \<times> slot) option" where
  "find_slot fuel m a k = do {
     e \<leftarrow> elem_at m a;
     k' \<leftarrow> p_key e;
     if eq_val k' k then Some (True, a)
     else if el_next e = 0 then Some (False, a)
     else (case fuel of 0 \<Rightarrow> None | Suc fuel \<Rightarrow> find_slot fuel m (Extra (el_next e)) k) }"

declare find_slot.simps [simp del]

text \<open>Adding an element after the last one of a chain.\<close>

definition append_elem ::
  "bool \<Rightarrow> 'v as_hashmap \<Rightarrow> slot \<Rightarrow> as_val \<Rightarrow> 'v option \<Rightarrow> ('v as_hashmap \<times> int) option" where
  "append_elem ok m prev k v = do {
     prev_e \<leftarrow> elem_at m prev;
     if free_q m \<noteq> 0 then do {
       m \<leftarrow> put_elem m prev (prev_e\<lparr>el_next := free_q m\<rparr>);
       e \<leftarrow> elem_at m (Extra (free_q m));
       m' \<leftarrow> put_elem m (Extra (free_q m)) \<lparr> p_key = Some k, p_val = v, el_next = 0 \<rparr>;
       Some (m'\<lparr>hm_count := hm_count m + 1, free_q := el_next e\<rparr>, 0) }
     else do {
       m1 \<leftarrow> put_elem m prev (prev_e\<lparr>el_next := insert_at m\<rparr>);
       if insert_at m \<ge> extra_capacity m \<and> \<not> ok then do {
         m2 \<leftarrow> put_elem m1 prev prev_e;
         Some (m2, - 1) }
       else do {
         m2 \<leftarrow> Some (if insert_at m \<ge> extra_capacity m
            then m1\<lparr>extras := extras m1 @ replicate (capacity_step m) zero_element,
                    extra_capacity := extra_capacity m + capacity_step m\<rparr>
            else m1);
         e \<leftarrow> elem_at m2 (Extra (insert_at m));
         m3 \<leftarrow> put_elem m2 (Extra (insert_at m)) (e\<lparr>p_key := Some k, p_val := v\<rparr>);
         Some (m3\<lparr>hm_count := hm_count m + 1, insert_at := insert_at m + 1\<rparr>, 0) } } }"

definition as_hashmap_set ::
  "bool \<Rightarrow> bool \<Rightarrow> 'v as_hashmap \<Rightarrow> as_val option \<Rightarrow> 'v option \<Rightarrow> ('v as_hashmap \<times> int) option" where
  "as_hashmap_set cs ok m key v =
     (if \<not> is_valid_key_type key then Some (m, - 1)
      else do {
        k \<leftarrow> key;
        i \<leftarrow> hash_slot cs m k;
        e \<leftarrow> elem_at m (Main i);
        if p_key e = None then do {
          m' \<leftarrow> put_elem m (Main i) (e\<lparr>p_key := Some k, p_val := v\<rparr>);
          Some (m'\<lparr>hm_count := hm_count m + 1\<rparr>, 0) }
        else do {
          (found, a) \<leftarrow> find_slot (length (extras m)) m (Main i) k;
          if found then do {
            e \<leftarrow> elem_at m a;
            m' \<leftarrow> put_elem m a (e\<lparr>p_key := Some k, p_val := v\<rparr>);
            Some (m', 0) }
          else append_elem ok m a k v } })"

definition as_hashmap_get :: "bool \<Rightarrow> 'v as_hashmap \<Rightarrow> as_val option \<Rightarrow> 'v option option" where
  "as_hashmap_get cs m key =
     (if \<not> is_valid_key_type key then Some None
      else do {
        k \<leftarrow> key;
        i \<leftarrow> hash_slot cs m k;
        e \<leftarrow> elem_at m (Main i);
        if p_key e = None then Some None
        else do {
          (found, a) \<leftarrow> find_slot (length (extras m)) m (Main i) k;
          if found then do { e \<leftarrow> elem_at m a; Some (p_val e) } else Some None } })"

text \<open>The elements in use: the main table, then the extra elements below \<open>insert_at\<close>.\<close>

definition used_extras :: "'v as_hashmap \<Rightarrow> 'v as_hashmap_element list option" where
  "used_extras m = (if insert_at m \<le> 1 then Some [] else mem_read (extras m) 1 (insert_at m - 1))"

definition as_hashmap_clear :: "'v as_hashmap \<Rightarrow> ('v as_hashmap \<times> int) option" where
  "as_hashmap_clear m = do {
     _ \<leftarrow> used_extras m;
     Some (m\<lparr>table := map (\<lambda>e. if p_key e \<noteq> None then zero_element else e) (table m),
             hm_count := 0, extras := [], extra_capacity := 0, insert_at := 1, free_q := 0\<rparr>, 0) }"

text \<open>Following the chain to remove a key, from an element that does not hold it.\<close>

fun remove_from ::
  "nat \<Rightarrow> 'v as_hashmap \<Rightarrow> slot \<Rightarrow> as_val \<Rightarrow> ('v as_hashmap \<times> int) option" where
  "remove_from fuel m prev k = do {
     prev_e \<leftarrow> elem_at m prev;
     if el_next prev_e = 0 then Some (m, 0)
     else do {
       e \<leftarrow> elem_at m (Extra (el_next prev_e));
       k' \<leftarrow> p_key e;
       if eq_val k' k then do {
         m' \<leftarrow> put_elem m prev (prev_e\<lparr>el_next := el_next e\<rparr>);
         m' \<leftarrow> put_elem m' (Extra (el_next prev_e)) \<lparr> p_key = None, p_val = None, el_next = free_q m \<rparr>;
         Some (m'\<lparr>hm_count := hm_count m - 1, free_q := el_next prev_e\<rparr>, 0) }
       else (case fuel of 0 \<Rightarrow> None
             | Suc fuel \<Rightarrow> remove_from fuel m (Extra (el_next prev_e)) k) } }"

declare remove_from.simps [simp del]

definition as_hashmap_remove :: "bool \<Rightarrow> 'v as_hashmap \<Rightarrow> as_val option \<Rightarrow> ('v as_hashmap \<times> int) option" where
  "as_hashmap_remove cs m key =
     (if \<not> is_valid_key_type key then Some (m, - 1)
      else do {
        k \<leftarrow> key;
        i \<leftarrow> hash_slot cs m k;
        e \<leftarrow> elem_at m (Main i);
        case p_key e of None \<Rightarrow> Some (m, 0)
        | Some k' \<Rightarrow>
            if eq_val k' k then
              if el_next e = 0 then do {
                m' \<leftarrow> put_elem m (Main i) (e\<lparr>p_key := None, p_val := None\<rparr>);
                Some (m'\<lparr>hm_count := hm_count m - 1\<rparr>, 0) }
              else do {
                free_e \<leftarrow> elem_at m (Extra (el_next e));
                m' \<leftarrow> put_elem m (Main i) free_e;
                m' \<leftarrow> put_elem m' (Extra (el_next e)) \<lparr> p_key = None, p_val = None, el_next = free_q m \<rparr>;
                Some (m'\<lparr>hm_count := hm_count m - 1, free_q := el_next e\<rparr>, 0) }
            else remove_from (length (extras m)) m (Main i) k })"

fun entry_of :: "'v as_hashmap_element \<Rightarrow> (as_val \<times> 'v option) list" where
  "entry_of e = (case p_key e of None \<Rightarrow> [] | Some k \<Rightarrow> [(k, p_val e)])"

definition as_hashmap_foreach ::
  "'v as_hashmap \<Rightarrow> (as_val \<times> 'v option \<Rightarrow> 's \<Rightarrow> bool \<times> 's) \<Rightarrow> 's \<Rightarrow> (bool \<times> 's) option" where
  "as_hashmap_foreach m cb s = do {
     es \<leftarrow> used_extras m;
     Some (walk cb (concat (map entry_of (table m @ es))) s) }"

text \<open>Releasing a map clears it and frees its table.\<close>

definition as_hashmap_release :: "'v as_hashmap \<Rightarrow> bool option" where
  "as_hashmap_release m = do { _ \<leftarrow> as_hashmap_clear m; Some True }"

end
