(* ===== verification/HashMapProps.thy ===== *)
theory HashMapProps
  imports HashMap
begin

text \<open>
  Correctness of the hash map: the chain invariant, what each operation does to the entries a walk
  visits, and that the map is a keyed table.
\<close>

subsection \<open>Chains of extra elements\<close>

fun chain :: "'v as_hashmap_element list \<Rightarrow> nat \<Rightarrow> nat list \<Rightarrow> bool" where
  "chain ex n [] = (n = 0)"
| "chain ex n (j # js) = (n = j \<and> 0 < j \<and> j < length ex \<and> chain ex (el_next (ex ! j)) js)"

lemma chain_members: "chain ex n js \<Longrightarrow> j \<in> set js \<Longrightarrow> 0 < j \<and> j < length ex"
  by (induction ex n js rule: chain.induct) auto

lemma chain_other [simp]: "j \<notin> set js \<Longrightarrow> chain (ex[j := e]) n js = chain ex n js"
  by (induction ex n js rule: chain.induct) auto

lemma chain_same_next: "el_next e = el_next (ex ! j) \<Longrightarrow> chain (ex[j := e]) n js = chain ex n js"
proof (induction ex n js rule: chain.induct)
  case (2 ex n i js)
  have "el_next (ex[j := e] ! i) = el_next (ex ! i)" if "i < length ex"
    using 2(2) that by (cases "i = j") auto
  then show ?case
    using 2 by auto
qed simp

lemma chain_more: "chain ex n js \<Longrightarrow> chain (ex @ ys) n js"
  by (induction ex n js rule: chain.induct) (auto simp: nth_append)

lemma chain_last: "chain ex n js \<Longrightarrow> (if js = [] then n else el_next (ex ! last js)) = 0"
  by (induction ex n js rule: chain.induct) auto

lemma chain_next: "chain ex n (js @ j # ks) \<Longrightarrow> (if js = [] then n else el_next (ex ! last js)) = j \<and> 0 < j"
  by (induction js arbitrary: n) auto

text \<open>Linking a fresh element behind the last one, and unlinking the one after \<open>p\<close>.\<close>

lemma chain_link:
  "chain ex n (js @ [p]) \<Longrightarrow> j \<notin> set (js @ [p]) \<Longrightarrow> distinct (js @ [p]) \<Longrightarrow> 0 < j \<Longrightarrow> j < length ex \<Longrightarrow>
   el_next (ex ! j) = 0 \<Longrightarrow> chain (ex[p := (ex ! p)\<lparr>el_next := j\<rparr>]) n (js @ [p, j])"
proof (induction js arbitrary: n)
  case Nil
  then show ?case
    by (auto simp: nth_list_update)
next
  case (Cons i js)
  then show ?case
    by (auto simp: nth_list_update)
qed

lemma chain_unlink:
  "chain ex n (js @ p # q # ks) \<Longrightarrow> distinct (js @ p # q # ks) \<Longrightarrow>
   chain (ex[p := (ex ! p)\<lparr>el_next := el_next (ex ! q)\<rparr>]) n (js @ p # ks)"
proof (induction js arbitrary: n)
  case Nil
  then show ?case
    by (auto simp: nth_list_update)
next
  case (Cons i js)
  then show ?case
    by (auto simp: nth_list_update)
qed


subsection \<open>The invariant\<close>

definition placed :: "bool \<Rightarrow> 'v as_hashmap \<Rightarrow> nat \<Rightarrow> as_val \<Rightarrow> bool" where
  "placed cs m i k \<longleftrightarrow> hashable_key k \<and> hash_slot cs m k = Some i"

definition hm_dims :: "'v as_hashmap \<Rightarrow> bool" where
  "hm_dims m \<longleftrightarrow>
     0 < table_capacity m \<and> length (table m) = unat (table_capacity m) \<and>
     length (extras m) = extra_capacity m \<and> 2 \<le> capacity_step m \<and>
     1 \<le> insert_at m \<and> insert_at m \<le> max 1 (extra_capacity m) \<and>
     (\<forall>j. insert_at m \<le> j \<longrightarrow> j < extra_capacity m \<longrightarrow> extras m ! j = zero_element)"

definition hm_chains :: "'v as_hashmap \<Rightarrow> (nat \<Rightarrow> nat list) \<Rightarrow> bool" where
  "hm_chains m ch \<longleftrightarrow>
     (\<forall>i < length (table m). chain (extras m) (el_next (table m ! i)) (ch i) \<and> distinct (ch i)) \<and>
     (\<forall>i < length (table m). \<forall>i' < length (table m). i \<noteq> i' \<longrightarrow> set (ch i) \<inter> set (ch i') = {})"

definition hm_links :: "'v as_hashmap \<Rightarrow> (nat \<Rightarrow> nat list) \<Rightarrow> nat list \<Rightarrow> bool" where
  "hm_links m ch fq \<longleftrightarrow> hm_chains m ch \<and>
     chain (extras m) (free_q m) fq \<and> distinct fq \<and>
     (\<forall>i < length (table m). set (ch i) \<inter> set fq = {}) \<and>
     set fq \<union> (\<Union>i < length (table m). set (ch i)) = {1..<insert_at m}"

definition hm_placed :: "bool \<Rightarrow> 'v as_hashmap \<Rightarrow> (nat \<Rightarrow> nat list) \<Rightarrow> nat list \<Rightarrow> bool" where
  "hm_placed cs m ch fq \<longleftrightarrow>
     (\<forall>i < length (table m).
        case p_key (table m ! i) of None \<Rightarrow> ch i = [] | Some k \<Rightarrow> placed cs m i k) \<and>
     (\<forall>i < length (table m). \<forall>j \<in> set (ch i). \<exists>k. p_key (extras m ! j) = Some k \<and> placed cs m i k) \<and>
     (\<forall>j \<in> set fq. p_key (extras m ! j) = None)"

text \<open>The addresses of the elements a walk visits, and the entries there.\<close>

definition addrs :: "'v as_hashmap \<Rightarrow> slot set" where
  "addrs m = Main ` {..<length (table m)} \<union> Extra ` {1..<insert_at m}"

fun elem_of :: "'v as_hashmap \<Rightarrow> slot \<Rightarrow> 'v as_hashmap_element" where
  "elem_of m (Main i) = table m ! i"
| "elem_of m (Extra j) = extras m ! j"

definition hm_mset :: "'v as_hashmap \<Rightarrow> (as_val \<times> 'v option) multiset" where
  "hm_mset m = (\<Sum>a \<in> addrs m. mset (entry_of (elem_of m a)))"

definition hm_unique :: "'v as_hashmap \<Rightarrow> bool" where
  "hm_unique m \<longleftrightarrow>
     (\<forall>a \<in> addrs m. \<forall>b \<in> addrs m. \<forall>k k'. p_key (elem_of m a) = Some k \<longrightarrow> p_key (elem_of m b) = Some k' \<longrightarrow>
        key_norm k = key_norm k' \<longrightarrow> a = b)"

definition hm_wf :: "bool \<Rightarrow> 'v as_hashmap \<Rightarrow> (nat \<Rightarrow> nat list) \<Rightarrow> nat list \<Rightarrow> bool" where
  "hm_wf cs m ch fq \<longleftrightarrow> hm_dims m \<and> hm_links m ch fq \<and> hm_placed cs m ch fq \<and> hm_unique m \<and>
     hm_count m = of_nat (size (hm_mset m))"

definition hm_inv :: "bool \<Rightarrow> 'v as_hashmap \<Rightarrow> bool" where
  "hm_inv cs m \<longleftrightarrow> (\<exists>ch fq. hm_wf cs m ch fq)"

text \<open>The sequence of entries a walk visits, and the value under a key in it.\<close>

definition hm_entries :: "'v as_hashmap \<Rightarrow> (as_val \<times> 'v option) list" where
  "hm_entries m = concat (map entry_of (table m @ take (insert_at m - 1) (drop 1 (extras m))))"

definition entries_lookup :: "(as_val \<times> 'v option) list \<Rightarrow> as_val \<rightharpoonup> 'v" where
  "entries_lookup es kk = (case find (\<lambda>(k, _). key_norm k = kk) es of None \<Rightarrow> None | Some (_, v) \<Rightarrow> v)"

definition hm_lookup :: "'v as_hashmap \<Rightarrow> as_val \<rightharpoonup> 'v" where
  "hm_lookup m = entries_lookup (hm_entries m)"


subsection \<open>Addresses\<close>

lemma finite_addrs [simp]: "finite (addrs m)"
  by (simp add: addrs_def)

lemma addrs_range:
  assumes "hm_dims m" and "a \<in> addrs m"
  shows "elem_at m a = Some (elem_of m a)"
  using assms by (auto simp: addrs_def hm_dims_def mem_load_def)

fun upd :: "'v as_hashmap \<Rightarrow> slot \<Rightarrow> 'v as_hashmap_element \<Rightarrow> 'v as_hashmap" where
  "upd m (Main i) e = m\<lparr>table := (table m)[i := e]\<rparr>"
| "upd m (Extra j) e = m\<lparr>extras := (extras m)[j := e]\<rparr>"

lemma put_elem_upd: "elem_at m a \<noteq> None \<Longrightarrow> put_elem m a e = Some (upd m a e)"
  by (cases a) (auto simp: mem_load_def mem_write_one split: if_splits)

lemma upd_simps [simp]:
  "length (table (upd m a e)) = length (table m)" "length (extras (upd m a e)) = length (extras m)"
  "table_capacity (upd m a e) = table_capacity m" "extra_capacity (upd m a e) = extra_capacity m"
  "insert_at (upd m a e) = insert_at m" "free_q (upd m a e) = free_q m"
  "capacity_step (upd m a e) = capacity_step m" "hm_count (upd m a e) = hm_count m"
  "addrs (upd m a e) = addrs m" "hash_slot cs (upd m a e) k = hash_slot cs m k"
  "placed cs (upd m a e) i k = placed cs m i k"
  by (cases a; simp add: addrs_def hash_slot_def placed_def)+

lemma elem_of_upd:
  assumes "elem_at m a \<noteq> None"
  shows "elem_of (upd m a e) b = (if b = a then e else elem_of m b)"
  using assms by (cases a; cases b) (auto simp: mem_load_def split: if_splits)

lemma elem_at_upd:
  assumes "elem_at m a \<noteq> None"
  shows "elem_at (upd m a e) b = (if b = a then Some e else elem_at m b)"
  using assms by (cases a; cases b) (auto simp: mem_load_def split: if_splits)

lemma sum_mset_update:
  assumes "finite A" and "a \<in> A" and "\<And>b. b \<in> A \<Longrightarrow> b \<noteq> a \<Longrightarrow> g b = f b"
  shows "sum g A + f a = sum f A + (g a :: 'x multiset)"
  using assms by (simp add: sum.remove [of A a g] sum.remove [of A a f] ac_simps)

lemma hm_mset_upd:
  assumes "hm_dims m" and "a \<in> addrs m"
  shows "hm_mset (upd m a e) + mset (entry_of (elem_of m a)) = hm_mset m + mset (entry_of e)"
  using sum_mset_update [of "addrs m" a "\<lambda>b. mset (entry_of (elem_of (upd m a e) b))" "\<lambda>b. mset (entry_of (elem_of m b))"]
    assms by (simp add: hm_mset_def elem_of_upd addrs_range [OF assms] del: entry_of.simps)

lemma addrs_upd_range [simp]: "elem_at m a \<noteq> None \<Longrightarrow> elem_at (upd m b e) a \<noteq> None"
  by (cases a; cases b) (auto simp: mem_load_def split: if_splits)

lemma hm_dims_upd:
  assumes "hm_dims m" and "a \<in> addrs m"
  shows "hm_dims (upd m a e)"
  using assms by (cases a) (auto simp: hm_dims_def addrs_def nth_list_update)

lemma hash_slot_range:
  assumes "hm_dims m" and "hashable_key k"
  shows "\<exists>i. hash_slot cs m k = Some i \<and> i < length (table m)"
proof -
  obtain h where "as_val_hashcode cs k = Some h"
    using hashable_key_hash [OF assms(2)] by blast
  moreover have "h mod table_capacity m < table_capacity m"
    using assms(1) by (simp add: hm_dims_def word_less_nat_alt unat_mod)
  ultimately show ?thesis
    using assms(1) by (auto simp: hash_slot_def hm_dims_def word_less_nat_alt)
qed

lemma hash_slot_norm: "key_norm k = key_norm k' \<Longrightarrow> hash_slot cs m k = hash_slot cs m k'"
  by (simp add: hash_slot_def eq_hashcode [of k k'])


subsection \<open>The path of a hash slot\<close>

definition path :: "nat \<Rightarrow> nat list \<Rightarrow> slot list" where
  "path i js = Main i # map Extra js"

lemma hm_path_addrs:
  assumes "hm_links m ch fq" and "i < length (table m)"
  shows "set (path i (ch i)) \<subseteq> addrs m"
  using assms by (auto simp: hm_links_def path_def addrs_def)

lemma linked_in_range:
  assumes "hm_links m ch fq" and "i < length (table m)" and "j \<in> set (ch i)"
  shows "0 < j" and "j < length (extras m)" and "j < insert_at m"
proof -
  have "chain (extras m) (el_next (table m ! i)) (ch i)"
    using assms(1,2) by (simp add: hm_links_def hm_chains_def)
  then show "0 < j" "j < length (extras m)"
    using chain_members assms(3) by auto
  have "j \<in> {1..<insert_at m}"
    using assms unfolding hm_links_def by blast
  then show "j < insert_at m"
    by simp
qed

lemma free_in_range:
  assumes "hm_links m ch fq" and "j \<in> set fq"
  shows "0 < j" and "j < length (extras m)" and "j < insert_at m"
proof -
  have "chain (extras m) (free_q m) fq"
    using assms(1) by (simp add: hm_links_def)
  then show "0 < j" "j < length (extras m)"
    using chain_members assms(2) by auto
  have "j \<in> {1..<insert_at m}"
    using assms unfolding hm_links_def by blast
  then show "j < insert_at m"
    by simp
qed

lemma chain_length:
  assumes "hm_dims m" and "hm_links m ch fq" and "i < length (table m)"
  shows "length (ch i) \<le> length (extras m)"
proof -
  have "card (set (ch i)) \<le> card {1..<insert_at m}"
    using assms by (intro card_mono) (auto simp: hm_links_def)
  moreover have "card (set (ch i)) = length (ch i)" "insert_at m - 1 \<le> length (extras m)"
    using assms by (auto simp: hm_links_def hm_chains_def hm_dims_def distinct_card max_def split: if_splits)
  ultimately show ?thesis
    by simp
qed

text \<open>Every entry whose key normalises to that of \<open>k\<close> lies on the path of the slot of \<open>k\<close>.\<close>

lemma entry_on_path:
  assumes wf: "hm_dims m" "hm_links m ch fq" "hm_placed cs m ch fq"
    and "a \<in> addrs m" and "p_key (elem_of m a) = Some k'" and "key_norm k' = key_norm k"
    and "hash_slot cs m k = Some i"
  shows "a \<in> set (path i (ch i))"
proof (cases a)
  case (Main i')
  then have "placed cs m i' k'"
    using assms by (auto simp: hm_placed_def addrs_def split: option.splits)
  then show ?thesis
    using assms hash_slot_norm [of k' k cs m] Main by (auto simp: placed_def path_def)
next
  case (Extra j)
  then have "j \<in> set fq \<union> (\<Union>i < length (table m). set (ch i))"
    using assms by (auto simp: hm_links_def addrs_def)
  then obtain i' where "i' < length (table m)" "j \<in> set (ch i')"
    using assms Extra by (auto simp: hm_placed_def)
  moreover from this have "placed cs m i' k'"
    using assms(3,5) Extra by (fastforce simp: hm_placed_def)
  ultimately show ?thesis
    using assms hash_slot_norm [of k' k cs m] Extra by (auto simp: placed_def path_def)
qed

lemma find_slot_path:
  "elem_at m a = Some e \<Longrightarrow> p_key e = Some k0 \<Longrightarrow> hashable_key k0 \<Longrightarrow> chain (extras m) (el_next e) js \<Longrightarrow>
   \<forall>j \<in> set js. \<exists>k. p_key (extras m ! j) = Some k \<and> hashable_key k \<Longrightarrow> length js \<le> fuel \<Longrightarrow> hashable_key k \<Longrightarrow>
   (\<exists>b kb. find_slot fuel m a k = Some (True, b) \<and> b \<in> set (a # map Extra js) \<and>
      p_key (if b = a then e else elem_of m b) = Some kb \<and> key_norm kb = key_norm k) \<or>
   find_slot fuel m a k = Some (False, last (a # map Extra js)) \<and> key_norm k0 \<noteq> key_norm k \<and>
      (\<forall>j \<in> set js. \<forall>k'. p_key (extras m ! j) = Some k' \<longrightarrow> key_norm k' \<noteq> key_norm k)"
proof (induction js arbitrary: a e k0 fuel)
  case Nil
  then show ?case
    using eq_val_iff [OF hashable_key_valid hashable_key_valid, of k0 k]
    by (subst (1 2) find_slot.simps) auto
next
  case (Cons j js)
  obtain fuel' where fuel: "fuel = Suc fuel'"
    using Cons(7) by (cases fuel) auto
  have eq: "eq_val k0 k \<longleftrightarrow> key_norm k0 = key_norm k"
    by (rule eq_val_iff [OF hashable_key_valid [OF Cons(4)] hashable_key_valid [OF Cons(8)]])
  show ?case
  proof (cases "key_norm k0 = key_norm k")
    case True
    then show ?thesis
      using Cons(2,3) eq by (subst (1 2) find_slot.simps) auto
  next
    case False
    have step: "find_slot fuel m a k = find_slot fuel' m (Extra j) k"
      using Cons(2,3,5) eq False fuel by (subst find_slot.simps) auto
    obtain kj where kj: "p_key (extras m ! j) = Some kj" "hashable_key kj"
      using Cons(6) by auto
    have j: "elem_at m (Extra j) = Some (extras m ! j)"
      using Cons(5) by (simp add: mem_load_def)
    have "chain (extras m) (el_next (extras m ! j)) js" "\<forall>j \<in> set js. \<exists>k. p_key (extras m ! j) = Some k \<and> hashable_key k"
      "length js \<le> fuel'"
      using Cons(5,6,7) fuel by auto
    note IH = Cons(1) [OF j kj this(1,2,3) Cons(8)]
    show ?thesis
    proof (cases "\<exists>b kb. find_slot fuel' m (Extra j) k = Some (True, b) \<and> b \<in> set (Extra j # map Extra js) \<and>
      p_key (if b = Extra j then extras m ! j else elem_of m b) = Some kb \<and> key_norm kb = key_norm k")
      case True
      then obtain b kb where b: "find_slot fuel m a k = Some (True, b)" "b \<in> set (map Extra (j # js))"
        "p_key (elem_of m b) = Some kb" "key_norm kb = key_norm k"
        using step by (auto split: if_splits)
      have "elem_of m b = e" if "b = a"
        using b(2) Cons(2) that chain_members [OF Cons(5)] by (auto simp: mem_load_def split: if_splits)
      then show ?thesis
        using b by (intro disjI1 exI [of _ b] exI [of _ kb]) auto
    next
      case other: False
      then show ?thesis
        using IH False step kj(1) by auto
    qed
  qed
qed

lemma hm_search:
  assumes wf: "hm_wf cs m ch fq" and k: "hashable_key k" and i: "hash_slot cs m k = Some i"
    and used: "p_key (table m ! i) \<noteq> None"
  shows "(\<exists>b kb. find_slot (length (extras m)) m (Main i) k = Some (True, b) \<and> b \<in> addrs m \<and>
      p_key (elem_of m b) = Some kb \<and> key_norm kb = key_norm k) \<or>
    find_slot (length (extras m)) m (Main i) k = Some (False, last (path i (ch i))) \<and>
      (\<forall>a \<in> addrs m. \<forall>k'. p_key (elem_of m a) = Some k' \<longrightarrow> key_norm k' \<noteq> key_norm k)"
proof -
  have parts: "hm_dims m" "hm_links m ch fq" "hm_placed cs m ch fq"
    using wf by (auto simp: hm_wf_def)
  have it: "i < length (table m)"
    using hash_slot_range [OF parts(1) k, of cs] i by auto
  obtain k0 where k0: "p_key (table m ! i) = Some k0" "hashable_key k0"
    using used parts(3) it by (auto simp: hm_placed_def placed_def split: option.splits)
  have e: "elem_at m (Main i) = Some (table m ! i)"
    using it by (simp add: mem_load_def)
  have ch: "chain (extras m) (el_next (table m ! i)) (ch i)"
      "\<forall>j \<in> set (ch i). \<exists>k. p_key (extras m ! j) = Some k \<and> hashable_key k"
    using parts(2,3) it by (fastforce simp: hm_links_def hm_chains_def hm_placed_def placed_def)+
  note search = find_slot_path [OF e k0 ch chain_length [OF parts(1,2) it] k]
  then show ?thesis
  proof
    assume "\<exists>b kb. find_slot (length (extras m)) m (Main i) k = Some (True, b) \<and>
      b \<in> set (Main i # map Extra (ch i)) \<and>
      p_key (if b = Main i then table m ! i else elem_of m b) = Some kb \<and> key_norm kb = key_norm k"
    then obtain b kb where "find_slot (length (extras m)) m (Main i) k = Some (True, b)" "b \<in> set (path i (ch i))"
      "p_key (elem_of m b) = Some kb" "key_norm kb = key_norm k"
      by (auto simp: path_def split: if_splits)
    then show ?thesis
      using hm_path_addrs [OF parts(2) it] by (intro disjI1) blast
  next
    assume none: "find_slot (length (extras m)) m (Main i) k = Some (False, last (Main i # map Extra (ch i))) \<and>
      key_norm k0 \<noteq> key_norm k \<and>
      (\<forall>j \<in> set (ch i). \<forall>k'. p_key (extras m ! j) = Some k' \<longrightarrow> key_norm k' \<noteq> key_norm k)"
    have "key_norm k' \<noteq> key_norm k" if "a \<in> addrs m" "p_key (elem_of m a) = Some k'" for a k'
      using entry_on_path [OF parts that _ i] none k0(1) that(2) by (auto simp: path_def)
    then show ?thesis
      using none by (auto simp: path_def)
  qed
qed

text \<open>With an unused main slot nothing is on the path.\<close>

lemma hm_search_empty:
  assumes wf: "hm_wf cs m ch fq" and i: "hash_slot cs m k = Some i" "i < length (table m)"
    and unused: "p_key (table m ! i) = None" and a: "a \<in> addrs m" "p_key (elem_of m a) = Some k'"
  shows "key_norm k' \<noteq> key_norm k"
proof
  assume eq: "key_norm k' = key_norm k"
  have parts: "hm_dims m" "hm_links m ch fq" "hm_placed cs m ch fq"
    using wf by (auto simp: hm_wf_def)
  have "ch i = []"
    using parts(3) i(2) unused by (auto simp: hm_placed_def split: option.splits)
  then show False
    using entry_on_path [OF parts a eq i(1)] unused a(2) by (auto simp: path_def)
qed


subsection \<open>Changes that keep the invariant\<close>

lemma size_hm_mset_upd:
  assumes "hm_dims m" and "a \<in> addrs m"
  shows "size (hm_mset (upd m a e)) + length (entry_of (elem_of m a)) = size (hm_mset m) + length (entry_of e)"
  using arg_cong [OF hm_mset_upd [OF assms, of e], of size] by (simp del: entry_of.simps)

lemma hm_count_simps [simp]:
  "addrs (m\<lparr>hm_count := c\<rparr>) = addrs m" "elem_of (m\<lparr>hm_count := c\<rparr>) a = elem_of m a"
  "hm_mset (m\<lparr>hm_count := c\<rparr>) = hm_mset m" "hm_dims (m\<lparr>hm_count := c\<rparr>) = hm_dims m"
  "hm_chains (m\<lparr>hm_count := c\<rparr>) ch = hm_chains m ch" "hm_links (m\<lparr>hm_count := c\<rparr>) ch fq = hm_links m ch fq"
  "hash_slot cs (m\<lparr>hm_count := c\<rparr>) k = hash_slot cs m k"
  "placed cs (m\<lparr>hm_count := c\<rparr>) = placed cs m"
  "hm_placed cs (m\<lparr>hm_count := c\<rparr>) ch fq = hm_placed cs m ch fq" "hm_unique (m\<lparr>hm_count := c\<rparr>) = hm_unique m"
proof -
  show 1: "addrs (m\<lparr>hm_count := c\<rparr>) = addrs m" "elem_of (m\<lparr>hm_count := c\<rparr>) a = elem_of m a" for a
    by (simp add: addrs_def) (cases a; simp)
  show "hm_mset (m\<lparr>hm_count := c\<rparr>) = hm_mset m" "hm_unique (m\<lparr>hm_count := c\<rparr>) = hm_unique m"
    by (simp_all add: hm_mset_def hm_unique_def 1)
  show 2: "hash_slot cs (m\<lparr>hm_count := c\<rparr>) k = hash_slot cs m k" for k
    by (simp add: hash_slot_def)
  show "placed cs (m\<lparr>hm_count := c\<rparr>) = placed cs m"
    by (simp add: placed_def fun_eq_iff 2)
  then show "hm_placed cs (m\<lparr>hm_count := c\<rparr>) ch fq = hm_placed cs m ch fq"
    by (simp add: hm_placed_def cong: option.case_cong)
  show "hm_chains (m\<lparr>hm_count := c\<rparr>) ch = hm_chains m ch"
    by (simp add: hm_chains_def)
  then show "hm_links (m\<lparr>hm_count := c\<rparr>) ch fq = hm_links m ch fq"
    by (simp add: hm_links_def)
qed (simp add: hm_dims_def)

lemma table_upd: "i < length (table m) \<Longrightarrow> table (upd m a e) ! i = (if a = Main i then e else table m ! i)"
  by (cases a) (auto simp: nth_list_update)

lemma extras_upd: "j < length (extras m) \<Longrightarrow> extras (upd m a e) ! j = (if a = Extra j then e else extras m ! j)"
  by (cases a) (auto simp: nth_list_update)

lemma links_same_next:
  assumes "hm_links m ch fq" and "el_next e = el_next (elem_of m a)"
  shows "hm_links (upd m a e) ch fq"
proof -
  have "chain (extras (upd m a e)) n js = chain (extras m) n js" for n js
    using assms(2) by (cases a) (auto simp: chain_same_next)
  moreover have "el_next (table (upd m a e) ! i) = el_next (table m ! i)" if "i < length (table m)" for i
    using assms(2) that by (auto simp: table_upd)
  ultimately show ?thesis
    using assms(1) by (simp add: hm_links_def hm_chains_def)
qed

lemma unique_upd:
  assumes "hm_dims m" and "hm_unique m" and "a \<in> addrs m"
    and "\<And>k. p_key e = Some k \<Longrightarrow>
      (\<exists>k0. p_key (elem_of m a) = Some k0 \<and> key_norm k0 = key_norm k) \<or>
      (\<forall>b \<in> addrs m. \<forall>k'. p_key (elem_of m b) = Some k' \<longrightarrow> key_norm k' \<noteq> key_norm k)"
  shows "hm_unique (upd m a e)"
  unfolding hm_unique_def upd_simps
proof (intro ballI allI impI)
  fix b c kb kc
  assume bc: "b \<in> addrs m" "c \<in> addrs m" and keys: "p_key (elem_of (upd m a e) b) = Some kb"
    "p_key (elem_of (upd m a e) c) = Some kc" "key_norm kb = key_norm kc"
  have the: "elem_of (upd m a e) x = (if x = a then e else elem_of m x)" for x
    using addrs_range [OF assms(1,3)] by (intro elem_of_upd) simp
  have uniq: "x = y" if "x \<in> addrs m" "y \<in> addrs m" "p_key (elem_of m x) = Some kx" "p_key (elem_of m y) = Some ky"
    "key_norm kx = key_norm ky" for x y kx ky
    using assms(2) that unfolding hm_unique_def by blast
  have keys': "key_norm kc = key_norm kb"
    using keys(3) by simp
  show "b = c"
  proof (cases "b = a"; cases "c = a")
    assume *: "b = a" "c \<noteq> a"
    then show ?thesis
      using assms(4) [of kb] keys bc uniq [OF assms(3) bc(2)] by (auto simp: the)
  next
    assume *: "b \<noteq> a" "c = a"
    then show ?thesis
      using assms(4) [of kc] keys(1,2) keys' bc uniq [OF assms(3) bc(1)] by (auto simp: the)
  next
    assume "b \<noteq> a" "c \<noteq> a"
    then show ?thesis
      using uniq [OF bc] keys by (auto simp: the)
  qed simp
qed

text \<open>A new value under a key that is there.\<close>

lemma wf_replace:
  fixes m :: "'v as_hashmap" and v :: "'v option"
  assumes wf: "hm_wf cs m ch fq" and a: "a \<in> addrs m" "p_key (elem_of m a) = Some k0" "key_norm k0 = key_norm k"
    and k: "hashable_key k"
  defines "m' \<equiv> upd m a ((elem_of m a)\<lparr>p_key := Some k, p_val := v\<rparr>)"
  shows "hm_wf cs m' ch fq" and "hm_mset m' + {#(k0, p_val (elem_of m a))#} = hm_mset m + {#(k, v)#}"
proof -
  let ?e = "(elem_of m a)\<lparr>p_key := Some k, p_val := v\<rparr>"
  have parts: "hm_dims m" "hm_links m ch fq" "hm_placed cs m ch fq" "hm_unique m" "hm_count m = of_nat (size (hm_mset m))"
    using wf by (auto simp: hm_wf_def)
  show "hm_mset m' + {#(k0, p_val (elem_of m a))#} = hm_mset m + {#(k, v)#}"
    using hm_mset_upd [OF parts(1) a(1), of ?e] a(2) by (simp add: m'_def)
  have "size (hm_mset m') = size (hm_mset m)"
    using size_hm_mset_upd [OF parts(1) a(1), of ?e] a(2) by (simp add: m'_def)
  moreover have pl: "placed cs m i k0 \<Longrightarrow> placed cs m i k" for i
    using hash_slot_norm [OF a(3), of cs m] k by (simp add: placed_def)
  have "hm_placed cs m' ch fq"
    unfolding hm_placed_def upd_simps m'_def
  proof (intro conjI allI impI ballI)
    fix i assume i: "i < length (table m)"
    show "case p_key (table (upd m a ?e) ! i) of None \<Rightarrow> ch i = [] | Some x \<Rightarrow> placed cs m i x"
      using parts(3) i a(2) pl by (cases "a = Main i") (auto simp: table_upd hm_placed_def)
    fix j assume j: "j \<in> set (ch i)"
    then have "\<exists>x. p_key (extras m ! j) = Some x \<and> placed cs m i x" "j < length (extras m)"
      using parts(3) i linked_in_range(2) [OF parts(2) i] by (auto simp: hm_placed_def)
    then show "\<exists>x. p_key (extras (upd m a ?e) ! j) = Some x \<and> placed cs m i x"
      using a(2) pl by (cases "a = Extra j") (auto simp: extras_upd)
  next
    fix j assume j: "j \<in> set fq"
    then have "p_key (extras m ! j) = None" "j < length (extras m)"
      using parts(3) free_in_range(2) [OF parts(2)] by (auto simp: hm_placed_def)
    then show "p_key (extras (upd m a ?e) ! j) = None"
      using a(2) by (auto simp: extras_upd)
  qed
  moreover have "hm_unique m'"
    unfolding m'_def using a by (intro unique_upd [OF parts(1,4) a(1)]) auto
  moreover have "hm_dims m'" "hm_links m' ch fq"
    unfolding m'_def using hm_dims_upd [OF parts(1) a(1)] links_same_next [OF parts(2)] by auto
  ultimately show "hm_wf cs m' ch fq"
    using parts(5) by (simp add: hm_wf_def m'_def)
qed

text \<open>A new key in an unused slot of the main table.\<close>

lemma wf_fill:
  fixes m :: "'v as_hashmap" and v :: "'v option"
  assumes wf: "hm_wf cs m ch fq" and i: "i < length (table m)" "p_key (table m ! i) = None"
    and k: "hashable_key k" "hash_slot cs m k = Some i"
  defines "m' \<equiv> (upd m (Main i) ((table m ! i)\<lparr>p_key := Some k, p_val := v\<rparr>))\<lparr>hm_count := hm_count m + 1\<rparr>"
  shows "hm_wf cs m' ch fq" and "hm_mset m' = hm_mset m + {#(k, v)#}"
proof -
  let ?e = "(table m ! i)\<lparr>p_key := Some k, p_val := v\<rparr>"
  have parts: "hm_dims m" "hm_links m ch fq" "hm_placed cs m ch fq" "hm_unique m" "hm_count m = of_nat (size (hm_mset m))"
    using wf by (auto simp: hm_wf_def)
  have a: "Main i \<in> addrs m"
    using i(1) by (simp add: addrs_def)
  show mset: "hm_mset m' = hm_mset m + {#(k, v)#}"
    using hm_mset_upd [OF parts(1) a, of ?e] i(2) by (simp add: m'_def del: upd.simps)
  have "hm_placed cs (upd m (Main i) ?e) ch fq"
    using parts(3) i k by (auto simp: hm_placed_def nth_list_update placed_def hash_slot_def split: if_splits option.splits)
  moreover have "hm_unique (upd m (Main i) ?e)"
    using hm_search_empty [OF wf k(2) i] by (intro unique_upd [OF parts(1,4) a]) auto
  moreover have "hm_dims (upd m (Main i) ?e)" "hm_links (upd m (Main i) ?e) ch fq"
    using hm_dims_upd [OF parts(1) a] links_same_next [OF parts(2), of ?e "Main i"] by (auto simp del: upd.simps)
  ultimately show "hm_wf cs m' ch fq"
    using parts(5) mset by (simp add: hm_wf_def m'_def del: upd.simps)
qed

text \<open>Placement only looks at the keys.\<close>

definition keys_placed ::
  "(slot \<Rightarrow> as_val option) \<Rightarrow> (nat \<Rightarrow> as_val \<Rightarrow> bool) \<Rightarrow> nat \<Rightarrow> (nat \<Rightarrow> nat list) \<Rightarrow> nat list \<Rightarrow> bool" where
  "keys_placed key pl n ch fq \<longleftrightarrow>
     (\<forall>i < n. case key (Main i) of None \<Rightarrow> ch i = [] | Some k \<Rightarrow> pl i k) \<and>
     (\<forall>i < n. \<forall>j \<in> set (ch i). \<exists>k. key (Extra j) = Some k \<and> pl i k) \<and>
     (\<forall>j \<in> set fq. key (Extra j) = None)"

lemma hm_placed_keys:
  "hm_placed cs m ch fq = keys_placed (\<lambda>a. p_key (elem_of m a)) (placed cs m) (length (table m)) ch fq"
  by (simp add: hm_placed_def keys_placed_def)

lemma key_upd:
  "elem_at m a \<noteq> None \<Longrightarrow> (\<lambda>b. p_key (elem_of (upd m a e) b)) = (\<lambda>b. p_key (elem_of m b))(a := p_key e)"
  by (auto simp: elem_of_upd fun_eq_iff)

lemma key_upd_next:
  "elem_at m a \<noteq> None \<Longrightarrow> (\<lambda>b. p_key (elem_of (upd m a ((elem_of m a)\<lparr>el_next := x\<rparr>)) b)) = (\<lambda>b. p_key (elem_of m b))"
  by (auto simp: elem_of_upd fun_eq_iff)

lemma entry_of_next [simp]: "entry_of (e\<lparr>el_next := x\<rparr>) = entry_of e"
  by (simp cong: option.case_cong)

lemma upd_swap: "a \<noteq> b \<Longrightarrow> upd (upd m a x) b y = upd (upd m b y) a x"
  by (cases a; cases b) (auto simp: list_update_swap)

lemma chains_append:
  assumes "hm_chains m ch" and i: "i < length (table m)" and j: "\<And>i. i < length (table m) \<Longrightarrow> j \<notin> set (ch i)"
    "0 < j" "j < length (extras m)" "el_next (extras m ! j) = 0"
  defines "p \<equiv> last (path i (ch i))"
  shows "hm_chains (upd m p ((elem_of m p)\<lparr>el_next := j\<rparr>)) (ch(i := ch i @ [j]))"
proof -
  have ch: "chain (extras m) (el_next (table m ! i')) (ch i')" "distinct (ch i')" if "i' < length (table m)" for i'
    using assms(1) that by (auto simp: hm_chains_def)
  have disj: "set (ch i1) \<inter> set (ch i2) = {}" if "i1 < length (table m)" "i2 < length (table m)" "i1 \<noteq> i2" for i1 i2
    using assms(1) that by (auto simp: hm_chains_def)
  let ?m = "upd m p ((elem_of m p)\<lparr>el_next := j\<rparr>)"
  have "chain (extras ?m) (el_next (table ?m ! i')) ((ch(i := ch i @ [j])) i')" if i': "i' < length (table m)" for i'
  proof (cases "ch i" rule: rev_cases)
    case Nil
    then show ?thesis
      using ch(1) [OF i'] i i' j by (auto simp: p_def path_def nth_list_update)
  next
    case (snoc js q)
    then have p: "p = Extra q" "elem_of m p = extras m ! q"
      by (simp_all add: p_def path_def)
    show ?thesis
    proof (cases "i' = i")
      case True
      then show ?thesis
        using chain_link [of "extras m" "el_next (table m ! i)" js q j] ch [OF i] j(1) [OF i] j(2-) snoc p by simp
    next
      case False
      then have "q \<notin> set (ch i')"
        using disj [OF i i'] snoc by auto
      then show ?thesis
        using ch(1) [OF i'] False p by simp
    qed
  qed
  moreover have "distinct ((ch(i := ch i @ [j])) i')" if "i' < length (table m)" for i'
    using ch(2) [OF that] j(1) [OF that] by auto
  moreover have "set ((ch(i := ch i @ [j])) i1) \<inter> set ((ch(i := ch i @ [j])) i2) = {}"
    if "i1 < length (table m)" "i2 < length (table m)" "i1 \<noteq> i2" for i1 i2
    using disj [OF that] j(1) [OF that(1)] j(1) [OF that(2)] that(3) by auto
  ultimately show ?thesis
    unfolding hm_chains_def by (simp del: fun_upd_apply)
qed

text \<open>The links do not depend on the count, nor the chains on the head of the free queue.\<close>

lemma free_q_simps [simp]:
  "addrs (m\<lparr>free_q := f\<rparr>) = addrs m" "elem_of (m\<lparr>free_q := f\<rparr>) a = elem_of m a"
  "hm_mset (m\<lparr>free_q := f\<rparr>) = hm_mset m" "hm_dims (m\<lparr>free_q := f\<rparr>) = hm_dims m"
  "hm_chains (m\<lparr>free_q := f\<rparr>) ch = hm_chains m ch"
  "hash_slot cs (m\<lparr>free_q := f\<rparr>) k = hash_slot cs m k"
  "placed cs (m\<lparr>free_q := f\<rparr>) = placed cs m"
  "hm_placed cs (m\<lparr>free_q := f\<rparr>) ch fq = hm_placed cs m ch fq" "hm_unique (m\<lparr>free_q := f\<rparr>) = hm_unique m"
proof -
  show 1: "addrs (m\<lparr>free_q := f\<rparr>) = addrs m" "elem_of (m\<lparr>free_q := f\<rparr>) a = elem_of m a" for a
    by (simp add: addrs_def) (cases a; simp)
  show "hm_mset (m\<lparr>free_q := f\<rparr>) = hm_mset m" "hm_unique (m\<lparr>free_q := f\<rparr>) = hm_unique m"
    by (simp_all add: hm_mset_def hm_unique_def 1)
  show 2: "hash_slot cs (m\<lparr>free_q := f\<rparr>) k = hash_slot cs m k" for k
    by (simp add: hash_slot_def)
  show "placed cs (m\<lparr>free_q := f\<rparr>) = placed cs m"
    by (simp add: placed_def fun_eq_iff 2)
  then show "hm_placed cs (m\<lparr>free_q := f\<rparr>) ch fq = hm_placed cs m ch fq"
    by (simp add: hm_placed_def cong: option.case_cong)
  show "hm_chains (m\<lparr>free_q := f\<rparr>) ch = hm_chains m ch"
    by (simp add: hm_chains_def)
qed (simp add: hm_dims_def)

lemma links_count [simp]: "hm_links (m\<lparr>hm_count := c, free_q := f\<rparr>) ch fq = hm_links (m\<lparr>free_q := f\<rparr>) ch fq"
  by (simp add: hm_links_def hm_chains_def)

lemma placed_upd_fun [simp]: "placed cs (upd m a e) = placed cs m"
  by (simp add: fun_eq_iff)

lemma last_path: "last (path i js) = (if js = [] then Main i else Extra (last js))"
  by (simp add: path_def last_map)

lemma last_path_addrs:
  assumes "hm_links m ch fq" and "i < length (table m)"
  shows "last (path i (ch i)) \<in> addrs m"
  using hm_path_addrs [OF assms] last_in_set [of "path i (ch i)"] by (auto simp: path_def)

text \<open>A new key in the first element of the free queue, linked behind the last element of its path.\<close>

lemma append_free_links:
  fixes m :: "'v as_hashmap" and v :: "'v option"
  assumes wf: "hm_links m ch (j # fq)" and i: "i < length (table m)"
    and e: "el_next e = 0"
  defines "p \<equiv> last (path i (ch i))" and "n \<equiv> upd m (Extra j) e"
  shows "hm_links ((upd n p ((elem_of n p)\<lparr>el_next := j\<rparr>))\<lparr>free_q := el_next (extras m ! j)\<rparr>) (ch(i := ch i @ [j])) fq"
    and "p \<noteq> Extra j" and "elem_of n p = elem_of m p"
proof -
  have j: "0 < j" "j < length (extras m)" "j \<notin> set fq"
    using free_in_range [OF wf, of j] wf by (auto simp: hm_links_def)
  have jch: "j \<notin> set (ch i')" if "i' < length (table m)" for i'
    using wf that by (auto simp: hm_links_def)
  show p: "p \<noteq> Extra j"
    using jch [OF i] last_in_set [of "ch i"] by (auto simp: p_def last_path)
  then show "elem_of n p = elem_of m p"
    using j(2) by (cases p) (auto simp: n_def)
  let ?m = "upd n p ((elem_of n p)\<lparr>el_next := j\<rparr>)"
  have "hm_chains n ch"
    using wf jch by (auto simp: hm_links_def hm_chains_def n_def)
  then have chains: "hm_chains ?m (ch(i := ch i @ [j]))"
    unfolding p_def using i j jch e by (intro chains_append) (auto simp: n_def)
  have "chain (extras m) (el_next (extras m ! j)) fq"
    using wf by (simp add: hm_links_def)
  moreover have "q \<notin> set fq" if "p = Extra q" for q
    using that wf i last_in_set [of "ch i"] by (auto simp: p_def last_path hm_links_def disjoint_iff split: if_splits)
  ultimately have free: "chain (extras ?m) (el_next (extras m ! j)) fq"
    using j(3) by (cases p) (auto simp: n_def)
  have dist: "distinct fq" "\<And>i'. i' < length (table m) \<Longrightarrow> set ((ch(i := ch i @ [j])) i') \<inter> set fq = {}"
    using wf j(3) by (auto simp: hm_links_def)
  have "set fq \<union> (\<Union>i' < length (table m). set ((ch(i := ch i @ [j])) i')) =
      set (j # fq) \<union> (\<Union>i' < length (table m). set (ch i'))"
    using i by (fastforce split: if_splits)
  then have cover: "set fq \<union> (\<Union>i' < length (table m). set ((ch(i := ch i @ [j])) i')) = {1..<insert_at m}"
    using wf unfolding hm_links_def by metis
  show "hm_links (?m\<lparr>free_q := el_next (extras m ! j)\<rparr>) (ch(i := ch i @ [j])) fq"
    using chains free dist cover by (simp add: hm_links_def n_def del: fun_upd_apply)
qed

lemma wf_append_free:
  fixes m :: "'v as_hashmap" and v :: "'v option"
  assumes wf: "hm_wf cs m ch (j # fq)" and i: "i < length (table m)" "p_key (table m ! i) \<noteq> None"
    and k: "hashable_key k" "hash_slot cs m k = Some i"
    and new: "\<forall>a \<in> addrs m. \<forall>k'. p_key (elem_of m a) = Some k' \<longrightarrow> key_norm k' \<noteq> key_norm k"
  defines "p \<equiv> last (path i (ch i))"
  defines "m1 \<equiv> upd m p ((elem_of m p)\<lparr>el_next := j\<rparr>)"
  defines "m' \<equiv> (upd m1 (Extra j) \<lparr> p_key = Some k, p_val = v, el_next = 0 \<rparr>)
    \<lparr>hm_count := hm_count m + 1, free_q := el_next (extras m ! j)\<rparr>"
  shows "hm_wf cs m' (ch(i := ch i @ [j])) fq" and "hm_mset m' = hm_mset m + {#(k, v)#}"
proof -
  let ?e = "\<lparr> p_key = Some k, p_val = v, el_next = 0 \<rparr>"
  define n where "n = upd m (Extra j) ?e"
  define m2 where "m2 = upd n p ((elem_of n p)\<lparr>el_next := j\<rparr>)"
  have parts: "hm_dims m" "hm_links m ch (j # fq)" "hm_placed cs m ch (j # fq)" "hm_unique m"
      "hm_count m = of_nat (size (hm_mset m))"
    using wf by (auto simp: hm_wf_def)
  note links = append_free_links [OF parts(2) i(1), of ?e, folded p_def n_def, simplified]
  have m': "m' = m2\<lparr>hm_count := hm_count m + 1, free_q := el_next (extras m ! j)\<rparr>"
    using links(2,3) upd_swap [of p "Extra j" m] unfolding m'_def m1_def m2_def n_def by metis
  have a: "Extra j \<in> addrs m" "p \<in> addrs m"
    using free_in_range [OF parts(2), of j] last_path_addrs [OF parts(2) i(1)] by (auto simp: addrs_def p_def)
  have an: "p \<in> addrs n"
    using a(2) by (simp add: n_def del: upd.simps)
  have dims: "hm_dims n" "hm_dims m2"
    unfolding m2_def using hm_dims_upd [OF _ an] hm_dims_upd [OF parts(1) a(1)] by (simp_all add: n_def del: upd.simps)
  have jkey: "p_key (elem_of m (Extra j)) = None"
    using parts(3) by (simp add: hm_placed_def)
  have "hm_mset n = hm_mset m + {#(k, v)#}"
    using hm_mset_upd [OF parts(1) a(1), of ?e] jkey by (simp add: n_def del: upd.simps elem_of.simps)
  moreover have "hm_mset m2 = hm_mset n"
    using hm_mset_upd [OF dims(1) an, of "(elem_of n p)\<lparr>el_next := j\<rparr>"] by (simp add: m2_def del: entry_of.simps)
  ultimately show mset: "hm_mset m' = hm_mset m + {#(k, v)#}"
    by (simp add: m')
  have "hm_unique n"
    unfolding n_def using new by (intro unique_upd [OF parts(1,4) a(1)]) auto
  then have "hm_unique m2"
    unfolding m2_def by (intro unique_upd [OF dims(1) _ an]) auto
  moreover have "(\<lambda>b. p_key (elem_of n b)) = (\<lambda>b. p_key (elem_of m b))(Extra j := Some k)"
    using key_upd [of m "Extra j" ?e] addrs_range [OF parts(1) a(1)] by (simp add: n_def)
  then have keys: "(\<lambda>b. p_key (elem_of m2 b)) = (\<lambda>b. p_key (elem_of m b))(Extra j := Some k)"
    using key_upd_next [of n p] addrs_range [OF dims(1) an] by (simp add: m2_def)
  have "hm_placed cs m2 (ch(i := ch i @ [j])) fq"
  proof -
    have "j \<notin> set fq" "\<And>i'. i' < length (table m) \<Longrightarrow> j \<notin> set (ch i')" "placed cs m i k"
      using parts(2) k by (auto simp: hm_links_def placed_def)
    moreover have "keys_placed (\<lambda>a. p_key (elem_of m a)) (placed cs m) (length (table m)) ch (j # fq)"
      using parts(3) by (simp add: hm_placed_keys)
    ultimately show ?thesis
      unfolding hm_placed_keys keys using i(2)
      by (auto simp: keys_placed_def m2_def n_def split: option.splits simp del: upd.simps)
  qed
  ultimately show "hm_wf cs m' (ch(i := ch i @ [j])) fq"
    using dims(2) links(1) parts(5) mset unfolding hm_wf_def m' m2_def [symmetric] by simp
qed

text \<open>Room behind the used extra elements, and taking the first free place there.\<close>

definition grown :: "'v as_hashmap \<Rightarrow> 'v as_hashmap" where
  "grown m = (if insert_at m \<ge> extra_capacity m
     then m\<lparr>extras := extras m @ replicate (capacity_step m) zero_element,
            extra_capacity := extra_capacity m + capacity_step m\<rparr> else m)"

definition reserved :: "'v as_hashmap \<Rightarrow> 'v as_hashmap" where
  "reserved m = m\<lparr>free_q := insert_at m, insert_at := Suc (insert_at m)\<rparr>"

lemma wf_elems_cong:
  assumes "addrs m' = addrs m" and "\<And>a. a \<in> addrs m \<Longrightarrow> elem_of m' a = elem_of m a"
  shows "hm_mset m' = hm_mset m" and "hm_unique m' = hm_unique m"
  using assms by (auto simp: hm_mset_def hm_unique_def intro!: sum.cong)

lemma wf_grow:
  assumes wf: "hm_wf cs m ch fq"
  shows "hm_wf cs (grown m) ch fq" and "hm_mset (grown m) = hm_mset m"
    and "insert_at m < extra_capacity (grown m)" and "\<And>a. a \<in> addrs m \<Longrightarrow> elem_of (grown m) a = elem_of m a"
proof -
  have parts: "hm_dims m" "hm_links m ch fq" "hm_placed cs m ch fq" "hm_unique m" "hm_count m = of_nat (size (hm_mset m))"
    using wf by (auto simp: hm_wf_def)
  have len: "length (extras m) = extra_capacity m"
    using parts(1) by (simp add: hm_dims_def)
  show el: "elem_of (grown m) a = elem_of m a" if "a \<in> addrs m" for a
    using that parts(1) by (cases a) (auto simp: grown_def addrs_def hm_dims_def nth_append)
  have ad: "addrs (grown m) = addrs m"
    by (simp add: addrs_def grown_def)
  note same = wf_elems_cong [OF ad el]
  show "hm_mset (grown m) = hm_mset m" "insert_at m < extra_capacity (grown m)"
    using same(1) parts(1) by (auto simp: grown_def hm_dims_def max_def split: if_splits)
  have "hm_dims (grown m)"
    using parts(1) by (auto simp: hm_dims_def grown_def nth_append)
  moreover have "hm_links (grown m) ch fq"
    using parts(2) by (auto simp: hm_links_def hm_chains_def grown_def chain_more)
  moreover have "hm_placed cs (grown m) ch fq"
  proof -
    have "extras (grown m) ! j = extras m ! j" if "j < length (extras m)" for j
      using that by (simp add: grown_def nth_append)
    then have "extras (grown m) ! j = extras m ! j" if "j \<in> set fq \<or> (\<exists>i < length (table m). j \<in> set (ch i))" for j
      using that linked_in_range(2) [OF parts(2)] free_in_range(2) [OF parts(2)] by blast
    moreover have "table (grown m) = table m" "placed cs (grown m) = placed cs m"
      by (auto simp: grown_def placed_def hash_slot_def fun_eq_iff)
    ultimately show ?thesis
      using parts(3) unfolding hm_placed_def by (metis (no_types, lifting))
  qed
  moreover have "hm_count (grown m) = hm_count m"
    by (simp add: grown_def)
  ultimately show "hm_wf cs (grown m) ch fq"
    using parts(4,5) same by (simp add: hm_wf_def)
qed

lemma wf_reserve:
  assumes wf: "hm_wf cs m ch []" and room: "insert_at m < extra_capacity m"
  shows "hm_wf cs (reserved m) ch [insert_at m]" and "hm_mset (reserved m) = hm_mset m"
    and "extras m ! insert_at m = zero_element" and "addrs (reserved m) = insert (Extra (insert_at m)) (addrs m)"
    and "\<And>a. elem_of (reserved m) a = elem_of m a"
proof -
  have parts: "hm_dims m" "hm_links m ch []" "hm_placed cs m ch []" "hm_unique m" "hm_count m = of_nat (size (hm_mset m))"
    using wf by (auto simp: hm_wf_def)
  show zero: "extras m ! insert_at m = zero_element"
    using parts(1) room by (simp add: hm_dims_def)
  show el: "elem_of (reserved m) a = elem_of m a" for a
    by (cases a) (auto simp: reserved_def)
  show ad: "addrs (reserved m) = insert (Extra (insert_at m)) (addrs m)"
    using parts(1) by (auto simp: addrs_def reserved_def hm_dims_def)
  have none: "p_key (elem_of m (Extra (insert_at m))) = None" "Extra (insert_at m) \<notin> addrs m"
    using zero by (auto simp: zero_element_def addrs_def)
  show mset: "hm_mset (reserved m) = hm_mset m"
    using none unfolding hm_mset_def ad el by (simp del: elem_of.simps)
  have "hm_unique (reserved m)"
    using parts(4) none unfolding hm_unique_def ad el by auto
  moreover have "hm_dims (reserved m)"
    using parts(1) room by (auto simp: hm_dims_def reserved_def)
  moreover have "hm_links (reserved m) ch [insert_at m]"
  proof -
    have "(\<Union>i < length (table m). set (ch i)) = {1..<insert_at m}"
      using parts(2) by (simp add: hm_links_def)
    then have "insert_at m \<notin> (\<Union>i < length (table m). set (ch i))"
        "insert (insert_at m) (\<Union>i < length (table m). set (ch i)) = {1..<Suc (insert_at m)}"
      using parts(1) by (auto simp: hm_dims_def)
    then show ?thesis
      using parts(1,2) room zero
      by (auto simp: hm_links_def hm_chains_def reserved_def hm_dims_def zero_element_def)
  qed
  moreover have "hm_placed cs (reserved m) ch [insert_at m]"
  proof -
    have "placed cs (reserved m) = placed cs m" "length (table (reserved m)) = length (table m)"
      by (auto simp: reserved_def placed_def hash_slot_def fun_eq_iff)
    then show ?thesis
      using parts(3) none(1) unfolding hm_placed_keys el by (simp add: keys_placed_def)
  qed
  moreover have "hm_count (reserved m) = hm_count m"
    by (simp add: reserved_def)
  ultimately show "hm_wf cs (reserved m) ch [insert_at m]"
    using parts(5) mset by (simp add: hm_wf_def)
qed

lemma upd_back: "elem_at m a \<noteq> None \<Longrightarrow> upd (upd m a x) a (elem_of m a) = m"
  by (cases a) (auto simp: mem_load_def)

lemma append_elem_free:
  assumes "hm_dims m" "hm_links m ch (j # fq)" and "p \<in> addrs m" and "p \<noteq> Extra j"
  shows "append_elem ok m p k v = Some ((upd (upd m p ((elem_of m p)\<lparr>el_next := j\<rparr>)) (Extra j)
      \<lparr> p_key = Some k, p_val = v, el_next = 0 \<rparr>)\<lparr>hm_count := hm_count m + 1, free_q := el_next (extras m ! j)\<rparr>, 0)"
proof -
  have j: "free_q m = j" "0 < j" "j < length (extras m)"
    using assms(2) by (auto simp: hm_links_def)
  then have "elem_at m (Extra j) \<noteq> None" and p: "elem_at m p = Some (elem_of m p)"
    using addrs_range [OF assms(1,3)] by (auto simp: mem_load_def)
  moreover have "elem_at (upd m p ((elem_of m p)\<lparr>el_next := j\<rparr>)) (Extra j) = Some (extras m ! j)"
    using assms(4) p j by (subst elem_at_upd) (auto simp: mem_load_def)
  ultimately show ?thesis
    using j unfolding append_elem_def by (simp add: put_elem_upd del: upd.simps elem_at.simps put_elem.simps)
qed

lemma append_elem_end:
  assumes "hm_dims m" "hm_links m ch []" and "p \<in> addrs m" and "ok \<or> insert_at m < extra_capacity m"
    and g: "insert_at m < extra_capacity (grown m)" "extras (grown m) ! insert_at m = zero_element"
  defines "r \<equiv> reserved (grown m)"
  shows "append_elem ok m p k v = Some ((upd (upd r p ((elem_of m p)\<lparr>el_next := insert_at m\<rparr>)) (Extra (insert_at m))
      \<lparr> p_key = Some k, p_val = v, el_next = 0 \<rparr>)\<lparr>hm_count := hm_count m + 1, free_q := 0\<rparr>, 0)"
proof -
  let ?ia = "insert_at m"
  let ?m1 = "upd m p ((elem_of m p)\<lparr>el_next := ?ia\<rparr>)"
  let ?m2 = "if ?ia \<ge> extra_capacity m
     then ?m1\<lparr>extras := extras ?m1 @ replicate (capacity_step m) zero_element, extra_capacity := extra_capacity m + capacity_step m\<rparr>
     else ?m1"
  have fq: "free_q m = 0"
    using assms(2) by (simp add: hm_links_def)
  have p: "elem_at m p = Some (elem_of m p)" "p \<noteq> Extra ?ia"
    using addrs_range [OF assms(1,3)] assms(3) by (auto simp: addrs_def)
  have len: "length (extras m) = extra_capacity m" "length (extras (grown m)) = extra_capacity (grown m)"
    using assms(1) by (auto simp: hm_dims_def grown_def)
  have m2: "?m2 = upd (grown m) p ((elem_of m p)\<lparr>el_next := ?ia\<rparr>)"
    using p len by (cases p) (auto simp: grown_def mem_load_def list_update_append split: if_splits)
  have e: "elem_at ?m2 (Extra ?ia) = Some zero_element"
    unfolding m2 using p(2) g len(2) by (cases p) (auto simp: mem_load_def)
  have "(upd (upd r p ((elem_of m p)\<lparr>el_next := ?ia\<rparr>)) (Extra ?ia) \<lparr> p_key = Some k, p_val = v, el_next = 0 \<rparr>)
      \<lparr>hm_count := hm_count m + 1, free_q := 0\<rparr> =
    (upd ?m2 (Extra ?ia) (zero_element\<lparr>p_key := Some k, p_val := v\<rparr>))\<lparr>hm_count := hm_count m + 1, insert_at := ?ia + 1\<rparr>"
    unfolding m2 r_def using fq by (cases p) (auto simp: reserved_def zero_element_def grown_def)
  moreover have "put_elem ?m2 (Extra ?ia) (zero_element\<lparr>p_key := Some k, p_val := v\<rparr>) =
      Some (upd ?m2 (Extra ?ia) (zero_element\<lparr>p_key := Some k, p_val := v\<rparr>))"
    using e by (intro put_elem_upd) simp
  moreover have "put_elem m p ((elem_of m p)\<lparr>el_next := ?ia\<rparr>) = Some ?m1" "(?ia \<ge> extra_capacity m \<and> \<not> ok) = False"
    using p(1) assms(4) by (auto intro: put_elem_upd)
  ultimately show ?thesis
    using e unfolding append_elem_def p(1) fq by (simp only: Option.bind_lunit if_False simp_thms)
qed

lemma append_elem_fails:
  assumes "hm_dims m" "hm_links m ch []" and "p \<in> addrs m" and "insert_at m \<ge> extra_capacity m"
  shows "append_elem False m p k v = Some (m, - 1)"
proof -
  have p: "elem_at m p = Some (elem_of m p)" and "free_q m = 0"
    using addrs_range [OF assms(1,3)] assms(2) by (auto simp: hm_links_def)
  moreover have "put_elem (upd m p e) p e' = Some (upd (upd m p e) p e')" for e e'
    using p by (intro put_elem_upd addrs_upd_range) simp
  ultimately show ?thesis
    using assms(4) by (simp add: append_elem_def put_elem_upd upd_back del: upd.simps)
qed

text \<open>A new key behind a used slot: it is added, unless the elements cannot grow.\<close>

lemma append_elem_wf:
  assumes wf: "hm_wf cs m ch fq" and i: "i < length (table m)" "p_key (table m ! i) \<noteq> None"
    and k: "hashable_key k" "hash_slot cs m k = Some i"
    and new: "\<forall>a \<in> addrs m. \<forall>k'. p_key (elem_of m a) = Some k' \<longrightarrow> key_norm k' \<noteq> key_norm k"
  shows "(\<exists>m' ch' fq'. append_elem ok m (last (path i (ch i))) k v = Some (m', 0) \<and> hm_wf cs m' ch' fq' \<and>
      hm_mset m' = hm_mset m + {#(k, v)#}) \<or>
    \<not> ok \<and> append_elem ok m (last (path i (ch i))) k v = Some (m, - 1)"
proof -
  have parts: "hm_dims m" "hm_links m ch fq"
    using wf by (auto simp: hm_wf_def)
  note p = last_path_addrs [OF parts(2) i(1)]
  show ?thesis
  proof (cases fq)
    case (Cons j fq')
    have "last (path i (ch i)) \<noteq> Extra j"
      using append_free_links(2) [of m ch j fq' i zero_element] parts(2) i(1) Cons by (simp add: zero_element_def)
    then show ?thesis
      using append_elem_free [of m ch j fq', OF parts(1) _ p] wf_append_free [of cs m ch j fq' i k, OF _ i k new] wf parts Cons
      by fastforce
  next
    case Nil
    note grow = wf_grow [OF wf]
    show ?thesis
    proof (cases "ok \<or> insert_at m < extra_capacity m")
      case True
      let ?r = "reserved (grown m)"
      have ia: "insert_at (grown m) = insert_at m" "hm_count (grown m) = hm_count m" "table (grown m) = table m"
        by (auto simp: grown_def)
      have gwf: "hm_wf cs (grown m) ch []"
        using grow(1) Nil by simp
      have room: "insert_at (grown m) < extra_capacity (grown m)"
        using grow(3) ia by simp
      note res = wf_reserve [OF gwf room]
      have tab: "table ?r = table m" "\<And>k. hash_slot cs ?r k = hash_slot cs m k" "hm_count ?r = hm_count m" "extras ?r = extras (grown m)"
        by (auto simp: reserved_def grown_def hash_slot_def)
      have new': "key_norm k' \<noteq> key_norm k" if "a \<in> addrs ?r" "p_key (elem_of ?r a) = Some k'" for a k'
      proof (cases "a = Extra (insert_at m)")
        case True
        then show ?thesis
          using that(2) res(3) unfolding res(5) by (simp add: ia zero_element_def)
      next
        case False
        then have "a \<in> addrs m"
          using that(1) res(4) ia by (auto simp: addrs_def)
        then show ?thesis
          using that(2) new grow(4) res(5) by simp
      qed
      then have new_r: "\<forall>a \<in> addrs ?r. \<forall>k'. p_key (elem_of ?r a) = Some k' \<longrightarrow> key_norm k' \<noteq> key_norm k"
        by blast
      have el: "elem_of ?r (last (path i (ch i))) = elem_of m (last (path i (ch i)))"
        using res(5) grow(4) p by simp
      have nx: "el_next (extras ?r ! insert_at m) = 0"
        using res(3) by (simp add: tab ia zero_element_def)
      have "hm_wf cs ?r ch [insert_at m]"
        using res(1) by (simp add: ia)
      note app = wf_append_free [OF this, unfolded tab, OF i k new_r, unfolded el nx [unfolded tab], where v = v]
      show ?thesis
        using append_elem_end [OF parts(1) _ p True, of ch, OF _ grow(3), of k v] res(3) parts(2) Nil app
          res(2) grow(2) by (auto simp: ia)
    next
      case False
      then show ?thesis
        using append_elem_fails [of m ch, OF parts(1) _ p] parts(2) Nil by auto
    qed
  qed
qed


subsection \<open>The entries\<close>

lemma mset_concat_map: "mset (concat (map f xs)) = (\<Sum>i < length xs. mset (f (xs ! i)))"
proof (induction xs rule: rev_induct)
  case (snoc x xs)
  have "(\<Sum>i < length xs. mset (f ((xs @ [x]) ! i))) = (\<Sum>i < length xs. mset (f (xs ! i)))"
    by (intro sum.cong) (auto simp: nth_append)
  then show ?case
    using snoc by simp
qed simp

lemma mset_hm_entries:
  assumes "hm_dims m"
  shows "mset (hm_entries m) = hm_mset m"
proof -
  let ?ex = "take (insert_at m - 1) (drop 1 (extras m))"
  let ?f = "\<lambda>a. mset (entry_of (elem_of m a))"
  have len: "length ?ex = insert_at m - 1"
    using assms by (auto simp: hm_dims_def max_def split: if_splits)
  have "(\<Sum>a \<in> Extra ` {1..<insert_at m}. ?f a) = (\<Sum>j \<in> {1..<insert_at m}. ?f (Extra j))"
    by (subst sum.reindex) (auto simp: inj_on_def simp del: entry_of.simps)
  also have "\<dots> = (\<Sum>j < insert_at m - 1. ?f (Extra (Suc j)))"
    by (rule sum.reindex_bij_witness [of _ Suc "\<lambda>j. j - 1"]) auto
  also have "\<dots> = mset (concat (map entry_of ?ex))"
    unfolding mset_concat_map len using len by (intro sum.cong) (auto simp: min_def split: if_splits simp del: entry_of.simps)
  finally have "(\<Sum>a \<in> Extra ` {1..<insert_at m}. ?f a) = mset (concat (map entry_of ?ex))" .
  moreover have "(\<Sum>a \<in> Main ` {..<length (table m)}. ?f a) = mset (concat (map entry_of (table m)))"
    unfolding mset_concat_map by (subst sum.reindex) (auto simp: inj_on_def simp del: entry_of.simps)
  moreover have "hm_mset m = (\<Sum>a \<in> Main ` {..<length (table m)}. ?f a) + (\<Sum>a \<in> Extra ` {1..<insert_at m}. ?f a)"
    unfolding hm_mset_def addrs_def by (rule sum.union_disjoint) auto
  ultimately show ?thesis
    by (simp add: hm_entries_def del: entry_of.simps)
qed

lemma set_mset_sum: "finite A \<Longrightarrow> set_mset (sum f A) = (\<Union>a \<in> A. set_mset (f a))"
  by (induction rule: finite_induct) auto

lemma hm_mset_in:
  "(k, v) \<in># hm_mset m \<longleftrightarrow> (\<exists>a \<in> addrs m. p_key (elem_of m a) = Some k \<and> p_val (elem_of m a) = v)"
  unfolding hm_mset_def set_mset_sum [OF finite_addrs] by (fastforce split: option.splits)

definition without_key :: "as_val \<Rightarrow> (as_val \<times> 'v option) multiset \<Rightarrow> (as_val \<times> 'v option) multiset" where
  "without_key k es = filter_mset (\<lambda>(k', _). key_norm k' \<noteq> key_norm k) es"

lemma without_key_absent:
  assumes "\<forall>a \<in> addrs m. \<forall>k'. p_key (elem_of m a) = Some k' \<longrightarrow> key_norm k' \<noteq> key_norm k"
  shows "without_key k (hm_mset m) = hm_mset m"
proof -
  have "filter_mset (\<lambda>(k', _). key_norm k' \<noteq> key_norm k) (hm_mset m) = filter_mset (\<lambda>_. True) (hm_mset m)"
    using assms by (intro filter_mset_cong) (auto simp: hm_mset_in)
  then show ?thesis
    by (simp add: without_key_def)
qed

lemma without_key_present:
  assumes "hm_unique m" and "a \<in> addrs m" and "p_key (elem_of m a) = Some k0" and "key_norm k0 = key_norm k"
  shows "without_key k (hm_mset m) + {#(k0, p_val (elem_of m a))#} = hm_mset m"
proof -
  let ?P = "\<lambda>(k', _). key_norm k' \<noteq> key_norm k"
  let ?f = "\<lambda>b. mset (entry_of (elem_of m b))"
  have sum: "filter_mset ?P (sum f A) = sum (\<lambda>x. filter_mset ?P (f x)) A" if "finite A" for A :: "slot set" and f
    using that by induction auto
  have "filter_mset ?P (?f b) = ?f b" if "b \<in> addrs m" "b \<noteq> a" for b
    using assms that unfolding hm_unique_def by (fastforce split: option.splits)
  then have "sum (\<lambda>b. filter_mset ?P (?f b)) (addrs m - {a}) = sum ?f (addrs m - {a})"
    by (intro sum.cong) auto
  then show ?thesis
    using assms(2-4) unfolding without_key_def hm_mset_def sum [OF finite_addrs]
    by (simp add: sum.remove [of "addrs m" a])
qed

text \<open>A lookup is determined by the entries.\<close>

lemma entries_lookup_in:
  assumes "(k, v) \<in> set es" and "key_norm k = kk" and "\<And>k' v'. (k', v') \<in> set es \<Longrightarrow> key_norm k' = kk \<Longrightarrow> v' = v"
  shows "entries_lookup es kk = v"
proof -
  obtain x where x: "find (\<lambda>(k, _). key_norm k = kk) es = Some x"
    using assms(1,2) by (cases "find (\<lambda>(k, _). key_norm k = kk) es") (auto simp: find_None_iff)
  then have "x \<in> set es" "key_norm (fst x) = kk"
    by (auto simp: find_Some_iff split_beta)
  then show ?thesis
    using x assms(3) [of "fst x" "snd x"] by (auto simp: entries_lookup_def split: prod.splits)
qed

lemma entries_lookup_not_in:
  assumes "\<And>k' v'. (k', v') \<in> set es \<Longrightarrow> key_norm k' \<noteq> kk"
  shows "entries_lookup es kk = None"
proof -
  have "find (\<lambda>(k, _). key_norm k = kk) es = None"
    using assms by (auto simp: find_None_iff)
  then show ?thesis
    by (simp add: entries_lookup_def)
qed

lemma hm_lookup_in:
  assumes "hm_wf cs m ch fq" and "(k, v) \<in># hm_mset m" and "key_norm k = kk"
  shows "hm_lookup m kk = v"
proof -
  have unique: "hm_unique m" and dims: "hm_dims m"
    using assms(1) by (simp_all add: hm_wf_def)
  have same: "v' = v" if kv': "(k', v') \<in># hm_mset m" "key_norm k' = kk" for k' v'
  proof -
    obtain a where a: "a \<in> addrs m" "p_key (elem_of m a) = Some k" "p_val (elem_of m a) = v"
      using assms(2) hm_mset_in by metis
    obtain b where b: "b \<in> addrs m" "p_key (elem_of m b) = Some k'" "p_val (elem_of m b) = v'"
      using kv'(1) hm_mset_in by metis
    have "key_norm k = key_norm k'"
      using kv'(2) assms(3) by simp
    then have "a = b"
      using unique a b unfolding hm_unique_def by blast
    then show ?thesis
      using a b by simp
  qed
  have set: "set (hm_entries m) = set_mset (hm_mset m)"
    by (simp only: mset_hm_entries [OF dims, symmetric] set_mset_mset)
  show ?thesis
    unfolding hm_lookup_def by (rule entries_lookup_in [OF _ assms(3)]; unfold set; fact assms(2) same)
qed

lemma hm_lookup_not_in:
  assumes "hm_wf cs m ch fq" and "\<And>k v. (k, v) \<in># hm_mset m \<Longrightarrow> key_norm k \<noteq> kk"
  shows "hm_lookup m kk = None"
proof -
  have "hm_dims m"
    using assms(1) by (simp add: hm_wf_def)
  then have "set (hm_entries m) = set_mset (hm_mset m)"
    by (simp only: mset_hm_entries [symmetric] set_mset_mset)
  then show ?thesis
    using assms(2) unfolding hm_lookup_def by (intro entries_lookup_not_in) auto
qed


subsection \<open>Set and get\<close>

text \<open>
  A set adds its entry in place of the one with an equal key.  It can only fail when the extra elements
  have to grow and the allocation fails; the map is then unchanged.
\<close>

lemma mset_exchange: "a + x = b + y \<Longrightarrow> w + x = b \<Longrightarrow> a = w + (y :: 'e multiset)"
  by auto

lemma mset_cancel: "a + x = b \<Longrightarrow> w + x = b \<Longrightarrow> a = (w :: 'e multiset)"
  by auto

lemma set_wf:
  assumes wf: "hm_wf cs m ch fq" and k: "hashable_key k"
  shows "(\<exists>m' ch' fq'. as_hashmap_set cs ok m (Some k) v = Some (m', 0) \<and> hm_wf cs m' ch' fq' \<and>
      hm_mset m' = without_key k (hm_mset m) + {#(k, v)#}) \<or>
    \<not> ok \<and> as_hashmap_set cs ok m (Some k) v = Some (m, - 1)"
proof -
  have parts: "hm_dims m" "hm_links m ch fq" "hm_unique m"
    using wf by (auto simp: hm_wf_def)
  obtain i where i: "hash_slot cs m k = Some i" "i < length (table m)"
    using hash_slot_range [OF parts(1) k] by blast
  have e: "elem_at m (Main i) = Some (table m ! i)"
    using i(2) by (simp add: mem_load_def)
  note valid = hashable_key_valid [OF k]
  show ?thesis
  proof (cases "p_key (table m ! i) = None")
    case True
    have "\<forall>a \<in> addrs m. \<forall>k'. p_key (elem_of m a) = Some k' \<longrightarrow> key_norm k' \<noteq> key_norm k"
      using hm_search_empty [OF wf i True] by blast
    then show ?thesis
      using wf_fill [OF wf i(2) True k i(1), of v] put_elem_upd [of m "Main i"] valid i e True
      by (auto simp: as_hashmap_set_def without_key_absent simp del: upd.simps elem_at.simps put_elem.simps
          is_valid_key_type.simps)
  next
    case used: False
    have set: "as_hashmap_set cs ok m (Some k) v = (do {
          (found, a) \<leftarrow> find_slot (length (extras m)) m (Main i) k;
          if found then do {
            e \<leftarrow> elem_at m a;
            m' \<leftarrow> put_elem m a (e\<lparr>p_key := Some k, p_val := v\<rparr>);
            Some (m', 0) }
          else append_elem ok m a k v })"
      using valid i e used
      by (auto simp: as_hashmap_set_def simp del: elem_at.simps put_elem.simps is_valid_key_type.simps)
    from hm_search [OF wf k i(1) used] show ?thesis
    proof (elim disjE exE conjE)
      fix b kb
      assume b: "find_slot (length (extras m)) m (Main i) k = Some (True, b)" "b \<in> addrs m"
        "p_key (elem_of m b) = Some kb" "key_norm kb = key_norm k"
      have "as_hashmap_set cs ok m (Some k) v = Some (upd m b ((elem_of m b)\<lparr>p_key := Some k, p_val := v\<rparr>), 0)"
        using addrs_range [OF parts(1) b(2)] unfolding set b(1) by (simp add: put_elem_upd)
      moreover have "hm_mset (upd m b ((elem_of m b)\<lparr>p_key := Some k, p_val := v\<rparr>)) =
          without_key k (hm_mset m) + {#(k, v)#}"
        by (rule mset_exchange [OF wf_replace(2) [OF wf b(2-4) k] without_key_present [OF parts(3) b(2-4)]])
      ultimately show ?thesis
        using wf_replace(1) [OF wf b(2-4) k, of v] by blast
    next
      assume "find_slot (length (extras m)) m (Main i) k = Some (False, last (path i (ch i)))"
        and new: "\<forall>a \<in> addrs m. \<forall>k'. p_key (elem_of m a) = Some k' \<longrightarrow> key_norm k' \<noteq> key_norm k"
      then have "as_hashmap_set cs ok m (Some k) v = append_elem ok m (last (path i (ch i))) k v"
        unfolding set by simp
      then show ?thesis
        using append_elem_wf [OF wf i(2) used k i(1) new, of ok v] without_key_absent [OF new] by simp
    qed
  qed
qed

lemma get_wf:
  assumes wf: "hm_wf cs m ch fq" and k: "hashable_key k"
  shows "as_hashmap_get cs m (Some k) = Some (hm_lookup m (key_norm k))"
proof -
  have parts: "hm_dims m" "hm_links m ch fq" "hm_unique m"
    using wf by (auto simp: hm_wf_def)
  obtain i where i: "hash_slot cs m k = Some i" "i < length (table m)"
    using hash_slot_range [OF parts(1) k] by blast
  have e: "elem_at m (Main i) = Some (table m ! i)"
    using i(2) by (simp add: mem_load_def)
  note valid = hashable_key_valid [OF k]
  show ?thesis
  proof (cases "p_key (table m ! i) = None")
    case True
    have "hm_lookup m (key_norm k) = None"
      using hm_search_empty [OF wf i True] by (intro hm_lookup_not_in [OF wf]) (auto simp: hm_mset_in)
    then show ?thesis
      using valid i e True by (simp add: as_hashmap_get_def del: elem_at.simps is_valid_key_type.simps)
  next
    case used: False
    have get: "as_hashmap_get cs m (Some k) = (do {
          (found, a) \<leftarrow> find_slot (length (extras m)) m (Main i) k;
          if found then do { e \<leftarrow> elem_at m a; Some (p_val e) } else Some None })"
      using valid i e used by (auto simp: as_hashmap_get_def simp del: elem_at.simps is_valid_key_type.simps)
    from hm_search [OF wf k i(1) used] show ?thesis
    proof (elim disjE exE conjE)
      fix b kb
      assume b: "find_slot (length (extras m)) m (Main i) k = Some (True, b)" "b \<in> addrs m"
        "p_key (elem_of m b) = Some kb" "key_norm kb = key_norm k"
      then have "(kb, p_val (elem_of m b)) \<in># hm_mset m"
        by (auto simp: hm_mset_in)
      then show ?thesis
        using hm_lookup_in [OF wf _ b(4)] addrs_range [OF parts(1) b(2)] unfolding get b(1) by simp
    next
      assume "find_slot (length (extras m)) m (Main i) k = Some (False, last (path i (ch i)))"
        and new: "\<forall>a \<in> addrs m. \<forall>k'. p_key (elem_of m a) = Some k' \<longrightarrow> key_norm k' \<noteq> key_norm k"
      moreover from new have "hm_lookup m (key_norm k) = None"
        by (intro hm_lookup_not_in [OF wf]) (auto simp: hm_mset_in)
      ultimately show ?thesis
        unfolding get by simp
    qed
  qed
qed


subsection \<open>Remove\<close>

text \<open>Taking element \<open>j\<close> out of the chain of slot \<open>i\<close> and putting it on the free queue.\<close>

lemma UN_chain_upd:
  "i < (n :: nat) \<Longrightarrow> (\<Union>i' < n. set ((ch(i := xs)) i')) = set xs \<union> (\<Union>i' \<in> {..<n} - {i}. set (ch i'))"
  by (auto split: if_splits)

lemma UN_chain_split: "i < (n :: nat) \<Longrightarrow> (\<Union>i' < n. set (ch i')) = set (ch i) \<union> (\<Union>i' \<in> {..<n} - {i}. set (ch i'))"
  by auto

lemma unlink_links:
  assumes links: "hm_links m ch fq" and i: "i < length (table m)" and ch: "ch i = js @ j # ks"
    and E: "el_next E = el_next (extras m ! j)" and F: "el_next F = free_q m"
  defines "p \<equiv> last (path i js)"
  defines "m2 \<equiv> upd (upd m (Extra j) F) p E"
  shows "hm_links (m2\<lparr>free_q := j\<rparr>) (ch(i := js @ ks)) (j # fq)" and "p \<noteq> Extra j"
proof -
  have chains: "chain (extras m) (el_next (table m ! i')) (ch i')" "distinct (ch i')" "set (ch i') \<inter> set fq = {}"
    if "i' < length (table m)" for i'
    using links that by (auto simp: hm_links_def hm_chains_def)
  have disj: "set (ch i1) \<inter> set (ch i2) = {}" if "i1 < length (table m)" "i2 < length (table m)" "i1 \<noteq> i2" for i1 i2
    using links that by (auto simp: hm_links_def hm_chains_def)
  have j: "0 < j" "j < length (extras m)" "j \<notin> set fq"
    using linked_in_range [OF links i, of j] chains(3) [OF i] ch by auto
  have dist: "distinct (js @ j # ks)"
    using chains(2) [OF i] ch by simp
  show pj: "p \<noteq> Extra j"
    using dist by (auto simp: p_def last_path split: if_splits)
  have q: "q \<in> set js" if "p = Extra q" for q
    using that by (auto simp: p_def last_path split: if_splits)
  have other: "chain (extras m2) n xs = chain (extras m) n xs" if "set xs \<inter> set (ch i) = {}" for n xs
  proof -
    have "j \<notin> set xs" "\<And>q. p = Extra q \<Longrightarrow> q \<notin> set xs"
      using that q ch by (auto simp: disjoint_iff)
    then show ?thesis
      by (cases p) (simp_all add: m2_def)
  qed
  have "chain (extras m2) (el_next (table m2 ! i)) (js @ ks)"
  proof (cases js rule: rev_cases)
    case Nil
    then show ?thesis
      using chains(1) [OF i] ch i E dist by (simp add: m2_def p_def path_def)
  next
    case (snoc js' r)
    let ?ex = "(extras m)[j := F]"
    have p: "p = Extra r"
      using snoc by (simp add: p_def last_path)
    have "chain (extras m) (el_next (table m ! i)) (js' @ r # j # ks)"
      using chains(1) [OF i] ch snoc by simp
    then have "chain ((extras m)[r := (extras m ! r)\<lparr>el_next := el_next (extras m ! j)\<rparr>]) (el_next (table m ! i)) (js' @ r # ks)"
      using dist snoc by (intro chain_unlink) auto
    moreover have "r < length (extras m)"
      using linked_in_range(2) [OF links i, of r] ch snoc by simp
    ultimately have "chain (((extras m)[r := (extras m ! r)\<lparr>el_next := el_next (extras m ! j)\<rparr>])[r := E])
        (el_next (table m ! i)) (js' @ r # ks)"
      using E by (subst chain_same_next) auto
    then have "chain (((extras m)[r := E])[j := F]) (el_next (table m ! i)) (js' @ r # ks)"
      using dist snoc by (subst chain_other) auto
    then show ?thesis
      using snoc p dist by (simp add: m2_def list_update_swap)
  qed
  moreover have "table m2 ! i' = table m ! i'" if "i' < length (table m)" "i' \<noteq> i" for i'
    using that by (auto simp: m2_def p_def last_path)
  ultimately have "chain (extras m2) (el_next (table m2 ! i')) ((ch(i := js @ ks)) i')" if "i' < length (table m)" for i'
    using that other [of "ch i'"] disj [OF that i] chains(1) [OF that] by (cases "i' = i") auto
  moreover have "chain (extras m2) j (j # fq)"
  proof -
    have "chain (extras m) (free_q m) fq"
      using links by (simp add: hm_links_def)
    moreover have "extras m2 ! j = F"
      using pj j(2) by (cases p) (auto simp: m2_def)
    ultimately show ?thesis
      using j F other [of fq] chains(3) [OF i] by (auto simp: m2_def)
  qed
  moreover have "set (j # fq) \<union> (\<Union>i' < length (table m). set ((ch(i := js @ ks)) i')) =
      set fq \<union> (\<Union>i' < length (table m). set (ch i'))"
    unfolding UN_chain_upd [OF i] UN_chain_split [OF i] ch by auto
  moreover have "set fq \<union> (\<Union>i' < length (table m). set (ch i')) = {1..<insert_at m}"
    using links by (simp add: hm_links_def)
  moreover have "distinct ((ch(i := js @ ks)) i')" "set ((ch(i := js @ ks)) i') \<inter> set (j # fq) = {}"
    if "i' < length (table m)" for i'
    using chains(2,3) [OF that] chains(3) [OF i] dist ch disj [OF that i] by auto
  moreover have "set ((ch(i := js @ ks)) i1) \<inter> set ((ch(i := js @ ks)) i2) = {}"
    if "i1 < length (table m)" "i2 < length (table m)" "i1 \<noteq> i2" for i1 i2
    using disj [OF that] disj [OF that(1) i] disj [OF that(2) i] ch that(3) by auto
  moreover have "distinct (j # fq)"
    using j(3) links by (simp add: hm_links_def)
  ultimately show "hm_links (m2\<lparr>free_q := j\<rparr>) (ch(i := js @ ks)) (j # fq)"
    unfolding hm_links_def hm_chains_def by (simp add: m2_def del: fun_upd_apply chain.simps)
qed

definition freed :: "'v as_hashmap \<Rightarrow> 'v as_hashmap_element" where
  "freed m = \<lparr> p_key = None, p_val = None, el_next = free_q m \<rparr>"

lemma freed_simps [simp]: "p_key (freed m) = None" "el_next (freed m) = free_q m" "entry_of (freed m) = []"
  by (simp_all add: freed_def)

text \<open>What every unlinking does to the parts of the invariant that do not speak of chains.\<close>

lemma wf_unlink:
  fixes m :: "'v as_hashmap"
  assumes wf: "hm_wf cs m ch fq" and i: "i < length (table m)" and ch: "ch i = js @ j # ks"
    and E: "el_next E = el_next (extras m ! j)" "p_key E = Some ke" "placed cs m i ke"
  defines "p \<equiv> last (path i js)"
  assumes ke: "p_key (elem_of m p) = Some ke \<or> p_key (elem_of m (Extra j)) = Some ke"
  defines "m' \<equiv> (upd (upd m (Extra j) (freed m)) p E)\<lparr>hm_count := hm_count m - 1, free_q := j\<rparr>"
  shows "hm_wf cs m' (ch(i := js @ ks)) (j # fq)"
    and "hm_mset m' + mset (entry_of (elem_of m p)) + mset (entry_of (extras m ! j)) = hm_mset m + mset (entry_of E)"
proof -
  define n where "n = upd m (Extra j) (freed m)"
  have parts: "hm_dims m" "hm_links m ch fq" "hm_placed cs m ch fq" "hm_unique m" "hm_count m = of_nat (size (hm_mset m))"
    using wf by (auto simp: hm_wf_def)
  note links = unlink_links [OF parts(2) i ch E(1) freed_simps(2), folded p_def n_def]
  have "p \<in> set (path i (ch i))"
    using ch last_in_set [of "path i js"] by (auto simp: p_def path_def split: if_splits)
  then have a: "Extra j \<in> addrs m" "p \<in> addrs m"
    using hm_path_addrs [OF parts(2) i] ch by (auto simp: path_def)
  have an: "p \<in> addrs n"
    using a(2) by (simp add: n_def del: upd.simps)
  have dn: "hm_dims n"
    unfolding n_def by (rule hm_dims_upd [OF parts(1) a(1)])
  have dims: "hm_dims (upd n p E)"
    by (rule hm_dims_upd [OF dn an])
  have elp: "elem_of n p = elem_of m p"
    using links(2) addrs_range [OF parts(1) a(1)] unfolding n_def by (subst elem_of_upd) auto
  have mn: "hm_mset n + mset (entry_of (extras m ! j)) = hm_mset m"
    using hm_mset_upd [OF parts(1) a(1), of "freed m"] by (simp add: n_def del: upd.simps entry_of.simps)
  have mm: "hm_mset (upd n p E) + mset (entry_of (elem_of m p)) = hm_mset n + mset (entry_of E)"
    using hm_mset_upd [OF dn an, of E] unfolding elp .
  show mset: "hm_mset m' + mset (entry_of (elem_of m p)) + mset (entry_of (extras m ! j)) = hm_mset m + mset (entry_of E)"
    using mm unfolding m'_def n_def [symmetric] mn [symmetric] by (simp add: ac_simps del: entry_of.simps)
  have linked: "\<exists>k. p_key (extras m ! j') = Some k" if "j' \<in> set (ch i)" for j'
    using parts(3) i that unfolding hm_placed_def by blast
  have ek: "\<exists>k. p_key (elem_of m p) = Some k" "\<exists>k. p_key (extras m ! j) = Some k"
  proof -
    show "\<exists>k. p_key (extras m ! j) = Some k"
      using linked ch by simp
    have "p_key (table m ! i) \<noteq> None"
      using parts(3) i ch by (auto simp: hm_placed_def split: option.splits)
    moreover have "\<exists>k. p_key (extras m ! last js) = Some k" if "js \<noteq> []"
      using linked [of "last js"] that ch by simp
    ultimately show "\<exists>k. p_key (elem_of m p) = Some k"
      by (auto simp: p_def last_path)
  qed
  have "size (hm_mset m) = Suc (size (hm_mset m'))"
    using arg_cong [OF mset, of size] ek E(2) by auto
  then have count: "hm_count m' = of_nat (size (hm_mset m'))"
    using parts(5) by (simp add: m'_def)
  have un: "hm_unique n"
    unfolding n_def by (rule unique_upd [OF parts(1,4) a(1)]) simp
  have keys_n: "(\<lambda>b. p_key (elem_of n b)) = (\<lambda>b. p_key (elem_of m b))(Extra j := None)"
    using key_upd [of m "Extra j" "freed m"] addrs_range [OF parts(1) a(1)] by (simp add: n_def)
  have "hm_unique (upd n p E)"
  proof (rule unique_upd [OF dn un an])
    fix k assume k: "p_key E = Some k"
    show "(\<exists>k0. p_key (elem_of n p) = Some k0 \<and> key_norm k0 = key_norm k) \<or>
      (\<forall>b \<in> addrs n. \<forall>k'. p_key (elem_of n b) = Some k' \<longrightarrow> key_norm k' \<noteq> key_norm k)"
    proof (cases "p_key (elem_of m p) = Some ke")
      case True
      then show ?thesis
        using k E(2) elp by simp
    next
      case False
      then have "p_key (elem_of m (Extra j)) = Some k"
        using ke k E(2) by simp
      then have "key_norm k' \<noteq> key_norm k" if "b \<in> addrs n" "p_key (elem_of n b) = Some k'" for b k'
      proof -
        have "b \<noteq> Extra j" "p_key (elem_of m b) = Some k'" "b \<in> addrs m"
          using that fun_cong [OF keys_n, of b] by (auto simp: n_def split: if_splits simp del: upd.simps elem_of.simps)
        then show ?thesis
          using parts(4) a(1) \<open>p_key (elem_of m (Extra j)) = Some k\<close> unfolding hm_unique_def by blast
      qed
      then show ?thesis
        by blast
    qed
  qed
  moreover have keys: "(\<lambda>b. p_key (elem_of (upd n p E) b)) = (\<lambda>b. p_key (elem_of m b))(Extra j := None, p := Some ke)"
    using key_upd [of n p E] addrs_range [OF dn an] keys_n E(2) by simp
  have "hm_placed cs (upd n p E) (ch(i := js @ ks)) (j # fq)"
  proof -
    have pl: "keys_placed (\<lambda>a. p_key (elem_of m a)) (placed cs m) (length (table m)) ch fq"
      using parts(3) by (simp add: hm_placed_keys)
    have chains: "distinct (ch i)" "set (ch i) \<inter> set fq = {}"
      "\<And>i'. i' < length (table m) \<Longrightarrow> i' \<noteq> i \<Longrightarrow> set (ch i') \<inter> set (ch i) = {}"
      using parts(2) i by (auto simp: hm_links_def hm_chains_def)
    have jn: "j \<notin> set (js @ ks)" "\<And>i'. i' < length (table m) \<Longrightarrow> i' \<noteq> i \<Longrightarrow> j \<notin> set (ch i')"
      using chains unfolding ch by auto
    have pn: "q \<notin> set fq" "\<And>i'. i' < length (table m) \<Longrightarrow> i' \<noteq> i \<Longrightarrow> q \<notin> set (ch i')" if "p = Extra q" for q
    proof -
      have "q \<in> set js"
        using that by (auto simp: p_def last_path split: if_splits)
      then have "q \<in> set (ch i)"
        unfolding ch by simp
      then show "q \<notin> set fq" "\<And>i'. i' < length (table m) \<Longrightarrow> i' \<noteq> i \<Longrightarrow> q \<notin> set (ch i')"
        using chains(2,3) by blast+
    qed
    have pi: "i' = i" if "p = Main i'" for i'
      using that by (auto simp: p_def last_path split: if_splits)
    let ?key = "(\<lambda>b. p_key (elem_of m b))(Extra j := None, p := Some ke)"
    have 1: "case ?key (Main i') of None \<Rightarrow> (ch(i := js @ ks)) i' = [] | Some k \<Rightarrow> placed cs m i' k"
      if "i' < length (table m)" for i'
    proof (cases "p = Main i'")
      case True
      then show ?thesis
        using pi E(3) by simp
    next
      case False
      moreover have "p_key (table m ! i) \<noteq> None"
        using pl i ch by (auto simp: keys_placed_def split: option.splits)
      ultimately show ?thesis
        using pl that by (auto simp: keys_placed_def split: option.splits)
    qed
    have 2: "\<exists>k. ?key (Extra j') = Some k \<and> placed cs m i' k"
      if "i' < length (table m)" "j' \<in> set ((ch(i := js @ ks)) i')" for i' j'
    proof (cases "p = Extra j'")
      case True
      then have "i' = i"
        using pn(2) [OF True that(1)] that(2) by (auto split: if_splits)
      then show ?thesis
        using True E(3) by simp
    next
      case False
      moreover have "j' \<noteq> j" "j' \<in> set (ch i')"
        using that jn ch by (auto split: if_splits)
      ultimately show ?thesis
        using pl that(1) by (simp add: keys_placed_def)
    qed
    have 3: "?key (Extra j') = None" if "j' \<in> set (j # fq)" for j'
      using pl that pn(1) [of j'] links(2) by (auto simp: keys_placed_def)
    have same: "placed cs (upd n p E) = placed cs m" "length (table (upd n p E)) = length (table m)"
      by (simp_all add: n_def del: upd.simps)
    show ?thesis
      unfolding hm_placed_keys keys keys_placed_def same using 1 2 3 by blast
  qed
  ultimately show "hm_wf cs m' (ch(i := js @ ks)) (j # fq)"
    using dims links(1) count unfolding hm_wf_def m'_def n_def [symmetric] by simp
qed

text \<open>The walk that removes a key behind the main slot.\<close>

lemma remove_from_path:
  assumes wf: "hm_wf cs m ch fq" and i: "i < length (table m)" and k: "hashable_key k"
  shows "ch i = js @ rest \<Longrightarrow> length rest \<le> fuel \<Longrightarrow>
    (\<exists>ps j ks kj. ch i = ps @ j # ks \<and> p_key (extras m ! j) = Some kj \<and> key_norm kj = key_norm k \<and>
      remove_from fuel m (last (path i js)) k =
        Some ((upd (upd m (Extra j) (freed m)) (last (path i ps)) ((elem_of m (last (path i ps)))\<lparr>el_next := el_next (extras m ! j)\<rparr>))
          \<lparr>hm_count := hm_count m - 1, free_q := j\<rparr>, 0)) \<or>
    remove_from fuel m (last (path i js)) k = Some (m, 0) \<and>
      (\<forall>j \<in> set rest. \<forall>k'. p_key (extras m ! j) = Some k' \<longrightarrow> key_norm k' \<noteq> key_norm k)"
proof (induction rest arbitrary: js fuel)
  case Nil
  have parts: "hm_dims m" "hm_links m ch fq"
    using wf by (auto simp: hm_wf_def)
  have "chain (extras m) (el_next (table m ! i)) js"
    using parts(2) i Nil(1) by (auto simp: hm_links_def hm_chains_def)
  then have "el_next (elem_of m (last (path i js))) = 0"
    using chain_last [of "extras m" "el_next (table m ! i)" js] by (auto simp: last_path)
  then show ?case
    using last_path_addrs [OF parts(2) i] addrs_range [OF parts(1)] Nil(1)
    by (subst (2) remove_from.simps) auto
next
  case (Cons j rest)
  have parts: "hm_dims m" "hm_links m ch fq" "hm_placed cs m ch fq"
    using wf by (auto simp: hm_wf_def)
  let ?p = "last (path i js)"
  have "?p \<in> set (path i (ch i))"
    using Cons(2) last_in_set [of js] by (cases "js = []") (auto simp: path_def last_map)
  then have p: "elem_at m ?p = Some (elem_of m ?p)"
    using hm_path_addrs [OF parts(2) i] addrs_range [OF parts(1)] by blast
  have "chain (extras m) (el_next (table m ! i)) (js @ j # rest)"
    using parts(2) i unfolding Cons(2) [symmetric] hm_links_def hm_chains_def by blast
  then have nx: "el_next (elem_of m ?p) = j" "0 < j"
    using chain_next [of "extras m" "el_next (table m ! i)" js j rest] by (auto simp: last_path)
  have "j \<in> set (ch i)"
    using Cons(2) by simp
  then obtain kj where kj: "p_key (extras m ! j) = Some kj" "hashable_key kj"
    using parts(3) i unfolding hm_placed_def placed_def by blast
  have j: "elem_at m (Extra j) = Some (extras m ! j)"
    using linked_in_range(2) [OF parts(2) i, of j] Cons(2) by (simp add: mem_load_def)
  obtain fuel' where fuel: "fuel = Suc fuel'"
    using Cons(3) by (cases fuel) auto
  have eq: "eq_val kj k \<longleftrightarrow> key_norm kj = key_norm k"
    by (rule eq_val_iff [OF hashable_key_valid [OF kj(2)] hashable_key_valid [OF k]])
  show ?case
  proof (cases "key_norm kj = key_norm k")
    case True
    have pj: "?p \<noteq> Extra j"
      using unlink_links(2) [OF parts(2) i Cons(2) refl freed_simps(2)] .
    let ?E = "(elem_of m ?p)\<lparr>el_next := el_next (extras m ! j)\<rparr>"
    have "put_elem (upd m ?p ?E) (Extra j) (freed m) = Some (upd (upd m ?p ?E) (Extra j) (freed m))"
      using j by (intro put_elem_upd addrs_upd_range) simp
    then have "remove_from fuel m ?p k =
      Some ((upd (upd m ?p ?E) (Extra j) (freed m))\<lparr>hm_count := hm_count m - 1, free_q := j\<rparr>, 0)"
      using True eq kj p j nx put_elem_upd [of m ?p]
      by (subst remove_from.simps) (simp add: freed_def [symmetric] del: upd.simps elem_at.simps put_elem.simps elem_of.simps)
    then show ?thesis
      using Cons(2) kj(1) True unfolding upd_swap [OF pj] by blast
  next
    case False
    have step: "remove_from fuel m ?p k = remove_from fuel' m (Extra j) k"
      using False eq kj p j nx fuel
      by (subst remove_from.simps) (simp del: elem_at.simps elem_of.simps)
    have "Extra j = last (path i (js @ [j]))"
      by (simp add: last_path)
    then show ?thesis
      using Cons(1) [of "js @ [j]" fuel'] Cons(2,3) fuel step kj(1) False by auto
  qed
qed

text \<open>Emptying a main slot that has no chain.\<close>

lemma wf_empty_slot:
  assumes wf: "hm_wf cs m ch fq" and i: "i < length (table m)" "p_key (table m ! i) = Some k0" "el_next (table m ! i) = 0"
  defines "m' \<equiv> (upd m (Main i) ((table m ! i)\<lparr>p_key := None, p_val := None\<rparr>))\<lparr>hm_count := hm_count m - 1\<rparr>"
  shows "hm_wf cs m' ch fq" and "hm_mset m' + {#(k0, p_val (table m ! i))#} = hm_mset m"
proof -
  let ?e = "(table m ! i)\<lparr>p_key := None, p_val := None\<rparr>"
  have parts: "hm_dims m" "hm_links m ch fq" "hm_placed cs m ch fq" "hm_unique m" "hm_count m = of_nat (size (hm_mset m))"
    using wf by (auto simp: hm_wf_def)
  have a: "Main i \<in> addrs m"
    using i(1) by (simp add: addrs_def)
  have nil: "ch i = []"
    using parts(2) i(1,3) by (cases "ch i") (auto simp: hm_links_def hm_chains_def)
  show mset: "hm_mset m' + {#(k0, p_val (table m ! i))#} = hm_mset m"
    using hm_mset_upd [OF parts(1) a, of ?e] i(2) by (simp add: m'_def del: upd.simps)
  have "size (hm_mset m) = Suc (size (hm_mset m'))"
    unfolding mset [symmetric] by simp
  then have "hm_count m' = of_nat (size (hm_mset m'))"
    using parts(5) by (simp add: m'_def)
  moreover have "hm_placed cs (upd m (Main i) ?e) ch fq"
    using parts(3) i nil by (auto simp: hm_placed_def nth_list_update placed_def hash_slot_def split: option.splits)
  moreover have "hm_unique (upd m (Main i) ?e)"
    by (rule unique_upd [OF parts(1,4) a]) simp
  moreover have "hm_dims (upd m (Main i) ?e)" "hm_links (upd m (Main i) ?e) ch fq"
    using hm_dims_upd [OF parts(1) a] links_same_next [OF parts(2), of ?e "Main i"] by (auto simp del: upd.simps)
  ultimately show "hm_wf cs m' ch fq"
    by (simp add: hm_wf_def m'_def del: upd.simps)
qed

text \<open>Removing the key of a main slot that has a chain: the first chained element moves up.\<close>

lemma wf_move_up:
  assumes wf: "hm_wf cs m ch fq" and i: "i < length (table m)" "p_key (table m ! i) = Some k0" and ch: "ch i = j # ks"
  defines "m' \<equiv> (upd (upd m (Main i) (extras m ! j)) (Extra j) (freed m))\<lparr>hm_count := hm_count m - 1, free_q := j\<rparr>"
  shows "hm_wf cs m' (ch(i := ks)) (j # fq)" and "hm_mset m' + {#(k0, p_val (table m ! i))#} = hm_mset m"
proof -
  have pl: "hm_placed cs m ch fq"
    using wf by (simp add: hm_wf_def)
  have "j \<in> set (ch i)"
    using ch by simp
  then obtain kj where kj: "p_key (extras m ! j) = Some kj" "placed cs m i kj"
    using pl i(1) unfolding hm_placed_def by blast
  have ke: "p_key (elem_of m (last (path i []))) = Some kj \<or> p_key (elem_of m (Extra j)) = Some kj"
    using kj by simp
  have "ch i = [] @ j # ks"
    using ch by simp
  note un = wf_unlink [OF wf i(1) this refl kj ke]
  have m': "m' = (upd (upd m (Extra j) (freed m)) (last (path i [])) (extras m ! j))\<lparr>hm_count := hm_count m - 1, free_q := j\<rparr>"
    by (simp add: m'_def last_path)
  show "hm_wf cs m' (ch(i := ks)) (j # fq)"
    using un(1) unfolding m' by simp
  show "hm_mset m' + {#(k0, p_val (table m ! i))#} = hm_mset m"
    using un(2) i(2) unfolding m' by (simp add: last_path)
qed

text \<open>Removing a key from the chain behind a main slot that holds another key.\<close>

lemma remove_from_wf:
  assumes wf: "hm_wf cs m ch fq" and k: "hashable_key k" and i: "hash_slot cs m k = Some i" "i < length (table m)"
    and k0: "p_key (table m ! i) = Some k0" "key_norm k0 \<noteq> key_norm k"
  shows "\<exists>m' ch' fq'. remove_from (length (extras m)) m (last (path i [])) k = Some (m', 0) \<and> hm_wf cs m' ch' fq' \<and>
    hm_mset m' = without_key k (hm_mset m)"
proof -
  have parts: "hm_dims m" "hm_links m ch fq" "hm_unique m" "hm_placed cs m ch fq"
    using wf by (auto simp: hm_wf_def)
  have tab: "placed cs m i k0"
    using parts(4) i(2) k0(1) by (auto simp: hm_placed_def split: option.splits)
  have linked: "\<exists>kp. p_key (extras m ! j) = Some kp \<and> placed cs m i kp" if "j \<in> set (ch i)" for j
    using parts(4) i(2) that unfolding hm_placed_def by blast
  show ?thesis
    using remove_from_path [OF wf i(2) k append_Nil [symmetric] chain_length [OF parts(1,2) i(2)]]
  proof (elim disjE exE conjE)
    fix ps j ks kj
    let ?p = "last (path i ps)"
    let ?E = "(elem_of m ?p)\<lparr>el_next := el_next (extras m ! j)\<rparr>"
    let ?m = "(upd (upd m (Extra j) (freed m)) ?p ?E)\<lparr>hm_count := hm_count m - 1, free_q := j\<rparr>"
    assume *: "ch i = ps @ j # ks" "p_key (extras m ! j) = Some kj" "key_norm kj = key_norm k"
      "remove_from (length (extras m)) m (last (path i [])) k = Some (?m, 0)"
    have "\<exists>kp. p_key (elem_of m ?p) = Some kp \<and> placed cs m i kp"
      using tab k0(1) linked [of "last ps"] *(1) by (cases "ps = []") (auto simp: last_path)
    then obtain kp where kp: "p_key (elem_of m ?p) = Some kp" "placed cs m i kp"
      by blast
    then have E: "p_key ?E = Some kp" "el_next ?E = el_next (extras m ! j)"
      by simp_all
    note un = wf_unlink [OF wf i(2) *(1) E(2,1) kp(2) disjI1 [OF kp(1)]]
    have "Extra j \<in> addrs m"
      using hm_path_addrs [OF parts(2) i(2)] *(1) by (auto simp: path_def)
    then have "without_key k (hm_mset m) + mset (entry_of (extras m ! j)) = hm_mset m"
      using without_key_present [OF parts(3), of "Extra j" kj k] *(2,3) by simp
    moreover have "hm_mset ?m + mset (entry_of (extras m ! j)) = hm_mset m"
      using un(2) unfolding entry_of_next by (simp del: upd.simps entry_of.simps)
    ultimately have "hm_mset ?m = without_key k (hm_mset m)"
      by (rule mset_cancel [rotated])
    then show ?thesis
      using *(4) un(1) by blast
  next
    assume *: "remove_from (length (extras m)) m (last (path i [])) k = Some (m, 0)"
      "\<forall>j \<in> set (ch i). \<forall>k'. p_key (extras m ! j) = Some k' \<longrightarrow> key_norm k' \<noteq> key_norm k"
    have "key_norm k' \<noteq> key_norm k" if "a \<in> addrs m" "p_key (elem_of m a) = Some k'" for a k'
      using entry_on_path [OF parts(1,2,4) that _ i(1)] that(2) *(2) k0 by (auto simp: path_def)
    then have "without_key k (hm_mset m) = hm_mset m"
      by (intro without_key_absent) blast
    then show ?thesis
      using *(1) wf by auto
  qed
qed

lemma remove_wf:
  assumes wf: "hm_wf cs m ch fq" and k: "hashable_key k"
  shows "\<exists>m' ch' fq'. as_hashmap_remove cs m (Some k) = Some (m', 0) \<and> hm_wf cs m' ch' fq' \<and>
    hm_mset m' = without_key k (hm_mset m)"
proof -
  have parts: "hm_dims m" "hm_links m ch fq" "hm_unique m" "hm_placed cs m ch fq"
    using wf by (auto simp: hm_wf_def)
  obtain i where i: "hash_slot cs m k = Some i" "i < length (table m)"
    using hash_slot_range [OF parts(1) k] by blast
  have e: "elem_at m (Main i) = Some (table m ! i)" "Main i \<in> addrs m"
    using i(2) by (auto simp: mem_load_def addrs_def)
  note valid = hashable_key_valid [OF k]
  show ?thesis
  proof (cases "p_key (table m ! i)")
    case None
    have "without_key k (hm_mset m) = hm_mset m"
      using hm_search_empty [OF wf i None] by (intro without_key_absent) blast
    then show ?thesis
      using wf valid i e(1) None
      by (intro exI [of _ m] exI [of _ ch] exI [of _ fq])
        (simp add: as_hashmap_remove_def del: elem_at.simps is_valid_key_type.simps)
  next
    case (Some k0)
    have k0: "hashable_key k0"
      using parts(4) i(2) Some by (auto simp: hm_placed_def placed_def split: option.splits)
    have eq: "eq_val k0 k \<longleftrightarrow> key_norm k0 = key_norm k"
      by (rule eq_val_iff [OF hashable_key_valid [OF k0] valid])
    have chn: "chain (extras m) (el_next (table m ! i)) (ch i)"
      using parts(2) i(2) by (simp add: hm_links_def hm_chains_def)
    have cut: "M = without_key k (hm_mset m)" if "M + {#(k0, p_val (table m ! i))#} = hm_mset m" "key_norm k0 = key_norm k" for M
      by (rule mset_cancel [OF that(1)]) (use without_key_present [OF parts(3) e(2), of k0 k] Some that(2) in simp)
    show ?thesis
    proof (cases "key_norm k0 = key_norm k")
      case True
      show ?thesis
      proof (cases "ch i")
        case Nil
        then have nx: "el_next (table m ! i) = 0"
          using chn by simp
        note es = wf_empty_slot [OF wf i(2) Some nx]
        have "as_hashmap_remove cs m (Some k) = Some ((upd m (Main i) ((table m ! i)\<lparr>p_key := None, p_val := None\<rparr>))\<lparr>hm_count := hm_count m - 1\<rparr>, 0)"
          using valid i(1) e(1) Some eq True nx put_elem_upd [of m "Main i"]
          by (simp add: as_hashmap_remove_def del: elem_at.simps put_elem.simps upd.simps is_valid_key_type.simps)
        then show ?thesis
          using es(1) cut [OF es(2) True] by blast
      next
        case (Cons j ks)
        then have nx: "el_next (table m ! i) = j" "0 < j" "elem_at m (Extra j) = Some (extras m ! j)"
          using chn by (auto simp: mem_load_def)
        note mu = wf_move_up [OF wf i(2) Some Cons]
        have "put_elem (upd m (Main i) (extras m ! j)) (Extra j) (freed m) =
            Some (upd (upd m (Main i) (extras m ! j)) (Extra j) (freed m))"
          using nx(3) by (intro put_elem_upd addrs_upd_range) simp
        then have "as_hashmap_remove cs m (Some k) =
            Some ((upd (upd m (Main i) (extras m ! j)) (Extra j) (freed m))\<lparr>hm_count := hm_count m - 1, free_q := j\<rparr>, 0)"
          using valid i(1) e(1) Some eq True nx put_elem_upd [of m "Main i"]
          by (simp add: as_hashmap_remove_def freed_def [symmetric] del: elem_at.simps put_elem.simps upd.simps is_valid_key_type.simps)
        then show ?thesis
          using mu(1) cut [OF mu(2) True] by blast
      qed
    next
      case False
      have rm: "as_hashmap_remove cs m (Some k) = remove_from (length (extras m)) m (last (path i [])) k"
        using valid i(1) e(1) Some eq False
        by (simp add: as_hashmap_remove_def last_path del: elem_at.simps is_valid_key_type.simps)
      show ?thesis
        unfolding rm by (rule remove_from_wf [OF wf k i Some False])
    qed
  qed
qed


subsection \<open>Fresh and cleared maps\<close>

definition hm_blank :: "'v as_hashmap \<Rightarrow> bool" where
  "hm_blank m \<longleftrightarrow> 0 < table_capacity m \<and> length (table m) = unat (table_capacity m) \<and>
     (\<forall>e \<in> set (table m). p_key e = None \<and> el_next e = 0) \<and> extras m = [] \<and> extra_capacity m = 0 \<and> 2 \<le> capacity_step m \<and> insert_at m = 1 \<and> free_q m = 0 \<and> hm_count m = 0"

lemma blank_wf:
  assumes "hm_blank m"
  shows "hm_wf cs m (\<lambda>_. []) []" and "hm_mset m = {#}"
proof -
  have key: "p_key (elem_of m a) = None" if "a \<in> addrs m" for a
    using assms that by (auto simp: hm_blank_def addrs_def)
  then show mset: "hm_mset m = {#}"
    unfolding hm_mset_def by (intro sum.neutral) auto
  have "hm_unique m"
    using key by (simp add: hm_unique_def)
  then show "hm_wf cs m (\<lambda>_. []) []"
    using assms mset by (auto simp: hm_wf_def hm_dims_def hm_links_def hm_chains_def hm_placed_def hm_blank_def)
qed

lemma cons_blank:
  assumes "as_hashmap_cons True capacity = Some m"
  shows "hm_blank m" and "table_capacity m = (if capacity > 1 then capacity else 1)"
  using assms by (auto simp: as_hashmap_cons_def hm_blank_def Let_def word_gt_0 zero_element_def split: if_splits)

lemma used_extras_wf:
  assumes "hm_dims m"
  shows "used_extras m = Some (take (insert_at m - 1) (drop 1 (extras m)))"
  using assms by (auto simp: used_extras_def mem_read_def hm_dims_def max_def split: if_splits)

lemma clear_wf:
  assumes wf: "hm_wf cs m ch fq"
  shows "\<exists>m'. as_hashmap_clear m = Some (m', 0) \<and> hm_blank m' \<and> table_capacity m' = table_capacity m"
proof -
  have dims: "hm_dims m"
    using wf by (simp add: hm_wf_def)
  have "el_next (table m ! i) = 0" if "i < length (table m)" "p_key (table m ! i) = None" for i
  proof -
    have "ch i = []"
      using wf that by (auto simp: hm_wf_def hm_placed_def split: option.splits)
    then show ?thesis
      using wf that(1) by (auto simp: hm_wf_def hm_links_def hm_chains_def)
  qed
  then have "\<forall>e \<in> set (table m). p_key e = None \<longrightarrow> el_next e = 0"
    by (auto simp: in_set_conv_nth)
  then show ?thesis
    using dims used_extras_wf [OF dims] by (auto simp: as_hashmap_clear_def hm_blank_def hm_dims_def zero_element_def)
qed

lemma foreach_wf:
  assumes "hm_dims m"
  shows "as_hashmap_foreach m cb s = Some (walk cb (hm_entries m) s)"
  using used_extras_wf [OF assms] by (simp add: as_hashmap_foreach_def hm_entries_def)


subsection \<open>The map as a keyed table\<close>

lemma lookup_after_set:
  assumes wf: "hm_wf cs m ch fq" "hm_wf cs m' ch' fq'" and mset: "hm_mset m' = without_key k (hm_mset m) + {#(k, v)#}"
  shows "hm_lookup m' = (hm_lookup m)(key_norm k := v)"
proof
  fix kk
  show "hm_lookup m' kk = ((hm_lookup m)(key_norm k := v)) kk"
  proof (cases "kk = key_norm k")
    case True
    then show ?thesis
      using hm_lookup_in [OF wf(2), of k v] mset by simp
  next
    case False
    then have same: "(k', v') \<in># hm_mset m' \<longleftrightarrow> (k', v') \<in># hm_mset m" if "key_norm k' = kk" for k' v'
      using that mset by (auto simp: without_key_def)
    show ?thesis
    proof (cases "\<exists>k' v'. (k', v') \<in># hm_mset m \<and> key_norm k' = kk")
      case True
      then show ?thesis
        using hm_lookup_in [OF wf(1)] hm_lookup_in [OF wf(2)] same False by fastforce
    next
      case none: False
      have "hm_lookup m kk = None"
        using none by (intro hm_lookup_not_in [OF wf(1)]) blast
      moreover have "hm_lookup m' kk = None"
        using none same by (intro hm_lookup_not_in [OF wf(2)]) blast
      ultimately show ?thesis
        using False by simp
    qed
  qed
qed

lemma lookup_after_remove:
  assumes wf: "hm_wf cs m ch fq" "hm_wf cs m' ch' fq'" and mset: "hm_mset m' = without_key k (hm_mset m)"
  shows "hm_lookup m' = (hm_lookup m)(key_norm k := None)"
proof
  fix kk
  have same: "(k', v') \<in># hm_mset m' \<longleftrightarrow> (k', v') \<in># hm_mset m \<and> kk \<noteq> key_norm k" if "key_norm k' = kk" for k' v'
    using that mset by (auto simp: without_key_def)
  show "hm_lookup m' kk = ((hm_lookup m)(key_norm k := None)) kk"
  proof (cases "\<exists>k' v'. (k', v') \<in># hm_mset m' \<and> key_norm k' = kk")
    case True
    then show ?thesis
      using hm_lookup_in [OF wf(1)] hm_lookup_in [OF wf(2)] same by fastforce
  next
    case none: False
    then have "hm_lookup m' kk = None"
      by (intro hm_lookup_not_in [OF wf(2)]) blast
    moreover have "hm_lookup m kk = None" if "kk \<noteq> key_norm k"
      using none same that by (intro hm_lookup_not_in [OF wf(1)]) blast
    ultimately show ?thesis
      by simp
  qed
qed

lemma image_mset_sum: "finite A \<Longrightarrow> image_mset f (sum g A) = (\<Sum>a \<in> A. image_mset f (g a))"
  by (induction rule: finite_induct) auto

lemma distinct_entries:
  assumes wf: "hm_wf cs m ch fq"
  shows "distinct (map (key_norm \<circ> fst) (hm_entries m))"
proof -
  have parts: "hm_dims m" "hm_unique m"
    using wf by (auto simp: hm_wf_def)
  have keys: "mset (map (key_norm \<circ> fst) (hm_entries m)) =
      (\<Sum>a \<in> addrs m. case p_key (elem_of m a) of None \<Rightarrow> {#} | Some k \<Rightarrow> {#key_norm k#})"
    unfolding mset_map mset_hm_entries [OF parts(1)] hm_mset_def image_mset_sum [OF finite_addrs]
    by (intro sum.cong refl) (simp split: option.split)
  have "count (mset (map (key_norm \<circ> fst) (hm_entries m))) kk \<le> 1" for kk
  proof -
    let ?A = "{a \<in> addrs m. \<exists>k. p_key (elem_of m a) = Some k \<and> key_norm k = kk}"
    have "count (mset (map (key_norm \<circ> fst) (hm_entries m))) kk = (\<Sum>a \<in> addrs m. if a \<in> ?A then 1 else 0)"
      unfolding keys count_sum by (intro sum.cong refl) (auto split: option.split)
    also have "\<dots> = card ?A"
      by (subst sum.inter_filter [symmetric]) (auto intro: arg_cong [of _ _ card])
    also have "card ?A \<le> 1"
      using parts(2) unfolding One_nat_def by (subst card_le_Suc0_iff_eq) (auto simp: hm_unique_def)
    finally show ?thesis .
  qed
  then have "count (mset (map (key_norm \<circ> fst) (hm_entries m))) kk =
      (if kk \<in> set (map (key_norm \<circ> fst) (hm_entries m)) then 1 else 0)" for kk
    by (metis One_nat_def count_greater_zero_iff count_inI le_antisym Suc_leI set_mset_mset)
  then show ?thesis
    unfolding distinct_count_atmost_1 by blast
qed

text \<open>The calls of a client with a value that is not null and memory to spare.\<close>

definition hm_put :: "bool \<Rightarrow> 'v as_hashmap \<Rightarrow> as_val \<Rightarrow> 'v \<Rightarrow> 'v as_hashmap option" where
  "hm_put cs m k v = do { (m, rc) \<leftarrow> as_hashmap_set cs True m (Some k) (Some v); if rc = 0 then Some m else None }"

definition hm_get :: "bool \<Rightarrow> 'v as_hashmap \<Rightarrow> as_val \<Rightarrow> 'v option option" where
  "hm_get cs m k = as_hashmap_get cs m (Some k)"

definition hm_remove :: "bool \<Rightarrow> 'v as_hashmap \<Rightarrow> as_val \<Rightarrow> 'v as_hashmap option" where
  "hm_remove cs m k = do { (m, rc) \<leftarrow> as_hashmap_remove cs m (Some k); if rc = 0 then Some m else None }"

interpretation hm: kv_table "hm_inv cs" hashable_key hm_lookup key_norm "hm_put cs" "hm_get cs" "hm_remove cs" for cs
proof unfold_locales
  fix m :: "'a as_hashmap" and k v
  assume "hm_inv cs m" and k: "hashable_key k"
  then obtain ch fq where wf: "hm_wf cs m ch fq"
    by (auto simp: hm_inv_def)
  show "\<exists>m'. hm_put cs m k v = Some m' \<and> hm_inv cs m' \<and> hm_lookup m' = (hm_lookup m)(key_norm k \<mapsto> v)"
    using set_wf [OF wf k, of True "Some v"] lookup_after_set [OF wf] by (fastforce simp: hm_put_def hm_inv_def)
  show "hm_get cs m k = Some (hm_lookup m (key_norm k))"
    unfolding hm_get_def by (rule get_wf [OF wf k])
  show "\<exists>m'. hm_remove cs m k = Some m' \<and> hm_inv cs m' \<and> hm_lookup m' = (hm_lookup m)(key_norm k := None)"
    using remove_wf [OF wf k] lookup_after_remove [OF wf] by (fastforce simp: hm_remove_def hm_inv_def)
qed


subsection \<open>Properties\<close>


text \<open>Four keys, three of which fall into the only slot of a map of capacity one behind the first.\<close>

definition some_table_calls :: "(as_val, int) table_call list" where
  "some_table_calls =
     [Put (AsInteger 1) 10, Put (AsString [97]) 20, Put AsNil 30, Put (AsBytes 4 [7, 8]) 40,
      Remove (AsString [97]), Put (AsBytes 9 [7, 8]) 50, Get (AsBytes 4 [7, 8]), Get (AsString [97]), Get AsNil]"


text \<open>
  What a walk visits: setting a key replaces the entry with an equal key, or adds one; removing a key
  deletes its entry; no two entries visited have equal keys, and the reported size is their number modulo
  the width of the counter.  When a set has to grow the extra elements and cannot, it answers -1 and the
  map is as before; keys of other types are refused without a change.
\<close>

theorem hashmap_entries:
  assumes "hm_inv sc m" and "hashable_key k"
  shows "(\<exists>m' rc. as_hashmap_set sc ok m (Some k) v = Some (m', rc) \<and> hm_inv sc m' \<and>
      (rc = 0 \<and> mset (hm_entries m') = without_key k (mset (hm_entries m)) + {#(k, v)#} \<or>
       rc = - 1 \<and> \<not> ok \<and> m' = m)) \<and>
    (\<exists>m'. as_hashmap_remove sc m (Some k) = Some (m', 0) \<and> hm_inv sc m' \<and>
      mset (hm_entries m') = without_key k (mset (hm_entries m))) \<and>
    as_hashmap_foreach m cb s = Some (walk cb (hm_entries m) s) \<and>
    as_hashmap_size m = of_nat (length (hm_entries m)) \<and> distinct (map (key_norm \<circ> fst) (hm_entries m)) \<and>
    (\<forall>key. \<not> is_valid_key_type key \<longrightarrow> as_hashmap_set sc ok m key v = Some (m, - 1))"
proof -
  obtain ch fq where wf: "hm_wf sc m ch fq"
    using assms(1) by (auto simp: hm_inv_def)
  have dims: "hm_dims m'" if "hm_wf sc m' ch fq" for m' :: "'a as_hashmap" and ch fq
    using that by (simp add: hm_wf_def)
  note entries = mset_hm_entries [OF dims]
  have size: "hm_count m = of_nat (length (hm_entries m))"
    using wf entries [OF wf] by (metis hm_wf_def size_mset)
  have "(\<exists>m' rc. as_hashmap_set sc ok m (Some k) v = Some (m', rc) \<and> hm_inv sc m' \<and>
      (rc = 0 \<and> mset (hm_entries m') = without_key k (mset (hm_entries m)) + {#(k, v)#} \<or>
       rc = - 1 \<and> \<not> ok \<and> m' = m))"
    using set_wf [OF wf assms(2), of ok v] entries [OF wf] entries assms(1) by (fastforce simp: hm_inv_def)
  moreover have "\<exists>m'. as_hashmap_remove sc m (Some k) = Some (m', 0) \<and> hm_inv sc m' \<and>
      mset (hm_entries m') = without_key k (mset (hm_entries m))"
    using remove_wf [OF wf assms(2)] entries [OF wf] entries by (fastforce simp: hm_inv_def)
  moreover have "distinct (map (key_norm \<circ> fst) (hm_entries m))"
    using distinct_entries [OF wf] .
  ultimately show ?thesis
    using foreach_wf [OF dims [OF wf]] size by (simp add: as_hashmap_size_def as_hashmap_set_def del: is_valid_key_type.simps)
qed

definition fresh_map :: "int as_hashmap" where
  "fresh_map = the (as_hashmap_new True True 1)"

lemma fresh_map_wf: "hm_inv sc fresh_map" "hm_entries fresh_map = []" "as_hashmap_new True True 1 = Some fresh_map"
proof -
  have new: "as_hashmap_cons True 1 = Some fresh_map"
    by (simp add: fresh_map_def as_hashmap_new_def as_hashmap_cons_def Let_def)
  note blank = blank_wf [OF cons_blank(1) [OF new]]
  show "hm_inv sc fresh_map"
    using blank(1) by (auto simp: hm_inv_def)
  show "hm_entries fresh_map = []"
    using blank mset_hm_entries [of fresh_map] by (metis hm_wf_def mset_zero_iff)
  show "as_hashmap_new True True 1 = Some fresh_map"
    using new by (simp add: as_hashmap_new_def)
qed

theorem hashmap_entries_witness:
  "\<exists>m' rc. as_hashmap_set True True fresh_map (Some (AsString [97])) (Some 20) = Some (m', rc) \<and> hm_inv True m' \<and>
     rc = 0 \<and> mset (hm_entries m') = {#(AsString [97], Some 20)#}"
  using hashmap_entries [OF fresh_map_wf(1), of "AsString [97]" True True "Some 20" "\<lambda>_ s. (True, s)" "()"]
  by (auto simp: fresh_map_wf(2) without_key_def)

text \<open>
  Clearing a map succeeds, destroys every entry and leaves a map of the same table capacity that again
  behaves as an empty finite map.
\<close>

theorem hashmap_clear:
  assumes "hm_inv sc m" and "list_all (\<lambda>c. hashable_key (call_key c)) cs"
  shows "\<exists>m'. as_hashmap_clear m = Some (m', 0) \<and> as_hashmap_size m' = 0 \<and> hm_entries m' = [] \<and>
    table_capacity m' = table_capacity m \<and>
    (\<exists>m''. run_table (hm_put sc) (hm_get sc) (hm_remove sc) m' cs = Some (fst (map_calls key_norm Map.empty cs), m''))"
proof -
  obtain ch fq where "hm_wf sc m ch fq"
    using assms(1) by (auto simp: hm_inv_def)
  from clear_wf [OF this] obtain m' where m': "as_hashmap_clear m = Some (m', 0)" "hm_blank m'"
    "table_capacity m' = table_capacity m"
    by blast
  note blank = blank_wf [OF m'(2)]
  have "hm_lookup m' = Map.empty"
    using hm_lookup_not_in [OF blank(1) [of sc]] blank(2) by (auto simp: fun_eq_iff)
  moreover have "hm_inv sc m'"
    using blank(1) by (auto simp: hm_inv_def)
  ultimately have "\<exists>m''. run_table (hm_put sc) (hm_get sc) (hm_remove sc) m' cs = Some (fst (map_calls key_norm Map.empty cs), m'')"
    using hm.calls_like_map [of sc m' cs, OF _ assms(2)] by auto
  moreover have "hm_entries m' = []"
    using blank mset_hm_entries [of m'] by (metis hm_wf_def mset_zero_iff)
  moreover have "as_hashmap_size m' = 0"
    using m'(2) by (simp add: as_hashmap_size_def hm_blank_def)
  ultimately show ?thesis
    using m' by blast
qed

theorem hashmap_clear_witness: "\<exists>m'. as_hashmap_clear fresh_map = Some (m', 0) \<and> as_hashmap_size m' = 0"
  using hashmap_clear [OF fresh_map_wf(1), of "[]"] by auto

text \<open>
  The hash of a blob is not sound for every blob: the last byte never counts, and a blob without bytes
  cannot be hashed at all, so a map call with such a key never returns although its type is accepted.
\<close>

theorem blob_key_hash:
  "as_val_hashcode sc (AsBytes t (bs @ [x])) = as_val_hashcode sc (AsBytes t (bs @ [y])) \<and>
   is_valid_key_type (Some (AsBytes t [])) \<and>
   as_hashmap_set sc ok m (Some (AsBytes t [])) v = None \<and> as_hashmap_get sc m (Some (AsBytes t [])) = None \<and>
   as_hashmap_remove sc m (Some (AsBytes t [])) = None"
  by (simp add: as_bytes_val_hashcode_def as_hashmap_set_def as_hashmap_get_def as_hashmap_remove_def hash_slot_def)

end
