(* ===== verification/Msgpack.thy ===== *)
theory Msgpack
  imports ByteOrder ArrayList HashMap
begin

text \<open>
  The msgpack encoder and decoder of values, \<^verbatim>\<open>as_msgpack.c\<close>, and the serializer on top of them,
  \<^verbatim>\<open>as_msgpack_serializer.c\<close>.

  The packer writes into a chain of buffers: \<open>pk_head\<close> holds the full ones with their used lengths,
  \<open>pk_buffer\<close> is the one being filled.  A packer without a buffer only counts bytes.  \<open>pk_allocs\<close> lists
  whether the next calls of the allocator succeed; beyond the list they do.  Offsets and capacities are
  natural numbers: the \<^verbatim>\<open>int\<close> fields of the code cannot overflow while a value packs into fewer than
  $2^{31}$ bytes.  An access outside a buffer is \<open>None\<close>, respectively \<open>Fault\<close>.

  The decoder never looks at the length of its buffer.  It takes fuel because a crafted buffer can make it
  recurse without end; its offset is an integer because a crafted buffer can move it backwards.  The
  allocations of the decoder succeed.
\<close>

record platform =
  byte_order :: host
  hpux_libc :: bool
  char_signed :: bool

definition AS_PACKER_BUFFER_SIZE :: nat where "AS_PACKER_BUFFER_SIZE = 8192"

record as_packer_buffer =
  pb_buffer :: "byte list"
  pb_length :: nat

record as_packer =
  pk_head :: "as_packer_buffer list"
  pk_buffer :: "byte mem option"
  pk_offset :: nat
  pk_capacity :: nat
  pk_allocs :: "bool list"

type_synonym packed = "(as_packer \<times> int) option"

subsection \<open>Packing\<close>

text \<open>The next allocation: whether it succeeds.\<close>

definition pk_malloc :: "as_packer \<Rightarrow> bool \<times> as_packer" where
  "pk_malloc pk = (case pk_allocs pk of [] \<Rightarrow> (True, pk) | ok # oks \<Rightarrow> (ok, pk\<lparr>pk_allocs := oks\<rparr>))"

definition as_pack_resize :: "as_packer \<Rightarrow> nat \<Rightarrow> packed" where
  "as_pack_resize pk len =
     (let (ok, pk) = pk_malloc pk in
      if \<not> ok then Some (pk, - 1)
      else do {
        buf \<leftarrow> pk_buffer pk;
        let entry = \<lparr> pb_buffer = buf, pb_length = pk_offset pk \<rparr>;
            size = (if len > pk_capacity pk then len else pk_capacity pk);
            (ok, pk) = pk_malloc pk in
        if \<not> ok then Some (pk\<lparr>pk_buffer := None\<rparr>, - 1)
        else Some (pk\<lparr>pk_buffer := Some (replicate size 0), pk_capacity := size, pk_offset := 0,
                      pk_head := pk_head pk @ [entry]\<rparr>, 0) })"

text \<open>
  The frame shared by all writers: make room for the bytes if there is a buffer, write them, and advance
  the offset in any case.
\<close>

definition pack_bytes_at :: "as_packer \<Rightarrow> byte list \<Rightarrow> packed" where
  "pack_bytes_at pk bs =
     (case pk_buffer pk of
        None \<Rightarrow> Some (pk\<lparr>pk_offset := pk_offset pk + length bs\<rparr>, 0)
      | Some _ \<Rightarrow> do {
          (pk, rc) \<leftarrow> (if pk_offset pk + length bs > pk_capacity pk then as_pack_resize pk (length bs)
                      else Some (pk, 0));
          if rc \<noteq> 0 then Some (pk, - 1)
          else do {
            buf \<leftarrow> pk_buffer pk;
            buf \<leftarrow> mem_write buf (pk_offset pk) bs;
            Some (pk\<lparr>pk_buffer := Some buf, pk_offset := pk_offset pk + length bs\<rparr>, 0) } })"

definition as_pack_append :: "as_packer \<Rightarrow> byte list \<Rightarrow> packed" where
  "as_pack_append pk src = pack_bytes_at pk src"

definition as_pack_byte :: "as_packer \<Rightarrow> byte \<Rightarrow> packed" where
  "as_pack_byte pk val = pack_bytes_at pk [val]"

definition as_pack_int8 :: "as_packer \<Rightarrow> byte \<Rightarrow> byte \<Rightarrow> packed" where
  "as_pack_int8 pk type val = pack_bytes_at pk [type, val]"

definition as_pack_int16 :: "host \<Rightarrow> as_packer \<Rightarrow> byte \<Rightarrow> u16 \<Rightarrow> packed" where
  "as_pack_int16 h pk type val = pack_bytes_at pk (type # store16 h (cf_swap_to_be16 h val))"

definition as_pack_int32 :: "host \<Rightarrow> as_packer \<Rightarrow> byte \<Rightarrow> u32 \<Rightarrow> packed" where
  "as_pack_int32 h pk type val = pack_bytes_at pk (type # store32 h (cf_swap_to_be32 h val))"

definition as_pack_int64 :: "host \<Rightarrow> as_packer \<Rightarrow> byte \<Rightarrow> u64 \<Rightarrow> packed" where
  "as_pack_int64 h pk type val = pack_bytes_at pk (type # store64 h (cf_swap_to_be64 h val))"

definition as_pack_boolean :: "as_packer \<Rightarrow> bool \<Rightarrow> packed" where
  "as_pack_boolean pk b = as_pack_byte pk (if b then 0xc3 else 0xc2)"

text \<open>
  The last test compares a negative number with the positive constant \<^verbatim>\<open>0x80000000\<close>, so the 32-bit form
  of negative numbers is never chosen.
\<close>

definition as_pack_integer :: "host \<Rightarrow> as_packer \<Rightarrow> u64 \<Rightarrow> packed" where
  "as_pack_integer h pk i =
     (let val = sint i in
      if val \<ge> 0 then
        if val < 128 then as_pack_byte pk (ucast i)
        else if val < 256 then as_pack_int8 pk 0xcc (ucast i)
        else if val < 65536 then as_pack_int16 h pk 0xcd (ucast i)
        else if val < 4294967296 then as_pack_int32 h pk 0xce (ucast i)
        else as_pack_int64 h pk 0xcf i
      else
        if val \<ge> - 32 then as_pack_byte pk (ucast (0xe0 OR (i + 32)))
        else if val \<ge> - 128 then as_pack_int8 pk 0xd0 (ucast i)
        else if val \<ge> - 32768 then as_pack_int16 h pk 0xd1 (ucast i)
        else if val \<ge> 0x80000000 then as_pack_int32 h pk 0xd2 (ucast i)
        else as_pack_int64 h pk 0xd3 i)"

text \<open>Going on after a step that answered zero.\<close>

definition and_then :: "packed \<Rightarrow> (as_packer \<Rightarrow> packed) \<Rightarrow> packed" where
  "and_then r f = do { (pk, rc) \<leftarrow> r; if rc = 0 then f pk else Some (pk, rc) }"

definition as_pack_byte_array_header :: "host \<Rightarrow> as_packer \<Rightarrow> u32 \<Rightarrow> byte \<Rightarrow> packed" where
  "as_pack_byte_array_header h pk len type =
     (let len = len + 1 in
      and_then
        (if len < 32 then as_pack_byte pk (ucast (0xa0 OR len))
         else if len < 65536 then as_pack_int16 h pk 0xda (ucast len)
         else as_pack_int32 h pk 0xdb len)
        (\<lambda>pk. as_pack_byte pk type))"

definition as_pack_string :: "host \<Rightarrow> as_packer \<Rightarrow> byte list \<Rightarrow> packed" where
  "as_pack_string h pk s =
     and_then (as_pack_byte_array_header h pk (of_nat (length s)) AS_BYTES_STRING) (\<lambda>pk. as_pack_append pk s)"

definition as_pack_bytes :: "host \<Rightarrow> as_packer \<Rightarrow> byte \<Rightarrow> byte list \<Rightarrow> packed" where
  "as_pack_bytes h pk type b =
     and_then (as_pack_byte_array_header h pk (of_nat (length b)) type) (\<lambda>pk. as_pack_append pk b)"

definition pack_list_header :: "host \<Rightarrow> as_packer \<Rightarrow> u32 \<Rightarrow> packed" where
  "pack_list_header h pk n =
     (if n < 16 then as_pack_byte pk (ucast (0x90 OR n))
      else if n < 65536 then as_pack_int16 h pk 0xdc (ucast n)
      else as_pack_int32 h pk 0xdd n)"

definition pack_map_header :: "host \<Rightarrow> as_packer \<Rightarrow> u32 \<Rightarrow> packed" where
  "pack_map_header h pk n =
     (if n < 16 then as_pack_byte pk (ucast (0x80 OR n))
      else if n < 65536 then as_pack_int16 h pk 0xde (ucast n)
      else as_pack_int32 h pk 0xdf n)"

text \<open>A failed walk over a list or map answers 1, whatever the failing step answered.\<close>

definition walk_rc :: "packed \<Rightarrow> packed" where
  "walk_rc r = do { (pk, rc) \<leftarrow> r; Some (pk, if rc = 0 then 0 else 1) }"

function as_pack_val :: "host \<Rightarrow> as_packer \<Rightarrow> as_val \<Rightarrow> packed"
  and pack_opt :: "host \<Rightarrow> as_packer \<Rightarrow> as_val option \<Rightarrow> packed"
  and as_pack_list_foreach :: "host \<Rightarrow> as_packer \<Rightarrow> as_val option list \<Rightarrow> packed"
  and as_pack_map_foreach :: "host \<Rightarrow> as_packer \<Rightarrow> (as_val \<times> as_val option) list \<Rightarrow> packed" where
  "as_pack_val h pk AsNil = as_pack_byte pk 0xc0"
| "as_pack_val h pk (AsBoolean b) = as_pack_boolean pk b"
| "as_pack_val h pk (AsInteger i) = as_pack_integer h pk i"
| "as_pack_val h pk (AsString s) = as_pack_string h pk s"
| "as_pack_val h pk (AsBytes t b) = as_pack_bytes h pk t b"
| "as_pack_val h pk (AsList xs) =
     and_then (pack_list_header h pk (of_nat (length xs))) (\<lambda>pk. walk_rc (as_pack_list_foreach h pk xs))"
| "as_pack_val h pk (AsMap es) =
     and_then (pack_map_header h pk (of_nat (length es))) (\<lambda>pk. walk_rc (as_pack_map_foreach h pk es))"
| "as_pack_val h pk AsRec = Some (pk, 1)"
| "as_pack_val h pk (AsPair a b) =
     and_then (as_pack_append pk [0x92]) (\<lambda>pk. and_then (pack_opt h pk a) (\<lambda>pk. pack_opt h pk b))"
| "pack_opt h pk None = Some (pk, 1)"
| "pack_opt h pk (Some v) = as_pack_val h pk v"
| "as_pack_list_foreach h pk [] = Some (pk, 0)"
| "as_pack_list_foreach h pk (x # xs) = and_then (pack_opt h pk x) (\<lambda>pk. as_pack_list_foreach h pk xs)"
| "as_pack_map_foreach h pk [] = Some (pk, 0)"
| "as_pack_map_foreach h pk ((k, v) # es) =
     and_then (as_pack_val h pk k) (\<lambda>pk. and_then (pack_opt h pk v) (\<lambda>pk. as_pack_map_foreach h pk es))"
  by pat_completeness auto
termination
  by (relation "measure (\<lambda>x. case x of
        Inl (Inl (_, _, v)) \<Rightarrow> size v
      | Inl (Inr (_, _, x)) \<Rightarrow> size_option size x
      | Inr (Inl (_, _, xs)) \<Rightarrow> size_list (size_option size) xs
      | Inr (Inr (_, _, es)) \<Rightarrow> size_list (size_prod size (size_option size)) es)") auto


subsection \<open>Unpacking\<close>

text \<open>A read of \<open>n\<close> bytes at an offset that may have left the buffer on either side.\<close>

definition fetch :: "byte mem \<Rightarrow> int \<Rightarrow> nat \<Rightarrow> byte list option" where
  "fetch buf off n = (if off < 0 then None else mem_read buf (nat off) n)"

definition lift_opt :: "'r option \<Rightarrow> 'r outcome" where
  "lift_opt r = (case r of None \<Rightarrow> Fault | Some x \<Rightarrow> Done x)"

lemma lift_opt_Done: "lift_opt r = Done x \<longleftrightarrow> r = Some x"
  by (cases r) (auto simp: lift_opt_def)

definition as_extract_uint16 :: "host \<Rightarrow> byte mem \<Rightarrow> int \<Rightarrow> (u16 \<times> int) option" where
  "as_extract_uint16 h buf off = do { bs \<leftarrow> fetch buf off 2; Some (cf_swap_from_be16 h (load16 h bs), off + 2) }"

definition as_extract_uint32 :: "host \<Rightarrow> byte mem \<Rightarrow> int \<Rightarrow> (u32 \<times> int) option" where
  "as_extract_uint32 h buf off = do { bs \<leftarrow> fetch buf off 4; Some (cf_swap_from_be32 h (load32 h bs), off + 4) }"

definition as_extract_uint64 :: "host \<Rightarrow> byte mem \<Rightarrow> int \<Rightarrow> (u64 \<times> int) option" where
  "as_extract_uint64 h buf off = do { bs \<leftarrow> fetch buf off 8; Some (cf_swap_from_be64 h (load64 h bs), off + 8) }"

text \<open>
  The value of an IEEE number cut to an integer: \<open>eb\<close> exponent bits and \<open>mb\<close> mantissa bits.  A number
  that is not finite or does not fit 64 bits has no defined conversion.
\<close>

definition ieee_to_int64 :: "nat \<Rightarrow> nat \<Rightarrow> nat \<Rightarrow> u64 option" where
  "ieee_to_int64 eb mb bits =
     (let m = bits mod 2 ^ mb; e = bits div 2 ^ mb mod 2 ^ eb; neg = bits div 2 ^ (mb + eb) mod 2 = 1;
          bias = 2 ^ (eb - 1) - 1; sig = (2 ^ mb + m) * 2 ^ (e - bias) div 2 ^ mb;
          mag = (if e < bias then 0 else sig) in
      if e = 2 ^ eb - 1 \<or> mag > 2 ^ 63 \<or> (mag = 2 ^ 63 \<and> \<not> neg) then None
      else Some (if neg then - of_nat mag else of_nat mag))"

definition as_extract_float :: "host \<Rightarrow> byte mem \<Rightarrow> int \<Rightarrow> (u64 \<times> int) option" where
  "as_extract_float h buf off = do {
     bs \<leftarrow> fetch buf off 4;
     i \<leftarrow> ieee_to_int64 8 23 (unat (cf_swap_from_be32 h (load32 h bs)));
     Some (i, off + 4) }"

definition as_extract_double :: "host \<Rightarrow> byte mem \<Rightarrow> int \<Rightarrow> (u64 \<times> int) option" where
  "as_extract_double h buf off = do {
     bs \<leftarrow> fetch buf off 8;
     i \<leftarrow> ieee_to_int64 11 52 (unat (cf_swap_from_be64 h (load64 h bs)));
     Some (i, off + 8) }"

text \<open>
  Duplicating at most \<open>n\<close> bytes of a string, \<open>n\<close> read as a \<^verbatim>\<open>size_t\<close>.  The version for HP-UX that comes
  with the sources takes the length of the whole string first, so it reads up to the next zero byte
  wherever that is.
\<close>

definition cf_strndup :: "bool \<Rightarrow> byte mem \<Rightarrow> int \<Rightarrow> int \<Rightarrow> byte list option" where
  "cf_strndup hpux buf off n =
     (if off < 0 \<or> int (length buf) < off then None
      else
        let rest = drop (nat off) buf;
            n = (if n < 0 then n + 2 ^ 64 else n) in
        if 0 \<in> set rest \<or> \<not> hpux \<and> n \<le> int (length rest) then Some (take (nat n) (c_str rest)) else None)"

definition as_unpack_blob :: "platform \<Rightarrow> byte mem \<Rightarrow> int \<Rightarrow> int \<Rightarrow> (as_val \<times> int) option" where
  "as_unpack_blob pf buf off sz = do {
     tb \<leftarrow> fetch buf off 1;
     let type = hd tb; off = off + 1; sz = sz - 1 in
     if type = AS_BYTES_STRING then do {
       v \<leftarrow> cf_strndup (hpux_libc pf) buf off sz;
       Some (AsString v, off + sz) }
     else if sz < 0 then None
     else do {
       b \<leftarrow> fetch buf off (nat sz);
       Some (AsBytes type b, off + sz) } }"

text \<open>The results of a decoder call: the value if it set one, the next offset, the return code.\<close>

type_synonym unpacked = "(as_val option \<times> int \<times> int) outcome"

definition unpack_plain :: "(as_val \<times> int) option \<Rightarrow> unpacked" where
  "unpack_plain r = lift_opt (map_option (\<lambda>(v, off). (Some v, off, 0)) r)"

definition unpack_num :: "(u64 \<times> int) option \<Rightarrow> unpacked" where
  "unpack_num r = unpack_plain (map_option (\<lambda>(i, off). (AsInteger i, off)) r)"

text \<open>What the first byte announces.  Lengths are converted to \<^verbatim>\<open>int\<close> when they are passed on.\<close>

datatype shape =
    Leaf unpacked
  | Blob_Of int int
  | List_Of int int
  | Map_Of int int
  | Bad

definition sized :: "(int \<Rightarrow> int \<Rightarrow> shape) \<Rightarrow> (int \<times> int) option \<Rightarrow> shape" where
  "sized f r = (case r of None \<Rightarrow> Leaf Fault | Some (n, off) \<Rightarrow> f n off)"

definition unpack_head :: "host \<Rightarrow> byte mem \<Rightarrow> int \<Rightarrow> byte \<Rightarrow> shape" where
  "unpack_head h buf off type =
     (let u8 = do { bs \<leftarrow> fetch buf off 1; Some (hd bs, off + 1) };
          u16 = as_extract_uint16 h buf off; u32 = as_extract_uint32 h buf off; u64 = as_extract_uint64 h buf off;
          len16 = map_option (\<lambda>(n, off). (uint n, off)) u16;
          len32 = map_option (\<lambda>(n, off). (sint n, off)) u32 in
      if type = 0xc0 then Leaf (Done (Some AsNil, off, 0))
      else if type = 0xc3 then Leaf (Done (Some (AsInteger 1), off, 0))
      else if type = 0xc2 then Leaf (Done (Some (AsInteger 0), off, 0))
      else if type = 0xca then Leaf (unpack_num (as_extract_float h buf off))
      else if type = 0xcb then Leaf (unpack_num (as_extract_double h buf off))
      else if type = 0xd0 then Leaf (unpack_num (map_option (\<lambda>(n, off). (scast n, off)) u8))
      else if type = 0xcc then Leaf (unpack_num (map_option (\<lambda>(n, off). (ucast n, off)) u8))
      else if type = 0xd1 then Leaf (unpack_num (map_option (\<lambda>(n, off). (scast n, off)) u16))
      else if type = 0xcd then Leaf (unpack_num (map_option (\<lambda>(n, off). (ucast n, off)) u16))
      else if type = 0xd2 then Leaf (unpack_num (map_option (\<lambda>(n, off). (scast n, off)) u32))
      else if type = 0xce then Leaf (unpack_num (map_option (\<lambda>(n, off). (ucast n, off)) u32))
      else if type = 0xd3 then Leaf (unpack_num u64)
      else if type = 0xcf then Leaf (unpack_num u64)
      else if type = 0xda then sized Blob_Of len16
      else if type = 0xdb then sized Blob_Of len32
      else if type = 0xdc then sized List_Of len16
      else if type = 0xdd then sized List_Of len32
      else if type = 0xde then sized Map_Of len16
      else if type = 0xdf then sized Map_Of len32
      else if type AND 0xe0 = 0xa0 then Blob_Of (uint (type AND 0x1f)) off
      else if type AND 0xf0 = 0x80 then Map_Of (uint (type AND 0x0f)) off
      else if type AND 0xf0 = 0x90 then List_Of (uint (type AND 0x0f)) off
      else if type < 0x80 then Leaf (Done (Some (AsInteger (ucast type)), off, 0))
      else if type \<ge> 0xe0 then Leaf (Done (Some (AsInteger (of_int (uint type - 0xe0 - 32))), off, 0))
      else Bad)"

text \<open>
  The decoder proper.  \<open>fuel\<close> bounds the depth of the recursion, the loops over the elements of a list or
  map are recursions on the number of elements left.  What a list or map call sets is the list of
  pointers below its size, respectively the entries a walk visits.
\<close>

function as_unpack_val :: "platform \<Rightarrow> byte mem \<Rightarrow> nat \<Rightarrow> int \<Rightarrow> unpacked"
  and unpack_list_loop ::
    "platform \<Rightarrow> byte mem \<Rightarrow> nat \<Rightarrow> nat \<Rightarrow> u32 \<Rightarrow> as_val as_arraylist \<Rightarrow> int \<Rightarrow> (as_val as_arraylist \<times> int) outcome"
  and unpack_map_loop ::
    "platform \<Rightarrow> byte mem \<Rightarrow> nat \<Rightarrow> nat \<Rightarrow> as_val as_hashmap \<Rightarrow> int \<Rightarrow> (as_val as_hashmap \<times> int) outcome" where
  "as_unpack_val pf buf 0 off = Timeout"
| "as_unpack_val pf buf (Suc fuel) off =
     outcome_bind (lift_opt (fetch buf off 1)) (\<lambda>tb.
     case unpack_head (byte_order pf) buf (off + 1) (hd tb) of
       Leaf r \<Rightarrow> r
     | Bad \<Rightarrow> Done (None, off + 1, 2)
     | Blob_Of n off \<Rightarrow> unpack_plain (as_unpack_blob pf buf off n)
     | List_Of n off \<Rightarrow>
         outcome_bind (lift_opt (as_arraylist_new True True (of_int n) 8)) (\<lambda>l.
         outcome_bind (unpack_list_loop pf buf fuel (nat n) 0 l off) (\<lambda>(l, off).
         outcome_bind (lift_opt (mem_read (elements l) 0 (unat (al_size l)))) (\<lambda>xs.
         Done (Some (AsList xs), off, 0))))
     | Map_Of n off \<Rightarrow>
         outcome_bind (lift_opt (as_hashmap_new True True (of_int (if n > 32 then n else 32)))) (\<lambda>m.
         outcome_bind (unpack_map_loop pf buf fuel (nat n) m off) (\<lambda>(m, off).
         outcome_bind (lift_opt (used_extras m)) (\<lambda>es.
         Done (Some (AsMap (concat (map entry_of (table m @ es)))), off, 0)))))"
| "unpack_list_loop pf buf fuel 0 i l off = Done (l, off)"
| "unpack_list_loop pf buf fuel (Suc n) i l off =
     outcome_bind (as_unpack_val pf buf fuel off) (\<lambda>(v, off, _).
     outcome_bind (case v of None \<Rightarrow> Done l | Some v \<Rightarrow> lift_opt (map_option fst (as_arraylist_set True l i (Some v)))) (\<lambda>l.
     unpack_list_loop pf buf fuel n (i + 1) l off))"
| "unpack_map_loop pf buf fuel 0 m off = Done (m, off)"
| "unpack_map_loop pf buf fuel (Suc n) m off =
     outcome_bind (as_unpack_val pf buf fuel off) (\<lambda>(k, off, _).
     outcome_bind (as_unpack_val pf buf fuel off) (\<lambda>(v, off, _).
     outcome_bind
       (if k \<noteq> None \<and> v \<noteq> None
        then lift_opt (map_option fst (as_hashmap_set (char_signed pf) True m k v)) else Done m) (\<lambda>m.
     unpack_map_loop pf buf fuel n m off)))"
  by pat_completeness auto
termination
  by (relation "measures
      [\<lambda>x. case x of Inl (_, _, f, _) \<Rightarrow> 2 * f | Inr (Inl (_, _, f, _)) \<Rightarrow> 2 * f + 1 | Inr (Inr (_, _, f, _)) \<Rightarrow> 2 * f + 1,
       \<lambda>x. case x of Inl _ \<Rightarrow> 0 | Inr (Inl (_, _, _, n, _)) \<Rightarrow> n | Inr (Inr (_, _, _, n, _)) \<Rightarrow> n]") auto


subsection \<open>The serializer\<close>

record as_buffer =
  buf_capacity :: nat
  buf_size :: nat
  buf_data :: "byte list"

definition as_msgpack_serializer_serialize_getsize :: "host \<Rightarrow> as_val option \<Rightarrow> u32 option" where
  "as_msgpack_serializer_serialize_getsize h v = do {
     (pk, rc) \<leftarrow> pack_opt h \<lparr> pk_head = [], pk_buffer = None, pk_offset = 0, pk_capacity = 0, pk_allocs = [] \<rparr> v;
     Some (if rc \<noteq> 0 then 0 else of_nat (pk_offset pk)) }"

text \<open>Copying the chained buffers one behind the other into the target.\<close>

fun combine :: "byte mem \<Rightarrow> nat \<Rightarrow> as_packer_buffer list \<Rightarrow> (byte mem \<times> nat) option" where
  "combine target off [] = Some (target, off)"
| "combine target off (p # ps) = do {
     bs \<leftarrow> mem_read (pb_buffer p) 0 (pb_length p);
     target \<leftarrow> mem_write target off bs;
     combine target (off + pb_length p) ps }"

text \<open>
  The return code and the buffer handed to the caller.  The allocation of the combined buffer is not
  checked: when it fails the copy goes to a null pointer.
\<close>

definition as_msgpack_serializer_serialize ::
  "host \<Rightarrow> bool list \<Rightarrow> as_val option \<Rightarrow> (int \<times> as_buffer option) option" where
  "as_msgpack_serializer_serialize h allocs v =
     (let (ok, pk) = pk_malloc
        \<lparr> pk_head = [], pk_buffer = Some (replicate AS_PACKER_BUFFER_SIZE 0), pk_offset = 0,
          pk_capacity = AS_PACKER_BUFFER_SIZE, pk_allocs = allocs \<rparr> in
      if \<not> ok then Some (1, None)
      else do {
        (pk, rc) \<leftarrow> pack_opt h pk v;
        if rc \<noteq> 0 then Some (rc, None)
        else do {
          buf \<leftarrow> pk_buffer pk;
          if pk_head pk \<noteq> [] then
            let n = pk_offset pk + sum_list (map pb_length (pk_head pk));
                (ok, pk) = pk_malloc pk in
            if \<not> ok then None
            else do {
              (target, off) \<leftarrow> combine (replicate n 0) 0 (pk_head pk);
              bs \<leftarrow> mem_read buf 0 (pk_offset pk);
              target \<leftarrow> mem_write target off bs;
              Some (0, Some \<lparr> buf_capacity = n, buf_size = n, buf_data = target \<rparr>) }
          else Some (0, Some \<lparr> buf_capacity = pk_capacity pk, buf_size = pk_offset pk, buf_data = buf \<rparr>) } })"

definition as_msgpack_serializer_deserialize :: "platform \<Rightarrow> nat \<Rightarrow> as_buffer \<Rightarrow> unpacked" where
  "as_msgpack_serializer_deserialize pf fuel buff = as_unpack_val pf (buf_data buff) fuel 0"

end
