(* ===== verification/MsgpackProps.thy ===== *)
theory MsgpackProps
  imports Msgpack ArrayListProps HashMapProps
begin

text \<open>
  Correctness of the msgpack code.  A reference encoding of values as byte lists is what the packer
  appends to its chained buffers, on every host and wherever the buffers break; the size request counts
  the same bytes; and a value without an encoding is refused.
\<close>

subsection \<open>The reference encoding\<close>

definition enc_int :: "u64 \<Rightarrow> byte list" where
  "enc_int i =
     (let val = sint i in
      if val \<ge> 0 then
        if val < 128 then [ucast i]
        else if val < 256 then [0xcc, ucast i]
        else if val < 65536 then 0xcd # be16 (ucast i)
        else if val < 4294967296 then 0xce # be32 (ucast i)
        else 0xcf # be64 i
      else
        if val \<ge> - 32 then [ucast (0xe0 OR (i + 32))]
        else if val \<ge> - 128 then [0xd0, ucast i]
        else if val \<ge> - 32768 then 0xd1 # be16 (ucast i)
        else 0xd3 # be64 i)"

definition enc_raw :: "byte \<Rightarrow> byte list \<Rightarrow> byte list" where
  "enc_raw t bs =
     (let n = of_nat (length bs) + 1 :: u32 in
      (if n < 32 then [ucast (0xa0 OR n)] else if n < 65536 then 0xda # be16 (ucast n) else 0xdb # be32 n) @ t # bs)"

definition enc_list_header :: "u32 \<Rightarrow> byte list" where
  "enc_list_header n =
     (if n < 16 then [ucast (0x90 OR n)] else if n < 65536 then 0xdc # be16 (ucast n) else 0xdd # be32 n)"

definition enc_map_header :: "u32 \<Rightarrow> byte list" where
  "enc_map_header n =
     (if n < 16 then [ucast (0x80 OR n)] else if n < 65536 then 0xde # be16 (ucast n) else 0xdf # be32 n)"

fun app :: "byte list option \<Rightarrow> byte list option \<Rightarrow> byte list option" where
  "app (Some xs) (Some ys) = Some (xs @ ys)"
| "app _ _ = None"

lemma app_Some: "app a b = Some bs \<longleftrightarrow> (\<exists>xs ys. a = Some xs \<and> b = Some ys \<and> bs = xs @ ys)"
  by (cases a; cases b) auto

function enc_val :: "as_val \<Rightarrow> byte list option"
  and enc_opt :: "as_val option \<Rightarrow> byte list option"
  and enc_list :: "as_val option list \<Rightarrow> byte list option"
  and enc_map :: "(as_val \<times> as_val option) list \<Rightarrow> byte list option" where
  "enc_val AsNil = Some [0xc0]"
| "enc_val (AsBoolean b) = Some [if b then 0xc3 else 0xc2]"
| "enc_val (AsInteger i) = Some (enc_int i)"
| "enc_val (AsString s) = Some (enc_raw AS_BYTES_STRING s)"
| "enc_val (AsBytes t b) = Some (enc_raw t b)"
| "enc_val (AsList xs) = app (Some (enc_list_header (of_nat (length xs)))) (enc_list xs)"
| "enc_val (AsMap es) = app (Some (enc_map_header (of_nat (length es)))) (enc_map es)"
| "enc_val AsRec = None"
| "enc_val (AsPair a b) = app (Some [0x92]) (app (enc_opt a) (enc_opt b))"
| "enc_opt None = None"
| "enc_opt (Some v) = enc_val v"
| "enc_list [] = Some []"
| "enc_list (x # xs) = app (enc_opt x) (enc_list xs)"
| "enc_map [] = Some []"
| "enc_map ((k, v) # es) = app (enc_val k) (app (enc_opt v) (enc_map es))"
  by pat_completeness auto
termination
  by (relation "measure (\<lambda>x. case x of
        Inl (Inl v) \<Rightarrow> size v
      | Inl (Inr x) \<Rightarrow> size_option size x
      | Inr (Inl xs) \<Rightarrow> size_list (size_option size) xs
      | Inr (Inr es) \<Rightarrow> size_list (size_prod size (size_option size)) es)") auto


subsection \<open>The packer appends the encoding\<close>

definition pk_ok :: "as_packer \<Rightarrow> bool" where
  "pk_ok pk \<longleftrightarrow>
     (case pk_buffer pk of None \<Rightarrow> True | Some b \<Rightarrow> length b = pk_capacity pk \<and> pk_offset pk \<le> pk_capacity pk) \<and>
     (\<forall>e \<in> set (pk_head pk). pb_length e \<le> length (pb_buffer e))"

definition pk_bytes :: "as_packer \<Rightarrow> byte list" where
  "pk_bytes pk = concat (map (\<lambda>e. take (pb_length e) (pb_buffer e)) (pk_head pk)) @
     (case pk_buffer pk of None \<Rightarrow> [] | Some b \<Rightarrow> take (pk_offset pk) b)"

definition appended :: "as_packer \<Rightarrow> as_packer \<Rightarrow> byte list \<Rightarrow> bool" where
  "appended pk pk' bs \<longleftrightarrow> pk_ok pk' \<and>
     (pk_buffer pk = None \<longrightarrow> pk_buffer pk' = None \<and> pk_offset pk' = pk_offset pk + length bs) \<and>
     (pk_buffer pk \<noteq> None \<longrightarrow> pk_buffer pk' \<noteq> None \<and> pk_bytes pk' = pk_bytes pk @ bs) \<and>
     set (pk_allocs pk') \<subseteq> set (pk_allocs pk)"

text \<open>
  A step that packs \<open>r\<close>: it always returns, with code zero only if it appended the bytes of \<open>r\<close>, and with
  another code only if there is nothing to pack or an allocation failed.
\<close>

definition packs :: "(as_packer \<Rightarrow> packed) \<Rightarrow> byte list option \<Rightarrow> bool" where
  "packs f r \<longleftrightarrow> (\<forall>pk. pk_ok pk \<longrightarrow> (\<exists>pk' rc. f pk = Some (pk', rc) \<and>
     (rc = 0 \<longrightarrow> (\<exists>bs. r = Some bs \<and> appended pk pk' bs)) \<and>
     (rc \<noteq> 0 \<longrightarrow> r = None \<or> False \<in> set (pk_allocs pk))))"

lemma packsD:
  assumes "packs f r" and "pk_ok pk"
  shows "\<exists>pk' rc. f pk = Some (pk', rc) \<and> (rc = 0 \<longrightarrow> (\<exists>bs. r = Some bs \<and> appended pk pk' bs)) \<and>
     (rc \<noteq> 0 \<longrightarrow> r = None \<or> False \<in> set (pk_allocs pk))"
  using assms unfolding packs_def by blast

lemma appended_trans: "appended pk pk1 xs \<Longrightarrow> appended pk1 pk2 ys \<Longrightarrow> appended pk pk2 (xs @ ys)"
  by (auto simp: appended_def)

lemma packs_and_then:
  assumes "packs f r" and "packs g s"
  shows "packs (\<lambda>pk. and_then (f pk) g) (app r s)"
  unfolding packs_def
proof (intro allI impI)
  fix pk assume ok: "pk_ok pk"
  from packsD [OF assms(1) ok] obtain pk1 rc1 where f: "f pk = Some (pk1, rc1)"
    "rc1 = 0 \<longrightarrow> (\<exists>bs. r = Some bs \<and> appended pk pk1 bs)" "rc1 \<noteq> 0 \<longrightarrow> r = None \<or> False \<in> set (pk_allocs pk)"
    by blast
  show "\<exists>pk' rc. and_then (f pk) g = Some (pk', rc) \<and> (rc = 0 \<longrightarrow> (\<exists>bs. app r s = Some bs \<and> appended pk pk' bs)) \<and>
     (rc \<noteq> 0 \<longrightarrow> app r s = None \<or> False \<in> set (pk_allocs pk))"
  proof (cases "rc1 = 0")
    case True
    then obtain xs where xs: "r = Some xs" "appended pk pk1 xs"
      using f(2) by blast
    then have "pk_ok pk1" "set (pk_allocs pk1) \<subseteq> set (pk_allocs pk)"
      by (auto simp: appended_def)
    from packsD [OF assms(2) this(1)] obtain pk2 rc2 where g: "g pk1 = Some (pk2, rc2)"
      "rc2 = 0 \<longrightarrow> (\<exists>bs. s = Some bs \<and> appended pk1 pk2 bs)" "rc2 \<noteq> 0 \<longrightarrow> s = None \<or> False \<in> set (pk_allocs pk1)"
      by blast
    then show ?thesis
      using f(1) True xs \<open>set (pk_allocs pk1) \<subseteq> _\<close> by (auto simp: and_then_def dest: appended_trans)
  next
    case False
    then show ?thesis
      using f(1,3) by (auto simp: and_then_def)
  qed
qed

lemma packs_walk_rc: "packs f r \<Longrightarrow> packs (\<lambda>pk. walk_rc (f pk)) r"
  unfolding packs_def walk_rc_def by fastforce

lemma packs_fail: "c \<noteq> 0 \<Longrightarrow> packs (\<lambda>pk. Some (pk, c)) None"
  by (simp add: packs_def)

lemma packs_nothing: "packs (\<lambda>pk. Some (pk, 0)) (Some [])"
  by (auto simp: packs_def appended_def)

lemma pk_malloc_cases:
  "\<exists>ok oks. pk_malloc pk = (ok, pk\<lparr>pk_allocs := oks\<rparr>) \<and> set oks \<subseteq> set (pk_allocs pk) \<and>
     (\<not> ok \<longrightarrow> False \<in> set (pk_allocs pk))"
proof (cases "pk_allocs pk")
  case Nil
  then have "pk_malloc pk = (True, pk\<lparr>pk_allocs := []\<rparr>)"
    by (simp add: pk_malloc_def)
  then show ?thesis
    by (intro exI [of _ True] exI [of _ "[]"]) simp
next
  case (Cons ok oks)
  then show ?thesis
    by (auto simp: pk_malloc_def)
qed

lemma pack_resize:
  assumes "pk_ok pk" and "pk_buffer pk = Some b"
  shows "\<exists>pk' rc. as_pack_resize pk n = Some (pk', rc) \<and>
    (rc \<noteq> 0 \<longrightarrow> False \<in> set (pk_allocs pk)) \<and>
    (rc = 0 \<longrightarrow> (\<exists>b'. pk_buffer pk' = Some b' \<and> length b' = pk_capacity pk') \<and> n \<le> pk_capacity pk' \<and>
       pk_offset pk' = 0 \<and> pk_ok pk' \<and> pk_bytes pk' = pk_bytes pk \<and> set (pk_allocs pk') \<subseteq> set (pk_allocs pk))"
proof -
  obtain ok1 oks1 where m1: "pk_malloc pk = (ok1, pk\<lparr>pk_allocs := oks1\<rparr>)" "set oks1 \<subseteq> set (pk_allocs pk)"
    "\<not> ok1 \<longrightarrow> False \<in> set (pk_allocs pk)"
    using pk_malloc_cases by blast
  obtain ok2 oks2 where m2: "pk_malloc (pk\<lparr>pk_allocs := oks1\<rparr>) = (ok2, pk\<lparr>pk_allocs := oks2\<rparr>)" "set oks2 \<subseteq> set oks1"
    "\<not> ok2 \<longrightarrow> False \<in> set oks1"
    using pk_malloc_cases [of "pk\<lparr>pk_allocs := oks1\<rparr>"] by auto
  show ?thesis
    using m1 m2 assms by (cases ok1; cases ok2) (auto simp: as_pack_resize_def pk_ok_def pk_bytes_def)
qed

lemma packs_bytes_at: "packs (\<lambda>pk. pack_bytes_at pk bs) (Some bs)"
  unfolding packs_def
proof (intro allI impI)
  fix pk assume ok: "pk_ok pk"
  show "\<exists>pk' rc. pack_bytes_at pk bs = Some (pk', rc) \<and> (rc = 0 \<longrightarrow> (\<exists>xs. Some bs = Some xs \<and> appended pk pk' xs)) \<and>
     (rc \<noteq> 0 \<longrightarrow> Some bs = None \<or> False \<in> set (pk_allocs pk))"
  proof (cases "pk_buffer pk")
    case None
    then show ?thesis
      using ok by (auto simp: pack_bytes_at_def appended_def pk_ok_def)
  next
    case (Some b)
    let ?r = "if pk_offset pk + length bs > pk_capacity pk then as_pack_resize pk (length bs) else Some (pk, 0)"
    have "\<exists>pk1 rc. ?r = Some (pk1, rc) \<and> (rc \<noteq> 0 \<longrightarrow> False \<in> set (pk_allocs pk)) \<and>
      (rc = 0 \<longrightarrow> (\<exists>b'. pk_buffer pk1 = Some b' \<and> length b' = pk_capacity pk1) \<and> pk_offset pk1 + length bs \<le> pk_capacity pk1 \<and>
         pk_ok pk1 \<and> pk_bytes pk1 = pk_bytes pk \<and> set (pk_allocs pk1) \<subseteq> set (pk_allocs pk))"
    proof (cases "pk_offset pk + length bs > pk_capacity pk")
      case True
      obtain pk1 rc where 1: "as_pack_resize pk (length bs) = Some (pk1, rc)" "rc \<noteq> 0 \<longrightarrow> False \<in> set (pk_allocs pk)"
        "rc = 0 \<longrightarrow> (\<exists>b'. pk_buffer pk1 = Some b' \<and> length b' = pk_capacity pk1) \<and> length bs \<le> pk_capacity pk1 \<and>
           pk_offset pk1 = 0 \<and> pk_ok pk1 \<and> pk_bytes pk1 = pk_bytes pk \<and> set (pk_allocs pk1) \<subseteq> set (pk_allocs pk)"
        using pack_resize [OF ok Some, of "length bs"] by blast
      show ?thesis
        by (rule exI [of _ pk1], rule exI [of _ rc]) (use 1 True in simp)
    next
      case False
      then show ?thesis
        using Some ok by (simp add: pk_ok_def)
    qed
    then obtain pk1 rc where r: "?r = Some (pk1, rc)" "rc \<noteq> 0 \<Longrightarrow> False \<in> set (pk_allocs pk)"
      "rc = 0 \<Longrightarrow> (\<exists>b'. pk_buffer pk1 = Some b' \<and> length b' = pk_capacity pk1) \<and> pk_offset pk1 + length bs \<le> pk_capacity pk1 \<and>
         pk_ok pk1 \<and> pk_bytes pk1 = pk_bytes pk \<and> set (pk_allocs pk1) \<subseteq> set (pk_allocs pk)"
      by blast
    have at: "pack_bytes_at pk bs = (if rc \<noteq> 0 then Some (pk1, - 1)
       else do { buf \<leftarrow> pk_buffer pk1; buf \<leftarrow> mem_write buf (pk_offset pk1) bs;
            Some (pk1\<lparr>pk_buffer := Some buf, pk_offset := pk_offset pk1 + length bs\<rparr>, 0) })"
      unfolding pack_bytes_at_def Some option.case r(1) by simp
    show ?thesis
    proof (cases "rc = 0")
      case True
      from r(3) [OF this] obtain b' where b': "pk_buffer pk1 = Some b'" "length b' = pk_capacity pk1"
        "pk_offset pk1 + length bs \<le> pk_capacity pk1" "pk_ok pk1" "pk_bytes pk1 = pk_bytes pk"
        "set (pk_allocs pk1) \<subseteq> set (pk_allocs pk)"
        by blast
      let ?b = "take (pk_offset pk1) b' @ bs @ drop (pk_offset pk1 + length bs) b'"
      have "mem_write b' (pk_offset pk1) bs = Some ?b"
        using b' by (simp add: mem_write_def)
      moreover have "appended pk (pk1\<lparr>pk_buffer := Some ?b, pk_offset := pk_offset pk1 + length bs\<rparr>) bs"
        using b' Some by (auto simp: appended_def pk_ok_def pk_bytes_def)
      ultimately show ?thesis
        using True b'(1) at by auto
    qed (use r(2) at in auto)
  qed
qed

lemma pack_int_dead: "sint (i :: u64) < 0 \<Longrightarrow> \<not> sint i \<ge> 0x80000000"
  by simp

lemmas packs_leaf_defs = as_pack_append_def as_pack_byte_def as_pack_int8_def as_pack_int16_def as_pack_int32_def
  as_pack_int64_def as_pack_boolean_def store_to_be

lemma packs_integer: "packs (\<lambda>pk. as_pack_integer h pk i) (Some (enc_int i))"
  unfolding as_pack_integer_def enc_int_def Let_def packs_leaf_defs by (simp add: packs_bytes_at)

lemma packs_raw:
  "packs (\<lambda>pk. and_then (as_pack_byte_array_header h pk (of_nat (length bs)) t) (\<lambda>pk. as_pack_append pk bs)) (Some (enc_raw t bs))"
proof -
  let ?n = "of_nat (length bs) + 1 :: u32"
  let ?hd = "if ?n < 32 then [ucast (0xa0 OR ?n)] else if ?n < 65536 then 0xda # be16 (ucast ?n) else 0xdb # be32 ?n"
  have "packs (\<lambda>pk. as_pack_byte_array_header h pk (of_nat (length bs)) t) (app (Some ?hd) (Some [t]))"
    unfolding as_pack_byte_array_header_def Let_def packs_leaf_defs
    by (rule packs_and_then) (simp_all add: packs_bytes_at)
  then have "packs (\<lambda>pk. and_then (as_pack_byte_array_header h pk (of_nat (length bs)) t) (\<lambda>pk. as_pack_append pk bs))
      (app (app (Some ?hd) (Some [t])) (Some bs))"
    unfolding as_pack_append_def by (rule packs_and_then [OF _ packs_bytes_at])
  then show ?thesis
    by (simp add: enc_raw_def Let_def)
qed

lemma packs_headers:
  "packs (\<lambda>pk. pack_list_header h pk n) (Some (enc_list_header n))"
  "packs (\<lambda>pk. pack_map_header h pk n) (Some (enc_map_header n))"
  unfolding pack_list_header_def enc_list_header_def pack_map_header_def enc_map_header_def packs_leaf_defs
  by (simp_all add: packs_bytes_at)

lemma packs_val:
  "packs (\<lambda>pk. as_pack_val h pk v) (enc_val v)"
  "packs (\<lambda>pk. pack_opt h pk x) (enc_opt x)"
  "packs (\<lambda>pk. as_pack_list_foreach h pk xs) (enc_list xs)"
  "packs (\<lambda>pk. as_pack_map_foreach h pk es) (enc_map es)"
proof (induction v and x and xs and es rule: enc_val_enc_opt_enc_list_enc_map.induct)
  case (4 s)
  then show ?case
    using packs_raw [of h s AS_BYTES_STRING] by (simp add: as_pack_string_def)
next
  case (5 t b)
  then show ?case
    using packs_raw [of h b t] by (simp add: as_pack_bytes_def)
next
  case (6 xs)
  then show ?case
    unfolding as_pack_val.simps enc_val.simps by (intro packs_and_then packs_walk_rc packs_headers)
next
  case (7 es)
  then show ?case
    unfolding as_pack_val.simps enc_val.simps by (intro packs_and_then packs_walk_rc packs_headers)
next
  case (9 a b)
  then show ?case
    unfolding as_pack_val.simps enc_val.simps packs_leaf_defs by (intro packs_and_then packs_bytes_at)
next
  case (13 x xs)
  then show ?case
    unfolding as_pack_list_foreach.simps enc_list.simps by (rule packs_and_then)
next
  case (15 k v es)
  then show ?case
    unfolding as_pack_map_foreach.simps enc_map.simps by (intro packs_and_then)
next
  case 1
  show ?case
    unfolding as_pack_val.simps enc_val.simps packs_leaf_defs by (rule packs_bytes_at)
next
  case (2 b)
  show ?case
    unfolding as_pack_val.simps enc_val.simps packs_leaf_defs by (rule packs_bytes_at)
next
  case (3 i)
  show ?case
    unfolding as_pack_val.simps enc_val.simps by (rule packs_integer)
next
  case 8
  show ?case
    unfolding as_pack_val.simps enc_val.simps by (rule packs_fail) simp
next
  case 10
  show ?case
    unfolding pack_opt.simps enc_opt.simps by (rule packs_fail) simp
next
  case (11 v)
  then show ?case
    unfolding pack_opt.simps enc_opt.simps .
next
  case 12
  show ?case
    by (simp only: as_pack_list_foreach.simps enc_list.simps packs_nothing)
next
  case 14
  show ?case
    by (simp only: as_pack_map_foreach.simps enc_map.simps packs_nothing)
qed

subsection \<open>The serializer\<close>

lemma combine_chain:
  assumes "\<forall>e \<in> set ps. pb_length e \<le> length (pb_buffer e)" and "sum_list (map pb_length ps) \<le> length rest"
  shows "combine (pre @ rest) (length pre) ps =
    Some (pre @ concat (map (\<lambda>e. take (pb_length e) (pb_buffer e)) ps) @ drop (sum_list (map pb_length ps)) rest,
      length pre + sum_list (map pb_length ps))"
  using assms
proof (induction ps arbitrary: pre rest)
  case (Cons p ps)
  let ?bs = "take (pb_length p) (pb_buffer p)"
  have len: "length ?bs = pb_length p"
    using Cons.prems by simp
  have rd: "mem_read (pb_buffer p) 0 (pb_length p) = Some ?bs"
    using Cons.prems by (simp add: mem_read_def)
  have wr: "mem_write (pre @ rest) (length pre) ?bs = Some ((pre @ ?bs) @ drop (pb_length p) rest)"
    using Cons.prems len by (simp add: mem_write_def)
  have "combine ((pre @ ?bs) @ drop (pb_length p) rest) (length (pre @ ?bs)) ps =
    Some ((pre @ ?bs) @ concat (map (\<lambda>e. take (pb_length e) (pb_buffer e)) ps) @
        drop (sum_list (map pb_length ps)) (drop (pb_length p) rest),
      length (pre @ ?bs) + sum_list (map pb_length ps))"
    using Cons.prems by (intro Cons.IH) auto
  then show ?case
    using Cons.prems len by (simp add: rd wr add_ac)
qed simp

lemma length_chain:
  "\<forall>e \<in> set ps. pb_length e \<le> length (pb_buffer e) \<Longrightarrow>
   length (concat (map (\<lambda>e. take (pb_length e) (pb_buffer e)) ps)) = sum_list (map pb_length ps)"
  by (induction ps) auto

lemma pack_counts:
  assumes "enc_opt v = Some bs"
  shows "as_msgpack_serializer_serialize_getsize h v = Some (of_nat (length bs))"
proof -
  let ?pk = "\<lparr> pk_head = [], pk_buffer = None, pk_offset = 0, pk_capacity = 0, pk_allocs = [] \<rparr>"
  have "pk_ok ?pk"
    by (simp add: pk_ok_def)
  then obtain pk' rc where "pack_opt h ?pk v = Some (pk', rc)" "rc = 0 \<longrightarrow> appended ?pk pk' bs" "rc = 0"
    using packsD [OF packs_val(2) [of h v], of ?pk] assms by auto
  then show ?thesis
    by (simp add: as_msgpack_serializer_serialize_getsize_def appended_def)
qed

abbreviation serializer_packer :: "bool list \<Rightarrow> as_packer" where
  "serializer_packer allocs \<equiv>
     \<lparr> pk_head = [], pk_buffer = Some (replicate AS_PACKER_BUFFER_SIZE 0), pk_offset = 0,
       pk_capacity = AS_PACKER_BUFFER_SIZE, pk_allocs = allocs \<rparr>"

lemma serializer_packer_ok: "pk_ok (serializer_packer allocs)" "pk_bytes (serializer_packer allocs) = []"
  by (simp_all add: pk_ok_def pk_bytes_def)

lemma pk_malloc_ok:
  assumes "False \<notin> set (pk_allocs pk)"
  obtains oks where "pk_malloc pk = (True, pk\<lparr>pk_allocs := oks\<rparr>)" "False \<notin> set oks"
proof -
  obtain ok oks where m: "pk_malloc pk = (ok, pk\<lparr>pk_allocs := oks\<rparr>)" "set oks \<subseteq> set (pk_allocs pk)"
    "\<not> ok \<longrightarrow> False \<in> set (pk_allocs pk)"
    using pk_malloc_cases [of pk] by blast
  then show thesis
    using assms by (intro that [of oks]) auto
qed

lemma serialize_collects:
  assumes ok: "pk_ok pk" and buf: "pk_buffer pk = Some b" and head: "pk_head pk \<noteq> []"
    and n: "n = pk_offset pk + sum_list (map pb_length (pk_head pk))"
  shows "do { (target, off) \<leftarrow> combine (replicate n 0) 0 (pk_head pk);
              bs \<leftarrow> mem_read b 0 (pk_offset pk);
              target \<leftarrow> mem_write target off bs;
              Some (0 :: int, Some \<lparr> buf_capacity = n, buf_size = n, buf_data = target \<rparr>) } =
    Some (0, Some \<lparr> buf_capacity = n, buf_size = n, buf_data = pk_bytes pk \<rparr>)"
proof -
  let ?c = "concat (map (\<lambda>e. take (pb_length e) (pb_buffer e)) (pk_head pk))"
  let ?s = "sum_list (map pb_length (pk_head pk))"
  have all: "\<forall>e \<in> set (pk_head pk). pb_length e \<le> length (pb_buffer e)" and b: "pk_offset pk \<le> length b"
    using ok buf by (auto simp: pk_ok_def)
  have c: "combine (replicate n 0) 0 (pk_head pk) = Some (?c @ replicate (pk_offset pk) 0, ?s)"
    using combine_chain [OF all, of "replicate n 0" "[]"] n by simp
  have r: "mem_read b 0 (pk_offset pk) = Some (take (pk_offset pk) b)"
    using b by (simp add: mem_read_def)
  have w: "mem_write (?c @ replicate (pk_offset pk) 0) ?s (take (pk_offset pk) b) = Some (?c @ take (pk_offset pk) b)"
    using length_chain [OF all] b by (simp add: mem_write_def)
  show ?thesis
    using buf by (simp add: c r w pk_bytes_def)
qed

lemma pk_bytes_length:
  assumes "pk_ok pk" and "pk_buffer pk = Some b"
  shows "length (pk_bytes pk) = pk_offset pk + sum_list (map pb_length (pk_head pk))"
  using assms length_chain [of "pk_head pk"] by (simp add: pk_bytes_def pk_ok_def)

lemma serialize_writes:
  assumes enc: "enc_opt v = Some bs" and allocs: "False \<notin> set allocs"
  shows "\<exists>b. as_msgpack_serializer_serialize h allocs v = Some (0, Some b) \<and>
      buf_size b = length bs \<and> buf_size b \<le> length (buf_data b) \<and> take (buf_size b) (buf_data b) = bs"
proof -
  obtain oks where m1: "pk_malloc (serializer_packer allocs) = (True, serializer_packer oks)" "False \<notin> set oks"
    using pk_malloc_ok [of "serializer_packer allocs"] allocs by auto
  obtain pk where p: "pack_opt h (serializer_packer oks) v = Some (pk, 0)" "appended (serializer_packer oks) pk bs"
    using packsD [OF packs_val(2) serializer_packer_ok(1) [of oks], of h v] enc m1(2) by auto
  then obtain b where b: "pk_ok pk" "pk_buffer pk = Some b" "pk_bytes pk = bs" "False \<notin> set (pk_allocs pk)"
    using serializer_packer_ok(2) [of oks] m1(2) by (auto simp: appended_def)
  let ?n = "pk_offset pk + sum_list (map pb_length (pk_head pk))"
  have n: "?n = length bs"
    using pk_bytes_length [OF b(1,2)] b(3) by simp
  show "\<exists>b. as_msgpack_serializer_serialize h allocs v = Some (0, Some b) \<and>
      buf_size b = length bs \<and> buf_size b \<le> length (buf_data b) \<and> take (buf_size b) (buf_data b) = bs"
  proof (cases "pk_head pk = []")
    case True
    then have "as_msgpack_serializer_serialize h allocs v =
        Some (0, Some \<lparr> buf_capacity = pk_capacity pk, buf_size = pk_offset pk, buf_data = b \<rparr>)"
      by (simp add: as_msgpack_serializer_serialize_def m1 p(1) b(2))
    moreover have "bs = take (pk_offset pk) b" "pk_offset pk \<le> length b"
      using b True by (auto simp: pk_bytes_def pk_ok_def)
    ultimately show ?thesis
      using n True by simp
  next
    case False
    obtain oks2 where m2: "pk_malloc pk = (True, pk\<lparr>pk_allocs := oks2\<rparr>)"
      using pk_malloc_ok [OF b(4)] by blast
    have "as_msgpack_serializer_serialize h allocs v =
        Some (0, Some \<lparr> buf_capacity = ?n, buf_size = ?n, buf_data = bs \<rparr>)"
      using False b(2) serialize_collects [OF b(1,2) False refl]
      by (simp add: as_msgpack_serializer_serialize_def m1 p(1) m2 b(3) Let_def)
    then show ?thesis
      using n by simp
  qed
qed


definition small_value :: as_val where
  "small_value = AsList [Some (AsInteger 300), Some (AsString [97]), Some (AsBoolean True)]"

lemma enc_small_value: "enc_opt (Some small_value) = Some [0x93, 0xcd, 1, 44, 0xa2, 3, 97, 0xc3]"
  by (simp add: small_value_def enc_list_header_def enc_int_def enc_raw_def be16_def AS_BYTES_STRING_def)


lemma serialize_refuses:
  assumes enc: "enc_opt v = None"
  shows "\<exists>rc. rc \<noteq> 0 \<and> as_msgpack_serializer_serialize h allocs v = Some (rc, None)"
proof -
  obtain ok oks where m: "pk_malloc (serializer_packer allocs) = (ok, serializer_packer oks)"
    using pk_malloc_cases [of "serializer_packer allocs"] by auto
  obtain pk' rc where "pack_opt h (serializer_packer oks) v = Some (pk', rc)" "rc \<noteq> 0"
    using packsD [OF packs_val(2) serializer_packer_ok(1) [of oks], of h v] enc by auto
  then show ?thesis
    by (auto simp: as_msgpack_serializer_serialize_def m)
qed

text \<open>
  A value that holds a record or a null pointer has no encoding: the serializer answers an error code
  and no buffer, and the size request answers zero, whatever the allocator does.
\<close>

theorem serialize_rejects:
  assumes enc: "enc_opt v = None"
  shows "as_msgpack_serializer_serialize_getsize h v = Some 0 \<and>
    (\<exists>rc. rc \<noteq> 0 \<and> as_msgpack_serializer_serialize h allocs v = Some (rc, None))"
proof (intro conjI serialize_refuses [OF enc])
  let ?pk = "\<lparr> pk_head = [], pk_buffer = None, pk_offset = 0, pk_capacity = 0, pk_allocs = [] \<rparr>"
  have "pk_ok ?pk"
    by (simp add: pk_ok_def)
  then obtain pk' rc where "pack_opt h ?pk v = Some (pk', rc)" "rc \<noteq> 0"
    using packsD [OF packs_val(2) [of h v], of ?pk] enc by auto
  then show "as_msgpack_serializer_serialize_getsize h v = Some 0"
    by (simp add: as_msgpack_serializer_serialize_getsize_def)
qed

theorem serialize_rejects_witness:
  "enc_opt (Some (AsList [Some AsNil, None])) = None \<and>
   as_msgpack_serializer_serialize_getsize Big_Endian (Some (AsList [Some AsNil, None])) = Some 0 \<and>
   (\<exists>rc. rc \<noteq> 0 \<and> as_msgpack_serializer_serialize Big_Endian [] (Some (AsList [Some AsNil, None])) = Some (rc, None))"
  using serialize_rejects [of "Some (AsList [Some AsNil, None])" Big_Endian "[]"] by simp

end
