(* ===== verification/MsgpackDecode.thy ===== *)
theory MsgpackDecode
  imports MsgpackProps
begin

text \<open>
  Correctness of the msgpack decoder: what it makes of each header, the round trip from the serializer of
  one machine to the decoder of another, for which buffers it ends, and two buffers on which it goes wrong.
\<close>

subsection \<open>What the decoder makes of the headers\<close>

lemma fetch_at:
  "off = int (length pre) \<Longrightarrow> n = length ys \<Longrightarrow> fetch (pre @ ys @ post) off n = Some ys"
  by (simp add: fetch_def mem_simps)

lemma fetch_after:
  assumes "n = length rest"
  shows "fetch (pre @ t # rest @ post) (int (length pre) + 1) n = Some rest"
  using fetch_at [of "int (length pre) + 1" "pre @ [t]" n rest post] assms by simp

lemma fetch_one: "fetch (pre @ t # b # post) (int (length pre) + 1) (Suc 0) = Some [b]"
  using fetch_after [of 1 "[b]" pre t post] by simp

lemma extract_be:
  "as_extract_uint16 h (pre @ t # be16 w @ post) (int (length pre) + 1) = Some (w, int (length pre) + 3)"
  "as_extract_uint32 h (pre @ t # be32 x @ post) (int (length pre) + 1) = Some (x, int (length pre) + 5)"
  "as_extract_uint64 h (pre @ t # be64 y @ post) (int (length pre) + 1) = Some (y, int (length pre) + 9)"
  by (simp_all add: as_extract_uint16_def as_extract_uint32_def as_extract_uint64_def fetch_after
      load_from_be16 load_from_be32 load_from_be64)

lemma head_simps:
  "unpack_head h buf off 0xc0 = Leaf (Done (Some AsNil, off, 0))"
  "unpack_head h buf off 0xc3 = Leaf (Done (Some (AsInteger 1), off, 0))"
  "unpack_head h buf off 0xc2 = Leaf (Done (Some (AsInteger 0), off, 0))"
  "unpack_head h buf off 0xd0 = Leaf (unpack_num (do { bs \<leftarrow> fetch buf off 1; Some (scast (hd bs), off + 1) }))"
  "unpack_head h buf off 0xcc = Leaf (unpack_num (do { bs \<leftarrow> fetch buf off 1; Some (ucast (hd bs), off + 1) }))"
  "unpack_head h buf off 0xd1 = Leaf (unpack_num (map_option (\<lambda>(n, off). (scast n, off)) (as_extract_uint16 h buf off)))"
  "unpack_head h buf off 0xcd = Leaf (unpack_num (map_option (\<lambda>(n, off). (ucast n, off)) (as_extract_uint16 h buf off)))"
  "unpack_head h buf off 0xce = Leaf (unpack_num (map_option (\<lambda>(n, off). (ucast n, off)) (as_extract_uint32 h buf off)))"
  "unpack_head h buf off 0xd3 = Leaf (unpack_num (as_extract_uint64 h buf off))"
  "unpack_head h buf off 0xcf = Leaf (unpack_num (as_extract_uint64 h buf off))"
  "unpack_head h buf off 0xda = sized Blob_Of (map_option (\<lambda>(n, off). (uint n, off)) (as_extract_uint16 h buf off))"
  "unpack_head h buf off 0xdb = sized Blob_Of (map_option (\<lambda>(n, off). (sint n, off)) (as_extract_uint32 h buf off))"
  "unpack_head h buf off 0xdc = sized List_Of (map_option (\<lambda>(n, off). (uint n, off)) (as_extract_uint16 h buf off))"
  "unpack_head h buf off 0xdd = sized List_Of (map_option (\<lambda>(n, off). (sint n, off)) (as_extract_uint32 h buf off))"
  "unpack_head h buf off 0xde = sized Map_Of (map_option (\<lambda>(n, off). (uint n, off)) (as_extract_uint16 h buf off))"
  "unpack_head h buf off 0xdf = sized Map_Of (map_option (\<lambda>(n, off). (sint n, off)) (as_extract_uint32 h buf off))"
  by (simp_all add: unpack_head_def Let_def map_option_bind comp_def)


lemma all_below:
  fixes n :: "'w::len word"
  assumes "n < of_nat k" and "\<forall>i \<in> set (map of_nat [0..<k]). P i"
  shows "P n"
proof -
  have "unat n < k"
    using assms(1) less_le_trans [OF _ mod_less_eq_dividend [of k "2 ^ LENGTH('w)"]]
    by (simp add: word_less_nat_alt unat_of_nat)
  then have "of_nat (unat n) \<in> set (map (of_nat :: nat \<Rightarrow> 'w word) [0..<k])"
    unfolding set_map by (intro imageI) simp
  from bspec [OF assms(2) this] show ?thesis
    by simp
qed

lemma head_fixlist: "n < 16 \<Longrightarrow> unpack_head h buf off (ucast (0x90 OR n :: u32)) = List_Of (uint n) off"
  by (rule all_below [of n 16]) (simp_all add: upt_rec unpack_head_def Let_def)

lemma head_fixmap: "n < 16 \<Longrightarrow> unpack_head h buf off (ucast (0x80 OR n :: u32)) = Map_Of (uint n) off"
  by (rule all_below [of n 16]) (simp_all add: upt_rec unpack_head_def Let_def)

lemma head_fixraw: "n < 32 \<Longrightarrow> unpack_head h buf off (ucast (0xa0 OR n :: u32)) = Blob_Of (uint n) off"
  by (rule all_below [of n 32]) (simp_all add: upt_rec unpack_head_def Let_def)

lemma head_negfix:
  "n < 32 \<Longrightarrow> unpack_head h buf off (ucast (0xe0 OR n :: u64)) = Leaf (Done (Some (AsInteger (n - 32)), off, 0))"
  by (rule all_below [of n 32]) (simp_all add: upt_rec unpack_head_def Let_def)

lemma head_posfix: "t < 128 \<Longrightarrow> unpack_head h buf off t = Leaf (Done (Some (AsInteger (ucast t)), off, 0))"
proof -
  assume t: "t < 128"
  have "t AND m < 128" for m
    using t word_and_le2 [of t m] le_less_trans by blast
  from this [of "0xe0"] this [of "0xf0"] have "t AND 0xe0 \<noteq> 0xa0" "t AND 0xf0 \<noteq> 0x80" "t AND 0xf0 \<noteq> 0x90"
    by auto
  moreover have "t \<noteq> k" if "128 \<le> k" for k
    using that t by auto
  ultimately show ?thesis
    using t by (simp add: unpack_head_def Let_def)
qed


lemma ucast_small:
  fixes i :: u64
  assumes "uint i < 2 ^ LENGTH('w)"
  shows "ucast (ucast i :: 'w::len word) = i"
proof -
  have "uint (ucast i :: 'w word) = uint i"
    using assms by (simp add: unsigned_ucast_eq take_bit_int_eq_self)
  then have "of_int (uint (ucast i :: 'w word)) = i"
    by simp
  then show ?thesis
    by simp
qed

lemma scast_small:
  fixes i :: u64
  assumes "- (2 ^ (LENGTH('w) - 1)) \<le> sint i" and "sint i < 2 ^ (LENGTH('w) - 1)" and "LENGTH('w) \<le> 64"
  shows "scast (ucast i :: 'w::len word) = i"
proof -
  have "sint (ucast i :: 'w word) = signed_take_bit (LENGTH('w) - 1) (sint i)"
    using assms(3) by (simp add: sint_uint unsigned_ucast_eq signed_take_bit_eq_iff_take_bit_eq)
  also have "\<dots> = sint i"
    using assms by (intro signed_take_bit_int_eq_self) auto
  finally have "of_int (sint (ucast i :: 'w word)) = i"
    by simp
  then show ?thesis
    by simp
qed


lemma sint_nonneg_uint:
  fixes i :: "'w::len word"
  assumes "0 \<le> sint i"
  shows "uint i = sint i"
proof -
  have "sint i < 2 ^ LENGTH('w)"
    using sint_lt [of i] by (rule less_le_trans) (rule power_increasing; simp)
  then show ?thesis
    unfolding uint_sint using assms by (intro take_bit_int_eq_self)
qed

lemma sint_below:
  fixes n :: u32
  assumes "unat n < 2 ^ 31"
  shows "sint n = uint n"
proof -
  have "n < 2147483648"
    using assms by (simp add: word_less_nat_alt)
  then have "uint n < 2147483648"
    by (simp add: word_less_def)
  then show ?thesis
    unfolding sint_uint
    by (intro signed_take_bit_int_eq_self order.trans [OF _ uint_ge_0 [of n]]) simp_all
qed

lemma unpack_int:
  assumes "enc_int i = t # rest"
  shows "unpack_head h (pre @ t # rest @ post) (int (length pre) + 1) t =
    Leaf (Done (Some (AsInteger i), int (length pre + length (enc_int i)), 0))"
proof (cases "0 \<le> sint i")
  case True
  then have u: "uint i = sint i"
    by (rule sint_nonneg_uint)
  consider "sint i < 128" | "128 \<le> sint i" "sint i < 256" | "256 \<le> sint i" "sint i < 65536"
    | "65536 \<le> sint i" "sint i < 4294967296" | "4294967296 \<le> sint i"
    by linarith
  then show ?thesis
  proof cases
    case 1
    then have "ucast (ucast i :: byte) = i"
      using u by (intro ucast_small) simp
    moreover have "(ucast i :: byte) < 128"
      using u True 1 by (simp add: word_less_def unsigned_ucast_eq take_bit_int_eq_self)
    ultimately show ?thesis
      using assms True 1 by (auto simp: enc_int_def head_posfix)
  next
    case 2
    then have "ucast (ucast i :: byte) = i"
      using u by (intro ucast_small) simp
    then show ?thesis
      using assms True 2
      by (auto simp: enc_int_def head_simps fetch_one unpack_num_def unpack_plain_def lift_opt_def)
  next
    case 3
    then have "ucast (ucast i :: u16) = i"
      using u by (intro ucast_small) simp
    then show ?thesis
      using assms True 3 by (auto simp: enc_int_def head_simps extract_be unpack_num_def unpack_plain_def lift_opt_def)
  next
    case 4
    then have "ucast (ucast i :: u32) = i"
      using u by (intro ucast_small) simp
    then show ?thesis
      using assms True 4 by (auto simp: enc_int_def head_simps extract_be unpack_num_def unpack_plain_def lift_opt_def)
  next
    case 5
    then show ?thesis
      using assms True by (auto simp: enc_int_def head_simps extract_be unpack_num_def unpack_plain_def lift_opt_def)
  qed
next
  case neg: False
  consider "- 32 \<le> sint i" | "sint i < - 32" "- 128 \<le> sint i" | "sint i < - 128" "- 32768 \<le> sint i" | "sint i < - 32768"
    by linarith
  then show ?thesis
  proof cases
    case 1
    have "sint (i + 32) = sint i + 32"
      using neg 1 unfolding sint_word_ariths by (subst signed_take_bit_int_eq_self) auto
    then have "i + 32 < 32"
      using neg 1 sint_nonneg_uint [of "i + 32"] unfolding word_less_def by simp
    then show ?thesis
      using assms neg 1 by (auto simp: enc_int_def head_negfix)
  next
    case 2
    then have sc: "scast (ucast i :: byte) = i"
      using neg scast_small [of i, where ?'w = 8] by simp
    show ?thesis
      using assms neg 2
      by (auto simp: sc enc_int_def head_simps fetch_one unpack_num_def unpack_plain_def lift_opt_def)
  next
    case 3
    then have sc: "scast (ucast i :: u16) = i"
      using neg scast_small [of i, where ?'w = 16] by simp
    show ?thesis
      using assms neg 3 by (auto simp: sc enc_int_def head_simps extract_be unpack_num_def unpack_plain_def lift_opt_def)
  next
    case 4
    then show ?thesis
      using assms neg by (auto simp: enc_int_def head_simps extract_be unpack_num_def unpack_plain_def lift_opt_def)
  qed
qed


lemma uint_short: "n < 65536 \<Longrightarrow> uint (ucast (n :: u32) :: u16) = uint n"
  by (simp add: unsigned_ucast_eq word_less_def take_bit_int_eq_self)

text \<open>The three forms of a header decode to the number they were made from.\<close>

lemma unpack_list_header:
  assumes "unat n < 2 ^ 31" and "enc_list_header n = t # rest"
  shows "unpack_head h (pre @ t # rest @ post) (int (length pre) + 1) t =
    List_Of (uint n) (int (length pre + length (enc_list_header n)))"
proof -
  consider "n < 16" | "\<not> n < 16" "n < 65536" | "\<not> n < 16" "\<not> n < 65536"
    by blast
  then show ?thesis
    by cases (use assms in \<open>auto simp: enc_list_header_def head_fixlist head_simps extract_be sized_def uint_short sint_below\<close>)
qed

lemma unpack_map_header:
  assumes "unat n < 2 ^ 31" and "enc_map_header n = t # rest"
  shows "unpack_head h (pre @ t # rest @ post) (int (length pre) + 1) t =
    Map_Of (uint n) (int (length pre + length (enc_map_header n)))"
proof -
  consider "n < 16" | "\<not> n < 16" "n < 65536" | "\<not> n < 16" "\<not> n < 65536"
    by blast
  then show ?thesis
    by cases (use assms in \<open>auto simp: enc_map_header_def head_fixmap head_simps extract_be sized_def uint_short sint_below\<close>)
qed

definition enc_raw_header :: "u32 \<Rightarrow> byte list" where
  "enc_raw_header n = (if n < 32 then [ucast (0xa0 OR n)] else if n < 65536 then 0xda # be16 (ucast n) else 0xdb # be32 n)"

lemma enc_raw_split: "enc_raw t bs = enc_raw_header (of_nat (length bs) + 1) @ t # bs"
  by (simp add: enc_raw_def enc_raw_header_def Let_def)

lemma unpack_raw_header:
  assumes "unat n < 2 ^ 31" and "enc_raw_header n = t # rest"
  shows "unpack_head h (pre @ t # rest @ post) (int (length pre) + 1) t =
    Blob_Of (uint n) (int (length pre + length (enc_raw_header n)))"
proof -
  consider "n < 32" | "\<not> n < 32" "n < 65536" | "\<not> n < 32" "\<not> n < 65536"
    by blast
  then show ?thesis
    by cases (use assms in \<open>auto simp: enc_raw_header_def head_fixraw head_simps extract_be sized_def uint_short sint_below\<close>)
qed

lemma header_not_empty: "enc_list_header n \<noteq> []" "enc_map_header n \<noteq> []" "enc_raw_header n \<noteq> []" "enc_int i \<noteq> []"
  by (simp_all add: enc_list_header_def enc_map_header_def enc_raw_header_def enc_int_def Let_def)

subsection \<open>Round trip\<close>

text \<open>
  What arrives of a value.  A boolean arrives as an integer and a blob of the string type as a string; a
  string arrives up to its first zero.
\<close>

fun dec_leaf :: "as_val \<Rightarrow> as_val" where
  "dec_leaf (AsBoolean b) = AsInteger (if b then 1 else 0)"
| "dec_leaf (AsString s) = AsString (c_str s)"
| "dec_leaf (AsBytes t b) = (if t = AS_BYTES_STRING then AsString (c_str b) else AsBytes t b)"
| "dec_leaf v = v"

fun leaf_len :: "as_val \<Rightarrow> nat" where
  "leaf_len (AsString s) = length s"
| "leaf_len (AsBytes t b) = length b"
| "leaf_len v = 0"

text \<open>
  A pair arrives as a list of two, and a map in the order in which its entries fall into the hash table.
\<close>

inductive received :: "as_val \<Rightarrow> as_val \<Rightarrow> bool" where
  leaf: "is_valid_key_type (Some v) \<Longrightarrow> received v (dec_leaf v)"
| list: "list_all2 received vs ws \<Longrightarrow> received (AsList (map Some vs)) (AsList (map Some ws))"
| pair: "received a a' \<Longrightarrow> received b b' \<Longrightarrow> received (AsPair (Some a) (Some b)) (AsList [Some a', Some b'])"
| map: "list_all2 received vs ws \<Longrightarrow> length ks = length vs \<Longrightarrow>
    mset es = mset (zip (map dec_leaf ks) (map Some ws)) \<Longrightarrow> received (AsMap (zip ks (map Some vs))) (AsMap es)"

text \<open>
  The values that survive the trip: no null pointers and no records, sizes the decoder can hold, and maps
  whose keys it can hash and tell apart after decoding.
\<close>

inductive sendable :: "as_val \<Rightarrow> bool" where
  leaf: "is_valid_key_type (Some v) \<Longrightarrow> leaf_len v + 1 < 2 ^ 31 \<Longrightarrow> sendable v"
| list: "\<forall>v \<in> set vs. sendable v \<Longrightarrow> length vs \<le> 2 ^ 30 \<Longrightarrow> sendable (AsList (map Some vs))"
| pair: "sendable a \<Longrightarrow> sendable b \<Longrightarrow> sendable (AsPair (Some a) (Some b))"
| map: "\<forall>v \<in> set vs. sendable v \<Longrightarrow> length vs < 2 ^ 31 \<Longrightarrow> length ks = length vs \<Longrightarrow>
    \<forall>k \<in> set ks. hashable_key (dec_leaf k) \<and> sendable k \<Longrightarrow> distinct (map (key_norm \<circ> dec_leaf) ks) \<Longrightarrow>
    sendable (AsMap (zip ks (map Some vs)))"

inductive_cases received_leafE: "received v w"

lemma received_leaf: "received v w \<Longrightarrow> is_valid_key_type (Some v) \<Longrightarrow> w = dec_leaf v"
  by (erule received_leafE) auto

lemma hashable_dec_leaf: "hashable_key (dec_leaf k) \<Longrightarrow> is_valid_key_type (Some k)"
  by (cases k) auto

abbreviation bs_of :: "as_val \<Rightarrow> byte list" where
  "bs_of v \<equiv> the (enc_val v)"

definition decodes :: "as_val \<Rightarrow> bool" where
  "decodes v \<longleftrightarrow> enc_val v = Some (bs_of v) \<and> (\<forall>pf pre post fuel. length (bs_of v) \<le> fuel \<longrightarrow> (hpux_libc pf \<longrightarrow> 0 \<in> set post) \<longrightarrow>
     (\<exists>w. received v w \<and>
       as_unpack_val pf (pre @ bs_of v @ post) fuel (int (length pre)) = Done (Some w, int (length pre + length (bs_of v)), 0)))"

lemma decodesD:
  assumes "decodes v" and "length (bs_of v) \<le> fuel" and "hpux_libc pf \<longrightarrow> 0 \<in> set post"
  obtains w where "received v w"
    "as_unpack_val pf (pre @ bs_of v @ post) fuel (int (length pre)) = Done (Some w, int (length pre + length (bs_of v)), 0)"
  using assms unfolding decodes_def by blast

lemma unpack_step:
  "as_unpack_val pf (pre @ t # rest) (Suc f) (int (length pre)) =
     (case unpack_head (byte_order pf) (pre @ t # rest) (int (length pre) + 1) t of
       Leaf r \<Rightarrow> r
     | Bad \<Rightarrow> Done (None, int (length pre) + 1, 2)
     | Blob_Of n off \<Rightarrow> unpack_plain (as_unpack_blob pf (pre @ t # rest) off n)
     | List_Of n off \<Rightarrow>
         outcome_bind (lift_opt (as_arraylist_new True True (of_int n) 8)) (\<lambda>l.
         outcome_bind (unpack_list_loop pf (pre @ t # rest) f (nat n) 0 l off) (\<lambda>(l, off).
         outcome_bind (lift_opt (mem_read (elements l) 0 (unat (al_size l)))) (\<lambda>xs.
         Done (Some (AsList xs), off, 0))))
     | Map_Of n off \<Rightarrow>
         outcome_bind (lift_opt (as_hashmap_new True True (of_int (if n > 32 then n else 32)))) (\<lambda>m.
         outcome_bind (unpack_map_loop pf (pre @ t # rest) f (nat n) m off) (\<lambda>(m, off).
         outcome_bind (lift_opt (used_extras m)) (\<lambda>es.
         Done (Some (AsMap (concat (map entry_of (table m @ es)))), off, 0)))))"
proof -
  have "fetch (pre @ [t] @ rest) (int (length pre)) 1 = Some [t]"
    by (rule fetch_at) simp_all
  then show ?thesis
    by (simp add: lift_opt_def)
qed

lemma take_c_str: "take (length s) (c_str (s @ post)) = c_str s"
  unfolding c_str_def by (induction s) auto

lemma decodes_raw:
  assumes len: "length s + 1 < 2 ^ 31" and f: "length (enc_raw t s) \<le> fuel" and z: "hpux_libc pf \<longrightarrow> 0 \<in> set post"
  shows "as_unpack_val pf (pre @ enc_raw t s @ post) fuel (int (length pre)) =
    Done (Some (dec_leaf (AsBytes t s)), int (length pre + length (enc_raw t s)), 0)"
proof -
  let ?n = "of_nat (length s) + 1 :: u32"
  have n: "unat ?n = length s + 1"
    using len by (simp add: unat_word_ariths unat_of_nat)
  then have un: "uint ?n = int (length s) + 1"
    by (metis int_ops(2) of_nat_add uint_nat)
  obtain t0 rest where h: "enc_raw_header ?n = t0 # rest"
    using header_not_empty(3) [of ?n] by (cases "enc_raw_header ?n") auto
  obtain f' where f': "fuel = Suc f'"
    using f by (cases fuel) (auto simp: enc_raw_split)
  let ?pre = "pre @ enc_raw_header ?n"
  let ?buf = "?pre @ t # s @ post"
  have b: "fetch ?buf (int (length ?pre)) 1 = Some [t]"
    using fetch_at [of "int (length ?pre)" ?pre 1 "[t]" "s @ post"] by simp
  have d: "fetch ?buf (int (length ?pre) + 1) (length s) = Some s"
    by (rule fetch_after) simp
  have e: "cf_strndup (hpux_libc pf) ?buf (int (length ?pre) + 1) (int (length s)) = Some (c_str s)"
  proof -
    have "drop (nat (int (length ?pre) + 1)) ?buf = s @ post"
      by (simp add: nat_add_distrib)
    then show ?thesis
      using z take_c_str [of s post] by (auto simp: cf_strndup_def)
  qed
  have "as_unpack_blob pf ?buf (int (length ?pre)) (uint ?n) =
      Some (dec_leaf (AsBytes t s), int (length ?pre) + 1 + int (length s))"
    unfolding as_unpack_blob_def b un using d e by (auto simp: Let_def)
  moreover have "as_unpack_val pf ?buf fuel (int (length pre)) =
      unpack_plain (as_unpack_blob pf ?buf (int (length ?pre)) (uint ?n))"
  proof -
    have "unat ?n < 2 ^ 31"
      using n len by simp
    then show ?thesis
      unfolding f' h
      using unpack_step [of pf pre t0 "rest @ t # s @ post" f'] unpack_raw_header [OF _ h, of "byte_order pf" pre "t # s @ post"]
      by (simp add: h)
  qed
  ultimately show ?thesis
    by (simp add: enc_raw_split unpack_plain_def lift_opt_def)
qed


lemma decodes_leaf:
  assumes v: "is_valid_key_type (Some v)" and len: "leaf_len v + 1 < 2 ^ 31"
  shows "decodes v"
proof -
  have "as_unpack_val pf (pre @ bs_of v @ post) fuel (int (length pre)) =
      Done (Some (dec_leaf v), int (length pre + length (bs_of v)), 0)"
    if f: "length (bs_of v) \<le> fuel" and z: "hpux_libc pf \<longrightarrow> 0 \<in> set post" for pf pre post fuel
  proof (cases v)
    case (AsInteger i)
    obtain t rest where h: "enc_int i = t # rest"
      using header_not_empty(4) [of i] by (cases "enc_int i") auto
    obtain f' where "fuel = Suc f'"
      using f AsInteger h by (cases fuel) auto
    then show ?thesis
      using AsInteger h unpack_step [of pf pre t "rest @ post" f'] unpack_int [OF h, of "byte_order pf" pre post] by simp
  next
    case (AsString s)
    then show ?thesis
      using decodes_raw [of s AS_BYTES_STRING fuel pf post pre] len f z by simp
  next
    case (AsBytes t b)
    then show ?thesis
      using decodes_raw [of b t fuel pf post pre] len f z by simp
  next
    case AsNil
    then obtain f' where "fuel = Suc f'"
      using f by (cases fuel) auto
    then show ?thesis
      using AsNil unpack_step [of pf pre "0xc0" post f'] by (simp add: head_simps)
  next
    case (AsBoolean b)
    then obtain f' where "fuel = Suc f'"
      using f by (cases fuel) auto
    then show ?thesis
      using AsBoolean unpack_step [of pf pre "0xc3" post f'] unpack_step [of pf pre "0xc2" post f'] by (simp add: head_simps)
  qed (use v in simp_all)
  moreover have "enc_val v = Some (bs_of v)"
    using v by (cases v) auto
  ultimately show ?thesis
    unfolding decodes_def using received.leaf [OF v] by blast
qed

lemma decodes_enc: "decodes v \<Longrightarrow> \<exists>bs. enc_val v = Some bs"
  unfolding decodes_def by blast

lemma enc_list_values: "\<forall>v \<in> set vs. decodes v \<Longrightarrow> enc_list (map Some vs) = Some (concat (map bs_of vs))"
  by (induction vs) (auto dest: decodes_enc)

lemma list_loop:
  assumes "\<forall>v \<in> set vs. decodes v \<and> length (bs_of v) \<le> fuel" and z: "hpux_libc pf \<longrightarrow> 0 \<in> set post"
  shows "\<exists>ws. list_all2 received vs ws \<and> (\<forall>l i l'. fill al_store l i (map Some ws) = Some l' \<longrightarrow>
    unpack_list_loop pf (pre @ concat (map bs_of vs) @ post) fuel (length vs) (of_nat i) l (int (length pre)) =
      Done (l', int (length pre + length (concat (map bs_of vs)))))"
  using assms(1)
proof (induction vs arbitrary: pre)
  case Nil
  then show ?case
    by auto
next
  case (Cons v vs)
  let ?post = "concat (map bs_of vs) @ post"
  have "hpux_libc pf \<longrightarrow> 0 \<in> set ?post" "decodes v" "length (bs_of v) \<le> fuel"
    using z Cons.prems by auto
  then obtain w where w: "received v w"
    "as_unpack_val pf (pre @ bs_of v @ ?post) fuel (int (length pre)) = Done (Some w, int (length pre + length (bs_of v)), 0)"
    by (meson decodesD)
  from Cons.prems Cons.IH [of "pre @ bs_of v"] obtain ws where ws: "list_all2 received vs ws"
    "\<forall>l i l'. fill al_store l i (map Some ws) = Some l' \<longrightarrow>
      unpack_list_loop pf ((pre @ bs_of v) @ ?post) fuel (length vs) (of_nat i) l (int (length (pre @ bs_of v))) =
        Done (l', int (length (pre @ bs_of v) + length (concat (map bs_of vs))))"
    by auto
  show ?case
  proof (intro exI [of _ "w # ws"] conjI allI impI)
    fix l i l' assume fl: "fill al_store l i (map Some (w # ws)) = Some l'"
    then obtain l1 where l1: "as_arraylist_set True l (of_nat i) (Some w) = Some (l1, AS_ARRAYLIST_OK)"
      "fill al_store l1 (Suc i) (map Some ws) = Some l'"
      by (auto simp: al_store_def ok_list_def bind_eq_Some_conv split: if_splits)
    have next_i: "of_nat (Suc i) = (of_nat i + 1 :: u32)"
      by simp
    show "unpack_list_loop pf (pre @ concat (map bs_of (v # vs)) @ post) fuel (length (v # vs)) (of_nat i) l (int (length pre)) =
        Done (l', int (length pre + length (concat (map bs_of (v # vs)))))"
      using w(2) l1(1) ws(2) [rule_format, OF l1(2)] unfolding next_i by (simp add: lift_opt_def add_ac)
  qed (use w ws in simp)
qed


lemma member_len: "v \<in> set vs \<Longrightarrow> length (bs_of v) \<le> length (concat (map bs_of vs))"
  by (induction vs) auto

text \<open>The decoder on a list header followed by the encodings of the elements.\<close>

lemma unpack_list:
  assumes vs: "\<forall>v \<in> set vs. decodes v" and len: "length vs \<le> 2 ^ 30" and z: "hpux_libc pf \<longrightarrow> 0 \<in> set post"
    and bs: "bs = enc_list_header (of_nat (length vs)) @ concat (map bs_of vs)" and f: "length bs \<le> fuel"
  shows "\<exists>ws. list_all2 received vs ws \<and>
    as_unpack_val pf (pre @ bs @ post) fuel (int (length pre)) = Done (Some (AsList (map Some ws)), int (length pre + length bs), 0)"
proof -
  let ?n = "of_nat (length vs) :: u32"
  let ?pre = "pre @ enc_list_header ?n"
  have n: "unat ?n = length vs" "uint ?n = int (length vs)"
    using len by (simp_all add: unat_of_nat uint_nat)
  obtain t rest where h: "enc_list_header ?n = t # rest"
    using header_not_empty(1) [of ?n] by (cases "enc_list_header ?n") auto
  obtain f' where f': "fuel = Suc f'" "length (concat (map bs_of vs)) \<le> f'"
    using f bs h by (cases fuel) auto
  then have "\<forall>v \<in> set vs. decodes v \<and> length (bs_of v) \<le> f'"
    using vs member_len [of _ vs] by (meson order.trans)
  from list_loop [OF this z, of ?pre] obtain ws where ws: "list_all2 received vs ws"
    "\<forall>l i l'. fill al_store l i (map Some ws) = Some l' \<longrightarrow>
      unpack_list_loop pf (?pre @ concat (map bs_of vs) @ post) f' (length vs) (of_nat i) l (int (length ?pre)) =
      Done (l', int (length ?pre + length (concat (map bs_of vs))))"
    by blast
  define l where "l = (\<lparr> block_size = 8, capacity = ?n, al_size = 0,
    elements = (if 0 < ?n then replicate (unat ?n) None else []), al_free = (0 < ?n) \<rparr> :: as_val as_arraylist)"
  have new: "as_arraylist_new True True ?n 8 = Some l"
    by (simp add: as_arraylist_new_def l_def)
  have "al_growing l []"
    using n(1) len by (auto simp: al_growing_def al_rep_def l_def word_gt_0)
  moreover have "length ws = length vs"
    using ws(1) by (simp add: list_all2_lengthD)
  ultimately obtain l' where l': "fill al_store l 0 (map Some ws) = Some l'" "al_growing l' (map Some ws)"
    using al.fill_rep [of l "[]" 0 "map Some ws"] fill_list_dense [of "[]" ws] len by auto
  have rd: "mem_read (elements l') 0 (unat (al_size l')) = Some (map Some ws)"
    using l'(2) by (auto simp: al_growing_def al_rep_def mem_read_def)
  have "unat ?n < 2 ^ 31"
    using n(1) len by simp
  then have head: "unpack_head (byte_order pf) (pre @ t # rest @ concat (map bs_of vs) @ post) (int (length pre) + 1) t =
      List_Of (int (length vs)) (int (length ?pre))"
    using unpack_list_header [OF _ h, of "byte_order pf" pre "concat (map bs_of vs) @ post"] n(2) by simp
  have "as_unpack_val pf (pre @ bs @ post) fuel (int (length pre)) =
      Done (Some (AsList (map Some ws)), int (length ?pre + length (concat (map bs_of vs))), 0)"
    using unpack_step [of pf pre t "rest @ concat (map bs_of vs) @ post" f'] head new rd ws(2) [rule_format, OF l'(1)]
    by (simp add: bs h f'(1) lift_opt_def)
  then show ?thesis
    using ws(1) bs by (auto simp: add_ac)
qed

lemma decodes_list:
  assumes vs: "\<forall>v \<in> set vs. decodes v" and len: "length vs \<le> 2 ^ 30"
  shows "decodes (AsList (map Some vs))"
proof -
  have enc: "enc_val (AsList (map Some vs)) = Some (enc_list_header (of_nat (length vs)) @ concat (map bs_of vs))"
    using enc_list_values [OF vs] by simp
  show ?thesis
    unfolding decodes_def enc option.sel
  proof (intro conjI refl allI impI)
    fix pf :: platform and pre post :: "byte list" and fuel
    assume f: "length (enc_list_header (of_nat (length vs)) @ concat (map bs_of vs)) \<le> fuel"
      and z: "hpux_libc pf \<longrightarrow> 0 \<in> set post"
    show "\<exists>w. received (AsList (map Some vs)) w \<and>
      as_unpack_val pf (pre @ (enc_list_header (of_nat (length vs)) @ concat (map bs_of vs)) @ post) fuel (int (length pre)) =
        Done (Some w, int (length pre + length (enc_list_header (of_nat (length vs)) @ concat (map bs_of vs))), 0)"
      using unpack_list [OF vs len z refl f, of pre] received.list by blast
  qed
qed

lemma decodes_pair:
  assumes "decodes a" and "decodes b"
  shows "decodes (AsPair (Some a) (Some b))"
proof -
  obtain x y where xy: "enc_val a = Some x" "enc_val b = Some y"
    using assms decodes_enc by blast
  let ?bs = "enc_list_header (of_nat (length [a, b])) @ concat (map bs_of [a, b])"
  have enc: "enc_val (AsPair (Some a) (Some b)) = Some ?bs"
    using xy by (simp add: enc_list_header_def)
  have two: "\<exists>a' b'. ws = [a', b'] \<and> received a a' \<and> received b b'" if "list_all2 received [a, b] ws" for ws
    using that by (auto simp: list_all2_Cons1)
  have ab: "\<forall>v \<in> set [a, b]. decodes v" "length [a, b] \<le> 2 ^ 30"
    using assms by auto
  have "\<exists>w. received (AsPair (Some a) (Some b)) w \<and>
      as_unpack_val pf (pre @ ?bs @ post) fuel (int (length pre)) = Done (Some w, int (length pre + length ?bs), 0)"
    if f: "length ?bs \<le> fuel" and z: "hpux_libc pf \<longrightarrow> 0 \<in> set post" for pf :: platform and pre post fuel
  proof -
    obtain ws where ws: "list_all2 received [a, b] ws"
      "as_unpack_val pf (pre @ ?bs @ post) fuel (int (length pre)) =
        Done (Some (AsList (map Some ws)), int (length pre + length ?bs), 0)"
      using unpack_list [OF ab z refl f] by blast
    obtain a' b' where "ws = [a', b']" "received a a'" "received b b'"
      using two [OF ws(1)] by blast
    then show ?thesis
      using ws(2) received.pair by (intro exI [of _ "AsList (map Some ws)"]) simp
  qed
  then show ?thesis
    unfolding decodes_def enc option.sel by blast
qed


lemma enc_map_values:
  "length ks = length vs \<Longrightarrow> \<forall>v \<in> set vs. decodes v \<Longrightarrow> \<forall>k \<in> set ks. decodes k \<Longrightarrow>
   enc_map (zip ks (map Some vs)) = Some (concat (map2 (\<lambda>k v. bs_of k @ bs_of v) ks vs))"
  by (induction ks vs rule: list_induct2) (auto dest!: decodes_enc)

lemma without_absent: "\<forall>e \<in># es. key_norm (fst e) \<noteq> key_norm k \<Longrightarrow> without_key k es = es"
  by (auto simp: without_key_def filter_mset_eq_conv)

lemma map_loop:
  assumes "length ks = length vs" and "\<forall>v \<in> set vs. decodes v \<and> length (bs_of v) \<le> fuel"
    and "\<forall>k \<in> set ks. decodes k \<and> length (bs_of k) \<le> fuel \<and> hashable_key (dec_leaf k)"
    and "distinct (map (key_norm \<circ> dec_leaf) ks)"
    and "\<forall>e \<in># hm_mset m. \<forall>k \<in> set ks. key_norm (fst e) \<noteq> key_norm (dec_leaf k)"
    and "hm_wf (char_signed pf) m ch fq" and z: "hpux_libc pf \<longrightarrow> 0 \<in> set post"
  shows "\<exists>ws m' ch' fq'. list_all2 received vs ws \<and> hm_wf (char_signed pf) m' ch' fq' \<and>
    hm_mset m' = hm_mset m + mset (zip (map dec_leaf ks) (map Some ws)) \<and>
    unpack_map_loop pf (pre @ concat (map2 (\<lambda>k v. bs_of k @ bs_of v) ks vs) @ post) fuel (length vs) m (int (length pre)) =
      Done (m', int (length pre + length (concat (map2 (\<lambda>k v. bs_of k @ bs_of v) ks vs))))"
  using assms(1-6)
proof (induction ks vs arbitrary: pre m ch fq rule: list_induct2)
  case Nil
  then show ?case
    by auto
next
  case (Cons k ks v vs)
  let ?rest = "concat (map2 (\<lambda>k v. bs_of k @ bs_of v) ks vs)"
  let ?buf = "pre @ bs_of k @ bs_of v @ ?rest @ post"
  have k: "decodes k" "length (bs_of k) \<le> fuel" "hashable_key (dec_leaf k)"
    and v: "decodes v" "length (bs_of v) \<le> fuel"
    using Cons.prems by simp_all
  have "hpux_libc pf \<longrightarrow> 0 \<in> set (bs_of v @ ?rest @ post)" and zv: "hpux_libc pf \<longrightarrow> 0 \<in> set (?rest @ post)"
    using z by auto
  from decodesD [OF k(1,2) this(1), of pre] obtain k' where k': "received k k'"
    "as_unpack_val pf ?buf fuel (int (length pre)) = Done (Some k', int (length pre + length (bs_of k)), 0)" .
  from decodesD [OF v zv, of "pre @ bs_of k"] obtain w where w: "received v w"
    "as_unpack_val pf ?buf fuel (int (length pre + length (bs_of k))) =
       Done (Some w, int (length pre + length (bs_of k) + length (bs_of v)), 0)"
    by auto
  have key: "k' = dec_leaf k"
    using received_leaf [OF k'(1) hashable_dec_leaf [OF k(3)]] .
  obtain m1 ch1 fq1 where m1: "as_hashmap_set (char_signed pf) True m (Some k') (Some w) = Some (m1, 0)"
    "hm_wf (char_signed pf) m1 ch1 fq1" "hm_mset m1 = without_key k' (hm_mset m) + {#(k', Some w)#}"
    using set_wf [OF Cons.prems(5) k(3) [folded key], of True "Some w"] by blast
  have "without_key k' (hm_mset m) = hm_mset m"
    using Cons.prems(4) key by (intro without_absent) simp
  then have set1: "hm_mset m1 = hm_mset m + {#(k', Some w)#}"
    using m1(3) by simp
  have dist: "\<forall>e \<in># hm_mset m1. \<forall>k \<in> set ks. key_norm (fst e) \<noteq> key_norm (dec_leaf k)"
    using Cons.prems(3,4) unfolding set1 key by auto
  have "\<exists>ws m' ch' fq'. list_all2 received vs ws \<and> hm_wf (char_signed pf) m' ch' fq' \<and>
    hm_mset m' = hm_mset m1 + mset (zip (map dec_leaf ks) (map Some ws)) \<and>
    unpack_map_loop pf ((pre @ bs_of k @ bs_of v) @ ?rest @ post) fuel (length vs) m1 (int (length (pre @ bs_of k @ bs_of v))) =
      Done (m', int (length (pre @ bs_of k @ bs_of v) + length ?rest))"
    using Cons.prems by (intro Cons.IH [OF _ _ _ dist m1(2)]) auto
  then obtain ws m' ch' fq' where rec: "list_all2 received vs ws" "hm_wf (char_signed pf) m' ch' fq'"
    "hm_mset m' = hm_mset m1 + mset (zip (map dec_leaf ks) (map Some ws))"
    "unpack_map_loop pf ((pre @ bs_of k @ bs_of v) @ ?rest @ post) fuel (length vs) m1 (int (length (pre @ bs_of k @ bs_of v))) =
      Done (m', int (length (pre @ bs_of k @ bs_of v) + length ?rest))"
    by blast
  show ?case
  proof (intro exI conjI)
    show "list_all2 received (v # vs) (w # ws)"
      using w(1) rec(1) by simp
    show "hm_wf (char_signed pf) m' ch' fq'"
      by (rule rec(2))
    show "hm_mset m' = hm_mset m + mset (zip (map dec_leaf (k # ks)) (map Some (w # ws)))"
      using rec(3) set1 key by simp
    show "unpack_map_loop pf (pre @ concat (map2 (\<lambda>k v. bs_of k @ bs_of v) (k # ks) (v # vs)) @ post) fuel (length (v # vs)) m
        (int (length pre)) = Done (m', int (length pre + length (concat (map2 (\<lambda>k v. bs_of k @ bs_of v) (k # ks) (v # vs)))))"
      using k'(2) w(2) m1(1) rec(4) by (simp add: lift_opt_def add_ac)
  qed
qed


lemma pair_len:
  "length ks = length vs \<Longrightarrow> k \<in> set ks \<Longrightarrow> length (bs_of k) \<le> length (concat (map2 (\<lambda>k v. bs_of k @ bs_of v) ks vs))"
  "length ks = length vs \<Longrightarrow> v \<in> set vs \<Longrightarrow> length (bs_of v) \<le> length (concat (map2 (\<lambda>k v. bs_of k @ bs_of v) ks vs))"
  by (induction ks vs rule: list_induct2) auto

lemma unpack_map:
  assumes vs: "\<forall>v \<in> set vs. decodes v" and ks: "\<forall>k \<in> set ks. decodes k \<and> hashable_key (dec_leaf k)"
    and dist: "distinct (map (key_norm \<circ> dec_leaf) ks)" and eq: "length ks = length vs"
    and len: "length vs < 2 ^ 31" and z: "hpux_libc pf \<longrightarrow> 0 \<in> set post"
    and bs: "bs = enc_map_header (of_nat (length vs)) @ concat (map2 (\<lambda>k v. bs_of k @ bs_of v) ks vs)" and f: "length bs \<le> fuel"
  shows "\<exists>ws es. list_all2 received vs ws \<and> mset es = mset (zip (map dec_leaf ks) (map Some ws)) \<and>
    as_unpack_val pf (pre @ bs @ post) fuel (int (length pre)) = Done (Some (AsMap es), int (length pre + length bs), 0)"
proof -
  let ?n = "of_nat (length vs) :: u32"
  let ?pre = "pre @ enc_map_header ?n"
  let ?body = "concat (map2 (\<lambda>k v. bs_of k @ bs_of v) ks vs)"
  have n: "unat ?n = length vs" "uint ?n = int (length vs)"
    using len by (simp_all add: unat_of_nat uint_nat)
  obtain t rest where h: "enc_map_header ?n = t # rest"
    using header_not_empty(2) [of ?n] by (cases "enc_map_header ?n") auto
  obtain f' where f': "fuel = Suc f'" "length ?body \<le> f'"
    using f bs h by (cases fuel) auto
  let ?cap = "of_int (if int (length vs) > 32 then int (length vs) else 32) :: u32"
  obtain m :: "as_val as_hashmap" where m: "as_hashmap_cons True ?cap = Some m"
    by (simp add: as_hashmap_cons_def Let_def)
  then have new: "as_hashmap_new True True ?cap = Some m" "hm_wf (char_signed pf) m (\<lambda>_. []) []" "hm_mset m = {#}"
    using blank_wf [OF cons_blank(1) [OF m]] by (simp_all add: as_hashmap_new_def)
  have vs': "\<forall>v \<in> set vs. decodes v \<and> length (bs_of v) \<le> f'"
    using vs pair_len(2) [OF eq] f'(2) by (meson order.trans)
  have ks': "\<forall>k \<in> set ks. decodes k \<and> length (bs_of k) \<le> f' \<and> hashable_key (dec_leaf k)"
    using ks pair_len(1) [OF eq] f'(2) by (meson order.trans)
  have none: "\<forall>e \<in># hm_mset m. \<forall>k \<in> set ks. key_norm (fst e) \<noteq> key_norm (dec_leaf k)"
    using new(3) by simp
  from map_loop [OF eq vs' ks' dist none new(2) z, of ?pre] obtain ws m' ch' fq' where loop: "list_all2 received vs ws"
    "hm_wf (char_signed pf) m' ch' fq'" "hm_mset m' = hm_mset m + mset (zip (map dec_leaf ks) (map Some ws))"
    "unpack_map_loop pf (?pre @ ?body @ post) f' (length vs) m (int (length ?pre)) = Done (m', int (length ?pre + length ?body))"
    by blast
  have dims: "hm_dims m'"
    using loop(2) by (simp add: hm_wf_def)
  have "unat ?n < 2 ^ 31"
    using n(1) len by simp
  then have head: "unpack_head (byte_order pf) (pre @ t # rest @ ?body @ post) (int (length pre) + 1) t =
      Map_Of (int (length vs)) (int (length ?pre))"
    using unpack_map_header [OF _ h, of "byte_order pf" pre "?body @ post"] n(2) by simp
  have "as_unpack_val pf (pre @ bs @ post) fuel (int (length pre)) =
      Done (Some (AsMap (hm_entries m')), int (length ?pre + length ?body), 0)"
    using unpack_step [of pf pre t "rest @ ?body @ post" f'] head new(1) used_extras_wf [OF dims] loop(4)
    by (simp add: bs h f'(1) lift_opt_def hm_entries_def)
  moreover have "mset (hm_entries m') = mset (zip (map dec_leaf ks) (map Some ws))"
    using mset_hm_entries [OF dims] loop(3) new(3) by simp
  ultimately show ?thesis
    using loop(1) bs by (auto simp: add_ac)
qed

lemma decodes_map:
  assumes vs: "\<forall>v \<in> set vs. decodes v" and ks: "\<forall>k \<in> set ks. decodes k \<and> hashable_key (dec_leaf k)"
    and dist: "distinct (map (key_norm \<circ> dec_leaf) ks)" and eq: "length ks = length vs" and len: "length vs < 2 ^ 31"
  shows "decodes (AsMap (zip ks (map Some vs)))"
proof -
  let ?bs = "enc_map_header (of_nat (length vs)) @ concat (map2 (\<lambda>k v. bs_of k @ bs_of v) ks vs)"
  have enc: "enc_val (AsMap (zip ks (map Some vs))) = Some ?bs"
    using enc_map_values [OF eq vs] ks eq by simp
  show ?thesis
    unfolding decodes_def enc option.sel
  proof (intro conjI refl allI impI)
    fix pf :: platform and pre post :: "byte list" and fuel
    assume f: "length ?bs \<le> fuel" and z: "hpux_libc pf \<longrightarrow> 0 \<in> set post"
    obtain ws es where w: "list_all2 received vs ws" "mset es = mset (zip (map dec_leaf ks) (map Some ws))"
      "as_unpack_val pf (pre @ ?bs @ post) fuel (int (length pre)) = Done (Some (AsMap es), int (length pre + length ?bs), 0)"
      using unpack_map [OF vs ks dist eq len z refl f, of pre] by blast
    show "\<exists>w. received (AsMap (zip ks (map Some vs))) w \<and>
      as_unpack_val pf (pre @ ?bs @ post) fuel (int (length pre)) = Done (Some w, int (length pre + length ?bs), 0)"
      using received.map [OF w(1) eq w(2)] w(3) by blast
  qed
qed

lemma sendable_decodes: "sendable v \<Longrightarrow> decodes v"
  by (induction rule: sendable.induct) (simp_all add: decodes_leaf decodes_list decodes_pair decodes_map)


definition some_value :: as_val where
  "some_value = AsList (map Some [AsInteger 300, AsString [97, 98],
     AsMap (zip [AsBoolean True, AsString [107]] (map Some [AsNil, AsBytes 4 [0, 1]]))])"

lemma some_value_sendable: "sendable some_value"
proof -
  have "sendable (AsMap (zip [AsBoolean True, AsString [107]] (map Some [AsNil, AsBytes 4 [0, 1]])))"
    by (rule sendable.map) (auto simp: c_str_def intro!: sendable.leaf)
  then show ?thesis
    unfolding some_value_def by (intro sendable.list) (auto intro: sendable.leaf)
qed



subsection \<open>Termination\<close>

fun moves :: "int \<Rightarrow> shape \<Rightarrow> bool" where
  "moves off (Leaf r) = (case r of Timeout \<Rightarrow> False | Fault \<Rightarrow> True | Done (_, off', _) \<Rightarrow> off \<le> off')"
| "moves off (Blob_Of n off') = (off \<le> off' \<and> 0 \<le> n)"
| "moves off (List_Of n off') = (off \<le> off')"
| "moves off (Map_Of n off') = (off \<le> off')"
| "moves off Bad = True"

lemma extract_moves:
  "as_extract_uint16 h buf off = Some (x, off') \<Longrightarrow> off' = off + 2"
  "as_extract_uint32 h buf off = Some (y, off') \<Longrightarrow> off' = off + 4"
  "as_extract_uint64 h buf off = Some (z, off') \<Longrightarrow> off' = off + 8"
  "as_extract_float h buf off = Some (z, off') \<Longrightarrow> off' = off + 4"
  "as_extract_double h buf off = Some (z, off') \<Longrightarrow> off' = off + 8"
  by (auto simp: as_extract_uint16_def as_extract_uint32_def as_extract_uint64_def as_extract_float_def
      as_extract_double_def bind_eq_Some_conv)

lemma num_moves: "(\<And>i off'. r = Some (i, off') \<Longrightarrow> off \<le> off') \<Longrightarrow> moves off (Leaf (unpack_num r))"
  by (auto simp: unpack_num_def unpack_plain_def lift_opt_def split: option.splits)

lemma sized_moves:
  "(\<And>n off'. r = Some (n, off') \<Longrightarrow> moves off (f n off')) \<Longrightarrow> moves off (sized f r)"
  by (auto simp: sized_def split: option.splits)

lemma moves_if: "(c \<Longrightarrow> moves off a) \<Longrightarrow> (\<not> c \<Longrightarrow> moves off b) \<Longrightarrow> moves off (if c then a else b)"
  by simp

lemma head_moves:
  assumes t: "t \<noteq> 0xdb"
  shows "moves off (unpack_head h buf off t)"
  unfolding unpack_head_def Let_def
  by (intro moves_if num_moves sized_moves) (use t in \<open>auto dest: extract_moves simp: bind_eq_Some_conv\<close>)


text \<open>Ends within its fuel, and if it returns, then at an offset the test accepts.\<close>

fun ends :: "('r \<Rightarrow> bool) \<Rightarrow> 'r outcome \<Rightarrow> bool" where
  "ends P (Done r) = P r"
| "ends P Fault = True"
| "ends P Timeout = False"

lemma ends_bind: "ends P r \<Longrightarrow> (\<And>x. P x \<Longrightarrow> ends Q (f x)) \<Longrightarrow> ends Q (outcome_bind r f)"
  by (cases r) auto

lemma ends_lift: "ends P (lift_opt r) \<longleftrightarrow> (\<forall>x. r = Some x \<longrightarrow> P x)"
  by (cases r) (auto simp: lift_opt_def)

lemma ends_trivial: "ends (\<lambda>_. True) (lift_opt r)"
  by (simp add: ends_lift)

lemma list_loop_ends:
  assumes "\<And>off. 0 \<le> off \<Longrightarrow> int (length buf) < off + int fuel \<Longrightarrow> ends (\<lambda>(_, off', _). off < off') (as_unpack_val pf buf fuel off)"
  shows "0 \<le> off \<Longrightarrow> int (length buf) < off + int fuel \<Longrightarrow> ends (\<lambda>(_, off'). off \<le> off') (unpack_list_loop pf buf fuel n i l off)"
proof (induction n arbitrary: i l off)
  case (Suc n)
  show ?case
    unfolding unpack_list_loop.simps
  proof (rule ends_bind [OF assms [OF Suc.prems]], clarify)
    fix v off' and rc :: int assume "off < off'"
    then have "ends (\<lambda>(_, off''). off \<le> off'') (unpack_list_loop pf buf fuel n (i + 1) l off')" for l
      using Suc.IH [of off' "i + 1" l] Suc.prems by (cases "unpack_list_loop pf buf fuel n (i + 1) l off'") auto
    then show "ends (\<lambda>(_, off''). off \<le> off'')
      (outcome_bind (case v of None \<Rightarrow> Done l | Some v \<Rightarrow> lift_opt (map_option fst (as_arraylist_set True l i (Some v))))
        (\<lambda>l. unpack_list_loop pf buf fuel n (i + 1) l off'))"
      by (intro ends_bind [where P = "\<lambda>_. True"]) (auto simp: ends_lift split: option.split)
  qed
qed simp

lemma map_loop_ends:
  assumes "\<And>off. 0 \<le> off \<Longrightarrow> int (length buf) < off + int fuel \<Longrightarrow> ends (\<lambda>(_, off', _). off < off') (as_unpack_val pf buf fuel off)"
  shows "0 \<le> off \<Longrightarrow> int (length buf) < off + int fuel \<Longrightarrow> ends (\<lambda>(_, off'). off \<le> off') (unpack_map_loop pf buf fuel n m off)"
proof (induction n arbitrary: m off)
  case (Suc n)
  show ?case
    unfolding unpack_map_loop.simps
  proof (rule ends_bind [OF assms [OF Suc.prems]], clarify)
    fix k off1 and rc1 :: int assume o1: "off < off1"
    then have pre: "0 \<le> off1" "int (length buf) < off1 + int fuel"
      using Suc.prems by auto
    show "ends (\<lambda>(_, off''). off \<le> off'')
      (outcome_bind (as_unpack_val pf buf fuel off1) (\<lambda>(v, off, _).
       outcome_bind (if k \<noteq> None \<and> v \<noteq> None then lift_opt (map_option fst (as_hashmap_set (char_signed pf) True m k v)) else Done m)
        (\<lambda>m. unpack_map_loop pf buf fuel n m off)))"
    proof (rule ends_bind [OF assms [OF pre]], clarify)
      fix v off2 and rc2 :: int assume "off1 < off2"
      then have "ends (\<lambda>(_, off''). off \<le> off'') (unpack_map_loop pf buf fuel n m off2)" for m
        using Suc.IH [of off2 m] pre o1 by (cases "unpack_map_loop pf buf fuel n m off2") auto
      then show "ends (\<lambda>(_, off''). off \<le> off'')
        (outcome_bind (if k \<noteq> None \<and> v \<noteq> None then lift_opt (map_option fst (as_hashmap_set (char_signed pf) True m k v)) else Done m)
          (\<lambda>m. unpack_map_loop pf buf fuel n m off2))"
        by (intro ends_bind [where P = "\<lambda>_. True"]) (auto simp: ends_lift)
    qed
  qed
qed simp

lemma blob_moves: "as_unpack_blob pf buf off n = Some (v, off') \<Longrightarrow> 0 \<le> n \<Longrightarrow> off \<le> off'"
  by (auto simp: as_unpack_blob_def Let_def bind_eq_Some_conv split: if_splits)

lemma unpack_ends:
  assumes "0xdb \<notin> set buf"
  shows "0 \<le> off \<Longrightarrow> 0 < fuel \<Longrightarrow> int (length buf) < off + int fuel \<Longrightarrow>
    ends (\<lambda>(_, off', _). off < off') (as_unpack_val pf buf fuel off)"
proof (induction fuel arbitrary: off)
  case (Suc f)
  show ?case
    unfolding as_unpack_val.simps(2)
  proof (rule ends_bind [where P = "\<lambda>tb. off < int (length buf) \<and> hd tb \<in> set buf"])
    show "ends (\<lambda>tb. off < int (length buf) \<and> hd tb \<in> set buf) (lift_opt (fetch buf off 1))"
      using Suc.prems(1)
      by (auto simp: ends_lift fetch_def mem_read_def hd_take hd_drop_conv_nth nat_less_iff split: if_splits intro!: nth_mem)
  next
    fix tb :: "byte list" assume tb: "off < int (length buf) \<and> hd tb \<in> set buf"
    then have f: "0 < f"
      using Suc.prems by auto
    have IH: "ends (\<lambda>(_, off', _). off < off') (as_unpack_val pf buf f off)"
      if "0 \<le> off" "int (length buf) < off + int f" for off
      using Suc.IH [OF that(1) f that(2)] .
    have mv: "moves (off + 1) (unpack_head (byte_order pf) buf (off + 1) (hd tb))"
      using tb assms by (intro head_moves) auto
    show "ends (\<lambda>(_, off', _). off < off')
      (case unpack_head (byte_order pf) buf (off + 1) (hd tb) of
       Leaf r \<Rightarrow> r
     | Bad \<Rightarrow> Done (None, off + 1, 2)
     | Blob_Of n off \<Rightarrow> unpack_plain (as_unpack_blob pf buf off n)
     | List_Of n off \<Rightarrow>
         outcome_bind (lift_opt (as_arraylist_new True True (of_int n) 8)) (\<lambda>l.
         outcome_bind (unpack_list_loop pf buf f (nat n) 0 l off) (\<lambda>(l, off).
         outcome_bind (lift_opt (mem_read (elements l) 0 (unat (al_size l)))) (\<lambda>xs.
         Done (Some (AsList xs), off, 0))))
     | Map_Of n off \<Rightarrow>
         outcome_bind (lift_opt (as_hashmap_new True True (of_int (if n > 32 then n else 32)))) (\<lambda>m.
         outcome_bind (unpack_map_loop pf buf f (nat n) m off) (\<lambda>(m, off).
         outcome_bind (lift_opt (used_extras m)) (\<lambda>es.
         Done (Some (AsMap (concat (map entry_of (table m @ es)))), off, 0)))))"
    proof (cases "unpack_head (byte_order pf) buf (off + 1) (hd tb)")
      case (Leaf r)
      then show ?thesis
        using mv by (cases r) auto
    next
      case (Blob_Of n off1)
      then show ?thesis
        using mv blob_moves [of pf buf off1 n]
        by (cases "as_unpack_blob pf buf off1 n") (fastforce simp: unpack_plain_def lift_opt_def)+
    next
      case (List_Of n off1)
      then have pre: "0 \<le> off1" "int (length buf) < off1 + int f" "off < off1"
        using mv Suc.prems by auto
      have loop: "ends (\<lambda>(_, off'). off1 \<le> off') (unpack_list_loop pf buf f (nat n) 0 l off1)" for l
        using IH pre by (intro list_loop_ends)
      show ?thesis
        unfolding List_Of shape.case
        by (rule ends_bind [OF ends_trivial], rule ends_bind [OF loop], clarify, rule ends_bind [OF ends_trivial])
          (use pre(3) in simp)
    next
      case (Map_Of n off1)
      then have pre: "0 \<le> off1" "int (length buf) < off1 + int f" "off < off1"
        using mv Suc.prems by auto
      have loop: "ends (\<lambda>(_, off'). off1 \<le> off') (unpack_map_loop pf buf f (nat n) l off1)" for l
        using IH pre by (intro map_loop_ends)
      show ?thesis
        unfolding Map_Of shape.case
        by (rule ends_bind [OF ends_trivial], rule ends_bind [OF loop], clarify, rule ends_bind [OF ends_trivial])
          (use pre(3) in simp)
    qed simp
  qed
qed simp



definition some_platform :: platform where
  "some_platform = \<lparr> byte_order = Little_Endian, hpux_libc = False, char_signed = True \<rparr>"


definition crafted_buffer :: "byte list" where
  "crafted_buffer = [0x92, 0xdb, 0xff, 0xff, 0xff, 0xfa, 0x03, 0x00]"

lemma crafted_second:
  "as_unpack_val pf crafted_buffer (Suc f) 1 = Done (Some (AsString []), 0, 0)"
proof -
  have be: "be32 0xfffffffa = [0xff, 0xff, 0xff, 0xfa]"
    by (simp add: be32_def)
  have "as_extract_uint32 (byte_order pf) crafted_buffer 2 = Some (0xfffffffa, 6)"
    using extract_be(2) [of "byte_order pf" "[0x92]" "0xdb" "0xfffffffa" "[3, 0]"]
    by (simp add: crafted_buffer_def be)
  moreover have "sint (0xfffffffa :: u32) = - 6"
    by simp
  ultimately have "unpack_head (byte_order pf) crafted_buffer 2 0xdb = Blob_Of (- 6) 6"
    by (simp add: head_simps sized_def)
  moreover have "as_unpack_blob pf crafted_buffer 6 (- 6) = Some (AsString [], 0)"
    by (simp add: as_unpack_blob_def crafted_buffer_def fetch_def mem_read_def cf_strndup_def AS_BYTES_STRING_def c_str_def)
  ultimately show ?thesis
    by (simp add: unpack_plain_def lift_opt_def) (simp add: crafted_buffer_def fetch_def mem_read_def unpack_plain_def lift_opt_def)
qed

text \<open>
  C29.  A buffer of eight bytes on which the decoder never ends: the length $2^{32} - 6$ of its 32-bit header turns into a
  negative number that moves the offset back to the start of the buffer, on every platform.
\<close>

theorem crafted_buffer_never_ends: "as_unpack_val pf crafted_buffer fuel 0 = Timeout"
proof (induction fuel)
  case (Suc f)
  have "fetch crafted_buffer 0 1 = Some [0x92]"
    by (simp add: crafted_buffer_def fetch_def mem_read_def)
  moreover have "unpack_head (byte_order pf) crafted_buffer 1 0x92 = List_Of 2 1"
    using head_fixlist [of 2 "byte_order pf" crafted_buffer 1] by simp
  moreover obtain l :: "as_val as_arraylist" where "as_arraylist_new True True 2 8 = Some l"
    "\<exists>l'. as_arraylist_set True l 0 (Some (AsString [])) = Some (l', AS_ARRAYLIST_OK)"
    by (simp add: as_arraylist_new_def as_arraylist_set_def store_elem_def mem_write_def)
  ultimately show ?case
    using Suc crafted_second [of pf] by (cases f) (auto simp: lift_opt_def numeral_2_eq_2)
qed simp

text \<open>
  A string that ends with the buffer: with the \<^verbatim>\<open>strndup\<close> the sources bring along for HP-UX the decoder reads
  past the buffer, with that of other systems it returns the string.
\<close>

theorem hpux_reads_past_buffer:
  "as_unpack_val (pf\<lparr>hpux_libc := True\<rparr>) [0xa2, 3, 97] (Suc f) 0 = Fault \<and>
   as_unpack_val (pf\<lparr>hpux_libc := False\<rparr>) [0xa2, 3, 97] (Suc f) 0 = Done (Some (AsString [97]), 3, 0)"
proof -
  have h: "unpack_head h [0xa2, 3, 97] 1 0xa2 = Blob_Of 2 1" for h
    using head_fixraw [of 2 h "[0xa2, 3, 97]" 1] by simp
  have f: "fetch [0xa2, 3, 97] 0 1 = Some [0xa2]"
    by (simp add: fetch_def mem_read_def)
  have b: "as_unpack_blob (pf\<lparr>hpux_libc := True\<rparr>) [0xa2, 3, 97] 1 2 = None"
    "as_unpack_blob (pf\<lparr>hpux_libc := False\<rparr>) [0xa2, 3, 97] 1 2 = Some (AsString [97], 3)"
    by (simp_all add: as_unpack_blob_def fetch_def mem_read_def cf_strndup_def AS_BYTES_STRING_def c_str_def)
  show ?thesis
    unfolding as_unpack_val.simps(2) f by (simp add: lift_opt_def h b unpack_plain_def)
qed

end
