(* ===== verification/Proto.thy ===== *)
theory Proto
  imports ByteOrder
begin

text \<open>
  The message headers of the wire protocol, \<^verbatim>\<open>as_proto.h\<close> and \<^verbatim>\<open>as_proto.c\<close>: the eight bytes that open
  every message and the twenty-two of a record message.  The structures are packed and are read straight
  from the socket, so how their bytes become fields depends on the host; the swap functions repair that.
\<close>

record as_proto =
  proto_version :: byte
  proto_type :: byte
  proto_sz :: u64

record as_msg =
  msg_header_sz :: byte
  msg_info1 :: byte
  msg_info2 :: byte
  msg_info3 :: byte
  msg_unused :: byte
  msg_result_code :: byte
  msg_generation :: u32
  msg_record_ttl :: u32
  msg_transaction_ttl :: u32
  msg_n_fields :: u16
  msg_n_ops :: u16

record as_proto_msg =
  pm_proto :: as_proto
  pm_msg :: as_msg

subsection \<open>Layout in memory\<close>

text \<open>The 48 bits of \<^verbatim>\<open>sz\<close> take the six bytes behind the version and the type, in the order of the host.\<close>

fun proto_bytes :: "host \<Rightarrow> as_proto \<Rightarrow> byte list" where
  "proto_bytes Big_Endian p = proto_version p # proto_type p # drop 2 (be64 (proto_sz p))"
| "proto_bytes Little_Endian p = proto_version p # proto_type p # rev (drop 2 (be64 (proto_sz p)))"

fun proto_fields :: "host \<Rightarrow> byte list \<Rightarrow> as_proto" where
  "proto_fields Big_Endian bs = \<lparr> proto_version = bs ! 0, proto_type = bs ! 1, proto_sz = be_word (drop 2 bs) \<rparr>"
| "proto_fields Little_Endian bs = \<lparr> proto_version = bs ! 0, proto_type = bs ! 1, proto_sz = be_word (rev (drop 2 bs)) \<rparr>"

definition msg_fields :: "host \<Rightarrow> byte list \<Rightarrow> as_msg" where
  "msg_fields h bs =
     \<lparr> msg_header_sz = bs ! 0, msg_info1 = bs ! 1, msg_info2 = bs ! 2, msg_info3 = bs ! 3, msg_unused = bs ! 4, msg_result_code = bs ! 5,
       msg_generation = load32 h (take 4 (drop 6 bs)), msg_record_ttl = load32 h (take 4 (drop 10 bs)),
       msg_transaction_ttl = load32 h (take 4 (drop 14 bs)),
       msg_n_fields = load16 h (take 2 (drop 18 bs)), msg_n_ops = load16 h (take 2 (drop 20 bs)) \<rparr>"

definition proto_msg_fields :: "host \<Rightarrow> byte list \<Rightarrow> as_proto_msg" where
  "proto_msg_fields h bs = \<lparr> pm_proto = proto_fields h (take 8 bs), pm_msg = msg_fields h (drop 8 bs) \<rparr>"

subsection \<open>The swap functions\<close>

text \<open>
  The eight bytes are read as one integer with the version and type cleared; assigning to the bit field
  keeps 48 bits.
\<close>

definition as_proto_swap_to_be :: "host \<Rightarrow> as_proto \<Rightarrow> as_proto" where
  "as_proto_swap_to_be h p =
     (let my_sz = load64 h (proto_bytes h (p\<lparr>proto_version := 0, proto_type := 0\<rparr>)) in
      p\<lparr>proto_sz := take_bit 48 (cf_swap_to_be64 h my_sz)\<rparr>)"

definition as_proto_swap_from_be :: "host \<Rightarrow> as_proto \<Rightarrow> as_proto" where
  "as_proto_swap_from_be h p =
     (let my_sz = load64 h (proto_bytes h (p\<lparr>proto_version := 0, proto_type := 0\<rparr>)) in
      p\<lparr>proto_sz := take_bit 48 (cf_swap_from_be64 h my_sz)\<rparr>)"

definition as_msg_swap_header_from_be :: "host \<Rightarrow> as_msg \<Rightarrow> as_msg" where
  "as_msg_swap_header_from_be h m =
     m\<lparr>msg_generation := cf_swap_from_be32 h (msg_generation m), msg_record_ttl := cf_swap_from_be32 h (msg_record_ttl m),
       msg_transaction_ttl := cf_swap_from_be32 h (msg_transaction_ttl m), msg_n_fields := cf_swap_from_be16 h (msg_n_fields m),
       msg_n_ops := cf_swap_from_be16 h (msg_n_ops m)\<rparr>"

subsection \<open>What arrives\<close>

lemma be_word_snoc: "be_word (bs @ [b]) = push_bit 8 (be_word bs) OR ucast b"
  by (simp add: be_word_def)

lemma be_word_bit: "bit (be_word bs :: 'a::len word) n \<Longrightarrow> n < 8 * length bs"
proof (induction bs arbitrary: n rule: rev_induct)
  case (snoc b bs)
  then consider "8 \<le> n" "bit (be_word bs :: 'a word) (n - 8)" | "bit b n"
    by (auto simp: be_word_snoc bit_simps)
  then show ?case
  proof cases
    case 1
    then show ?thesis
      using snoc.IH [of "n - 8"] by simp
  next
    case 2
    then show ?thesis
      using byte_bit_high [of n b] by (cases "8 \<le> n") auto
  qed
qed (simp add: be_word_def)

lemma be_word_short:
  fixes bs :: "byte list"
  assumes "length bs = 6"
  shows "(be_word (0 # 0 # bs) :: u64) = be_word bs" and "take_bit 48 (be_word bs :: u64) = be_word bs"
    and "drop 2 (be64 (be_word bs)) = bs"
proof -
  show z: "(be_word (0 # 0 # bs) :: u64) = be_word bs"
    by (simp add: be_word_def)
  have "be64 (be_word (0 # 0 # bs)) = 0 # 0 # bs"
    using assms by (intro be64_be_word) simp
  then show "drop 2 (be64 (be_word bs)) = bs"
    unfolding z by simp
  show "take_bit 48 (be_word bs :: u64) = be_word bs"
  proof (rule bit_word_eqI)
    fix n
    show "bit (take_bit 48 (be_word bs :: u64)) n = bit (be_word bs :: u64) n"
      using be_word_bit [of bs n, where ?'a = 64] assms by (auto simp: bit_take_bit_iff)
  qed
qed

lemma proto_from_wire:
  assumes "length bs = 6"
  shows "as_proto_swap_from_be h (proto_fields h (v # t # bs)) =
    \<lparr> proto_version = v, proto_type = t, proto_sz = be_word bs \<rparr>"
proof (cases h)
  case Big_Endian
  then show ?thesis
    using be_word_short [OF assms] assms by (simp add: as_proto_swap_from_be_def Let_def)
next
  case Little_Endian
  have "length (rev bs) = 6"
    using assms by simp
  note short = be_word_short [OF assms] be_word_short [OF this]
  have "my_swab64 (be_word (rev bs @ [0, 0])) = be_word (0 # 0 # bs)"
    using assms my_swab64_be_word [of "rev bs @ [0, 0]"] by simp
  then show ?thesis
    using Little_Endian short assms by (simp add: as_proto_swap_from_be_def Let_def)
qed


lemma load_be [simp]:
  "cf_swap_from_be16 h (load16 h (be16 x)) = x" "cf_swap_from_be32 h (load32 h (be32 y)) = y"
  "cf_swap_from_be64 h (load64 h (be64 z)) = z"
  by (simp_all add: load_from_be16 load_from_be32 load_from_be64)

text \<open>The bytes of a record message header as the protocol defines them.\<close>

definition msg_wire :: "as_msg \<Rightarrow> byte list" where
  "msg_wire x =
     [msg_header_sz x, msg_info1 x, msg_info2 x, msg_info3 x, msg_unused x, msg_result_code x] @
     be32 (msg_generation x) @ be32 (msg_record_ttl x) @ be32 (msg_transaction_ttl x) @
     be16 (msg_n_fields x) @ be16 (msg_n_ops x)"

lemma length_msg_wire [simp]: "length (msg_wire x) = 22"
  by (simp add: msg_wire_def)

lemma msg_from_wire: "as_msg_swap_header_from_be h (msg_fields h (msg_wire x @ rest)) = x"
  by (simp add: as_msg_swap_header_from_be_def msg_fields_def msg_wire_def numeral_eq_Suc)


definition proto_wire :: "as_proto \<Rightarrow> byte list" where
  "proto_wire p = proto_version p # proto_type p # drop 2 (be64 (proto_sz p))"

lemma length_proto_wire [simp]: "length (proto_wire p) = 8"
  by (simp add: proto_wire_def)

lemma be_word_drop2: "take_bit 48 w = w \<Longrightarrow> be_word (drop 2 (be64 w)) = w" for w :: u64
proof -
  assume w: "take_bit 48 w = w"
  have "\<not> bit w n" if "48 \<le> n" for n
    using w that by (metis bit_take_bit_iff not_le)
  then have "take 2 (be64 w) = [0, 0]"
    by (simp add: be64_def byte_eq_iff bit_simps numeral_2_eq_2)
  then have "be64 w = 0 # 0 # drop 2 (be64 w)"
    by (metis append_take_drop_id append_Cons append_Nil)
  then show ?thesis
    using be_word_short(1) [of "drop 2 (be64 w)"] be_word_be64 [of w] by simp
qed

lemma proto_from_wire': "take_bit 48 (proto_sz p) = proto_sz p \<Longrightarrow> as_proto_swap_from_be h (proto_fields h (proto_wire p)) = p"
  unfolding proto_wire_def by (subst proto_from_wire) (simp_all add: be_word_drop2)

lemma proto_to_wire:
  assumes "take_bit 48 (proto_sz p) = proto_sz p"
  shows "proto_bytes h (as_proto_swap_to_be h p) = proto_wire p"
proof (cases h)
  case Big_Endian
  have "be_word (0 # 0 # drop 2 (be64 (proto_sz p))) = proto_sz p"
    using be_word_short(1) [of "drop 2 (be64 (proto_sz p))"] be_word_drop2 [OF assms] by simp
  then show ?thesis
    using Big_Endian assms by (simp add: as_proto_swap_to_be_def proto_wire_def)
next
  case Little_Endian
  let ?bs = "drop 2 (be64 (proto_sz p))"
  have "my_swab64 (be_word (?bs @ [0, 0])) = be_word (0 # 0 # rev ?bs)"
    using my_swab64_be_word [of "?bs @ [0, 0]"] by simp
  then show ?thesis
    using Little_Endian be_word_short [of "rev ?bs"] by (simp add: as_proto_swap_to_be_def proto_wire_def)
qed

text \<open>
  C24.  A message header written on one host is read on any other with the same fields: the protocol header with
  its 48-bit size and the record header with its counters, although both are laid over raw memory.
\<close>

theorem headers_host_independent:
  assumes "take_bit 48 (proto_sz p) = proto_sz p"
  shows "proto_bytes h (as_proto_swap_to_be h p) = proto_wire p \<and>
    as_proto_swap_from_be h' (pm_proto (proto_msg_fields h' (proto_wire p @ msg_wire x))) = p \<and>
    as_msg_swap_header_from_be h' (pm_msg (proto_msg_fields h' (proto_wire p @ msg_wire x))) = x"
  using assms proto_to_wire proto_from_wire' msg_from_wire [of h' x "[]"] by (simp add: proto_msg_fields_def)

definition some_proto :: as_proto where
  "some_proto = \<lparr> proto_version = 2, proto_type = 3, proto_sz = 0x0000123456789abc \<rparr>"

definition some_msg :: as_msg where
  "some_msg = \<lparr> msg_header_sz = 22, msg_info1 = 1, msg_info2 = 0, msg_info3 = 0, msg_unused = 0, msg_result_code = 2,
     msg_generation = 7, msg_record_ttl = 0x01020304, msg_transaction_ttl = 1000, msg_n_fields = 2, msg_n_ops = 1 \<rparr>"

theorem headers_host_independent_witness:
  "take_bit 48 (proto_sz some_proto) = proto_sz some_proto \<and>
   proto_bytes Little_Endian (as_proto_swap_to_be Little_Endian some_proto) = [2, 3, 0x12, 0x34, 0x56, 0x78, 0x9a, 0xbc] \<and>
   as_msg_swap_header_from_be Big_Endian (pm_msg (proto_msg_fields Big_Endian (proto_wire some_proto @ msg_wire some_msg))) = some_msg"
proof -
  have "take_bit 48 (proto_sz some_proto) = proto_sz some_proto"
    by (simp add: some_proto_def)
  moreover have "proto_wire some_proto = [2, 3, 0x12, 0x34, 0x56, 0x78, 0x9a, 0xbc]"
    by (simp add: proto_wire_def some_proto_def be64_def)
  ultimately show ?thesis
    using headers_host_independent [of some_proto Little_Endian Big_Endian some_msg] by simp
qed

end
