(* ===== verification/Command.thy ===== *)
theory Command
  imports Proto Msgpack
begin

text \<open>
  How the client lays out a command in its buffer: the sizing and writing functions of
  \<^verbatim>\<open>as_command.h\<close> and \<^verbatim>\<open>as_command.c\<close>, and the key of a record, \<^verbatim>\<open>as_key.c\<close>.

  A command is written at a cursor into a buffer whose size was computed before; a store outside it is
  \<open>None\<close>.  A namespace, a set and a bin name are the bytes of a character array, of which the code uses
  those before the first zero.  A null value pointer is \<open>None\<close>, and reading through it has no result.
\<close>

definition AS_HEADER_SIZE :: nat where "AS_HEADER_SIZE = 30"
definition AS_FIELD_HEADER_SIZE :: nat where "AS_FIELD_HEADER_SIZE = 5"
definition AS_OPERATION_HEADER_SIZE :: nat where "AS_OPERATION_HEADER_SIZE = 8"
definition AS_STACK_BUF_SIZE :: nat where "AS_STACK_BUF_SIZE = 16384"
definition AS_BIN_NAME_MAX_LEN :: nat where "AS_BIN_NAME_MAX_LEN = 14"
definition AS_DIGEST_VALUE_SIZE :: nat where "AS_DIGEST_VALUE_SIZE = 20"

definition AS_FIELD_NAMESPACE :: byte where "AS_FIELD_NAMESPACE = 0"
definition AS_FIELD_SETNAME :: byte where "AS_FIELD_SETNAME = 1"
definition AS_FIELD_KEY :: byte where "AS_FIELD_KEY = 2"
definition AS_FIELD_DIGEST :: byte where "AS_FIELD_DIGEST = 4"
definition AS_FIELD_UDF_PACKAGE_NAME :: byte where "AS_FIELD_UDF_PACKAGE_NAME = 30"
definition AS_FIELD_UDF_FUNCTION :: byte where "AS_FIELD_UDF_FUNCTION = 31"
definition AS_FIELD_UDF_ARGLIST :: byte where "AS_FIELD_UDF_ARGLIST = 32"

definition AS_MSG_INFO1_READ :: byte where "AS_MSG_INFO1_READ = 1"
definition AS_MSG_INFO1_GET_ALL :: byte where "AS_MSG_INFO1_GET_ALL = 2"
definition AS_MSG_INFO1_GET_NOBINDATA :: byte where "AS_MSG_INFO1_GET_NOBINDATA = 32"
definition AS_MSG_INFO1_CONSISTENCY_ALL :: byte where "AS_MSG_INFO1_CONSISTENCY_ALL = 64"
definition AS_MSG_INFO2_WRITE :: byte where "AS_MSG_INFO2_WRITE = 1"
definition AS_MSG_INFO2_DELETE :: byte where "AS_MSG_INFO2_DELETE = 2"
definition AS_MSG_INFO2_GENERATION :: byte where "AS_MSG_INFO2_GENERATION = 4"
definition AS_MSG_INFO2_GENERATION_GT :: byte where "AS_MSG_INFO2_GENERATION_GT = 8"
definition AS_MSG_INFO2_CREATE_ONLY :: byte where "AS_MSG_INFO2_CREATE_ONLY = 32"
definition AS_MSG_INFO3_COMMIT_MASTER :: byte where "AS_MSG_INFO3_COMMIT_MASTER = 2"
definition AS_MSG_INFO3_UPDATE_ONLY :: byte where "AS_MSG_INFO3_UPDATE_ONLY = 8"
definition AS_MSG_INFO3_CREATE_OR_REPLACE :: byte where "AS_MSG_INFO3_CREATE_OR_REPLACE = 16"
definition AS_MSG_INFO3_REPLACE_ONLY :: byte where "AS_MSG_INFO3_REPLACE_ONLY = 32"

definition AS_MESSAGE_VERSION :: u64 where "AS_MESSAGE_VERSION = 2"
definition AS_MESSAGE_TYPE :: u64 where "AS_MESSAGE_TYPE = 3"

lemmas command_sizes = AS_HEADER_SIZE_def AS_FIELD_HEADER_SIZE_def AS_OPERATION_HEADER_SIZE_def AS_DIGEST_VALUE_SIZE_def

datatype as_policy_gen = AS_POLICY_GEN_IGNORE | AS_POLICY_GEN_EQ | AS_POLICY_GEN_GT
datatype as_policy_key = AS_POLICY_KEY_DIGEST | AS_POLICY_KEY_SEND
datatype as_policy_exists =
    AS_POLICY_EXISTS_IGNORE | AS_POLICY_EXISTS_CREATE | AS_POLICY_EXISTS_UPDATE | AS_POLICY_EXISTS_REPLACE
  | AS_POLICY_EXISTS_CREATE_OR_REPLACE
datatype as_policy_retry = AS_POLICY_RETRY_NONE | AS_POLICY_RETRY_ONCE
datatype as_policy_replica = AS_POLICY_REPLICA_MASTER | AS_POLICY_REPLICA_ANY
datatype as_policy_consistency_level = AS_POLICY_CONSISTENCY_LEVEL_ONE | AS_POLICY_CONSISTENCY_LEVEL_ALL
datatype as_policy_commit_level = AS_POLICY_COMMIT_LEVEL_ALL | AS_POLICY_COMMIT_LEVEL_MASTER

datatype as_operator =
    AS_OPERATOR_READ | AS_OPERATOR_WRITE | AS_OPERATOR_INCR | AS_OPERATOR_APPEND | AS_OPERATOR_PREPEND | AS_OPERATOR_TOUCH

fun operator_code :: "as_operator \<Rightarrow> byte" where
  "operator_code AS_OPERATOR_READ = 1"
| "operator_code AS_OPERATOR_WRITE = 2"
| "operator_code AS_OPERATOR_INCR = 5"
| "operator_code AS_OPERATOR_APPEND = 9"
| "operator_code AS_OPERATOR_PREPEND = 10"
| "operator_code AS_OPERATOR_TOUCH = 11"

record as_key =
  key_ns :: "byte list"
  key_set :: "byte list"
  key_valuep :: "as_val option"
  digest_init :: bool
  key_digest :: "byte list"

record as_bin =
  bin_name :: "byte list"
  bin_valuep :: "as_val option"

subsection \<open>The digest of a key\<close>

text \<open>
  The hash function comes from the crypto library: \<open>hash set bytes\<close> is the digest of the set name followed
  by the bytes.
\<close>

definition digest_bytes :: "host \<Rightarrow> as_val \<Rightarrow> byte list option" where
  "digest_bytes h v =
     (case v of
        AsInteger i \<Rightarrow> Some (AS_BYTES_INTEGER # store64 h (cf_swap_to_be64 h i))
      | AsString s \<Rightarrow> Some (AS_BYTES_STRING # s)
      | AsBytes t b \<Rightarrow> Some (t # b)
      | _ \<Rightarrow> None)"

text \<open>The status (zero is success, \<open>- 2\<close> a bad parameter) and the key.\<close>

definition as_key_set_digest ::
  "(byte list \<Rightarrow> byte list \<Rightarrow> byte list) \<Rightarrow> host \<Rightarrow> as_key \<Rightarrow> (int \<times> as_key) option" where
  "as_key_set_digest hash h k =
     (if digest_init k then Some (0, k)
      else do {
        v \<leftarrow> key_valuep k;
        case digest_bytes h v of
          None \<Rightarrow> Some (- 2, k)
        | Some bs \<Rightarrow> Some (0, k\<lparr>key_digest := hash (c_str (key_set k)) bs, digest_init := True\<rparr>) })"

subsection \<open>Sizes\<close>

definition as_command_user_key_size :: "as_key \<Rightarrow> nat option" where
  "as_command_user_key_size k = do {
     v \<leftarrow> key_valuep k;
     Some (AS_FIELD_HEADER_SIZE + 1 +
       (case v of AsInteger _ \<Rightarrow> 8 | AsString s \<Rightarrow> length s | AsBytes _ b \<Rightarrow> length b | _ \<Rightarrow> 0)) }"

text \<open>The size of header and key fields, and the number of fields.\<close>

definition as_command_key_size :: "as_policy_key \<Rightarrow> as_key \<Rightarrow> (nat \<times> u16) option" where
  "as_command_key_size policy k =
     (let size = length (c_str (key_ns k)) + length (c_str (key_set k)) + AS_DIGEST_VALUE_SIZE + 45 in
      if policy = AS_POLICY_KEY_SEND then do { n \<leftarrow> as_command_user_key_size k; Some (size + n, 4) }
      else Some (size, 3))"

definition as_command_string_field_size :: "byte list \<Rightarrow> nat" where
  "as_command_string_field_size s = length (c_str s) + AS_FIELD_HEADER_SIZE"

definition as_command_field_size :: "nat \<Rightarrow> nat" where
  "as_command_field_size n = n + AS_FIELD_HEADER_SIZE"

text \<open>
  The size of a value.  Lists and maps are serialised here, into the buffer that the writer copies from; a
  failure of the serializer is not noticed and leaves the buffer as it was.
\<close>

definition as_command_value_size ::
  "host \<Rightarrow> bool list \<Rightarrow> as_val \<Rightarrow> as_buffer \<Rightarrow> (nat \<times> as_buffer) option" where
  "as_command_value_size h allocs v b =
     (let serialized = do {
        (rc, r) \<leftarrow> as_msgpack_serializer_serialize h allocs (Some v);
        let b = (case r of None \<Rightarrow> b | Some b' \<Rightarrow> b') in Some (buf_size b, b) } in
      case v of
        AsInteger _ \<Rightarrow> Some (8, b)
      | AsString s \<Rightarrow> Some (length s, b)
      | AsBytes _ bs \<Rightarrow> Some (length bs, b)
      | AsList _ \<Rightarrow> serialized
      | AsMap _ \<Rightarrow> serialized
      | _ \<Rightarrow> Some (0, b))"

definition as_command_bin_size :: "host \<Rightarrow> bool list \<Rightarrow> as_bin \<Rightarrow> as_buffer \<Rightarrow> (nat \<times> as_buffer) option" where
  "as_command_bin_size h allocs bin b = do {
     v \<leftarrow> bin_valuep bin;
     (n, b) \<leftarrow> as_command_value_size h allocs v b;
     Some (length (c_str (bin_name bin)) + n + 8, b) }"

text \<open>The new size, or nothing if the name is too long.\<close>

definition as_command_bin_name_size :: "byte list \<Rightarrow> nat \<Rightarrow> nat option" where
  "as_command_bin_name_size name sz =
     (let s = length (c_str name) in
      if s > AS_BIN_NAME_MAX_LEN then None else Some (sz + s + AS_OPERATION_HEADER_SIZE))"

subsection \<open>Writers\<close>

definition info_attrs ::
  "byte \<Rightarrow> byte \<Rightarrow> as_policy_commit_level \<Rightarrow> as_policy_consistency_level \<Rightarrow> as_policy_exists \<Rightarrow> as_policy_gen \<Rightarrow> u32 \<Rightarrow>
   byte \<times> byte \<times> byte \<times> u32" where
  "info_attrs read_attr write_attr commit_level consistency exists gen_policy gen =
     (let (info_attr, write_attr) =
            (case exists of
               AS_POLICY_EXISTS_IGNORE \<Rightarrow> (0, write_attr)
             | AS_POLICY_EXISTS_UPDATE \<Rightarrow> (AS_MSG_INFO3_UPDATE_ONLY, write_attr)
             | AS_POLICY_EXISTS_CREATE_OR_REPLACE \<Rightarrow> (AS_MSG_INFO3_CREATE_OR_REPLACE, write_attr)
             | AS_POLICY_EXISTS_REPLACE \<Rightarrow> (AS_MSG_INFO3_REPLACE_ONLY, write_attr)
             | AS_POLICY_EXISTS_CREATE \<Rightarrow> (0, write_attr OR AS_MSG_INFO2_CREATE_ONLY));
          (g, write_attr) =
            (case gen_policy of
               AS_POLICY_GEN_IGNORE \<Rightarrow> (0, write_attr)
             | AS_POLICY_GEN_EQ \<Rightarrow> (gen, write_attr OR AS_MSG_INFO2_GENERATION)
             | AS_POLICY_GEN_GT \<Rightarrow> (gen, write_attr OR AS_MSG_INFO2_GENERATION_GT));
          info_attr = (if commit_level = AS_POLICY_COMMIT_LEVEL_MASTER then info_attr OR AS_MSG_INFO3_COMMIT_MASTER else info_attr);
          read_attr = (if consistency = AS_POLICY_CONSISTENCY_LEVEL_ALL then read_attr OR AS_MSG_INFO1_CONSISTENCY_ALL else read_attr) in
      (read_attr, write_attr, info_attr, g))"

definition as_command_write_header ::
  "host \<Rightarrow> byte \<Rightarrow> byte \<Rightarrow> as_policy_commit_level \<Rightarrow> as_policy_consistency_level \<Rightarrow> as_policy_exists \<Rightarrow> as_policy_gen \<Rightarrow>
   u32 \<Rightarrow> u32 \<Rightarrow> u32 \<Rightarrow> u16 \<Rightarrow> u16 \<Rightarrow> writer" where
  "as_command_write_header h read_attr write_attr commit_level consistency exists gen_policy gen ttl timeout_ms nf nb mem cmd =
     (let (read_attr, write_attr, info_attr, g) = info_attrs read_attr write_attr commit_level consistency exists gen_policy gen in
      do {
        mem \<leftarrow> mem_write mem (cmd + 8) [22, read_attr, write_attr, info_attr];
        mem \<leftarrow> mem_write mem (cmd + 12) [0, 0];
        mem \<leftarrow> mem_write mem (cmd + 14) (store32 h (cf_swap_to_be32 h g));
        mem \<leftarrow> mem_write mem (cmd + 18) (store32 h (cf_swap_to_be32 h ttl));
        mem \<leftarrow> mem_write mem (cmd + 22) (store32 h (cf_swap_to_be32 h timeout_ms));
        mem \<leftarrow> mem_write mem (cmd + 26) (store16 h (cf_swap_to_be16 h nf));
        mem \<leftarrow> mem_write mem (cmd + 28) (store16 h (cf_swap_to_be16 h nb));
        Some (mem, cmd + AS_HEADER_SIZE) })"

definition as_command_write_header_read ::
  "host \<Rightarrow> byte \<Rightarrow> as_policy_consistency_level \<Rightarrow> u32 \<Rightarrow> u16 \<Rightarrow> u16 \<Rightarrow> writer" where
  "as_command_write_header_read h read_attr consistency timeout_ms nf nb mem cmd =
     (let read_attr = (if consistency = AS_POLICY_CONSISTENCY_LEVEL_ALL then read_attr OR AS_MSG_INFO1_CONSISTENCY_ALL else read_attr) in
      do {
        mem \<leftarrow> mem_write mem (cmd + 8) [22, read_attr];
        mem \<leftarrow> mem_write mem (cmd + 10) (replicate 12 0);
        mem \<leftarrow> mem_write mem (cmd + 22) (store32 h (cf_swap_to_be32 h timeout_ms));
        mem \<leftarrow> mem_write mem (cmd + 26) (store16 h (cf_swap_to_be16 h nf));
        mem \<leftarrow> mem_write mem (cmd + 28) (store16 h (cf_swap_to_be16 h nb));
        Some (mem, cmd + AS_HEADER_SIZE) })"

definition as_command_write_field_header :: "host \<Rightarrow> byte \<Rightarrow> u32 \<Rightarrow> writer" where
  "as_command_write_field_header h fid sz =
     seq (put_bytes (store32 h (cf_swap_to_be32 h (sz + 1)))) (put_bytes [fid])"

text \<open>A writer that leaves \<open>k\<close> bytes for its header, writes the body and then fills the header in.\<close>

definition backfill :: "nat \<Rightarrow> writer \<Rightarrow> (nat \<Rightarrow> writer) \<Rightarrow> writer" where
  "backfill k body hdr mem start = do {
     (mem, p) \<leftarrow> body mem (start + k);
     (mem, _) \<leftarrow> hdr (p - start - k) mem start;
     Some (mem, p) }"

definition as_command_write_field_string :: "host \<Rightarrow> byte \<Rightarrow> byte list \<Rightarrow> writer" where
  "as_command_write_field_string h fid val =
     backfill AS_FIELD_HEADER_SIZE (put_bytes (c_str val)) (\<lambda>n. as_command_write_field_header h fid (of_nat n))"

text \<open>
  The eight bytes of an integer.  On HP-UX the integer is copied as it is in memory and the swap is applied
  to the first byte only.
\<close>

definition int64_bytes :: "platform \<Rightarrow> u64 \<Rightarrow> byte list" where
  "int64_bytes pf i =
     (if hpux_libc pf then
        let bs = store64 (byte_order pf) i in ucast (cf_swap_to_be64 (byte_order pf) (ucast (hd bs))) # tl bs
      else store64 (byte_order pf) (cf_swap_to_be64 (byte_order pf) i))"

definition as_command_write_field_uint64 :: "platform \<Rightarrow> byte \<Rightarrow> u64 \<Rightarrow> writer" where
  "as_command_write_field_uint64 pf fid val =
     seq (as_command_write_field_header (byte_order pf) fid 8) (put_bytes (int64_bytes pf val))"

definition put_buffer :: "as_buffer \<Rightarrow> writer" where
  "put_buffer b mem p = do { bs \<leftarrow> mem_read (buf_data b) 0 (buf_size b); put_bytes bs mem p }"

definition as_command_write_field_buffer :: "host \<Rightarrow> byte \<Rightarrow> as_buffer \<Rightarrow> writer" where
  "as_command_write_field_buffer h fid b = seq (as_command_write_field_header h fid (of_nat (buf_size b))) (put_buffer b)"

definition as_command_write_field_digest :: "host \<Rightarrow> byte list \<Rightarrow> writer" where
  "as_command_write_field_digest h val =
     seq (as_command_write_field_header h AS_FIELD_DIGEST (of_nat AS_DIGEST_VALUE_SIZE)) (put_bytes val)"

fun user_key_particle :: "platform \<Rightarrow> as_val \<Rightarrow> byte \<times> byte list" where
  "user_key_particle pf (AsInteger i) = (AS_BYTES_INTEGER, int64_bytes pf i)"
| "user_key_particle pf (AsString s) = (AS_BYTES_STRING, s)"
| "user_key_particle pf (AsBytes t b) = (t, b)"
| "user_key_particle pf _ = (AS_BYTES_UNDEF, [])"

definition as_command_write_user_key :: "platform \<Rightarrow> as_key \<Rightarrow> writer" where
  "as_command_write_user_key pf k mem start = do {
     v \<leftarrow> key_valuep k;
     let (t, bs) = user_key_particle pf v in
     backfill AS_FIELD_HEADER_SIZE (seq (put_bytes [t]) (put_bytes bs))
       (\<lambda>_. as_command_write_field_header (byte_order pf) AS_FIELD_KEY (of_nat (length bs) + 1)) mem start }"

definition as_command_write_key :: "platform \<Rightarrow> as_policy_key \<Rightarrow> as_key \<Rightarrow> writer" where
  "as_command_write_key pf policy k =
     seq (as_command_write_field_string (byte_order pf) AS_FIELD_NAMESPACE (key_ns k))
     (seq (as_command_write_field_string (byte_order pf) AS_FIELD_SETNAME (key_set k))
     (seq (as_command_write_field_digest (byte_order pf) (key_digest k))
       (\<lambda>mem p. if policy = AS_POLICY_KEY_SEND then as_command_write_user_key pf k mem p else Some (mem, p))))"

text \<open>The header of a bin: its length, the operation, the type, the version and the length of the name.\<close>

definition op_header :: "host \<Rightarrow> u32 \<Rightarrow> byte \<Rightarrow> byte \<Rightarrow> byte \<Rightarrow> writer" where
  "op_header h sz op val_type name_len =
     seq (put_bytes (store32 h (cf_swap_to_be32 h sz))) (put_bytes [op, val_type, 0, name_len])"

definition as_command_write_bin_name :: "host \<Rightarrow> byte list \<Rightarrow> writer" where
  "as_command_write_bin_name h name =
     backfill AS_OPERATION_HEADER_SIZE (put_bytes (c_str name))
       (\<lambda>n. let name_len = of_nat n :: byte in op_header h (ucast name_len + 4) (operator_code AS_OPERATOR_READ) 0 name_len)"

text \<open>What is written of a value: a writer, its length and its type.\<close>

fun bin_particle :: "platform \<Rightarrow> as_val \<Rightarrow> as_buffer \<Rightarrow> writer \<times> u32 \<times> byte" where
  "bin_particle pf (AsInteger i) b = (put_bytes (int64_bytes pf i), 8, AS_BYTES_INTEGER)"
| "bin_particle pf (AsString s) b = (put_bytes s, of_nat (length s), AS_BYTES_STRING)"
| "bin_particle pf (AsBytes t bs) b = (put_bytes bs, of_nat (length bs), t)"
| "bin_particle pf (AsList _) b = (put_buffer b, of_nat (buf_size b), AS_BYTES_LIST)"
| "bin_particle pf (AsMap _) b = (put_buffer b, of_nat (buf_size b), AS_BYTES_MAP)"
| "bin_particle pf _ b = (put_bytes [], 0, AS_BYTES_UNDEF)"

definition as_command_write_bin :: "platform \<Rightarrow> as_operator \<Rightarrow> as_bin \<Rightarrow> as_buffer \<Rightarrow> writer" where
  "as_command_write_bin pf op bin b mem start = do {
     v \<leftarrow> bin_valuep bin;
     let name = c_str (bin_name bin); name_len = of_nat (length name) :: byte; (w, val_len, val_type) = bin_particle pf v b in
     backfill AS_OPERATION_HEADER_SIZE (seq (put_bytes name) w)
       (\<lambda>_. op_header (byte_order pf) (ucast name_len + val_len + 4) (operator_code op) val_type name_len) mem start }"

text \<open>The eight bytes in front of a command, once its length is known.\<close>

definition as_command_write_end :: "host \<Rightarrow> byte mem \<Rightarrow> nat \<Rightarrow> nat \<Rightarrow> (byte mem \<times> nat) option" where
  "as_command_write_end h mem start fin =
     (let len = fin - start;
          p = (of_nat len - 8) OR push_bit 56 AS_MESSAGE_VERSION OR push_bit 48 AS_MESSAGE_TYPE in
      do { mem \<leftarrow> mem_write mem start (store64 h (cf_swap_to_be64 h p)); Some (mem, len) })"

end
