(* ===== verification/AsRecord.thy ===== *)
theory AsRecord
  imports Command ArrayList
begin

text \<open>
  The record handed to and received from the client, \<^verbatim>\<open>as_record.c\<close>, with the bin initialisers of
  \<^verbatim>\<open>_bin.c\<close>.  \<open>rec_entries\<close> is the allocated array of bins, of which the first \<open>rec_size\<close> are in use;
  \<open>junk\<close> is what a freshly allocated array holds.  An access outside the array is \<open>None\<close>.
\<close>

record as_record =
  rec_key :: as_key
  rec_gen :: u16
  rec_ttl :: u32
  bins_free :: bool
  rec_capacity :: u16
  rec_size :: u16
  rec_entries :: "as_bin list"

definition fresh_key :: as_key where
  "fresh_key = \<lparr> key_ns = replicate 32 0, key_set = replicate 64 0, key_valuep = None, digest_init = False,
     key_digest = replicate 20 0 \<rparr>"

definition as_record_defaults :: "(nat \<Rightarrow> as_bin) \<Rightarrow> u16 \<Rightarrow> as_record" where
  "as_record_defaults junk nbins =
     \<lparr> rec_key = fresh_key, rec_gen = 0, rec_ttl = 0, bins_free = (nbins > 0), rec_capacity = nbins, rec_size = 0,
       rec_entries = map junk [0..<unat nbins] \<rparr>"

definition as_record_new :: "(nat \<Rightarrow> as_bin) \<Rightarrow> u16 \<Rightarrow> as_record" where
  "as_record_new junk nbins = as_record_defaults junk nbins"

definition as_record_init :: "(nat \<Rightarrow> as_bin) \<Rightarrow> u16 \<Rightarrow> as_record" where
  "as_record_init junk nbins = as_record_defaults junk nbins"

definition as_record_numbins :: "as_record \<Rightarrow> u16" where
  "as_record_numbins r = rec_size r"

text \<open>The loop that looks for a name among the bins from \<open>i\<close> on.\<close>

fun find_bin :: "as_bin list \<Rightarrow> byte list \<Rightarrow> nat \<Rightarrow> nat \<Rightarrow> nat option option" where
  "find_bin bs name i 0 = Some None"
| "find_bin bs name i (Suc n) = do {
     b \<leftarrow> mem_load bs i;
     if c_str (bin_name b) = c_str name then Some (Some i) else find_bin bs name (Suc i) n }"

text \<open>The entry to write: the bin of that name with its value destroyed, or the next free one.\<close>

definition as_record_bin_forupdate :: "as_record \<Rightarrow> byte list \<Rightarrow> (as_record \<times> nat option) option" where
  "as_record_bin_forupdate r name =
     (if \<not> length (c_str name) < AS_BIN_NAME_MAX_LEN + 1 then Some (r, None)
      else do {
        found \<leftarrow> find_bin (rec_entries r) name 0 (unat (rec_size r));
        case found of
          Some i \<Rightarrow> Some (r\<lparr>rec_entries := (rec_entries r)[i := (rec_entries r ! i)\<lparr>bin_valuep := None\<rparr>]\<rparr>, Some i)
        | None \<Rightarrow>
            if rec_size r < rec_capacity r then Some (r\<lparr>rec_size := rec_size r + 1\<rparr>, Some (unat (rec_size r)))
            else Some (r, None) })"

definition as_bin_init :: "byte list \<Rightarrow> as_val option \<Rightarrow> as_bin" where
  "as_bin_init name v = \<lparr> bin_name = c_str name, bin_valuep = v \<rparr>"

text \<open>The common frame of all setters.\<close>

definition as_record_set :: "as_record \<Rightarrow> byte list \<Rightarrow> as_val option \<Rightarrow> (as_record \<times> bool) option" where
  "as_record_set r name v = do {
     (r, slot) \<leftarrow> as_record_bin_forupdate r name;
     case slot of
       None \<Rightarrow> Some (r, False)
     | Some i \<Rightarrow> do {
         es \<leftarrow> mem_write (rec_entries r) i [as_bin_init name v];
         Some (r\<lparr>rec_entries := es\<rparr>, True) } }"

definition as_record_set_int64 :: "as_record \<Rightarrow> byte list \<Rightarrow> u64 \<Rightarrow> (as_record \<times> bool) option" where
  "as_record_set_int64 r name i = as_record_set r name (Some (AsInteger i))"

definition as_record_set_strp :: "as_record \<Rightarrow> byte list \<Rightarrow> byte list \<Rightarrow> (as_record \<times> bool) option" where
  "as_record_set_strp r name s = as_record_set r name (Some (AsString (c_str s)))"

definition as_record_set_rawp :: "as_record \<Rightarrow> byte list \<Rightarrow> byte list \<Rightarrow> (as_record \<times> bool) option" where
  "as_record_set_rawp r name b = as_record_set r name (Some (AsBytes AS_BYTES_BLOB b))"

definition as_record_set_raw_typep :: "as_record \<Rightarrow> byte list \<Rightarrow> byte list \<Rightarrow> byte \<Rightarrow> (as_record \<times> bool) option" where
  "as_record_set_raw_typep r name b t = as_record_set r name (Some (AsBytes t b))"

text \<open>The setters that take a pointer to a value of one kind; the pointer may be null.\<close>

definition as_record_set_integer :: "as_record \<Rightarrow> byte list \<Rightarrow> u64 option \<Rightarrow> (as_record \<times> bool) option" where
  "as_record_set_integer r name v = as_record_set r name (map_option AsInteger v)"

definition as_record_set_string :: "as_record \<Rightarrow> byte list \<Rightarrow> byte list option \<Rightarrow> (as_record \<times> bool) option" where
  "as_record_set_string r name v = as_record_set r name (map_option AsString v)"

definition as_record_set_bytes ::
  "as_record \<Rightarrow> byte list \<Rightarrow> (byte \<times> byte list) option \<Rightarrow> (as_record \<times> bool) option" where
  "as_record_set_bytes r name v = as_record_set r name (map_option (\<lambda>(t, b). AsBytes t b) v)"

definition as_record_set_list ::
  "as_record \<Rightarrow> byte list \<Rightarrow> as_val option list option \<Rightarrow> (as_record \<times> bool) option" where
  "as_record_set_list r name v = as_record_set r name (map_option AsList v)"

definition as_record_set_map ::
  "as_record \<Rightarrow> byte list \<Rightarrow> (as_val \<times> as_val option) list option \<Rightarrow> (as_record \<times> bool) option" where
  "as_record_set_map r name v = as_record_set r name (map_option AsMap v)"

definition as_record_set_nil :: "as_record \<Rightarrow> byte list \<Rightarrow> (as_record \<times> bool) option" where
  "as_record_set_nil r name = as_record_set r name (Some AsNil)"

definition as_record_get :: "as_record \<Rightarrow> byte list \<Rightarrow> as_val option option" where
  "as_record_get r name = do {
     found \<leftarrow> find_bin (rec_entries r) name 0 (unat (rec_size r));
     case found of None \<Rightarrow> Some None | Some i \<Rightarrow> Some (bin_valuep (rec_entries r ! i)) }"

definition as_record_get_int64 :: "as_record \<Rightarrow> byte list \<Rightarrow> u64 \<Rightarrow> u64 option" where
  "as_record_get_int64 r name fallback = do {
     v \<leftarrow> as_record_get r name;
     Some (as_integer_getorelse (as_integer_fromval v) fallback) }"

definition as_record_get_str :: "as_record \<Rightarrow> byte list \<Rightarrow> byte list option option" where
  "as_record_get_str r name = do {
     v \<leftarrow> as_record_get r name;
     Some (as_string_fromval v) }"

fun as_bytes_fromval :: "as_val option \<Rightarrow> (byte \<times> byte list) option" where
  "as_bytes_fromval (Some (AsBytes t b)) = Some (t, b)"
| "as_bytes_fromval _ = None"

fun as_list_fromval :: "as_val option \<Rightarrow> as_val option list option" where
  "as_list_fromval (Some (AsList l)) = Some l"
| "as_list_fromval _ = None"

fun as_map_fromval :: "as_val option \<Rightarrow> (as_val \<times> as_val option) list option" where
  "as_map_fromval (Some (AsMap m)) = Some m"
| "as_map_fromval _ = None"

definition as_record_get_integer :: "as_record \<Rightarrow> byte list \<Rightarrow> u64 option option" where
  "as_record_get_integer r name = do { v \<leftarrow> as_record_get r name; Some (as_integer_fromval v) }"

definition as_record_get_string :: "as_record \<Rightarrow> byte list \<Rightarrow> byte list option option" where
  "as_record_get_string r name = do { v \<leftarrow> as_record_get r name; Some (as_string_fromval v) }"

definition as_record_get_bytes :: "as_record \<Rightarrow> byte list \<Rightarrow> (byte \<times> byte list) option option" where
  "as_record_get_bytes r name = do { v \<leftarrow> as_record_get r name; Some (as_bytes_fromval v) }"

definition as_record_get_list :: "as_record \<Rightarrow> byte list \<Rightarrow> as_val option list option option" where
  "as_record_get_list r name = do { v \<leftarrow> as_record_get r name; Some (as_list_fromval v) }"

definition as_record_get_map :: "as_record \<Rightarrow> byte list \<Rightarrow> (as_val \<times> as_val option) list option option" where
  "as_record_get_map r name = do { v \<leftarrow> as_record_get r name; Some (as_map_fromval v) }"

definition as_record_foreach :: "as_record \<Rightarrow> (as_bin \<Rightarrow> 's \<Rightarrow> bool \<times> 's) \<Rightarrow> 's \<Rightarrow> (bool \<times> 's) option" where
  "as_record_foreach r cb s =
     (if rec_entries r = [] then Some (True, s)
      else do { bs \<leftarrow> mem_read (rec_entries r) 0 (unat (rec_size r)); Some (walk cb bs s) })"

text \<open>The destroyed values, and whether the array is freed.\<close>

definition as_record_release :: "as_record \<Rightarrow> (as_record \<times> as_val list \<times> bool) option" where
  "as_record_release r = do {
     bs \<leftarrow> (if rec_entries r = [] then Some [] else mem_read (rec_entries r) 0 (unat (rec_size r)));
     let k = rec_key r in
     Some (r\<lparr>rec_entries := [], rec_capacity := 0, rec_size := 0,
             rec_key := k\<lparr>key_ns := (key_ns k)[0 := 0], key_set := (key_set k)[0 := 0], key_valuep := None, digest_init := False\<rparr>\<rparr>,
           List.map_filter bin_valuep bs @ List.map_filter id [key_valuep k],
           rec_entries r \<noteq> [] \<and> bins_free r) }"


subsection \<open>The record as a bounded map\<close>

definition used_bins :: "as_record \<Rightarrow> as_bin list" where
  "used_bins r = take (unat (rec_size r)) (rec_entries r)"

definition rec_ok :: "as_record \<Rightarrow> bool" where
  "rec_ok r \<longleftrightarrow> rec_size r \<le> rec_capacity r \<and> length (rec_entries r) = unat (rec_capacity r) \<and>
     distinct (map (c_str \<circ> bin_name) (used_bins r)) \<and> (\<forall>b \<in> set (used_bins r). length (c_str (bin_name b)) \<le> AS_BIN_NAME_MAX_LEN)"

text \<open>The value pointer under a name.\<close>

definition rec_map :: "as_record \<Rightarrow> byte list \<rightharpoonup> as_val option" where
  "rec_map r = map_of (map (\<lambda>b. (c_str (bin_name b), bin_valuep b)) (used_bins r))"

lemma find_bin_spec:
  assumes "i + n \<le> length bs"
  shows "find_bin bs name i n =
    Some (find (\<lambda>j. c_str (bin_name (bs ! j)) = c_str name) [i..<i + n])"
  using assms
proof (induction n arbitrary: i)
  case (Suc n)
  then have "[i..<i + Suc n] = i # [Suc i..<Suc i + n]"
    by (simp add: upt_rec)
  then show ?case
    using Suc by (simp add: mem_load_def)
qed simp

lemma find_nth: "find P [0..<n] = Some i \<Longrightarrow> i < n \<and> P i"
  by (metis add.left_neutral find_Some_iff length_upt diff_zero nth_upt)

lemma rec_ok_len: "rec_ok r \<Longrightarrow> unat (rec_size r) \<le> length (rec_entries r)"
  by (simp add: rec_ok_def word_le_nat_alt)

lemma find_bin_rec:
  assumes "rec_ok r"
  obtains (found) i where "find_bin (rec_entries r) name 0 (unat (rec_size r)) = Some (Some i)" "i < unat (rec_size r)"
      "c_str (bin_name (used_bins r ! i)) = c_str name" "rec_map r (c_str name) = Some (bin_valuep (rec_entries r ! i))"
    | (absent) "find_bin (rec_entries r) name 0 (unat (rec_size r)) = Some None" "rec_map r (c_str name) = None"
proof (cases "find (\<lambda>j. c_str (bin_name (rec_entries r ! j)) = c_str name) [0..<unat (rec_size r)]")
  case None
  then have "\<forall>j < unat (rec_size r). c_str (bin_name (rec_entries r ! j)) \<noteq> c_str name"
    by (simp add: find_None_iff)
  then have "c_str name \<notin> set (map (c_str \<circ> bin_name) (used_bins r))"
    using rec_ok_len [OF assms] by (fastforce simp: used_bins_def in_set_conv_nth)
  then have "rec_map r (c_str name) = None"
    by (auto simp: rec_map_def map_of_eq_None_iff image_image comp_def)
  then show thesis
    using absent None find_bin_spec [of 0 "unat (rec_size r)" "rec_entries r" name] rec_ok_len [OF assms] by simp
next
  case (Some i)
  then have i: "i < unat (rec_size r)" "c_str (bin_name (rec_entries r ! i)) = c_str name"
    using find_nth by fastforce+
  have "distinct (map fst (map (\<lambda>b. (c_str (bin_name b), bin_valuep b)) (used_bins r)))"
    using assms by (simp add: rec_ok_def comp_def)
  moreover have "(c_str name, bin_valuep (rec_entries r ! i)) \<in> set (map (\<lambda>b. (c_str (bin_name b), bin_valuep b)) (used_bins r))"
    using i rec_ok_len [OF assms] unfolding used_bins_def set_map
    by (intro image_eqI [of _ _ "rec_entries r ! i"]) (auto simp: in_set_conv_nth intro!: exI [of _ i])
  ultimately have "rec_map r (c_str name) = Some (bin_valuep (rec_entries r ! i))"
    unfolding rec_map_def by (rule map_of_is_SomeI)
  then show thesis
    using found [of i] i Some find_bin_spec [of 0 "unat (rec_size r)" "rec_entries r" name] rec_ok_len [OF assms]
    by (simp add: used_bins_def)
qed


lemma map_of_update_nth:
  "distinct (map fst xs) \<Longrightarrow> i < length xs \<Longrightarrow> fst (xs ! i) = k \<Longrightarrow> map_of (xs[i := (k, v)]) = (map_of xs)(k \<mapsto> v)"
proof (induction xs arbitrary: i)
  case (Cons x xs)
  then show ?case
  proof (cases i)
    case (Suc j)
    then have "map_of (xs[j := (k, v)]) = (map_of xs)(k \<mapsto> v)" "k \<in> fst ` set xs"
      using Cons by auto
    then show ?thesis
      using Suc Cons.prems(1) by (cases x) (auto simp: fun_eq_iff)
  qed (cases x; auto)
qed simp

lemma map_of_snoc: "k \<notin> fst ` set xs \<Longrightarrow> map_of (xs @ [(k, v)]) = (map_of xs)(k \<mapsto> v)"
  by (induction xs) (auto simp: fun_eq_iff)

lemma set_found:
  assumes ok: "rec_ok r" and i: "i < unat (rec_size r)" "c_str (bin_name (used_bins r ! i)) = c_str name"
    and r': "r' = r\<lparr>rec_entries := (rec_entries r)[i := as_bin_init name v]\<rparr>"
  shows "rec_ok r' \<and> rec_map r' = (rec_map r)(c_str name \<mapsto> v)"
proof -
  let ?f = "\<lambda>b. (c_str (bin_name b), bin_valuep b)"
  have used: "used_bins r' = (used_bins r)[i := as_bin_init name v]"
    using i(1) by (simp add: r' used_bins_def take_update_swap)
  have len: "i < length (used_bins r)"
    using i(1) rec_ok_len [OF ok] by (simp add: used_bins_def)
  have names: "map (c_str \<circ> bin_name) (used_bins r') = map (c_str \<circ> bin_name) (used_bins r)"
    using i(2) len unfolding used map_update by (simp add: as_bin_init_def list_update_same_conv)
  then have "set (map (c_str \<circ> bin_name) (used_bins r')) = set (map (c_str \<circ> bin_name) (used_bins r))"
    by simp
  then have "\<forall>b \<in> set (used_bins r'). length (c_str (bin_name b)) \<le> AS_BIN_NAME_MAX_LEN"
    using ok by (simp add: rec_ok_def) (metis (no_types, lifting) comp_apply image_iff)
  then have "rec_ok r'"
    using ok names by (simp add: rec_ok_def r')
  moreover have "rec_map r' = (rec_map r)(c_str name \<mapsto> v)"
  proof -
    have "map ?f (used_bins r') = (map ?f (used_bins r))[i := (c_str name, v)]"
      using len unfolding used map_update by (simp add: as_bin_init_def)
    moreover have "distinct (map fst (map ?f (used_bins r)))"
      using ok by (simp add: rec_ok_def comp_def)
    ultimately show ?thesis
      using map_of_update_nth [of "map ?f (used_bins r)" i "c_str name" v] len i(2) by (simp add: rec_map_def)
  qed
  ultimately show ?thesis
    by simp
qed

lemma set_absent:
  assumes ok: "rec_ok r" and room: "rec_size r < rec_capacity r" and none: "rec_map r (c_str name) = None"
    and name: "length (c_str name) \<le> AS_BIN_NAME_MAX_LEN"
    and r': "r' = r\<lparr>rec_size := rec_size r + 1, rec_entries := (rec_entries r)[unat (rec_size r) := as_bin_init name v]\<rparr>"
  shows "rec_ok r' \<and> rec_map r' = (rec_map r)(c_str name \<mapsto> v)"
proof -
  let ?f = "\<lambda>b. (c_str (bin_name b), bin_valuep b)"
  have n: "unat (rec_size r + 1) = Suc (unat (rec_size r))" "unat (rec_size r) < length (rec_entries r)"
    using room ok unat_inc [OF room] by (simp_all add: rec_ok_def word_less_nat_alt)
  have used: "used_bins r' = used_bins r @ [as_bin_init name v]"
    using n by (simp add: r' used_bins_def take_Suc_conv_app_nth)
  have "c_str name \<notin> set (map (c_str \<circ> bin_name) (used_bins r))"
    using none by (auto simp: rec_map_def map_of_eq_None_iff image_image comp_def)
  moreover have "rec_size r + 1 \<le> rec_capacity r"
    using room by (simp add: inc_le)
  ultimately have "rec_ok r'"
    using ok name by (auto simp: rec_ok_def used) (simp_all add: r' as_bin_init_def)
  moreover have "rec_map r' = (rec_map r)(c_str name \<mapsto> v)"
    using map_of_snoc [of "c_str name" "map ?f (used_bins r)" v] none
    by (simp add: rec_map_def used as_bin_init_def map_of_eq_None_iff)
  ultimately show ?thesis
    by simp
qed

text \<open>
  C15.  A record is a map from bin names to values of bounded size.  Storing a bin succeeds exactly if the name is not too
  long and the bin exists or there is room for it; it then replaces or adds that bin and no other, a failed store changes
  nothing, the names stay distinct, and a lookup finds what the map holds.
\<close>

theorem record_like_map:
  assumes ok: "rec_ok r"
  shows "\<exists>r' done. as_record_set r name v = Some (r', done) \<and> rec_ok r' \<and>
    (done \<longleftrightarrow> length (c_str name) \<le> AS_BIN_NAME_MAX_LEN \<and> (c_str name \<in> dom (rec_map r) \<or> rec_size r < rec_capacity r)) \<and>
    rec_map r' = (if done then (rec_map r)(c_str name \<mapsto> v) else rec_map r) \<and>
    (\<forall>n. as_record_get r' n = Some (case rec_map r' (c_str n) of None \<Rightarrow> None | Some p \<Rightarrow> p))"
proof -
  have get: "as_record_get q n = Some (case rec_map q (c_str n) of None \<Rightarrow> None | Some p \<Rightarrow> p)" if "rec_ok q" for q n
    by (rule find_bin_rec [OF that, of n]) (simp_all add: as_record_get_def)
  have "\<exists>r' done. as_record_set r name v = Some (r', done) \<and> rec_ok r' \<and>
    (done \<longleftrightarrow> length (c_str name) \<le> AS_BIN_NAME_MAX_LEN \<and> (c_str name \<in> dom (rec_map r) \<or> rec_size r < rec_capacity r)) \<and>
    rec_map r' = (if done then (rec_map r)(c_str name \<mapsto> v) else rec_map r)"
  proof (cases "length (c_str name) \<le> AS_BIN_NAME_MAX_LEN")
    case False
    then show ?thesis
      using ok by (auto simp: as_record_set_def as_record_bin_forupdate_def)
  next
    case name: True
    show ?thesis
    proof (rule find_bin_rec [OF ok, of name])
      fix i assume i: "find_bin (rec_entries r) name 0 (unat (rec_size r)) = Some (Some i)" "i < unat (rec_size r)"
        "c_str (bin_name (used_bins r ! i)) = c_str name" "rec_map r (c_str name) = Some (bin_valuep (rec_entries r ! i))"
      then have "as_record_set r name v = Some (r\<lparr>rec_entries := (rec_entries r)[i := as_bin_init name v]\<rparr>, True)"
        using name rec_ok_len [OF ok] by (simp add: as_record_set_def as_record_bin_forupdate_def mem_write_one)
      then show ?thesis
        using set_found [OF ok i(2,3) refl, of v] i(4) name by auto
    next
      assume none: "find_bin (rec_entries r) name 0 (unat (rec_size r)) = Some None" "rec_map r (c_str name) = None"
      show ?thesis
      proof (cases "rec_size r < rec_capacity r")
        case True
        then have "unat (rec_size r) < length (rec_entries r)"
          using ok by (simp add: rec_ok_def word_less_nat_alt)
        then have "as_record_set r name v =
            Some (r\<lparr>rec_size := rec_size r + 1, rec_entries := (rec_entries r)[unat (rec_size r) := as_bin_init name v]\<rparr>, True)"
          using none(1) name True by (simp add: as_record_set_def as_record_bin_forupdate_def mem_write_one)
        then show ?thesis
          using set_absent [OF ok True none(2) name refl, of v] True name by auto
      next
        case False
        then show ?thesis
          using none name ok by (auto simp: as_record_set_def as_record_bin_forupdate_def)
      qed
    qed
  qed
  then show ?thesis
    using get by blast
qed

definition some_junk :: as_bin where
  "some_junk = \<lparr> bin_name = [120, 0], bin_valuep = Some AsNil \<rparr>"

lemma new_record_ok: "rec_ok (as_record_new junk n)" "rec_map (as_record_new junk n) = Map.empty"
  by (simp_all add: rec_ok_def as_record_new_def as_record_defaults_def used_bins_def rec_map_def)

theorem record_like_map_witness:
  "rec_ok (as_record_new (\<lambda>_. some_junk) 1) \<and> (\<exists>r'. as_record_set (as_record_new (\<lambda>_. some_junk) 1) [98] (Some (AsInteger 5)) = Some (r', True) \<and> rec_ok r' \<and>
     as_record_get r' [98] = Some (Some (AsInteger 5)))"
proof -
  have new: "c_str [98] = [98]" "length (c_str [98]) \<le> AS_BIN_NAME_MAX_LEN" "rec_size (as_record_new (\<lambda>_. some_junk) 1) < rec_capacity (as_record_new (\<lambda>_. some_junk) 1)"
    by (simp_all add: AS_BIN_NAME_MAX_LEN_def c_str_def as_record_new_def as_record_defaults_def)
  obtain r' ok where r': "as_record_set (as_record_new (\<lambda>_. some_junk) 1) [98] (Some (AsInteger 5)) = Some (r', ok)" "rec_ok r'" "ok"
      "rec_map r' = (rec_map (as_record_new (\<lambda>_. some_junk) 1))(c_str [98] \<mapsto> Some (AsInteger 5))"
      "\<forall>n. as_record_get r' n = Some (case rec_map r' (c_str n) of None \<Rightarrow> None | Some p \<Rightarrow> p)"
    using record_like_map [OF new_record_ok(1) [of "\<lambda>_. some_junk" 1], of "[98]" "Some (AsInteger 5)"] new by auto
  have "as_record_get r' [98] = Some (Some (AsInteger 5))"
    using r'(5) by (simp add: r'(4))
  then show ?thesis
    using r'(1-3) new_record_ok(1) [of "\<lambda>_. some_junk" 1] by auto
qed

end
