(* ===== verification/AsError.thy ===== *)
theory AsError
  imports AsVal
begin

text \<open>
  Status codes and the error structure, \<^verbatim>\<open>as_status.h\<close>, \<^verbatim>\<open>as_error.h\<close> and \<^verbatim>\<open>as_error.c\<close>.  A status is
  an integer: zero is success, negative codes come from the client and positive ones from the server.  Of the
  error structure the model keeps the code and the message; a message made by \<^verbatim>\<open>vsnprintf\<close> is its format and its
  arguments, numbers or a text.
\<close>

definition AEROSPIKE_OK :: int where "AEROSPIKE_OK = 0"
definition AEROSPIKE_ERR_PARAM :: int where "AEROSPIKE_ERR_PARAM = - 2"
definition AEROSPIKE_ERR_CLIENT :: int where "AEROSPIKE_ERR_CLIENT = - 1"
definition AEROSPIKE_ERR_RECORD_NOT_FOUND :: int where "AEROSPIKE_ERR_RECORD_NOT_FOUND = 2"
definition AEROSPIKE_ERR_TIMEOUT :: int where "AEROSPIKE_ERR_TIMEOUT = 9"
definition AEROSPIKE_ERR_SCAN_ABORTED :: int where "AEROSPIKE_ERR_SCAN_ABORTED = 15"
definition AEROSPIKE_ERR_UDF :: int where "AEROSPIKE_ERR_UDF = 100"
definition AEROSPIKE_ERR_LARGE_ITEM_NOT_FOUND :: int where "AEROSPIKE_ERR_LARGE_ITEM_NOT_FOUND = 125"
definition AEROSPIKE_ERR_QUERY_ABORTED :: int where "AEROSPIKE_ERR_QUERY_ABORTED = 210"

lemmas status_codes = AEROSPIKE_OK_def AEROSPIKE_ERR_PARAM_def AEROSPIKE_ERR_CLIENT_def AEROSPIKE_ERR_RECORD_NOT_FOUND_def
  AEROSPIKE_ERR_TIMEOUT_def AEROSPIKE_ERR_SCAN_ABORTED_def AEROSPIKE_ERR_UDF_def AEROSPIKE_ERR_LARGE_ITEM_NOT_FOUND_def
  AEROSPIKE_ERR_QUERY_ABORTED_def

definition AS_ERROR_MESSAGE_MAX_LEN :: nat where "AS_ERROR_MESSAGE_MAX_LEN = 1023"

datatype err_text = Text "byte list" | Formatted string "int list" | Formatted_Text string "byte list"

record as_error =
  err_code :: int
  err_message :: err_text

definition ascii :: "string \<Rightarrow> byte list" where
  "ascii s = map of_char s"

definition as_error_reset :: as_error where
  "as_error_reset = \<lparr> err_code = AEROSPIKE_OK, err_message = Text [] \<rparr>"

text \<open>Both setters return the code they set.\<close>

definition as_error_set_message :: "as_error \<Rightarrow> int \<Rightarrow> byte list \<Rightarrow> int \<times> as_error" where
  "as_error_set_message err code msg =
     (code, err\<lparr>err_code := code, err_message := Text (take AS_ERROR_MESSAGE_MAX_LEN (c_str msg))\<rparr>)"

definition as_error_update :: "as_error \<Rightarrow> int \<Rightarrow> string \<Rightarrow> int list \<Rightarrow> int \<times> as_error" where
  "as_error_update err code fmt args = (code, err\<lparr>err_code := code, err_message := Formatted fmt args\<rparr>)"

definition status_names :: "(int \<times> string) list" where
  "status_names =
    [(0, ''AEROSPIKE_OK''), (50, ''AEROSPIKE_QUERY_END''), (- 2, ''AEROSPIKE_ERR_PARAM''),
     (- 1, ''AEROSPIKE_ERR_CLIENT''), (1, ''AEROSPIKE_ERR_SERVER''), (2, ''AEROSPIKE_ERR_RECORD_NOT_FOUND''),
     (3, ''AEROSPIKE_ERR_RECORD_GENERATION''), (4, ''AEROSPIKE_ERR_REQUEST_INVALID''),
     (5, ''AEROSPIKE_ERR_RECORD_EXISTS''), (6, ''AEROSPIKE_ERR_BIN_EXISTS''), (7, ''AEROSPIKE_ERR_CLUSTER_CHANGE''),
     (8, ''AEROSPIKE_ERR_SERVER_FULL''), (9, ''AEROSPIKE_ERR_TIMEOUT''), (10, ''AEROSPIKE_ERR_NO_XDR''),
     (11, ''AEROSPIKE_ERR_CLUSTER''), (12, ''AEROSPIKE_ERR_BIN_INCOMPATIBLE_TYPE''),
     (13, ''AEROSPIKE_ERR_RECORD_TOO_BIG''), (14, ''AEROSPIKE_ERR_RECORD_BUSY''),
     (15, ''AEROSPIKE_ERR_SCAN_ABORTED''), (16, ''AEROSPIKE_ERR_UNSUPPORTED_FEATURE''),
     (17, ''AEROSPIKE_ERR_BIN_NOT_FOUND''), (18, ''AEROSPIKE_ERR_DEVICE_OVERLOAD''),
     (19, ''AEROSPIKE_ERR_RECORD_KEY_MISMATCH''), (20, ''AEROSPIKE_ERR_NAMESPACE_NOT_FOUND''),
     (21, ''AEROSPIKE_ERR_BIN_NAME''), (22, ''AEROSPIKE_ERR_FAIL_FORBIDDEN''),
     (51, ''AEROSPIKE_SECURITY_NOT_SUPPORTED''), (52, ''AEROSPIKE_SECURITY_NOT_ENABLED''),
     (53, ''AEROSPIKE_SECURITY_SCHEME_NOT_SUPPORTED''), (54, ''AEROSPIKE_INVALID_COMMAND''),
     (55, ''AEROSPIKE_INVALID_FIELD''), (56, ''AEROSPIKE_ILLEGAL_STATE''), (60, ''AEROSPIKE_INVALID_USER''),
     (61, ''AEROSPIKE_USER_ALREADY_EXISTS''), (62, ''AEROSPIKE_INVALID_PASSWORD''),
     (63, ''AEROSPIKE_EXPIRED_PASSWORD''), (64, ''AEROSPIKE_FORBIDDEN_PASSWORD''),
     (65, ''AEROSPIKE_INVALID_CREDENTIAL''), (70, ''AEROSPIKE_INVALID_ROLE''),
     (71, ''AEROSPIKE_ROLE_ALREADY_EXISTS''), (72, ''AEROSPIKE_INVALID_PRIVILEGE''),
     (80, ''AEROSPIKE_NOT_AUTHENTICATED''), (81, ''AEROSPIKE_ROLE_VIOLATION''), (100, ''AEROSPIKE_ERR_UDF''),
     (125, ''AEROSPIKE_ERR_LARGE_ITEM_NOT_FOUND''), (200, ''AEROSPIKE_ERR_INDEX_FOUND''),
     (201, ''AEROSPIKE_ERR_INDEX_NOT_FOUND''), (202, ''AEROSPIKE_ERR_INDEX_OOM''),
     (203, ''AEROSPIKE_ERR_INDEX_NOT_READABLE''), (204, ''AEROSPIKE_ERR_INDEX''),
     (205, ''AEROSPIKE_ERR_INDEX_NAME_MAXLEN''), (206, ''AEROSPIKE_ERR_INDEX_MAXCOUNT''),
     (210, ''AEROSPIKE_ERR_QUERY_ABORTED''), (211, ''AEROSPIKE_ERR_QUERY_QUEUE_FULL''),
     (212, ''AEROSPIKE_ERR_QUERY_TIMEOUT''), (213, ''AEROSPIKE_ERR_QUERY'')]"

definition as_error_string :: "int \<Rightarrow> string" where
  "as_error_string status =
     (case map_of status_names status of
        Some name \<Rightarrow> name
      | None \<Rightarrow> if status < 0 then ''AEROSPIKE_ERR_CLIENT'' else ''AEROSPIKE_ERR_SERVER'')"

lemma error_code_set [simp]:
  "fst (as_error_set_message err code msg) = code" "err_code (snd (as_error_set_message err code msg)) = code"
  "fst (as_error_update err code fmt args) = code" "err_code (snd (as_error_update err code fmt args)) = code"
  by (simp_all add: as_error_set_message_def as_error_update_def)

end
