(* ===== verification/Socket.thy ===== *)
theory Socket
  imports AsError
begin

text \<open>
  The transfer loops of \<^verbatim>\<open>as_socket.c\<close> on the supported platforms.  The operating system is a list of turns: what the
  clock, \<^verbatim>\<open>select\<close> and the following \<^verbatim>\<open>read\<close> or \<^verbatim>\<open>write\<close> return in each pass of a loop.  A call moves at most what is asked for
  and, when reading, at most what has arrived; it moves \<open>turn_moved\<close> bytes within these limits, or fails.
  \<open>sk_in\<close> is what the peer sent and was not read yet, \<open>sk_out\<close> what was written.  A loop that uses up the turns is \<open>Timeout\<close>:
  it is still running.
\<close>

record errno_codes =
  etimedout :: int
  ewouldblock :: int
  einprogress :: int
  eagain :: int

record turn =
  turn_now :: u64
  turn_select :: int
  turn_isset :: bool
  turn_moved :: "nat option"
  turn_errno :: int

text \<open>\<open>sk_flags\<close> is whether the socket is nonblocking, or nothing if its flags cannot be read.\<close>

record sock =
  sk_fd :: nat
  sk_flags :: "bool option"
  sk_setfl :: bool
  sk_malloc :: bool
  sk_in :: "byte list"
  sk_out :: "byte list"
  sk_turns :: "turn list"

definition STACK_LIMIT :: nat where "STACK_LIMIT = 16 * 1024"
definition FD_SETSIZE :: nat where "FD_SETSIZE = 1024"

definition as_fdset_size :: "nat \<Rightarrow> nat" where
  "as_fdset_size fd = (fd div FD_SETSIZE + 1) * FD_SETSIZE div 8"

text \<open>Making the socket blocking or not; nothing if that fails.\<close>

definition set_nonblocking :: "bool \<Rightarrow> sock \<Rightarrow> sock option" where
  "set_nonblocking wanted s =
     (let flags = (case sk_flags s of None \<Rightarrow> False | Some b \<Rightarrow> b) in
      if flags = wanted then Some s
      else if \<not> sk_setfl s then None
      else Some (s\<lparr>sk_flags := map_option (\<lambda>_. wanted) (sk_flags s)\<rparr>))"

definition transient :: "errno_codes \<Rightarrow> int \<Rightarrow> bool" where
  "transient ec e \<longleftrightarrow> e = etimedout ec \<or> e = ewouldblock ec \<or> e = einprogress ec \<or> e = eagain ec"

type_synonym transfer = "(int \<times> as_error \<times> byte list \<times> turn list) outcome"

text \<open>
  One pass of the loops with a deadline, which may move up to \<open>limit\<close> bytes: the status that ends the loop, or
  the number of bytes moved.
\<close>

definition one_turn :: "errno_codes \<Rightarrow> u64 \<Rightarrow> string \<Rightarrow> as_error \<Rightarrow> nat \<Rightarrow> turn \<Rightarrow> (int \<times> as_error) + nat" where
  "one_turn ec deadline failed err limit t =
     (if turn_now t > deadline then Inl (AEROSPIKE_ERR_TIMEOUT, err\<lparr>err_code := AEROSPIKE_ERR_TIMEOUT\<rparr>)
      else if turn_select t > 0 \<and> turn_isset t then
        (case turn_moved t of
           Some n \<Rightarrow>
             if min n limit > 0 then Inr (min n limit)
             else Inl (as_error_set_message err AEROSPIKE_ERR_CLIENT (ascii ''Bad file descriptor''))
         | None \<Rightarrow>
             if transient ec (turn_errno t) then Inr 0
             else Inl (as_error_update err AEROSPIKE_ERR_CLIENT failed [turn_errno t]))
      else if turn_select t = - 1 then
        Inl (as_error_update err AEROSPIKE_ERR_CLIENT ''Socket write error: %d'' [turn_errno t])
      else Inr 0)"

text \<open>The loop of \<^verbatim>\<open>as_socket_write_limit\<close>: \<open>pos\<close> bytes of \<open>buf\<close> are written.\<close>

fun write_loop :: "errno_codes \<Rightarrow> u64 \<Rightarrow> byte list \<Rightarrow> nat \<Rightarrow> as_error \<Rightarrow> byte list \<Rightarrow> turn list \<Rightarrow> transfer" where
  "write_loop ec deadline buf pos err out [] = Timeout"
| "write_loop ec deadline buf pos err out (t # ts) =
     (case one_turn ec deadline ''Socket write error: %d'' err (length buf - pos) t of
        Inl (st, err) \<Rightarrow> Done (st, err, out, ts)
      | Inr r \<Rightarrow>
          (let out = out @ take r (drop pos buf); pos = pos + r in
           if pos < length buf then write_loop ec deadline buf pos err out ts else Done (AEROSPIKE_OK, err, out, ts)))"

text \<open>The frame of both loops: the socket is made nonblocking and the descriptor set allocated.\<close>

definition with_fdset :: "sock \<Rightarrow> as_error \<Rightarrow> (sock \<Rightarrow> (int \<times> as_error \<times> 'b) outcome) \<Rightarrow> (sock \<Rightarrow> 'b) \<Rightarrow> (int \<times> as_error \<times> 'b) outcome" where
  "with_fdset s err body nothing =
     (case set_nonblocking True s of
        None \<Rightarrow> (let (st, err) = as_error_set_message err AEROSPIKE_ERR_CLIENT (ascii ''Socket nonblocking set failed.'') in Done (st, err, nothing s))
      | Some s \<Rightarrow>
          (let n = as_fdset_size (sk_fd s) in
           if n > STACK_LIMIT \<and> \<not> sk_malloc s then
             (let (st, err) = as_error_update err AEROSPIKE_ERR_CLIENT ''Socket fdset allocation error: %d'' [int n] in Done (st, err, nothing s))
           else body s))"

definition as_socket_write_limit :: "errno_codes \<Rightarrow> as_error \<Rightarrow> sock \<Rightarrow> byte list \<Rightarrow> u64 \<Rightarrow> (int \<times> as_error \<times> sock) outcome" where
  "as_socket_write_limit ec err s buf deadline =
     with_fdset s err (\<lambda>s.
       outcome_bind (write_loop ec deadline buf 0 err (sk_out s) (sk_turns s)) (\<lambda>(st, err, out, ts).
       Done (st, err, s\<lparr>sk_out := out, sk_turns := ts\<rparr>))) (\<lambda>s. s)"

definition as_socket_deadline :: "u64 \<Rightarrow> u32 \<Rightarrow> u64" where
  "as_socket_deadline now timeout_ms = (if timeout_ms \<noteq> 0 \<and> timeout_ms \<le> 0x7fffffff then now + ucast timeout_ms else 0)"

text \<open>\<open>now\<close> is the time of the call.\<close>

definition as_socket_write_forever :: "errno_codes \<Rightarrow> as_error \<Rightarrow> sock \<Rightarrow> byte list \<Rightarrow> u64 \<Rightarrow> (int \<times> as_error \<times> sock) outcome" where
  "as_socket_write_forever ec err s buf now = as_socket_write_limit ec err s buf (now + 60000)"

definition as_socket_write_timeout :: "errno_codes \<Rightarrow> as_error \<Rightarrow> sock \<Rightarrow> byte list \<Rightarrow> u64 \<Rightarrow> u32 \<Rightarrow> (int \<times> as_error \<times> sock) outcome" where
  "as_socket_write_timeout ec err s buf now timeout_ms =
     (if timeout_ms \<noteq> 0 \<and> timeout_ms \<le> 0x7fffffff then as_socket_write_limit ec err s buf (now + ucast timeout_ms)
      else as_socket_write_forever ec err s buf now)"

definition as_socket_write_deadline :: "errno_codes \<Rightarrow> as_error \<Rightarrow> sock \<Rightarrow> byte list \<Rightarrow> u64 \<Rightarrow> u64 \<Rightarrow> (int \<times> as_error \<times> sock) outcome" where
  "as_socket_write_deadline ec err s buf now deadline =
     (if deadline \<noteq> 0 then as_socket_write_limit ec err s buf deadline else as_socket_write_forever ec err s buf now)"

text \<open>The loop of \<^verbatim>\<open>as_socket_read_limit\<close>: \<open>got\<close> is what the first \<open>length got\<close> bytes of the buffer hold, \<open>inp\<close> what can still be read.\<close>

fun read_loop :: "errno_codes \<Rightarrow> u64 \<Rightarrow> nat \<Rightarrow> byte list \<Rightarrow> as_error \<Rightarrow> byte list \<Rightarrow> turn list \<Rightarrow> transfer" where
  "read_loop ec deadline buf_len got err inp [] = Timeout"
| "read_loop ec deadline buf_len got err inp (t # ts) =
     (case one_turn ec deadline ''Socket read error: %d'' err (min (length inp) (buf_len - length got)) t of
        Inl (st, err) \<Rightarrow> Done (st, err, got, ts)
      | Inr r \<Rightarrow>
          (let got = got @ take r inp in
           if length got < buf_len then read_loop ec deadline buf_len got err (drop r inp) ts
           else Done (AEROSPIKE_OK, err, got, ts)))"

text \<open>The bytes read come with the status.\<close>

definition as_socket_read_limit :: "errno_codes \<Rightarrow> as_error \<Rightarrow> sock \<Rightarrow> nat \<Rightarrow> u64 \<Rightarrow> (int \<times> as_error \<times> byte list \<times> sock) outcome" where
  "as_socket_read_limit ec err s buf_len deadline =
     with_fdset s err (\<lambda>s.
       outcome_bind (read_loop ec deadline buf_len [] err (sk_in s) (sk_turns s)) (\<lambda>(st, err, got, ts).
       Done (st, err, got, s\<lparr>sk_in := drop (length got) (sk_in s), sk_turns := ts\<rparr>))) (\<lambda>s. ([], s))"

text \<open>A blocking read neither asks for the time nor waits in \<^verbatim>\<open>select\<close>.\<close>

definition blocking_turn :: "errno_codes \<Rightarrow> as_error \<Rightarrow> nat \<Rightarrow> turn \<Rightarrow> (int \<times> as_error) + nat" where
  "blocking_turn ec err limit t =
     (case turn_moved t of
        None \<Rightarrow>
          if turn_errno t \<noteq> etimedout ec then
            Inl (as_error_update err AEROSPIKE_ERR_CLIENT ''Socket read forever failed, errno %d'' [turn_errno t])
          else Inr 0
      | Some n \<Rightarrow>
          if min n limit = 0 then Inl (as_error_set_message err AEROSPIKE_ERR_CLIENT (ascii ''Bad file descriptor''))
          else Inr (min n limit))"

fun read_forever_loop :: "errno_codes \<Rightarrow> nat \<Rightarrow> byte list \<Rightarrow> as_error \<Rightarrow> byte list \<Rightarrow> turn list \<Rightarrow> transfer" where
  "read_forever_loop ec buf_len got err inp [] = Timeout"
| "read_forever_loop ec buf_len got err inp (t # ts) =
     (case blocking_turn ec err (min (length inp) (buf_len - length got)) t of
        Inl (st, err) \<Rightarrow> Done (st, err, got, ts)
      | Inr r \<Rightarrow>
          (let got = got @ take r inp in
           if length got < buf_len then read_forever_loop ec buf_len got err (drop r inp) ts
           else Done (AEROSPIKE_OK, err, got, ts)))"

definition as_socket_read_forever :: "errno_codes \<Rightarrow> as_error \<Rightarrow> sock \<Rightarrow> nat \<Rightarrow> (int \<times> as_error \<times> byte list \<times> sock) outcome" where
  "as_socket_read_forever ec err s buf_len =
     (case set_nonblocking False s of
        None \<Rightarrow> (let (st, err) = as_error_set_message err AEROSPIKE_ERR_CLIENT (ascii ''Socket blocking set failed.'') in Done (st, err, [], s))
      | Some s \<Rightarrow>
          outcome_bind (read_forever_loop ec buf_len [] err (sk_in s) (sk_turns s)) (\<lambda>(st, err, got, ts).
          Done (st, err, got, s\<lparr>sk_in := drop (length got) (sk_in s), sk_turns := ts\<rparr>)))"

definition as_socket_read_deadline :: "errno_codes \<Rightarrow> as_error \<Rightarrow> sock \<Rightarrow> nat \<Rightarrow> u64 \<Rightarrow> (int \<times> as_error \<times> byte list \<times> sock) outcome" where
  "as_socket_read_deadline ec err s buf_len deadline =
     (if deadline \<noteq> 0 then as_socket_read_limit ec err s buf_len deadline else as_socket_read_forever ec err s buf_len)"

definition as_socket_read_timeout :: "errno_codes \<Rightarrow> as_error \<Rightarrow> sock \<Rightarrow> nat \<Rightarrow> u64 \<Rightarrow> u32 \<Rightarrow> (int \<times> as_error \<times> byte list \<times> sock) outcome" where
  "as_socket_read_timeout ec err s buf_len now timeout_ms =
     (if timeout_ms \<noteq> 0 \<and> timeout_ms \<le> 0x7fffffff then as_socket_read_limit ec err s buf_len (now + ucast timeout_ms)
      else as_socket_read_forever ec err s buf_len)"

subsection \<open>What a transfer moves\<close>

text \<open>The end of a transfer: a status with its error.\<close>

definition ended :: "as_error \<Rightarrow> int \<Rightarrow> as_error \<Rightarrow> bool" where
  "ended err st err' \<longleftrightarrow> st \<in> {AEROSPIKE_OK, AEROSPIKE_ERR_TIMEOUT, AEROSPIKE_ERR_CLIENT} \<and>
     (if st = AEROSPIKE_OK then err' = err else err_code err' = st)"

lemma error_ended:
  "as_error_update err AEROSPIKE_ERR_CLIENT fmt args = (st, err') \<Longrightarrow> ended err st err' \<and> st \<noteq> AEROSPIKE_OK"
  "as_error_set_message err AEROSPIKE_ERR_CLIENT msg = (st, err') \<Longrightarrow> ended err st err' \<and> st \<noteq> AEROSPIKE_OK"
  "ended err AEROSPIKE_ERR_TIMEOUT (err\<lparr>err_code := AEROSPIKE_ERR_TIMEOUT\<rparr>)" "AEROSPIKE_ERR_TIMEOUT \<noteq> AEROSPIKE_OK"
  by (auto simp: ended_def as_error_update_def as_error_set_message_def status_codes)

lemma one_turn_cases:
  obtains (stop) st err' where "one_turn ec dl failed err limit t = Inl (st, err')" "ended err st err'" "st \<noteq> AEROSPIKE_OK"
  | (move) r where "one_turn ec dl failed err limit t = Inr r" "r \<le> limit" "turn_now t \<le> dl"
proof -
  have "ended err st err' \<and> st \<noteq> AEROSPIKE_OK" if "one_turn ec dl failed err limit t = Inl (st, err')" for st err'
    using that by (auto simp: one_turn_def error_ended split: if_splits option.splits dest: error_ended(1,2))
  moreover have "r \<le> limit \<and> turn_now t \<le> dl" if "one_turn ec dl failed err limit t = Inr r" for r
    using that by (auto simp: one_turn_def split: if_splits option.splits)
  ultimately show thesis
    using that by (cases "one_turn ec dl failed err limit t") auto
qed

lemma blocking_turn_cases:
  obtains (stop) st err' where "blocking_turn ec err limit t = Inl (st, err')" "ended err st err'" "st \<noteq> AEROSPIKE_OK"
  | (move) r where "blocking_turn ec err limit t = Inr r" "r \<le> limit"
proof -
  have "ended err st err' \<and> st \<noteq> AEROSPIKE_OK" if "blocking_turn ec err limit t = Inl (st, err')" for st err'
    using that by (auto simp: blocking_turn_def split: if_splits option.splits dest: error_ended(1,2))
  moreover have "r \<le> limit" if "blocking_turn ec err limit t = Inr r" for r
    using that by (auto simp: blocking_turn_def split: if_splits option.splits)
  ultimately show thesis
    using that by (cases "blocking_turn ec err limit t") auto
qed

text \<open>A prefix of the bytes is moved, and all of them on success.\<close>

definition prefix_moved :: "byte list \<Rightarrow> nat \<Rightarrow> int \<Rightarrow> byte list \<Rightarrow> bool" where
  "prefix_moved bs n st moved \<longleftrightarrow> length moved \<le> n \<and> moved = take (length moved) bs \<and> (st = AEROSPIKE_OK \<longrightarrow> length moved = n)"

lemma prefix_movedI:
  "p \<le> n \<Longrightarrow> p \<le> length bs \<Longrightarrow> (st = AEROSPIKE_OK \<Longrightarrow> p = n) \<Longrightarrow> prefix_moved bs n st (take p bs)"
  by (auto simp: prefix_moved_def min_def)

lemma ended_ok [simp]: "ended err AEROSPIKE_OK err"
  by (simp add: ended_def)

lemma write_loop_moves:
  assumes "write_loop ec dl buf pos err out ts = Done (st, err', out', ts')" and "pos \<le> length buf" and "out = out0 @ take pos buf"
  shows "ended err st err' \<and> (\<exists>moved. out' = out0 @ moved \<and> prefix_moved buf (length buf) st moved)"
  using assms
proof (induction ts arbitrary: pos out)
  case (Cons t ts)
  show ?case
  proof (rule one_turn_cases [of ec dl "''Socket write error: %d''" err "length buf - pos" t])
    fix c e assume "one_turn ec dl ''Socket write error: %d'' err (length buf - pos) t = Inl (c, e)" "ended err c e" "c \<noteq> AEROSPIKE_OK"
    then show ?thesis
      using Cons.prems prefix_movedI [of pos "length buf" buf c] by auto
  next
    fix r assume r: "one_turn ec dl ''Socket write error: %d'' err (length buf - pos) t = Inr r" "r \<le> length buf - pos"
    have "out @ take r (drop pos buf) = out0 @ take (pos + r) buf"
      using Cons.prems(3) by (simp add: take_add)
    then have "(if pos + r < length buf then write_loop ec dl buf (pos + r) err (out0 @ take (pos + r) buf) ts
        else Done (AEROSPIKE_OK, err, out0 @ take (pos + r) buf, ts)) = Done (st, err', out', ts')"
      using Cons.prems(1) r(1) by (simp add: Let_def)
    then show ?thesis
      using Cons.prems(2) r(2) Cons.IH [of "pos + r" "out0 @ take (pos + r) buf"] prefix_movedI [of "pos + r" "length buf" buf st]
      by (cases "pos + r < length buf") auto
  qed
qed simp

lemma write_loop_ends: "\<exists>t \<in> set ts. dl < turn_now t \<Longrightarrow> \<exists>r. write_loop ec dl buf pos err out ts = Done r"
proof (induction ts arbitrary: pos out)
  case (Cons t ts)
  show ?case
  proof (rule one_turn_cases [of ec dl "''Socket write error: %d''" err "length buf - pos" t])
    fix r assume "one_turn ec dl ''Socket write error: %d'' err (length buf - pos) t = Inr r" "turn_now t \<le> dl"
    then show ?thesis
      using Cons.prems Cons.IH [of "pos + r" "out @ take r (drop pos buf)"] by (auto simp: Let_def)
  qed simp
qed simp

text \<open>Both read loops have the same shape.\<close>

lemma read_grows:
  assumes "bs = got @ inp" and "r \<le> min (length inp) (n - length got)"
  shows "bs = (got @ take r inp) @ drop r inp" "length (got @ take r inp) = length got + r"
  using assms by simp_all

lemma read_stops:
  "bs = got @ inp \<Longrightarrow> length got \<le> n \<Longrightarrow> (st = AEROSPIKE_OK \<Longrightarrow> n \<le> length got) \<Longrightarrow> prefix_moved bs n st got"
  by (auto simp: prefix_moved_def)

lemma read_loop_moves:
  assumes "read_loop ec dl n got err inp ts = Done (st, err', got', ts')" and "bs = got @ inp" and "length got \<le> n"
  shows "ended err st err' \<and> prefix_moved bs n st got'"
  using assms
proof (induction ts arbitrary: got inp)
  case (Cons t ts)
  show ?case
  proof (rule one_turn_cases [of ec dl "''Socket read error: %d''" err "min (length inp) (n - length got)" t])
    fix c e assume "one_turn ec dl ''Socket read error: %d'' err (min (length inp) (n - length got)) t = Inl (c, e)"
      "ended err c e" "c \<noteq> AEROSPIKE_OK"
    then show ?thesis
      using Cons.prems read_stops [OF Cons.prems(2,3), of c] by auto
  next
    fix r assume r: "one_turn ec dl ''Socket read error: %d'' err (min (length inp) (n - length got)) t = Inr r"
      "r \<le> min (length inp) (n - length got)"
    show ?thesis
      using Cons.prems(1,3) r Cons.IH [OF _ read_grows(1) [OF Cons.prems(2) r(2)]] read_stops [OF read_grows(1) [OF Cons.prems(2) r(2)], of n st]
      by (auto simp: Let_def split: if_splits)
  qed
qed simp

lemma read_loop_ends: "\<exists>t \<in> set ts. dl < turn_now t \<Longrightarrow> \<exists>r. read_loop ec dl n got err inp ts = Done r"
proof (induction ts arbitrary: got inp)
  case (Cons t ts)
  show ?case
  proof (rule one_turn_cases [of ec dl "''Socket read error: %d''" err "min (length inp) (n - length got)" t])
    fix r assume "one_turn ec dl ''Socket read error: %d'' err (min (length inp) (n - length got)) t = Inr r" "turn_now t \<le> dl"
    then show ?thesis
      using Cons.prems Cons.IH [of "got @ take r inp" "drop r inp"] by (auto simp: Let_def)
  qed simp
qed simp

lemma read_forever_loop_moves:
  assumes "read_forever_loop ec n got err inp ts = Done (st, err', got', ts')" and "bs = got @ inp" and "length got \<le> n"
  shows "ended err st err' \<and> prefix_moved bs n st got'"
  using assms
proof (induction ts arbitrary: got inp)
  case (Cons t ts)
  show ?case
  proof (rule blocking_turn_cases [of ec err "min (length inp) (n - length got)" t])
    fix c e assume "blocking_turn ec err (min (length inp) (n - length got)) t = Inl (c, e)" "ended err c e" "c \<noteq> AEROSPIKE_OK"
    then show ?thesis
      using Cons.prems read_stops [OF Cons.prems(2,3), of c] by auto
  next
    fix r assume r: "blocking_turn ec err (min (length inp) (n - length got)) t = Inr r" "r \<le> min (length inp) (n - length got)"
    show ?thesis
      using Cons.prems(1,3) r Cons.IH [OF _ read_grows(1) [OF Cons.prems(2) r(2)]] read_stops [OF read_grows(1) [OF Cons.prems(2) r(2)], of n st]
      by (auto simp: Let_def split: if_splits)
  qed
qed simp


text \<open>The same of the functions around the loops.\<close>

lemma set_nonblocking_keeps: "set_nonblocking b s = Some s' \<Longrightarrow> sk_in s' = sk_in s \<and> sk_out s' = sk_out s \<and> sk_turns s' = sk_turns s"
  by (auto simp: set_nonblocking_def Let_def split: if_splits)

lemma with_fdset_cases:
  assumes "with_fdset s err body nothing = Done (st, err', x)"
  obtains (refused) q where "x = nothing q" "sk_in q = sk_in s" "sk_out q = sk_out s" "ended err st err'" "st \<noteq> AEROSPIKE_OK"
  | (ran) q where "body q = Done (st, err', x)" "sk_in q = sk_in s" "sk_out q = sk_out s" "sk_turns q = sk_turns s"
proof (cases "set_nonblocking True s")
  case None
  with assms show ?thesis
    using refused [of s] error_ended(2) by (auto simp: with_fdset_def split: prod.splits)
next
  case (Some q)
  with assms show ?thesis
    using refused [of q] ran [of q] error_ended(1) set_nonblocking_keeps [OF Some]
    by (auto simp: with_fdset_def Let_def split: if_splits prod.splits)
qed

lemma write_limit_moves:
  assumes "as_socket_write_limit ec err s buf dl = Done (st, err', s')"
  shows "ended err st err' \<and> sk_in s' = sk_in s \<and> (\<exists>moved. sk_out s' = sk_out s @ moved \<and> prefix_moved buf (length buf) st moved)"
  using assms unfolding as_socket_write_limit_def
proof (rule with_fdset_cases)
  fix q assume "s' = q" "sk_in q = sk_in s" "sk_out q = sk_out s" "ended err st err'" "st \<noteq> AEROSPIKE_OK"
  then show ?thesis
    using prefix_movedI [of 0 "length buf" buf st] by auto
next
  fix q assume q: "outcome_bind (write_loop ec dl buf 0 err (sk_out q) (sk_turns q)) (\<lambda>(st, err, out, ts).
      Done (st, err, q\<lparr>sk_out := out, sk_turns := ts\<rparr>)) = Done (st, err', s')"
    "sk_in q = sk_in s" "sk_out q = sk_out s"
  then obtain out' ts' where "write_loop ec dl buf 0 err (sk_out q) (sk_turns q) = Done (st, err', out', ts')"
    "s' = q\<lparr>sk_out := out', sk_turns := ts'\<rparr>"
    by (cases "write_loop ec dl buf 0 err (sk_out q) (sk_turns q)") auto
  then show ?thesis
    using write_loop_moves [of ec dl buf 0 err "sk_out q" "sk_turns q" st err' out' ts' "sk_out s"] q by auto
qed

lemma read_bind_moves:
  assumes "outcome_bind r (\<lambda>(st, err, got, ts). Done (st, err, got, q\<lparr>sk_in := drop (length got) (sk_in q), sk_turns := ts\<rparr>)) =
      Done (st, err', got, s')"
    and "\<And>st err' got ts. r = Done (st, err', got, ts) \<Longrightarrow> ended err st err' \<and> prefix_moved (sk_in q) n st got"
  shows "ended err st err' \<and> sk_out s' = sk_out q \<and> sk_in q = got @ sk_in s' \<and> prefix_moved (sk_in q) n st got"
proof -
  obtain ts where r: "r = Done (st, err', got, ts)" "s' = q\<lparr>sk_in := drop (length got) (sk_in q), sk_turns := ts\<rparr>"
    using assms(1) by (cases r) auto
  then have "prefix_moved (sk_in q) n st got" "ended err st err'"
    using assms(2) by blast+
  moreover have "sk_in q = got @ drop (length got) (sk_in q)"
    using calculation(1) by (metis append_take_drop_id prefix_moved_def)
  ultimately show ?thesis
    using r(2) by simp
qed

lemma read_limit_moves:
  assumes "as_socket_read_limit ec err s n dl = Done (st, err', got, s')"
  shows "ended err st err' \<and> sk_out s' = sk_out s \<and> sk_in s = got @ sk_in s' \<and> prefix_moved (sk_in s) n st got"
  using assms unfolding as_socket_read_limit_def
proof (rule with_fdset_cases)
  fix q assume "(got, s') = ([], q)" "sk_in q = sk_in s" "sk_out q = sk_out s" "ended err st err'" "st \<noteq> AEROSPIKE_OK"
  then show ?thesis
    by (auto simp: prefix_moved_def)
next
  fix q assume q: "outcome_bind (read_loop ec dl n [] err (sk_in q) (sk_turns q)) (\<lambda>(st, err, got, ts).
      Done (st, err, got, q\<lparr>sk_in := drop (length got) (sk_in q), sk_turns := ts\<rparr>)) = Done (st, err', got, s')"
    "sk_in q = sk_in s" "sk_out q = sk_out s"
  then show ?thesis
    using read_bind_moves [OF q(1), of err n] read_loop_moves [of ec dl n "[]" err "sk_in q" "sk_turns q" _ _ _ _ "sk_in q"] by auto
qed

lemma read_forever_moves:
  assumes "as_socket_read_forever ec err s n = Done (st, err', got, s')"
  shows "ended err st err' \<and> sk_out s' = sk_out s \<and> sk_in s = got @ sk_in s' \<and> prefix_moved (sk_in s) n st got"
proof (cases "set_nonblocking False s")
  case None
  with assms show ?thesis
    using error_ended(2) by (auto simp: as_socket_read_forever_def prefix_moved_def split: prod.splits)
next
  case (Some q)
  then have q: "outcome_bind (read_forever_loop ec n [] err (sk_in q) (sk_turns q)) (\<lambda>(st, err, got, ts).
      Done (st, err, got, q\<lparr>sk_in := drop (length got) (sk_in q), sk_turns := ts\<rparr>)) = Done (st, err', got, s')"
    using assms by (simp add: as_socket_read_forever_def)
  show ?thesis
    using read_bind_moves [OF q, of err n] read_forever_loop_moves [of ec n "[]" err "sk_in q" "sk_turns q" _ _ _ _ "sk_in q"]
      set_nonblocking_keeps [OF Some] by auto
qed

lemma read_deadline_moves:
  assumes "as_socket_read_deadline ec err s n dl = Done (st, err', got, s')"
  shows "ended err st err' \<and> sk_out s' = sk_out s \<and> sk_in s = got @ sk_in s' \<and> prefix_moved (sk_in s) n st got"
proof (cases "dl = 0")
  case True
  with assms have "as_socket_read_forever ec err s n = Done (st, err', got, s')"
    by (simp add: as_socket_read_deadline_def)
  then show ?thesis
    by (rule read_forever_moves)
next
  case False
  with assms have "as_socket_read_limit ec err s n dl = Done (st, err', got, s')"
    by (simp add: as_socket_read_deadline_def)
  then show ?thesis
    by (rule read_limit_moves)
qed

lemma write_deadline_moves:
  "as_socket_write_deadline ec err s buf now dl = Done (st, err', s') \<Longrightarrow>
    ended err st err' \<and> sk_in s' = sk_in s \<and> (\<exists>moved. sk_out s' = sk_out s @ moved \<and> prefix_moved buf (length buf) st moved)"
  by (cases "dl = 0") (simp_all only: as_socket_write_deadline_def as_socket_write_forever_def if_True if_False simp_thms write_limit_moves)

text \<open>
  C17.  A transfer is exact.  Whatever the operating system returns and in whatever pieces, a write puts a prefix of its
  buffer on the connection and a read takes a prefix of what arrived, in order and without loss or repetition; no read
  stores more than it was asked for; the status is success exactly with the whole length, and a failure is in the error.
\<close>

theorem socket_transfer_exact:
  "(\<forall>st err' s'. as_socket_write_deadline ec err s buf now dl = Done (st, err', s') \<longrightarrow>
      ended err st err' \<and> sk_in s' = sk_in s \<and> (\<exists>moved. sk_out s' = sk_out s @ moved \<and> prefix_moved buf (length buf) st moved)) \<and>
   (\<forall>st err' got s'. as_socket_read_deadline ec err s n dl = Done (st, err', got, s') \<longrightarrow>
      ended err st err' \<and> sk_out s' = sk_out s \<and> sk_in s = got @ sk_in s' \<and> prefix_moved (sk_in s) n st got)"
proof (intro conjI allI impI)
qed (drule write_deadline_moves read_deadline_moves, blast)+

definition some_errnos :: errno_codes where
  "some_errnos = \<lparr> etimedout = 110, ewouldblock = 11, einprogress = 115, eagain = 11 \<rparr>"

definition some_sock :: sock where
  "some_sock = \<lparr> sk_fd = 3, sk_flags = Some True, sk_setfl = True, sk_malloc = True, sk_in = [1, 2, 3], sk_out = [],
     sk_turns = [\<lparr> turn_now = 5, turn_select = 1, turn_isset = True, turn_moved = Some 1, turn_errno = 0 \<rparr>,
                 \<lparr> turn_now = 6, turn_select = 1, turn_isset = True, turn_moved = None, turn_errno = 11 \<rparr>,
                 \<lparr> turn_now = 7, turn_select = 1, turn_isset = True, turn_moved = Some 9, turn_errno = 0 \<rparr>] \<rparr>"

lemmas run_socket = as_socket_read_deadline_def as_socket_write_deadline_def as_socket_read_limit_def as_socket_write_limit_def with_fdset_def set_nonblocking_def
  as_fdset_size_def one_turn_def transient_def some_errnos_def STACK_LIMIT_def FD_SETSIZE_def

theorem socket_transfer_exact_witness:
  "(\<exists>s'. as_socket_read_deadline some_errnos as_error_reset some_sock 2 9 = Done (AEROSPIKE_OK, as_error_reset, [1, 2], s') \<and>
     sk_in some_sock = [1, 2] @ sk_in s') \<and>
   (\<exists>s'. as_socket_write_deadline some_errnos as_error_reset some_sock [7, 8] 0 9 = Done (AEROSPIKE_OK, as_error_reset, s') \<and>
     (\<exists>moved. sk_out s' = moved \<and> prefix_moved [7, 8] 2 AEROSPIKE_OK moved))"
proof -
  obtain s' where r: "as_socket_read_deadline some_errnos as_error_reset some_sock 2 9 = Done (AEROSPIKE_OK, as_error_reset, [1, 2], s')"
    by (simp add: run_socket some_sock_def)
  obtain s'' where w: "as_socket_write_deadline some_errnos as_error_reset some_sock [7, 8] 0 9 = Done (AEROSPIKE_OK, as_error_reset, s'')"
    by (simp add: run_socket some_sock_def)
  have "sk_in some_sock = [1, 2] @ sk_in s'"
    using r socket_transfer_exact [of some_errnos as_error_reset some_sock "[7, 8]" 0 9 2] by blast
  moreover have "\<exists>moved. sk_out s'' = sk_out some_sock @ moved \<and> prefix_moved [7, 8] (length [7, 8 :: byte]) AEROSPIKE_OK moved"
    using w socket_transfer_exact [of some_errnos as_error_reset some_sock "[7, 8]" 0 9 2] by blast
  ultimately show ?thesis
    using r w by (simp add: some_sock_def numeral_2_eq_2)
qed

text \<open>
  C21.  A transfer with a deadline ends: once the clock passes the deadline, the loop returns, however often the system reports
  that nothing is ready or that a call must be repeated.
\<close>

theorem socket_deadline_ends:
  assumes "\<exists>t \<in> set (sk_turns s). dl < turn_now t"
  shows "(\<exists>r. as_socket_write_limit ec err s buf dl = Done r) \<and> (\<exists>r. as_socket_read_limit ec err s n dl = Done r)"
proof (cases "set_nonblocking True s")
  case None
  then show ?thesis
    by (simp add: as_socket_write_limit_def as_socket_read_limit_def with_fdset_def split: prod.splits)
next
  case (Some q)
  then have "\<exists>t \<in> set (sk_turns q). dl < turn_now t"
    using set_nonblocking_keeps assms by simp
  from write_loop_ends [OF this] read_loop_ends [OF this] obtain w r
    where "write_loop ec dl buf 0 err (sk_out q) (sk_turns q) = Done w" "read_loop ec dl n [] err (sk_in q) (sk_turns q) = Done r"
    by blast
  then show ?thesis
    using Some by (cases w; cases r) (simp add: as_socket_write_limit_def as_socket_read_limit_def with_fdset_def Let_def split: prod.splits)
qed

theorem socket_deadline_ends_witness:
  "(\<exists>t \<in> set (sk_turns some_sock). 6 < turn_now t) \<and> (\<exists>r. as_socket_read_limit some_errnos as_error_reset some_sock 9 6 = Done r)"
proof -
  have "\<exists>t \<in> set (sk_turns some_sock). 6 < turn_now t"
    by (simp add: some_sock_def)
  then show ?thesis
    using socket_deadline_ends by blast
qed

end
