(* ===== verification/KeyCommands.thy ===== *)
theory KeyCommands
  imports Command
begin

text \<open>
  The commands of \<^verbatim>\<open>aerospike_key.c\<close>: how each call computes the size of its buffer and fills it.  A
  result is the buffer as it is handed to \<^verbatim>\<open>as_command_execute\<close>, the number of bytes to send, and the
  size the buffer was allocated with, or the status of a call that is refused before.

  \<open>junk\<close> is what the fresh buffer holds and \<open>allocs i\<close> tells which allocations succeed while bin \<open>i\<close> is
  serialised; the digest of the key has been computed.
\<close>

record as_policy_read =
  pr_timeout :: u32
  pr_key :: as_policy_key
  pr_replica :: as_policy_replica
  pr_consistency :: as_policy_consistency_level

record as_policy_write =
  pw_timeout :: u32
  pw_retry :: as_policy_retry
  pw_key :: as_policy_key
  pw_gen :: as_policy_gen
  pw_exists :: as_policy_exists
  pw_commit :: as_policy_commit_level

record as_policy_remove =
  px_timeout :: u32
  px_generation :: u16
  px_retry :: as_policy_retry
  px_key :: as_policy_key
  px_gen :: as_policy_gen
  px_commit :: as_policy_commit_level

record as_policy_apply =
  pa_timeout :: u32
  pa_key :: as_policy_key
  pa_commit :: as_policy_commit_level

record as_policy_operate =
  po_timeout :: u32
  po_retry :: as_policy_retry
  po_key :: as_policy_key
  po_gen :: as_policy_gen
  po_replica :: as_policy_replica
  po_consistency :: as_policy_consistency_level
  po_commit :: as_policy_commit_level

text \<open>A finished command, or the status of a refused call.\<close>

record command_buffer =
  cmd_mem :: "byte list"
  cmd_len :: nat
  cmd_alloc :: nat

type_synonym built = "(int + command_buffer) option"

definition as_command_init :: "(nat \<Rightarrow> byte) \<Rightarrow> nat \<Rightarrow> byte list" where
  "as_command_init junk n = map junk [0..<n]"

text \<open>Filling a fresh buffer with a writer and closing the command.\<close>

definition filled :: "host \<Rightarrow> (nat \<Rightarrow> byte) \<Rightarrow> nat \<Rightarrow> writer \<Rightarrow> built" where
  "filled h junk n w = do {
     (mem, p) \<leftarrow> w (as_command_init junk n) 0;
     (mem, len) \<leftarrow> as_command_write_end h mem 0 p;
     Some (Inr \<lparr> cmd_mem = mem, cmd_len = len, cmd_alloc = n \<rparr>) }"

text \<open>Whether the buffer is given back the way it was taken: both from the stack or both from the heap.\<close>

definition freed_as_taken :: "command_buffer \<Rightarrow> bool" where
  "freed_as_taken c \<longleftrightarrow> (AS_STACK_BUF_SIZE < cmd_len c \<longleftrightarrow> AS_STACK_BUF_SIZE < cmd_alloc c)"

definition key_get_command :: "platform \<Rightarrow> (nat \<Rightarrow> byte) \<Rightarrow> as_policy_read \<Rightarrow> as_key \<Rightarrow> built" where
  "key_get_command pf junk pol k = do {
     (n, nf) \<leftarrow> as_command_key_size (pr_key pol) k;
     filled (byte_order pf) junk n
       (seq (as_command_write_header_read (byte_order pf) (AS_MSG_INFO1_READ OR AS_MSG_INFO1_GET_ALL) (pr_consistency pol)
              (pr_timeout pol) nf 0)
            (as_command_write_key pf (pr_key pol) k)) }"

text \<open>The sizes of the bin names, added up; a name that is too long ends the call.\<close>

fun bin_name_sizes :: "byte list list \<Rightarrow> nat \<Rightarrow> nat option" where
  "bin_name_sizes [] n = Some n"
| "bin_name_sizes (b # bs) n = do { n \<leftarrow> as_command_bin_name_size b n; bin_name_sizes bs n }"

fun write_bin_names :: "host \<Rightarrow> byte list list \<Rightarrow> writer" where
  "write_bin_names h [] = (\<lambda>mem p. Some (mem, p))"
| "write_bin_names h (b # bs) = seq (as_command_write_bin_name h b) (write_bin_names h bs)"

text \<open>The array of names ends at the first empty one.\<close>

definition key_select_command ::
  "platform \<Rightarrow> (nat \<Rightarrow> byte) \<Rightarrow> as_policy_read \<Rightarrow> as_key \<Rightarrow> byte list list \<Rightarrow> built" where
  "key_select_command pf junk pol k names = do {
     (n, nf) \<leftarrow> as_command_key_size (pr_key pol) k;
     let bins = takeWhile (\<lambda>b. c_str b \<noteq> []) names in
     case bin_name_sizes bins n of
       None \<Rightarrow> Some (Inl (- 2))
     | Some n \<Rightarrow>
         filled (byte_order pf) junk n
           (seq (as_command_write_header_read (byte_order pf) AS_MSG_INFO1_READ (pr_consistency pol) (pr_timeout pol) nf
                  (of_nat (length bins)))
           (seq (as_command_write_key pf (pr_key pol) k) (write_bin_names (byte_order pf) bins))) }"

definition key_exists_command :: "platform \<Rightarrow> (nat \<Rightarrow> byte) \<Rightarrow> as_policy_read \<Rightarrow> as_key \<Rightarrow> built" where
  "key_exists_command pf junk pol k = do {
     (n, nf) \<leftarrow> as_command_key_size (pr_key pol) k;
     filled (byte_order pf) junk n
       (seq (as_command_write_header_read (byte_order pf) (AS_MSG_INFO1_READ OR AS_MSG_INFO1_GET_NOBINDATA) (pr_consistency pol)
              (pr_timeout pol) nf 0)
            (as_command_write_key pf (pr_key pol) k)) }"

definition zero_buffer :: as_buffer where
  "zero_buffer = \<lparr> buf_capacity = 0, buf_size = 0, buf_data = [] \<rparr>"

text \<open>The loop over the bins that adds up their sizes and serialises lists and maps.\<close>

fun bin_sizes :: "host \<Rightarrow> (nat \<Rightarrow> bool list) \<Rightarrow> nat \<Rightarrow> as_bin list \<Rightarrow> (nat \<times> as_buffer list) option" where
  "bin_sizes h allocs i [] = Some (0, [])"
| "bin_sizes h allocs i (b # bs) = do {
     (n, buf) \<leftarrow> as_command_bin_size h (allocs i) b zero_buffer;
     (ns, bufs) \<leftarrow> bin_sizes h allocs (Suc i) bs;
     Some (n + ns, buf # bufs) }"

fun write_bins :: "platform \<Rightarrow> (as_operator \<times> as_bin) list \<Rightarrow> as_buffer list \<Rightarrow> writer" where
  "write_bins pf ((op, b) # bs) (buf # bufs) = seq (as_command_write_bin pf op b buf) (write_bins pf bs bufs)"
| "write_bins pf _ _ = (\<lambda>mem p. Some (mem, p))"

definition key_put_command ::
  "platform \<Rightarrow> (nat \<Rightarrow> byte) \<Rightarrow> (nat \<Rightarrow> bool list) \<Rightarrow> as_policy_write \<Rightarrow> as_key \<Rightarrow> as_bin list \<Rightarrow> u32 \<Rightarrow> u32 \<Rightarrow> built" where
  "key_put_command pf junk allocs pol k bins gen ttl = do {
     (n, nf) \<leftarrow> as_command_key_size (pw_key pol) k;
     (ns, bufs) \<leftarrow> bin_sizes (byte_order pf) allocs 0 bins;
     filled (byte_order pf) junk (n + ns)
       (seq (as_command_write_header (byte_order pf) 0 AS_MSG_INFO2_WRITE (pw_commit pol) AS_POLICY_CONSISTENCY_LEVEL_ONE (pw_exists pol)
              (pw_gen pol) gen ttl (pw_timeout pol) nf (of_nat (length bins)))
       (seq (as_command_write_key pf (pw_key pol) k) (write_bins pf (map (Pair AS_OPERATOR_WRITE) bins) bufs))) }"

definition key_remove_command :: "platform \<Rightarrow> as_policy_remove \<Rightarrow> as_key \<Rightarrow> built" where
  "key_remove_command pf pol k = do {
     (n, nf) \<leftarrow> as_command_key_size (px_key pol) k;
     filled (byte_order pf) (\<lambda>_. 0) n
       (seq (as_command_write_header (byte_order pf) 0 (AS_MSG_INFO2_WRITE OR AS_MSG_INFO2_DELETE) (px_commit pol)
              AS_POLICY_CONSISTENCY_LEVEL_ONE AS_POLICY_EXISTS_IGNORE (px_gen pol) 0 0 (px_timeout pol) nf 0)
            (as_command_write_key pf (px_key pol) k)) }"

text \<open>The flags of a list of operations: any read, any other.\<close>

definition op_attrs :: "(as_operator \<times> as_bin) list \<Rightarrow> byte \<times> byte" where
  "op_attrs ops = fold (\<lambda>(op, _) (r, w). if op = AS_OPERATOR_READ then (r OR AS_MSG_INFO1_READ, w) else (r, w OR AS_MSG_INFO2_WRITE)) ops (0, 0)"

definition key_operate_command ::
  "platform \<Rightarrow> (nat \<Rightarrow> bool list) \<Rightarrow> as_policy_operate \<Rightarrow> as_key \<Rightarrow> (as_operator \<times> as_bin) list \<Rightarrow> u32 \<Rightarrow> u32 \<Rightarrow> built" where
  "key_operate_command pf allocs pol k ops gen ttl = do {
     (n, nf) \<leftarrow> as_command_key_size (po_key pol) k;
     (ns, bufs) \<leftarrow> bin_sizes (byte_order pf) allocs 0 (map snd ops);
     let (r, w) = op_attrs ops in
     filled (byte_order pf) (\<lambda>_. 0) (n + ns)
       (seq (as_command_write_header (byte_order pf) r w (po_commit pol) (po_consistency pol) AS_POLICY_EXISTS_IGNORE (po_gen pol) gen ttl
              (po_timeout pol) nf (of_nat (length ops)))
       (seq (as_command_write_key pf (po_key pol) k) (write_bins pf ops bufs))) }"

definition key_apply_command ::
  "platform \<Rightarrow> (nat \<Rightarrow> byte) \<Rightarrow> bool list \<Rightarrow> as_policy_apply \<Rightarrow> as_key \<Rightarrow> byte list \<Rightarrow> byte list \<Rightarrow> as_val \<Rightarrow> built" where
  "key_apply_command pf junk allocs pol k module func arglist = do {
     (n, nf) \<leftarrow> as_command_key_size (pa_key pol) k;
     (rc, r) \<leftarrow> as_msgpack_serializer_serialize (byte_order pf) allocs (Some arglist);
     let args = (case r of None \<Rightarrow> zero_buffer | Some b \<Rightarrow> b);
         n = n + as_command_string_field_size module + as_command_string_field_size func + as_command_field_size (buf_size args) in
     filled (byte_order pf) junk n
       (seq (as_command_write_header (byte_order pf) 0 AS_MSG_INFO2_WRITE (pa_commit pol) AS_POLICY_CONSISTENCY_LEVEL_ONE
              AS_POLICY_EXISTS_IGNORE AS_POLICY_GEN_IGNORE 0 0 (pa_timeout pol) (nf + 3) 0)
       (seq (as_command_write_key pf (pa_key pol) k)
       (seq (as_command_write_field_string (byte_order pf) AS_FIELD_UDF_PACKAGE_NAME module)
       (seq (as_command_write_field_string (byte_order pf) AS_FIELD_UDF_FUNCTION func)
            (as_command_write_field_buffer (byte_order pf) AS_FIELD_UDF_ARGLIST args))))) }"

end
