(* ===== verification/CommandProps.thy ===== *)
theory CommandProps
  imports KeyCommands MsgpackProps
begin

text \<open>
  What the commands look like on the wire: every writer emits a fixed sequence of bytes, the sizes computed
  beforehand are the lengths of these sequences, and so each command of \<^verbatim>\<open>aerospike_key.c\<close> fills its buffer
  exactly, with the same bytes on every platform.
\<close>

subsection \<open>Writers emit fixed byte sequences\<close>

lemma emits_backfill [emit_intros]:
  assumes body: "emits body b" and hdr: "emits (hdr (length b)) hs" and k: "length hs = k"
  shows "emits (backfill k body hdr) (hs @ b)"
proof (rule emitsI)
  fix pre old post :: "byte list"
  assume "length old = length (hs @ b)"
  then obtain o1 o2 where o: "old = o1 @ o2" "length o1 = length hs" "length o2 = length b"
    using that [of "take (length hs) old" "drop (length hs) old"] by simp
  have "body ((pre @ o1) @ o2 @ post) (length (pre @ o1)) = Some ((pre @ o1) @ b @ post, length (pre @ o1) + length b)"
    using body o(3) by (rule emitsD)
  moreover have "hdr (length b) (pre @ o1 @ b @ post) (length pre) = Some (pre @ hs @ b @ post, length pre + length hs)"
    using hdr o(2) by (rule emitsD)
  ultimately show "backfill k body hdr (pre @ old @ post) (length pre) = Some (pre @ (hs @ b) @ post, length pre + length (hs @ b))"
    using o k by (simp add: backfill_def add.assoc)
qed

lemma emits_nothing [emit_intros]: "emits (\<lambda>mem p. Some (mem, p)) []"
  by (simp add: emits_def)

definition field_wire :: "byte \<Rightarrow> byte list \<Rightarrow> byte list" where
  "field_wire fid bs = be32 (of_nat (length bs) + 1) @ fid # bs"

lemma emits_field_header [emit_intros]: "emits (as_command_write_field_header h fid n) (be32 (n + 1) @ [fid])"
  unfolding as_command_write_field_header_def store_to_be by (intro emit_intros)

lemma emits_field_string [emit_intros]: "emits (as_command_write_field_string h fid s) (field_wire fid (c_str s))"
proof -
  have "emits (as_command_write_field_string h fid s) ((be32 (of_nat (length (c_str s)) + 1) @ [fid]) @ c_str s)"
    unfolding as_command_write_field_string_def by (intro emit_intros) (simp add: AS_FIELD_HEADER_SIZE_def)
  then show ?thesis
    by (simp add: field_wire_def)
qed

text \<open>On HP-UX, a big-endian system, copying the integer unswapped is right.\<close>

definition sound_platform :: "platform \<Rightarrow> bool" where
  "sound_platform pf \<longleftrightarrow> (hpux_libc pf \<longrightarrow> byte_order pf = Big_Endian)"

lemma int64_wire: "sound_platform pf \<Longrightarrow> int64_bytes pf i = be64 i"
proof -
  assume pf: "sound_platform pf"
  have "ucast (ucast x :: u64) = x" for x :: byte
    by (rule bit_word_eqI) (simp add: bit_simps)
  moreover have "be64 i = hd (be64 i) # tl (be64 i)"
    by (simp add: be64_def)
  ultimately show ?thesis
    using pf by (auto simp: int64_bytes_def sound_platform_def Let_def)
qed

lemma emits_field_uint64 [emit_intros]:
  assumes "sound_platform pf"
  shows "emits (as_command_write_field_uint64 pf fid i) (field_wire fid (be64 i))"
proof -
  have "emits (as_command_write_field_uint64 pf fid i) ((be32 (8 + 1) @ [fid]) @ be64 i)"
    unfolding as_command_write_field_uint64_def int64_wire [OF assms] by (intro emit_intros)
  then show ?thesis
    by (simp add: field_wire_def)
qed

lemma emits_put_buffer [emit_intros]:
  assumes "buf_size b \<le> length (buf_data b)"
  shows "emits (put_buffer b) (take (buf_size b) (buf_data b))"
  using emits_put_bytes [of "take (buf_size b) (buf_data b)"] assms by (simp add: emits_def put_buffer_def mem_read_def)

lemma emits_field_buffer [emit_intros]:
  assumes "buf_size b \<le> length (buf_data b)"
  shows "emits (as_command_write_field_buffer h fid b) (field_wire fid (take (buf_size b) (buf_data b)))"
proof -
  have "emits (as_command_write_field_buffer h fid b) ((be32 (of_nat (buf_size b) + 1) @ [fid]) @ take (buf_size b) (buf_data b))"
    unfolding as_command_write_field_buffer_def using assms by (intro emit_intros)
  then show ?thesis
    using assms by (simp add: field_wire_def)
qed

lemma emits_field_digest [emit_intros]:
  assumes "length d = AS_DIGEST_VALUE_SIZE"
  shows "emits (as_command_write_field_digest h d) (field_wire AS_FIELD_DIGEST d)"
proof -
  have "emits (as_command_write_field_digest h d) ((be32 (of_nat AS_DIGEST_VALUE_SIZE + 1) @ [AS_FIELD_DIGEST]) @ d)"
    unfolding as_command_write_field_digest_def by (intro emit_intros)
  then show ?thesis
    using assms by (simp add: field_wire_def)
qed

subsection \<open>Keys and bins on the wire\<close>

fun particle :: "as_val \<Rightarrow> byte \<times> byte list" where
  "particle (AsInteger i) = (AS_BYTES_INTEGER, be64 i)"
| "particle (AsString s) = (AS_BYTES_STRING, s)"
| "particle (AsBytes t b) = (t, b)"
| "particle (AsList xs) = (AS_BYTES_LIST, the (enc_val (AsList xs)))"
| "particle (AsMap es) = (AS_BYTES_MAP, the (enc_val (AsMap es)))"
| "particle _ = (AS_BYTES_UNDEF, [])"

definition key_particle :: "as_val \<Rightarrow> byte \<times> byte list" where
  "key_particle v = (case v of AsList _ \<Rightarrow> (AS_BYTES_UNDEF, []) | AsMap _ \<Rightarrow> (AS_BYTES_UNDEF, []) | _ \<Rightarrow> particle v)"

lemma user_key_particle: "sound_platform pf \<Longrightarrow> user_key_particle pf v = key_particle v"
  by (cases v) (simp_all add: key_particle_def int64_wire)

definition key_wire :: "as_policy_key \<Rightarrow> as_key \<Rightarrow> byte list" where
  "key_wire policy k =
     field_wire AS_FIELD_NAMESPACE (c_str (key_ns k)) @ field_wire AS_FIELD_SETNAME (c_str (key_set k)) @
     field_wire AS_FIELD_DIGEST (key_digest k) @
     (if policy = AS_POLICY_KEY_SEND
      then let (t, bs) = key_particle (the (key_valuep k)) in field_wire AS_FIELD_KEY (t # bs) else [])"

lemma emits_user_key:
  assumes "sound_platform pf" and "key_valuep k = Some v" and "key_particle v = (t, bs)"
  shows "emits (as_command_write_user_key pf k) (field_wire AS_FIELD_KEY (t # bs))"
proof -
  have p: "user_key_particle pf v = (t, bs)"
    using assms user_key_particle by simp
  have "emits (as_command_write_user_key pf k) ((be32 (of_nat (length bs) + 1 + 1) @ [AS_FIELD_KEY]) @ ([t] @ bs))"
    unfolding as_command_write_user_key_def assms(2) Option.bind.simps(2) p Let_def prod.case
    by (intro emit_intros) (simp add: AS_FIELD_HEADER_SIZE_def)
  then show ?thesis
    by (simp add: field_wire_def add_ac)
qed

text \<open>A key that can be sent: its digest is computed and, if the policy sends it, it has a value.\<close>

definition key_ready :: "as_policy_key \<Rightarrow> as_key \<Rightarrow> bool" where
  "key_ready policy k \<longleftrightarrow> length (key_digest k) = AS_DIGEST_VALUE_SIZE \<and> (policy = AS_POLICY_KEY_SEND \<longrightarrow> key_valuep k \<noteq> None)"

lemma emits_key [emit_intros]:
  assumes pf: "sound_platform pf" and k: "key_ready policy k"
  shows "emits (as_command_write_key pf policy k) (key_wire policy k)"
proof -
  have d: "length (key_digest k) = AS_DIGEST_VALUE_SIZE"
    using k by (simp add: key_ready_def)
  show ?thesis
  proof (cases "policy = AS_POLICY_KEY_SEND")
    case True
    then obtain v t bs where v: "key_valuep k = Some v" "key_particle v = (t, bs)"
      using k by (metis key_ready_def not_None_eq old.prod.exhaust)
    then show ?thesis
      using True emits_user_key [OF pf v]
      by (simp add: as_command_write_key_def key_wire_def) (intro emit_intros d)
  next
    case False
    then show ?thesis
      by (simp add: as_command_write_key_def key_wire_def)
        (rule emits_seq [OF emits_field_string emits_seq [OF emits_field_string emits_seq [OF emits_field_digest [OF d] emits_nothing], simplified]])
  qed
qed


definition bin_wire :: "as_operator \<Rightarrow> as_bin \<Rightarrow> byte list" where
  "bin_wire op b =
     (let name = c_str (bin_name b); (t, bs) = particle (the (bin_valuep b)) in
      be32 (of_nat (length name + length bs + 4)) @ [operator_code op, t, 0, of_nat (length name)] @ name @ bs)"

text \<open>A bin that can be written: it has a value, its name fits, and a list or map has an encoding.\<close>

definition bin_ready :: "as_bin \<Rightarrow> bool" where
  "bin_ready b \<longleftrightarrow> length (c_str (bin_name b)) \<le> AS_BIN_NAME_MAX_LEN \<and>
     (case bin_valuep b of None \<Rightarrow> False | Some (AsList xs) \<Rightarrow> enc_val (AsList xs) \<noteq> None
      | Some (AsMap es) \<Rightarrow> enc_val (AsMap es) \<noteq> None | _ \<Rightarrow> True)"

lemma name_len_word: "k \<le> AS_BIN_NAME_MAX_LEN \<Longrightarrow> ucast (of_nat k :: byte) = (of_nat k :: u32)"
proof -
  assume "k \<le> AS_BIN_NAME_MAX_LEN"
  then have "unat (of_nat k :: byte) = k"
    by (simp add: AS_BIN_NAME_MAX_LEN_def unat_of_nat)
  then show ?thesis
    by (metis of_nat_unat)
qed

lemma emits_op_header [emit_intros]:
  "emits (op_header h n op t nl) (be32 n @ [op, t, 0, nl])"
  unfolding op_header_def store_to_be by (intro emit_intros)

lemma emits_bin_name [emit_intros]:
  assumes "length (c_str name) \<le> AS_BIN_NAME_MAX_LEN"
  shows "emits (as_command_write_bin_name h name)
    (be32 (of_nat (length (c_str name)) + 4) @ [operator_code AS_OPERATOR_READ, 0, 0, of_nat (length (c_str name))] @ c_str name)"
proof -
  let ?n = "of_nat (length (c_str name)) :: byte"
  have n: "ucast ?n = (of_nat (length (c_str name)) :: u32)"
    using assms by (rule name_len_word)
  have "emits (as_command_write_bin_name h name)
      ((be32 (ucast ?n + 4) @ [operator_code AS_OPERATOR_READ, 0, 0, ?n]) @ c_str name)"
    unfolding as_command_write_bin_name_def Let_def by (intro emit_intros) (simp add: AS_OPERATION_HEADER_SIZE_def)
  then show ?thesis
    unfolding n by simp
qed

text \<open>The bytes a value adds to a command, by the writer chosen for it after its size was computed.\<close>

lemma emits_particle:
  assumes pf: "sound_platform pf" and b: "buf_size b \<le> length (buf_data b)"
    and lm: "\<And>xs. v = AsList xs \<Longrightarrow> take (buf_size b) (buf_data b) = snd (particle v)"
      "\<And>es. v = AsMap es \<Longrightarrow> take (buf_size b) (buf_data b) = snd (particle v)"
    and w: "bin_particle pf v b = (w, n, t)"
  shows "emits w (snd (particle v)) \<and> n = of_nat (length (snd (particle v))) \<and> t = fst (particle v)"
proof (cases v)
  case (AsList xs)
  have "buf_size b = length (snd (particle v))"
    using lm(1) [OF AsList] b by (metis length_take min.absorb2)
  then show ?thesis
    using w emits_put_buffer [OF b] lm(1) [OF AsList] AsList by simp
next
  case (AsMap es)
  have "buf_size b = length (snd (particle v))"
    using lm(2) [OF AsMap] b by (metis length_take min.absorb2)
  then show ?thesis
    using w emits_put_buffer [OF b] lm(2) [OF AsMap] AsMap by simp
qed (use w pf in \<open>auto simp: int64_wire intro: emit_intros\<close>)

lemma emits_bin:
  assumes pf: "sound_platform pf" and name: "length (c_str (bin_name bin)) \<le> AS_BIN_NAME_MAX_LEN"
    and v: "bin_valuep bin = Some v" and b: "buf_size b \<le> length (buf_data b)"
    and lm: "\<And>xs. v = AsList xs \<Longrightarrow> take (buf_size b) (buf_data b) = snd (particle v)"
      "\<And>es. v = AsMap es \<Longrightarrow> take (buf_size b) (buf_data b) = snd (particle v)"
  shows "emits (as_command_write_bin pf op bin b) (bin_wire op bin)"
proof -
  let ?name = "c_str (bin_name bin)"
  let ?nl = "of_nat (length ?name) :: byte"
  have n: "ucast ?nl = (of_nat (length ?name) :: u32)"
    using name by (rule name_len_word)
  obtain t bs where p: "particle v = (t, bs)"
    by (cases "particle v")
  obtain w n t' where w: "bin_particle pf v b = (w, n, t')"
    by (cases "bin_particle pf v b")
  have "emits w (snd (particle v)) \<and> n = of_nat (length (snd (particle v))) \<and> t' = fst (particle v)"
    by (rule emits_particle [OF pf b _ _ w]) (fact lm)+
  then have w: "bin_particle pf v b = (w, of_nat (length bs), t)" "emits w bs"
    using w p by simp_all
  have "emits (as_command_write_bin pf op bin b)
      ((be32 (ucast ?nl + of_nat (length bs) + 4) @ [operator_code op, t, 0, ?nl]) @ (?name @ bs))"
    unfolding as_command_write_bin_def v Option.bind.simps(2) w(1) Let_def prod.case
    by (intro emit_intros w(2)) (simp_all add: AS_OPERATION_HEADER_SIZE_def)
  moreover have "ucast ?nl + of_nat (length bs) + 4 = (of_nat (length ?name + length bs + 4) :: u32)"
    unfolding n by simp
  ultimately show ?thesis
    unfolding bin_wire_def Let_def v option.sel p prod.case by (simp only: append_assoc)
qed

text \<open>Sizing a bin leaves the buffer from which the writer copies.\<close>

lemma bin_sized:
  assumes b: "bin_ready bin" and allocs: "False \<notin> set allocs"
  obtains buf where "as_command_bin_size h allocs bin zero_buffer = Some (length (bin_wire op bin), buf)"
    "\<And>pf. sound_platform pf \<Longrightarrow> emits (as_command_write_bin pf op bin buf) (bin_wire op bin)"
proof -
  have name: "length (c_str (bin_name bin)) \<le> AS_BIN_NAME_MAX_LEN"
    using b by (simp add: bin_ready_def)
  obtain v where v: "bin_valuep bin = Some v"
    using b by (cases "bin_valuep bin") (auto simp: bin_ready_def)
  have "\<exists>buf. as_command_value_size h allocs v zero_buffer = Some (length (snd (particle v)), buf) \<and>
      buf_size buf \<le> length (buf_data buf) \<and>
      ((\<exists>xs. v = AsList xs) \<or> (\<exists>es. v = AsMap es) \<longrightarrow> take (buf_size buf) (buf_data buf) = snd (particle v))"
  proof (cases "\<exists>bs. ((\<exists>xs. v = AsList xs) \<or> (\<exists>es. v = AsMap es)) \<and> enc_val v = Some bs")
    case True
    then obtain bs where bs: "(\<exists>xs. v = AsList xs) \<or> (\<exists>es. v = AsMap es)" "enc_val v = Some bs"
      by blast
    then have part: "snd (particle v) = bs"
      by (auto simp del: enc_val.simps)
    have "enc_opt (Some v) = Some bs"
      using bs(2) by simp
    from serialize_writes [OF this allocs, of h] obtain buf
      where buf: "as_msgpack_serializer_serialize h allocs (Some v) = Some (0, Some buf)" "buf_size buf = length bs"
        "buf_size buf \<le> length (buf_data buf)" "take (buf_size buf) (buf_data buf) = bs"
      by blast
    have "as_command_value_size h allocs v zero_buffer = Some (length bs, buf)"
      using bs(1) buf by (auto simp: as_command_value_size_def)
    then show ?thesis
      using buf part by auto
  next
    case False
    then have "\<not> (\<exists>xs. v = AsList xs)" "\<not> (\<exists>es. v = AsMap es)"
      using b v by (auto simp: bin_ready_def split: as_val.splits)
    then show ?thesis
      by (cases v) (auto simp: as_command_value_size_def zero_buffer_def)
  qed
  then obtain buf where buf: "as_command_value_size h allocs v zero_buffer = Some (length (snd (particle v)), buf)"
    "buf_size buf \<le> length (buf_data buf)"
    "(\<exists>xs. v = AsList xs) \<or> (\<exists>es. v = AsMap es) \<longrightarrow> take (buf_size buf) (buf_data buf) = snd (particle v)"
    by blast
  show thesis
  proof (rule that [of buf])
    show "as_command_bin_size h allocs bin zero_buffer = Some (length (bin_wire op bin), buf)"
      using v buf(1) by (simp add: as_command_bin_size_def bin_wire_def Let_def split: prod.split)
    show "emits (as_command_write_bin pf op bin buf) (bin_wire op bin)" if "sound_platform pf" for pf
      using that name v buf(2) by (rule emits_bin) (use buf(3) in blast)+
  qed
qed

lemma bins_sized:
  assumes "\<forall>(op, b) \<in> set ops. bin_ready b" and "\<forall>j. False \<notin> set (allocs j)"
  shows "\<exists>bufs. bin_sizes h allocs i (map snd ops) = Some (length (concat (map (\<lambda>(op, b). bin_wire op b) ops)), bufs) \<and>
    (\<forall>pf. sound_platform pf \<longrightarrow> emits (write_bins pf ops bufs) (concat (map (\<lambda>(op, b). bin_wire op b) ops)))"
  using assms(1)
proof (induction ops arbitrary: i)
  case Nil
  then show ?case
    by (simp add: emits_nothing)
next
  case (Cons x ops)
  obtain op b where x: "x = (op, b)"
    by (cases x)
  have b: "bin_ready b" and rest: "\<forall>(op, b) \<in> set ops. bin_ready b"
    using Cons.prems x by auto
  obtain buf where buf: "as_command_bin_size h (allocs i) b zero_buffer = Some (length (bin_wire op b), buf)"
    "\<And>pf. sound_platform pf \<Longrightarrow> emits (as_command_write_bin pf op b buf) (bin_wire op b)"
    using bin_sized [OF b, of "allocs i" h op] assms(2) by blast
  obtain bufs where "bin_sizes h allocs (Suc i) (map snd ops) = Some (length (concat (map (\<lambda>(op, b). bin_wire op b) ops)), bufs)"
    "\<forall>pf. sound_platform pf \<longrightarrow> emits (write_bins pf ops bufs) (concat (map (\<lambda>(op, b). bin_wire op b) ops))"
    using Cons.IH [OF rest, of "Suc i"] by blast
  then show ?case
    using buf by (intro exI [of _ "buf # bufs"]) (auto simp: x intro: emits_seq)
qed


subsection \<open>Whole commands\<close>

text \<open>A writer of the record header: it leaves the first eight bytes alone and fills the next twenty-two.\<close>

definition opens :: "writer \<Rightarrow> byte list \<Rightarrow> bool" where
  "opens w hdr \<longleftrightarrow> length hdr = 22 \<and> (\<forall>pre old post. length pre = 8 \<longrightarrow> length old = 22 \<longrightarrow>
     w (pre @ old @ post) 0 = Some (pre @ hdr @ post, 30))"

lemma opensI:
  assumes "emits w' hdr" and "length hdr = 22" and "\<And>mem. w mem 0 = w' mem 8"
  shows "opens w hdr"
  unfolding opens_def assms(3)
proof (intro conjI allI impI assms(2))
  fix pre old post :: "byte list"
  assume "length pre = 8" and "length old = 22"
  then show "w' (pre @ old @ post) 8 = Some (pre @ hdr @ post, 30)"
    using emitsD [OF assms(1), of old pre post] assms(2) by simp
qed

lemma put_bytes_bind:
  "put_bytes bs mem p = do { mem \<leftarrow> mem_write mem p bs; Some (mem, p + length bs) }"
  by (cases "mem_write mem p bs") (simp_all add: put_bytes_def)

lemmas writer_binds = seq_bind put_bytes_bind Option.bind_assoc Option.bind.simps prod.case

definition msg_header :: "byte \<Rightarrow> byte \<Rightarrow> byte \<Rightarrow> u32 \<Rightarrow> u32 \<Rightarrow> u32 \<Rightarrow> u16 \<Rightarrow> u16 \<Rightarrow> as_msg" where
  "msg_header i1 i2 i3 g ttl timeout nf nb =
     \<lparr> msg_header_sz = 22, msg_info1 = i1, msg_info2 = i2, msg_info3 = i3, msg_unused = 0, msg_result_code = 0,
       msg_generation = g, msg_record_ttl = ttl, msg_transaction_ttl = timeout, msg_n_fields = nf, msg_n_ops = nb \<rparr>"

lemma write_header_opens:
  assumes "info_attrs r w commit cons ex gp gen = (r', w', i', g)"
  shows "opens (as_command_write_header h r w commit cons ex gp gen ttl timeout nf nb) (msg_wire (msg_header r' w' i' g ttl timeout nf nb))"
proof (rule opensI)
  let ?w = "seq (put_bytes [22, r', w', i']) (seq (put_bytes [0, 0]) (seq (put_bytes (be32 g)) (seq (put_bytes (be32 ttl))
    (seq (put_bytes (be32 timeout)) (seq (put_bytes (be16 nf)) (put_bytes (be16 nb)))))))"
  have "emits ?w ([22, r', w', i'] @ [0, 0] @ be32 g @ be32 ttl @ be32 timeout @ be16 nf @ be16 nb)"
    by (intro emit_intros)
  then show "emits ?w (msg_wire (msg_header r' w' i' g ttl timeout nf nb))"
    by (simp add: msg_wire_def msg_header_def)
  show "as_command_write_header h r w commit cons ex gp gen ttl timeout nf nb mem 0 = ?w mem 8" for mem
    unfolding as_command_write_header_def assms Let_def prod.case store_to_be
    by (simp add: writer_binds AS_HEADER_SIZE_def)
qed simp

lemma write_header_read_opens:
  "opens (as_command_write_header_read h r cons timeout nf nb)
     (msg_wire (msg_header (if cons = AS_POLICY_CONSISTENCY_LEVEL_ALL then r OR AS_MSG_INFO1_CONSISTENCY_ALL else r) 0 0 0 0 timeout nf nb))"
proof (rule opensI)
  let ?r = "if cons = AS_POLICY_CONSISTENCY_LEVEL_ALL then r OR AS_MSG_INFO1_CONSISTENCY_ALL else r"
  let ?w = "seq (put_bytes [22, ?r]) (seq (put_bytes (replicate 12 0)) (seq (put_bytes (be32 timeout))
    (seq (put_bytes (be16 nf)) (put_bytes (be16 nb)))))"
  have "emits ?w ([22, ?r] @ replicate 12 0 @ be32 timeout @ be16 nf @ be16 nb)"
    by (intro emit_intros)
  moreover have "be32 0 = [0, 0, 0, 0]"
    by (simp add: be32_def)
  ultimately show "emits ?w (msg_wire (msg_header ?r 0 0 0 0 timeout nf nb))"
    by (simp add: msg_wire_def msg_header_def numeral_eq_Suc)
  show "as_command_write_header_read h r cons timeout nf nb mem 0 = ?w mem 8" for mem
    unfolding as_command_write_header_read_def Let_def store_to_be
    by (simp add: writer_binds AS_HEADER_SIZE_def)
qed simp


lemma proto_word:
  assumes "take_bit 48 x = x"
  shows "be64 (x OR push_bit 56 AS_MESSAGE_VERSION OR push_bit 48 AS_MESSAGE_TYPE) =
    proto_wire \<lparr> proto_version = 2, proto_type = 3, proto_sz = x \<rparr>"
proof -
  have "\<not> bit x n" if "48 \<le> n" for n
    using assms that by (metis bit_take_bit_iff not_le)
  then show ?thesis
    by (simp add: proto_wire_def be64_def byte_eq_iff bit_simps AS_MESSAGE_VERSION_def AS_MESSAGE_TYPE_def)
qed

definition command_wire :: "as_msg \<Rightarrow> byte list \<Rightarrow> byte list" where
  "command_wire msg body =
     proto_wire \<lparr> proto_version = 2, proto_type = 3, proto_sz = of_nat (22 + length body) \<rparr> @ msg_wire msg @ body"

lemma length_command_wire [simp]: "length (command_wire msg body) = 30 + length body"
  by (simp add: command_wire_def)

lemma filled_exact:
  assumes hdr: "opens w (msg_wire msg)" and body: "emits b bs" and len: "length bs < 2 ^ 47" and n: "n = 30 + length bs"
  shows "filled h junk n (seq w b) = Some (Inr \<lparr> cmd_mem = command_wire msg bs, cmd_len = n, cmd_alloc = n \<rparr>)"
proof -
  let ?m = "as_command_init junk n"
  let ?p = "take 8 ?m" and ?o = "take 22 (drop 8 ?m)" and ?q = "drop 30 ?m"
  have m: "?m = ?p @ ?o @ ?q"
    using append_take_drop_id [of 8 ?m] append_take_drop_id [of 22 "drop 8 ?m"] by simp
  have lens: "length ?p = 8" "length ?o = 22" "length ?q = length bs"
    using n by (simp_all add: as_command_init_def)
  have 1: "w ?m 0 = Some (?p @ msg_wire msg @ ?q, 30)"
    using hdr lens unfolding opens_def by (subst m) blast
  have 2: "b ((?p @ msg_wire msg) @ ?q) 30 = Some ((?p @ msg_wire msg) @ bs, n)"
    using emitsD [OF body, of ?q "?p @ msg_wire msg" "[]"] lens n by simp
  let ?x = "of_nat n - 8 :: u64"
  have x: "?x = of_nat (22 + length bs)"
    using n by simp
  have "take_bit 48 ?x = ?x"
    using len unfolding x take_bit_of_nat by (simp add: take_bit_nat_eq_self)
  note 3 = proto_word [OF this]
  show ?thesis
    using 1 2 lens n 3 x by (simp add: filled_def seq_def as_command_write_end_def mem_write_def command_wire_def)
qed


definition key_fields :: "as_policy_key \<Rightarrow> u16" where
  "key_fields policy = (if policy = AS_POLICY_KEY_SEND then 4 else 3)"

lemma length_field_wire [simp]: "length (field_wire fid bs) = 5 + length bs"
  by (simp add: field_wire_def)

lemma key_size_exact:
  assumes "key_ready policy k"
  shows "as_command_key_size policy k = Some (30 + length (key_wire policy k), key_fields policy)"
proof (cases "policy = AS_POLICY_KEY_SEND")
  case True
  then obtain v where "key_valuep k = Some v"
    using assms by (auto simp: key_ready_def)
  then show ?thesis
    using True assms
    by (cases v) (simp_all add: as_command_key_size_def as_command_user_key_size_def key_wire_def key_ready_def key_particle_def
        command_sizes key_fields_def)
next
  case False
  then show ?thesis
    using assms by (simp add: as_command_key_size_def key_wire_def key_ready_def command_sizes key_fields_def)
qed

text \<open>
  The outcome of building a command: the buffer holds exactly the message, the bytes to send are all of it and
  as many as were allocated.
\<close>

definition exact :: "built \<Rightarrow> as_msg \<Rightarrow> byte list \<Rightarrow> bool" where
  "exact r msg body \<longleftrightarrow>
     r = Some (Inr \<lparr> cmd_mem = command_wire msg body, cmd_len = 30 + length body, cmd_alloc = 30 + length body \<rparr>)"

lemma exactI:
  "opens w (msg_wire msg) \<Longrightarrow> emits b bs \<Longrightarrow> length bs < 2 ^ 47 \<Longrightarrow> n = 30 + length bs \<Longrightarrow>
   exact (filled h junk n (seq w b)) msg bs"
  unfolding exact_def using filled_exact by simp

text \<open>The header a write command carries under its policies.\<close>

definition write_msg ::
  "byte \<Rightarrow> byte \<Rightarrow> as_policy_commit_level \<Rightarrow> as_policy_consistency_level \<Rightarrow> as_policy_exists \<Rightarrow> as_policy_gen \<Rightarrow> u32 \<Rightarrow> u32 \<Rightarrow>
   u32 \<Rightarrow> u16 \<Rightarrow> u16 \<Rightarrow> as_msg" where
  "write_msg r w commit cons ex gp gen ttl timeout nf nb =
     (let (r, w, i, g) = info_attrs r w commit cons ex gp gen in msg_header r w i g ttl timeout nf nb)"

lemma write_opens:
  "opens (as_command_write_header h r w commit cons ex gp gen ttl timeout nf nb)
     (msg_wire (write_msg r w commit cons ex gp gen ttl timeout nf nb))"
  unfolding write_msg_def Let_def
  by (cases "info_attrs r w commit cons ex gp gen") (auto intro: write_header_opens)

definition read_msg :: "byte \<Rightarrow> as_policy_consistency_level \<Rightarrow> u32 \<Rightarrow> u16 \<Rightarrow> u16 \<Rightarrow> as_msg" where
  "read_msg r cons timeout nf nb =
     msg_header (if cons = AS_POLICY_CONSISTENCY_LEVEL_ALL then r OR AS_MSG_INFO1_CONSISTENCY_ALL else r) 0 0 0 0 timeout nf nb"

definition ops_wire :: "(as_operator \<times> as_bin) list \<Rightarrow> byte list" where
  "ops_wire ops = concat (map (\<lambda>(op, b). bin_wire op b) ops)"

subsection \<open>The single-record commands\<close>

lemma put_exact:
  assumes pf: "sound_platform pf" and k: "key_ready (pw_key pw) k" and bins: "\<forall>b \<in> set bins. bin_ready b"
    and allocs: "\<forall>j. False \<notin> set (allocs j)"
    and len: "length (key_wire (pw_key pw) k) + length (ops_wire (map (Pair AS_OPERATOR_WRITE) bins)) < 2 ^ 47"
  shows "exact (key_put_command pf junk allocs pw k bins gen ttl)
      (write_msg 0 AS_MSG_INFO2_WRITE (pw_commit pw) AS_POLICY_CONSISTENCY_LEVEL_ONE (pw_exists pw) (pw_gen pw) gen ttl
        (pw_timeout pw) (key_fields (pw_key pw)) (of_nat (length bins)))
      (key_wire (pw_key pw) k @ ops_wire (map (Pair AS_OPERATOR_WRITE) bins))"
proof -
  let ?puts = "map (Pair AS_OPERATOR_WRITE) bins"
  have snd_puts: "map snd ?puts = bins"
    by (induction bins) auto
  obtain bufs where b: "bin_sizes (byte_order pf) allocs 0 bins = Some (length (ops_wire ?puts), bufs)"
    "emits (write_bins pf ?puts bufs) (ops_wire ?puts)"
    using bins_sized [of ?puts allocs "byte_order pf" 0] bins allocs pf unfolding snd_puts ops_wire_def by auto
  show ?thesis
    unfolding key_put_command_def key_size_exact [OF k] Option.bind.simps(2) prod.case b(1)
    by (intro exactI write_opens emits_seq emits_key pf k b(2)) (use len in simp_all)
qed

lemma operate_exact:
  assumes pf: "sound_platform pf" and k: "key_ready (po_key po) k" and ops: "\<forall>(op, b) \<in> set ops. bin_ready b"
    and allocs: "\<forall>j. False \<notin> set (allocs j)" and len: "length (key_wire (po_key po) k) + length (ops_wire ops) < 2 ^ 47"
  shows "exact (key_operate_command pf allocs po k ops gen ttl)
      (write_msg (fst (op_attrs ops)) (snd (op_attrs ops)) (po_commit po) (po_consistency po) AS_POLICY_EXISTS_IGNORE (po_gen po)
        gen ttl (po_timeout po) (key_fields (po_key po)) (of_nat (length ops)))
      (key_wire (po_key po) k @ ops_wire ops)"
proof -
  obtain bufs where o: "bin_sizes (byte_order pf) allocs 0 (map snd ops) = Some (length (ops_wire ops), bufs)"
    "emits (write_bins pf ops bufs) (ops_wire ops)"
    using bins_sized [OF ops allocs, of "byte_order pf" 0] pf unfolding ops_wire_def by auto
  show ?thesis
    unfolding key_operate_command_def key_size_exact [OF k] Option.bind.simps(2) prod.case o(1) Let_def case_prod_beta
    by (intro exactI emits_seq emits_key pf k) (use len o(2) in \<open>simp_all add: write_opens\<close>)
qed

lemma remove_exact:
  assumes "sound_platform pf" and k: "key_ready (px_key px) k" and "length (key_wire (px_key px) k) < 2 ^ 47"
  shows "exact (key_remove_command pf px k)
      (write_msg 0 (AS_MSG_INFO2_WRITE OR AS_MSG_INFO2_DELETE) (px_commit px) AS_POLICY_CONSISTENCY_LEVEL_ONE
        AS_POLICY_EXISTS_IGNORE (px_gen px) 0 0 (px_timeout px) (key_fields (px_key px)) 0)
      (key_wire (px_key px) k)"
  unfolding key_remove_command_def key_size_exact [OF k] Option.bind.simps(2) prod.case
  by (intro exactI write_opens emits_key assms) (use assms in simp_all)

lemma get_exact:
  assumes "sound_platform pf" and k: "key_ready (pr_key pol) k" and "length (key_wire (pr_key pol) k) < 2 ^ 47"
  shows "exact (key_get_command pf junk pol k)
      (read_msg (AS_MSG_INFO1_READ OR AS_MSG_INFO1_GET_ALL) (pr_consistency pol) (pr_timeout pol) (key_fields (pr_key pol)) 0)
      (key_wire (pr_key pol) k)"
  unfolding key_get_command_def key_size_exact [OF k] Option.bind.simps(2) prod.case
  by (intro exactI write_header_read_opens [folded read_msg_def] emits_key assms) (use assms in simp_all)

lemma exists_exact:
  assumes "sound_platform pf" and k: "key_ready (pr_key pol) k" and "length (key_wire (pr_key pol) k) < 2 ^ 47"
  shows "exact (key_exists_command pf junk pol k)
      (read_msg (AS_MSG_INFO1_READ OR AS_MSG_INFO1_GET_NOBINDATA) (pr_consistency pol) (pr_timeout pol) (key_fields (pr_key pol)) 0)
      (key_wire (pr_key pol) k)"
  unfolding key_exists_command_def key_size_exact [OF k] Option.bind.simps(2) prod.case
  by (intro exactI write_header_read_opens [folded read_msg_def] emits_key assms) (use assms in simp_all)

definition names_wire :: "byte list list \<Rightarrow> byte list" where
  "names_wire names = concat (map (\<lambda>n. be32 (of_nat (length (c_str n)) + 4) @
     [operator_code AS_OPERATOR_READ, 0, 0, of_nat (length (c_str n))] @ c_str n) names)"

lemma names_sized:
  "\<forall>n \<in> set names. length (c_str n) \<le> AS_BIN_NAME_MAX_LEN \<Longrightarrow> bin_name_sizes names n = Some (n + length (names_wire names))"
proof (induction names arbitrary: n)
  case (Cons b bs)
  then have "as_command_bin_name_size b n = Some (n + length (c_str b) + 8)"
    by (simp add: as_command_bin_name_size_def AS_OPERATION_HEADER_SIZE_def)
  then show ?case
    using Cons by (simp add: names_wire_def)
qed (simp add: names_wire_def)

lemma emits_names:
  "\<forall>n \<in> set names. length (c_str n) \<le> AS_BIN_NAME_MAX_LEN \<Longrightarrow> emits (write_bin_names h names) (names_wire names)"
proof (induction names)
  case (Cons b bs)
  then show ?case
    using emits_seq [OF emits_bin_name [of b h], of "write_bin_names h bs" "names_wire bs"] by (simp add: names_wire_def)
qed (simp add: names_wire_def emits_nothing)

lemma names_refused:
  "\<exists>n \<in> set names. AS_BIN_NAME_MAX_LEN < length (c_str n) \<Longrightarrow> bin_name_sizes names n = None"
  by (induction names arbitrary: n) (auto simp: as_command_bin_name_size_def Let_def)

lemma select_exact:
  assumes pf: "sound_platform pf" and k: "key_ready (pr_key pol) k" and names: "\<forall>n \<in> set names. c_str n \<noteq> []"
    and len: "length (key_wire (pr_key pol) k) + length (names_wire names) < 2 ^ 47"
  shows "if \<exists>n \<in> set names. AS_BIN_NAME_MAX_LEN < length (c_str n)
     then key_select_command pf junk pol k (names @ [] # others) = Some (Inl (- 2))
     else exact (key_select_command pf junk pol k (names @ [] # others))
      (read_msg AS_MSG_INFO1_READ (pr_consistency pol) (pr_timeout pol) (key_fields (pr_key pol)) (of_nat (length names)))
      (key_wire (pr_key pol) k @ names_wire names)"
proof -
  have cut: "takeWhile (\<lambda>b. c_str b \<noteq> []) (names @ [] # others) = names"
    using names by (simp add: takeWhile_append c_str_def)
  show ?thesis
  proof (cases "\<exists>n \<in> set names. AS_BIN_NAME_MAX_LEN < length (c_str n)")
    case True
    then show ?thesis
      using names_refused [OF True] key_size_exact [OF k] by (simp add: key_select_command_def cut)
  next
    case False
    then have ok: "\<forall>n \<in> set names. length (c_str n) \<le> AS_BIN_NAME_MAX_LEN"
      by (auto simp: not_less)
    have "exact (key_select_command pf junk pol k (names @ [] # others))
      (read_msg AS_MSG_INFO1_READ (pr_consistency pol) (pr_timeout pol) (key_fields (pr_key pol)) (of_nat (length names)))
      (key_wire (pr_key pol) k @ names_wire names)"
      unfolding key_select_command_def key_size_exact [OF k] Option.bind.simps(2) prod.case cut Let_def names_sized [OF ok] option.case
      by (intro exactI write_header_read_opens [folded read_msg_def] emits_seq emits_key emits_names pf k ok) (use len in simp_all)
    then show ?thesis
      using False by simp
  qed
qed

lemma apply_exact:
  assumes pf: "sound_platform pf" and k: "key_ready (pa_key pa) k"
    and args: "enc_val args = Some bs" and allocs: "False \<notin> set allocs"
    and len: "length (key_wire (pa_key pa) k) + length module + length func + length bs + 15 < 2 ^ 47"
  shows "exact (key_apply_command pf junk allocs pa k module func args)
      (write_msg 0 AS_MSG_INFO2_WRITE (pa_commit pa) AS_POLICY_CONSISTENCY_LEVEL_ONE AS_POLICY_EXISTS_IGNORE AS_POLICY_GEN_IGNORE
        0 0 (pa_timeout pa) (key_fields (pa_key pa) + 3) 0)
      (key_wire (pa_key pa) k @ field_wire AS_FIELD_UDF_PACKAGE_NAME (c_str module) @ field_wire AS_FIELD_UDF_FUNCTION (c_str func) @
       field_wire AS_FIELD_UDF_ARGLIST bs)"
proof -
  have "enc_opt (Some args) = Some bs"
    using args by simp
  then obtain b where b: "as_msgpack_serializer_serialize (byte_order pf) allocs (Some args) = Some (0, Some b)"
    "buf_size b = length bs" "buf_size b \<le> length (buf_data b)" "take (buf_size b) (buf_data b) = bs"
    using serialize_writes allocs by blast
  have c_len: "length (c_str s) \<le> length s" for s
    unfolding c_str_def by (rule length_takeWhile_le)
  show ?thesis
    unfolding key_apply_command_def key_size_exact [OF k] Option.bind.simps(2) prod.case b(1) Let_def option.case
    using emits_field_buffer [OF b(3), unfolded b(4)]
    by (intro exactI write_opens emits_seq emits_key emits_field_string pf k)
      (use len c_len [of module] c_len [of func] b(2) in
        \<open>simp_all add: as_command_string_field_size_def as_command_field_size_def AS_FIELD_HEADER_SIZE_def\<close>)
qed


definition linux_platform :: platform where
  "linux_platform = \<lparr> byte_order = Little_Endian, hpux_libc = False, char_signed = True \<rparr>"

definition hpux_platform :: platform where
  "hpux_platform = \<lparr> byte_order = Big_Endian, hpux_libc = True, char_signed = True \<rparr>"

lemma sound_platforms: "sound_platform linux_platform" "sound_platform hpux_platform"
  by (simp_all add: sound_platform_def linux_platform_def hpux_platform_def)

definition some_key :: as_key where
  "some_key = \<lparr> key_ns = [116], key_set = [115, 0, 7], key_valuep = Some (AsString [107]), digest_init = True, key_digest = replicate 20 9 \<rparr>"

definition some_bin :: as_bin where
  "some_bin = \<lparr> bin_name = [98], bin_valuep = Some (AsList [Some (AsInteger 1), Some (AsBoolean True)]) \<rparr>"

lemma some_key_ready: "key_ready policy some_key"
  by (simp add: key_ready_def some_key_def AS_DIGEST_VALUE_SIZE_def)

lemma some_bin_ready: "bin_ready some_bin"
  by (simp add: bin_ready_def some_bin_def AS_BIN_NAME_MAX_LEN_def c_str_def)

lemma some_wire:
  "key_wire AS_POLICY_KEY_DIGEST some_key = [0, 0, 0, 2, 0, 116, 0, 0, 0, 2, 1, 115, 0, 0, 0, 21, 4] @ replicate 20 9"
  "bin_wire op some_bin = [0, 0, 0, 8, operator_code op, 20, 0, 1, 98, 0x92, 1, 0xc3]"
  by (simp_all add: key_wire_def field_wire_def some_key_def c_str_def be32_def AS_FIELD_NAMESPACE_def AS_FIELD_SETNAME_def
      AS_FIELD_DIGEST_def bin_wire_def some_bin_def AS_BYTES_LIST_def enc_list_header_def enc_int_def)

definition some_write_policy :: as_policy_write where
  "some_write_policy = \<lparr> pw_timeout = 1000, pw_retry = AS_POLICY_RETRY_NONE, pw_key = AS_POLICY_KEY_DIGEST, pw_gen = AS_POLICY_GEN_EQ,
     pw_exists = AS_POLICY_EXISTS_CREATE, pw_commit = AS_POLICY_COMMIT_LEVEL_ALL \<rparr>"


text \<open>
  C19.  A read fills its buffer to the last byte as well, whether it asks for all bins, for the names before the first
  empty one, or for none; a name longer than the limit is refused before anything is allocated.
\<close>

theorem read_commands_exact:
  assumes pf: "sound_platform pf" and k: "key_ready (pr_key pol) k"
    and len: "length (key_wire (pr_key pol) k) + length (names_wire names) < 2 ^ 47" and names: "\<forall>n \<in> set names. c_str n \<noteq> []"
  shows "exact (key_get_command pf junk pol k)
      (read_msg (AS_MSG_INFO1_READ OR AS_MSG_INFO1_GET_ALL) (pr_consistency pol) (pr_timeout pol) (key_fields (pr_key pol)) 0)
      (key_wire (pr_key pol) k) \<and>
    exact (key_exists_command pf junk pol k)
      (read_msg (AS_MSG_INFO1_READ OR AS_MSG_INFO1_GET_NOBINDATA) (pr_consistency pol) (pr_timeout pol) (key_fields (pr_key pol)) 0)
      (key_wire (pr_key pol) k) \<and>
    (if \<exists>n \<in> set names. AS_BIN_NAME_MAX_LEN < length (c_str n)
     then key_select_command pf junk pol k (names @ [] # others) = Some (Inl (- 2))
     else exact (key_select_command pf junk pol k (names @ [] # others))
      (read_msg AS_MSG_INFO1_READ (pr_consistency pol) (pr_timeout pol) (key_fields (pr_key pol)) (of_nat (length names)))
      (key_wire (pr_key pol) k @ names_wire names))"
proof -
  have "length (key_wire (pr_key pol) k) < 2 ^ 47"
    using len by simp
  then show ?thesis
    by (intro conjI get_exact exists_exact select_exact pf k names len)
qed

definition some_read_policy :: as_policy_read where
  "some_read_policy = \<lparr> pr_timeout = 500, pr_key = AS_POLICY_KEY_DIGEST, pr_replica = AS_POLICY_REPLICA_MASTER,
     pr_consistency = AS_POLICY_CONSISTENCY_LEVEL_ONE \<rparr>"

theorem read_commands_exact_witness:
  "key_select_command linux_platform (\<lambda>_. 1) some_read_policy some_key ([replicate 15 65] @ [] # [[66]]) = Some (Inl (- 2)) \<and>
   exact (key_get_command linux_platform (\<lambda>_. 1) some_read_policy some_key)
     (read_msg (AS_MSG_INFO1_READ OR AS_MSG_INFO1_GET_ALL) AS_POLICY_CONSISTENCY_LEVEL_ONE 500 3 0)
     (key_wire AS_POLICY_KEY_DIGEST some_key)"
proof -
  have "c_str (replicate 15 (65 :: byte)) = replicate 15 65"
    by (rule c_str_id) simp
  then show ?thesis
    using read_commands_exact [of linux_platform some_read_policy some_key "[replicate 15 65]" "\<lambda>_. 1" "[[66]]"]
    by (simp add: sound_platforms some_key_ready some_read_policy_def some_wire names_wire_def AS_BIN_NAME_MAX_LEN_def key_fields_def)
qed

text \<open>
  C30.  A conditional remove does not compare generations: whatever generation the policy names, the command carries zero,
  also when the flag that asks the server to compare is set.
\<close>

theorem remove_ignores_generation:
  assumes "sound_platform pf" and "key_ready (px_key px) k" and "length (key_wire (px_key px) k) < 2 ^ 47" and "px_gen px = AS_POLICY_GEN_EQ"
  shows "key_remove_command pf (px\<lparr>px_generation := g\<rparr>) k = key_remove_command pf px k \<and>
    (\<exists>m. exact (key_remove_command pf px k) m (key_wire (px_key px) k) \<and> msg_generation m = 0 \<and>
      msg_info2 m AND AS_MSG_INFO2_GENERATION = AS_MSG_INFO2_GENERATION)"
proof -
  have m: "msg_generation (write_msg 0 (AS_MSG_INFO2_WRITE OR AS_MSG_INFO2_DELETE) c AS_POLICY_CONSISTENCY_LEVEL_ONE
        AS_POLICY_EXISTS_IGNORE AS_POLICY_GEN_EQ 0 0 t f 0) = 0"
    "msg_info2 (write_msg 0 (AS_MSG_INFO2_WRITE OR AS_MSG_INFO2_DELETE) c AS_POLICY_CONSISTENCY_LEVEL_ONE
        AS_POLICY_EXISTS_IGNORE AS_POLICY_GEN_EQ 0 0 t f 0) AND AS_MSG_INFO2_GENERATION = AS_MSG_INFO2_GENERATION" for c t f
    by (simp_all add: write_msg_def info_attrs_def msg_header_def Let_def AS_MSG_INFO2_WRITE_def AS_MSG_INFO2_DELETE_def AS_MSG_INFO2_GENERATION_def)
  have "key_remove_command pf (px\<lparr>px_generation := g\<rparr>) k = key_remove_command pf px k"
    by (simp add: key_remove_command_def)
  then show ?thesis
    using remove_exact [OF assms(1-3)] m unfolding assms(4) by blast
qed

definition some_remove_policy :: as_policy_remove where
  "some_remove_policy = \<lparr> px_timeout = 1000, px_generation = 5, px_retry = AS_POLICY_RETRY_NONE, px_key = AS_POLICY_KEY_DIGEST,
     px_gen = AS_POLICY_GEN_EQ, px_commit = AS_POLICY_COMMIT_LEVEL_ALL \<rparr>"

theorem remove_ignores_generation_witness:
  "key_remove_command linux_platform (some_remove_policy\<lparr>px_generation := 9\<rparr>) some_key = key_remove_command linux_platform some_remove_policy some_key"
  using remove_ignores_generation [of linux_platform some_remove_policy some_key 9]
  by (simp add: sound_platforms some_key_ready some_wire some_remove_policy_def)

text \<open>
  A put with a list that cannot be encoded is sent all the same: the failure of the serializer goes unnoticed and the
  bin is written as an empty value of the list type.
\<close>

theorem unencodable_list_sent_empty:
  assumes pf: "sound_platform pf" and v: "bin_valuep b = Some (AsList xs)" "enc_val (AsList xs) = None"
    and name: "length (c_str (bin_name b)) \<le> AS_BIN_NAME_MAX_LEN"
  shows "as_command_bin_size (byte_order pf) allocs b zero_buffer = Some (length (c_str (bin_name b)) + 8, zero_buffer) \<and>
    emits (as_command_write_bin pf op b zero_buffer)
      (be32 (of_nat (length (c_str (bin_name b))) + 4) @ [operator_code op, AS_BYTES_LIST, 0, of_nat (length (c_str (bin_name b)))] @
       c_str (bin_name b))"
proof
  have "enc_opt (Some (AsList xs)) = None"
    using v(2) by simp
  then obtain rc where "as_msgpack_serializer_serialize (byte_order pf) allocs (Some (AsList xs)) = Some (rc, None)"
    using serialize_refuses by blast
  then show "as_command_bin_size (byte_order pf) allocs b zero_buffer = Some (length (c_str (bin_name b)) + 8, zero_buffer)"
    using v(1) by (simp add: as_command_bin_size_def as_command_value_size_def zero_buffer_def)
  let ?name = "c_str (bin_name b)"
  let ?nl = "of_nat (length ?name) :: byte"
  have n: "ucast ?nl = (of_nat (length ?name) :: u32)"
    using name by (rule name_len_word)
  have "emits (put_buffer zero_buffer) []"
    using emits_put_buffer [of zero_buffer] by (simp add: zero_buffer_def)
  then have body: "emits (seq (put_bytes ?name) (put_buffer zero_buffer)) ?name"
    using emits_seq [OF emits_put_bytes [of ?name]] by fastforce
  have "emits (as_command_write_bin pf op b zero_buffer)
      ((be32 (ucast ?nl + 0 + 4) @ [operator_code op, AS_BYTES_LIST, 0, ?nl]) @ ?name)"
    unfolding as_command_write_bin_def v(1) Option.bind.simps(2) Let_def bin_particle.simps prod.case
    by (rule emits_backfill [OF body])
      (use emits_op_header in \<open>auto simp: zero_buffer_def AS_OPERATION_HEADER_SIZE_def\<close>)
  then show "emits (as_command_write_bin pf op b zero_buffer)
      (be32 (of_nat (length ?name) + 4) @ [operator_code op, AS_BYTES_LIST, 0, of_nat (length ?name)] @ ?name)"
    unfolding n by simp
qed

theorem unencodable_list_sent_empty_witness:
  "enc_val (AsList [Some AsRec]) = None \<and>
   as_command_bin_size Little_Endian [] \<lparr> bin_name = [98], bin_valuep = Some (AsList [Some AsRec]) \<rparr> zero_buffer = Some (9, zero_buffer) \<and>
   emits (as_command_write_bin linux_platform AS_OPERATOR_WRITE \<lparr> bin_name = [98], bin_valuep = Some (AsList [Some AsRec]) \<rparr> zero_buffer)
     [0, 0, 0, 5, 2, 20, 0, 1, 98]"
  using unencodable_list_sent_empty [of linux_platform "\<lparr> bin_name = [98], bin_valuep = Some (AsList [Some AsRec]) \<rparr>" "[Some AsRec]"
      "[]" AS_OPERATOR_WRITE] sound_platforms
  by (simp add: c_str_def AS_BIN_NAME_MAX_LEN_def linux_platform_def be32_def AS_BYTES_LIST_def)


lemmas info_bits = AS_MSG_INFO1_CONSISTENCY_ALL_def AS_MSG_INFO2_GENERATION_def AS_MSG_INFO2_GENERATION_GT_def
  AS_MSG_INFO2_CREATE_ONLY_def AS_MSG_INFO3_COMMIT_MASTER_def AS_MSG_INFO3_UPDATE_ONLY_def
  AS_MSG_INFO3_CREATE_OR_REPLACE_def AS_MSG_INFO3_REPLACE_ONLY_def

text \<open>
  C23.  The server can read every policy off the header: each value of the consistency, existence, generation and commit
  policies sets a bit of its own, the operation bits of the caller stay as they are, and the generation is sent only under
  a policy that uses it.
\<close>

theorem policies_in_header:
  assumes r: "\<not> bit r 6" and w: "\<not> bit w 2" "\<not> bit w 3" "\<not> bit w 5"
    and a: "info_attrs r w commit cons ex gp gen = (r', w', i', g)"
  shows "(bit r' 6 \<longleftrightarrow> cons = AS_POLICY_CONSISTENCY_LEVEL_ALL) \<and> (bit w' 5 \<longleftrightarrow> ex = AS_POLICY_EXISTS_CREATE) \<and>
    (bit w' 2 \<longleftrightarrow> gp = AS_POLICY_GEN_EQ) \<and> (bit w' 3 \<longleftrightarrow> gp = AS_POLICY_GEN_GT) \<and>
    (bit i' 3 \<longleftrightarrow> ex = AS_POLICY_EXISTS_UPDATE) \<and> (bit i' 4 \<longleftrightarrow> ex = AS_POLICY_EXISTS_CREATE_OR_REPLACE) \<and>
    (bit i' 5 \<longleftrightarrow> ex = AS_POLICY_EXISTS_REPLACE) \<and> (bit i' 1 \<longleftrightarrow> commit = AS_POLICY_COMMIT_LEVEL_MASTER) \<and>
    r' AND 0xbf = r AND 0xbf \<and> w' AND 0xd3 = w AND 0xd3 \<and> g = (if gp = AS_POLICY_GEN_IGNORE then 0 else gen)"
proof -
  have attrs: "info_attrs r w commit cons ex gp gen =
     (if cons = AS_POLICY_CONSISTENCY_LEVEL_ALL then r OR 64 else r,
      (w OR (if ex = AS_POLICY_EXISTS_CREATE then 32 else 0)) OR
        (case gp of AS_POLICY_GEN_IGNORE \<Rightarrow> 0 | AS_POLICY_GEN_EQ \<Rightarrow> 4 | AS_POLICY_GEN_GT \<Rightarrow> 8),
      (case ex of AS_POLICY_EXISTS_UPDATE \<Rightarrow> 8 | AS_POLICY_EXISTS_CREATE_OR_REPLACE \<Rightarrow> 16 | AS_POLICY_EXISTS_REPLACE \<Rightarrow> 32 | _ \<Rightarrow> 0) OR
        (if commit = AS_POLICY_COMMIT_LEVEL_MASTER then 2 else 0),
      if gp = AS_POLICY_GEN_IGNORE then 0 else gen)"
    by (cases ex; cases gp) (simp_all add: info_attrs_def info_bits)
  note parts = a [unfolded attrs, unfolded prod.inject]
  note r' = parts [THEN conjunct1, symmetric] and w' = parts [THEN conjunct2, THEN conjunct1, symmetric]
    and i' = parts [THEN conjunct2, THEN conjunct2, THEN conjunct1, symmetric]
    and g = parts [THEN conjunct2, THEN conjunct2, THEN conjunct2, symmetric]
  have "(bit r' 6 \<longleftrightarrow> cons = AS_POLICY_CONSISTENCY_LEVEL_ALL) \<and> r' AND 0xbf = r AND 0xbf"
    using r by (simp add: r' byte_eq_iff bit_simps)
  moreover have "(bit w' 5 \<longleftrightarrow> ex = AS_POLICY_EXISTS_CREATE) \<and> (bit w' 2 \<longleftrightarrow> gp = AS_POLICY_GEN_EQ) \<and>
      (bit w' 3 \<longleftrightarrow> gp = AS_POLICY_GEN_GT) \<and> w' AND 0xd3 = w AND 0xd3"
    using w by (cases gp) (simp_all add: w' byte_eq_iff bit_simps)
  moreover have "(bit i' 3 \<longleftrightarrow> ex = AS_POLICY_EXISTS_UPDATE) \<and> (bit i' 4 \<longleftrightarrow> ex = AS_POLICY_EXISTS_CREATE_OR_REPLACE) \<and>
      (bit i' 5 \<longleftrightarrow> ex = AS_POLICY_EXISTS_REPLACE) \<and> (bit i' 1 \<longleftrightarrow> commit = AS_POLICY_COMMIT_LEVEL_MASTER)"
    by (cases ex) (simp_all add: i' bit_simps)
  ultimately show ?thesis
    using g by blast
qed

theorem policies_in_header_witness:
  "info_attrs 1 1 AS_POLICY_COMMIT_LEVEL_MASTER AS_POLICY_CONSISTENCY_LEVEL_ALL AS_POLICY_EXISTS_CREATE AS_POLICY_GEN_GT 7 =
     (65, 41, 2, 7) \<and> bit (65 :: byte) 6 \<and> bit (41 :: byte) 5 \<and> bit (41 :: byte) 3 \<and> bit (2 :: byte) 1"
proof -
  have a: "info_attrs 1 1 AS_POLICY_COMMIT_LEVEL_MASTER AS_POLICY_CONSISTENCY_LEVEL_ALL AS_POLICY_EXISTS_CREATE AS_POLICY_GEN_GT 7 =
     (65, 41, 2, 7)"
    by (simp add: info_attrs_def info_bits)
  show ?thesis
    using policies_in_header [OF _ _ _ _ a] a by (simp add: bit_1_iff)
qed

end
