(* ===== verification/CommandParse.thy ===== *)
theory CommandParse
  imports Socket KeyCommands AsRecord
begin

text \<open>
  The readers of a reply, from \<^verbatim>\<open>as_command_parse_header\<close> to the end of \<^verbatim>\<open>as_command.c\<close>.  A reply is read from
  the socket into a buffer of its announced size; positions are offsets into that buffer, and an access outside it is
  \<open>Fault\<close>.  The allocation of the buffer and of the values succeeds.  The decoder of lists and maps takes fuel.
  A pointer to a result that the caller may leave out is an option.
\<close>

subsection \<open>Values\<close>

text \<open>The \<^verbatim>\<open>int\<close> size may be negative.  \<open>Some None\<close> is the error return.\<close>

definition as_command_bytes_to_int :: "host \<Rightarrow> byte mem \<Rightarrow> nat \<Rightarrow> int \<Rightarrow> u64 option option" where
  "as_command_bytes_to_int h buf p sz =
     (if sz = 8 then do { bs \<leftarrow> mem_read buf p 8; Some (Some (cf_swap_from_be64 h (load64 h bs))) }
      else if sz = 0 then Some (Some 0)
      else if sz > 8 then Some None
      else do {
        b \<leftarrow> mem_load buf p;
        if sz = 1 \<and> b < 0x7f then Some (Some (ucast b))
        else if b AND 0x80 \<noteq> 0 then
          (if sz < 0 then None
           else do {
             lg \<leftarrow> mem_read buf p (nat sz);
             bs \<leftarrow> mem_read buf p 8;
             Some (Some (cf_swap_from_be64 h (load64 h bs))) })
        else do {
          bs \<leftarrow> mem_read buf p (nat sz);
          Some (Some (foldl (\<lambda>v b. push_bit 8 v OR ucast b) 0 bs)) } })"

text \<open>The 32-bit number at a position.\<close>

definition be32_at :: "host \<Rightarrow> byte mem \<Rightarrow> nat \<Rightarrow> u32 option" where
  "be32_at h buf p = do { bs \<leftarrow> mem_read buf p 4; Some (cf_swap_from_be32 h (load32 h bs)) }"

fun as_command_ignore_fields :: "host \<Rightarrow> byte mem \<Rightarrow> nat \<Rightarrow> nat \<Rightarrow> nat option" where
  "as_command_ignore_fields h buf p 0 = Some p"
| "as_command_ignore_fields h buf p (Suc n) = do {
     len \<leftarrow> be32_at h buf p;
     as_command_ignore_fields h buf (p + unat (len + 4)) n }"

text \<open>A string of \<open>n\<close> bytes is copied to an allocation of \<open>n + 1\<close> bytes, computed in 32 bits.\<close>

definition copy_string :: "byte mem \<Rightarrow> nat \<Rightarrow> u32 \<Rightarrow> as_val option" where
  "copy_string buf p n = (if n + 1 = 0 then None else do { bs \<leftarrow> mem_read buf p (unat n); Some (AsString bs) })"

definition copy_bytes :: "byte \<Rightarrow> byte mem \<Rightarrow> nat \<Rightarrow> u32 \<Rightarrow> as_val option" where
  "copy_bytes t buf p n = do { bs \<leftarrow> mem_read buf p (unat n); Some (AsBytes t bs) }"

subsection \<open>Keys\<close>

text \<open>The value of a key field of type \<open>t\<close>; \<open>old\<close> is kept if it cannot be read.\<close>

definition parse_key_value :: "host \<Rightarrow> byte mem \<Rightarrow> nat \<Rightarrow> byte \<Rightarrow> u32 \<Rightarrow> as_val option \<Rightarrow> as_val option option" where
  "parse_key_value h buf p t len old =
     (if t = AS_BYTES_INTEGER then do {
        v \<leftarrow> as_command_bytes_to_int h buf p (sint len);
        Some (case v of Some i \<Rightarrow> Some (AsInteger i) | None \<Rightarrow> old) }
      else if t = AS_BYTES_STRING then map_option Some (copy_string buf p len)
      else if t = AS_BYTES_BLOB then map_option Some (copy_bytes AS_BYTES_BLOB buf p len)
      else Some old)"

definition AS_NAMESPACE_MAX_SIZE :: nat where "AS_NAMESPACE_MAX_SIZE = 32"
definition AS_SET_MAX_SIZE :: nat where "AS_SET_MAX_SIZE = 64"

definition parse_key_field :: "host \<Rightarrow> byte mem \<Rightarrow> nat \<Rightarrow> as_key \<Rightarrow> (as_key \<times> nat) option" where
  "parse_key_field h buf p k = do {
     l \<leftarrow> be32_at h buf p;
     let len = l - 1;
     t \<leftarrow> mem_load buf (p + 4);
     let p = p + 5 in
     if t = AS_FIELD_DIGEST then do {
       bs \<leftarrow> mem_read buf p (min (unat len) AS_DIGEST_VALUE_SIZE);
       d \<leftarrow> mem_write (key_digest k) 0 bs;
       Some (k\<lparr>key_digest := d\<rparr>, p + unat len) }
     else if t = AS_FIELD_NAMESPACE then do {
       bs \<leftarrow> mem_read buf p (min (unat len) (AS_NAMESPACE_MAX_SIZE - 1));
       ns \<leftarrow> mem_write (key_ns k) 0 (bs @ [0]);
       Some (k\<lparr>key_ns := ns\<rparr>, p + unat len) }
     else if t = AS_FIELD_SETNAME then do {
       bs \<leftarrow> mem_read buf p (min (unat len) (AS_SET_MAX_SIZE - 1));
       set \<leftarrow> mem_write (key_set k) 0 (bs @ [0]);
       Some (k\<lparr>key_set := set\<rparr>, p + unat len) }
     else if t = AS_FIELD_KEY then do {
       let len = len - 1;
       t \<leftarrow> mem_load buf p;
       v \<leftarrow> parse_key_value h buf (p + 1) t len (key_valuep k);
       Some (k\<lparr>key_valuep := v\<rparr>, p + 1 + unat len) }
     else Some (k, p + unat len) }"

fun as_command_parse_key :: "host \<Rightarrow> byte mem \<Rightarrow> nat \<Rightarrow> nat \<Rightarrow> as_key \<Rightarrow> (as_key \<times> nat) option" where
  "as_command_parse_key h buf p 0 k = Some (k, p)"
| "as_command_parse_key h buf p (Suc n) k = do {
     (k, p) \<leftarrow> parse_key_field h buf p k;
     as_command_parse_key h buf p n k }"

subsection \<open>Bins\<close>

text \<open>The header of an operation: the type, the name, the position of the value and its size.\<close>

definition op_head :: "host \<Rightarrow> byte mem \<Rightarrow> nat \<Rightarrow> (byte \<times> byte list \<times> nat \<times> u32) option" where
  "op_head h buf p = do {
     op_size \<leftarrow> be32_at h buf p;
     t \<leftarrow> mem_load buf (p + 5);
     name_size \<leftarrow> mem_load buf (p + 7);
     name \<leftarrow> mem_read buf (p + 8) (if unat name_size \<le> AS_BIN_NAME_MAX_LEN then unat name_size else AS_BIN_NAME_MAX_LEN);
     Some (t, name, p + 8 + unat name_size, op_size - (ucast name_size + 4)) }"

text \<open>What the pointer \<open>value\<close> points to afterwards.\<close>

definition as_command_parse_value :: "platform \<Rightarrow> nat \<Rightarrow> byte mem \<Rightarrow> nat \<Rightarrow> byte \<Rightarrow> u32 \<Rightarrow> as_val option \<Rightarrow> as_val option outcome" where
  "as_command_parse_value pf fuel buf p t value_size old =
     (if t = AS_BYTES_UNDEF then Done (Some AsNil)
      else if t = AS_BYTES_INTEGER then
        outcome_bind (lift_opt (as_command_bytes_to_int (byte_order pf) buf p (sint value_size))) (\<lambda>v.
        Done (Some (AsInteger (case v of Some i \<Rightarrow> i | None \<Rightarrow> 0))))
      else if t = AS_BYTES_STRING then outcome_bind (lift_opt (copy_string buf p value_size)) (\<lambda>v. Done (Some v))
      else if t = AS_BYTES_LIST \<or> t = AS_BYTES_MAP then
        outcome_bind (as_unpack_val pf buf fuel (int p)) (\<lambda>(v, _). Done (case v of Some w \<Rightarrow> Some w | None \<Rightarrow> old))
      else outcome_bind (lift_opt (copy_bytes AS_BYTES_BLOB buf p value_size)) (\<lambda>v. Done (Some v)))"

definition parse_bin_value :: "platform \<Rightarrow> nat \<Rightarrow> bool \<Rightarrow> byte mem \<Rightarrow> nat \<Rightarrow> byte \<Rightarrow> u32 \<Rightarrow> as_val option \<Rightarrow> as_val option outcome" where
  "parse_bin_value pf fuel deserialize buf p t value_size old =
     (if t = AS_BYTES_UNDEF then Done (Some AsNil)
      else if t = AS_BYTES_INTEGER then
        outcome_bind (lift_opt (as_command_bytes_to_int (byte_order pf) buf p (sint value_size))) (\<lambda>v.
        Done (case v of Some i \<Rightarrow> Some (AsInteger i) | None \<Rightarrow> old))
      else if t = AS_BYTES_STRING then outcome_bind (lift_opt (copy_string buf p value_size)) (\<lambda>v. Done (Some v))
      else if (t = AS_BYTES_LIST \<or> t = AS_BYTES_MAP) \<and> deserialize then
        outcome_bind (as_unpack_val pf buf fuel (int p)) (\<lambda>(v, _). Done v)
      else outcome_bind (lift_opt (copy_bytes t buf p value_size)) (\<lambda>v. Done (Some v)))"

text \<open>The bins are stored from entry \<open>i\<close> on; every one adds to the size.\<close>

fun parse_bins_from :: "platform \<Rightarrow> nat \<Rightarrow> bool \<Rightarrow> byte mem \<Rightarrow> nat \<Rightarrow> nat \<Rightarrow> as_record \<Rightarrow> nat \<Rightarrow> (as_record \<times> nat) outcome" where
  "parse_bins_from pf fuel deserialize buf i 0 rec p = Done (rec, p)"
| "parse_bins_from pf fuel deserialize buf i (Suc n) rec p =
     outcome_bind (lift_opt (op_head (byte_order pf) buf p)) (\<lambda>(t, name, q, value_size).
     outcome_bind (lift_opt (mem_load (rec_entries rec) i)) (\<lambda>bin.
     outcome_bind (parse_bin_value pf fuel deserialize buf q t value_size (bin_valuep bin)) (\<lambda>v.
     parse_bins_from pf fuel deserialize buf (Suc i) n
       (rec\<lparr>rec_entries := (rec_entries rec)[i := \<lparr> bin_name = name, bin_valuep = v \<rparr>], rec_size := rec_size rec + 1\<rparr>)
       (q + unat value_size))))"

definition as_command_parse_bins :: "platform \<Rightarrow> nat \<Rightarrow> bool \<Rightarrow> byte mem \<Rightarrow> nat \<Rightarrow> as_record \<Rightarrow> nat \<Rightarrow> (as_record \<times> nat) outcome" where
  "as_command_parse_bins pf fuel deserialize buf n_bins rec p = parse_bins_from pf fuel deserialize buf 0 n_bins rec p"

subsection \<open>Results of user-defined functions\<close>

fun val_type_code :: "as_val_t \<Rightarrow> int" where
  "val_type_code AS_UNKNOWN = 0" | "val_type_code AS_NIL = 1" | "val_type_code AS_BOOLEAN = 2" | "val_type_code AS_INTEGER = 3"
| "val_type_code AS_STRING = 4" | "val_type_code AS_LIST = 5" | "val_type_code AS_MAP = 6" | "val_type_code AS_REC = 7"
| "val_type_code AS_PAIR = 8" | "val_type_code AS_BYTES = 9"

fun failure_error :: "as_error \<Rightarrow> as_val option \<Rightarrow> int \<times> as_error" where
  "failure_error err None = as_error_set_message err AEROSPIKE_ERR_CLIENT (ascii ''Received null FAILURE bin.'')"
| "failure_error err (Some (AsString s)) = as_error_set_message err AEROSPIKE_ERR_CLIENT s"
| "failure_error err (Some v) =
     as_error_update err AEROSPIKE_ERR_CLIENT ''Expected string for FAILURE bin. Received %d'' [val_type_code (as_val_type v)]"

text \<open>The loop over the operations of a reply: the error, the result and the position after it.\<close>

fun success_failure_loop ::
  "platform \<Rightarrow> nat \<Rightarrow> byte mem \<Rightarrow> nat \<Rightarrow> nat \<Rightarrow> as_error \<Rightarrow> as_val option option \<Rightarrow> (as_error \<times> as_val option option \<times> nat option) outcome" where
  "success_failure_loop pf fuel buf p 0 err val =
     Done (snd (as_error_set_message err AEROSPIKE_ERR_CLIENT (ascii ''Failed to find SUCCESS or FAILURE bin.'')), val, None)"
| "success_failure_loop pf fuel buf p (Suc n) err val =
     outcome_bind (lift_opt (op_head (byte_order pf) buf p)) (\<lambda>(t, name, q, value_size).
     if c_str name = ascii ''SUCCESS'' then
       (case val of
          None \<Rightarrow> Done (err, None, Some (q + unat value_size))
        | Some old \<Rightarrow>
            outcome_bind (as_command_parse_value pf fuel buf q t value_size old) (\<lambda>v. Done (err, Some v, Some (q + unat value_size))))
     else if c_str name = ascii ''FAILURE'' then
       outcome_bind (as_command_parse_value pf fuel buf q t value_size None) (\<lambda>v.
       Done (snd (failure_error err v), val, None))
     else success_failure_loop pf fuel buf (q + unat value_size) n err val)"


definition as_command_parse_success_failure_bins ::
  "platform \<Rightarrow> nat \<Rightarrow> byte mem \<Rightarrow> as_error \<Rightarrow> as_msg \<Rightarrow> as_val option option \<Rightarrow> (as_error \<times> as_val option option \<times> nat option) outcome" where
  "as_command_parse_success_failure_bins pf fuel buf err msg val =
     outcome_bind (lift_opt (as_command_ignore_fields (byte_order pf) buf 0 (unat (msg_n_fields msg)))) (\<lambda>p.
     success_failure_loop pf fuel buf p (unat (msg_n_ops msg)) err val)"

text \<open>The library functions: the end of a string from the last occurrence of a character on, and the number a string starts with.\<close>

fun strrchr :: "byte \<Rightarrow> byte list \<Rightarrow> byte list option" where
  "strrchr c [] = None"
| "strrchr c (x # xs) = (case strrchr c xs of Some r \<Rightarrow> Some r | None \<Rightarrow> if x = c then Some (x # xs) else None)"

definition is_digit :: "byte \<Rightarrow> bool" where "is_digit c \<longleftrightarrow> 48 \<le> c \<and> c \<le> 57"
definition is_space :: "byte \<Rightarrow> bool" where "is_space c \<longleftrightarrow> c = 32 \<or> 9 \<le> c \<and> c \<le> 13"

definition digits_value :: "byte list \<Rightarrow> int" where
  "digits_value s = foldl (\<lambda>n c. 10 * n + (uint c - 48)) 0 (takeWhile is_digit s)"

definition atoi :: "byte list \<Rightarrow> int" where
  "atoi s =
     (case dropWhile is_space s of
        [] \<Rightarrow> 0
      | c # cs \<Rightarrow> if c = 45 then - digits_value cs else if c = 43 then digits_value cs else digits_value (c # cs))"

text \<open>An error of the function with its code at the end, after the last colon.\<close>

definition udf_error_code :: "byte list \<Rightarrow> int option" where
  "udf_error_code s =
     (case strrchr 58 s of
        None \<Rightarrow> None
      | Some p \<Rightarrow>
          (case strrchr 58 (tl p) of
             None \<Rightarrow> None
           | Some q \<Rightarrow> let code = atoi (tl q) in if code > 0 then Some code else None))"

definition as_command_parse_udf_error :: "as_error \<Rightarrow> int \<Rightarrow> as_val option \<Rightarrow> int \<times> as_error" where
  "as_command_parse_udf_error err status val =
     (case val of
        Some (AsString s) \<Rightarrow>
          (case udf_error_code (c_str s) of
             Some code \<Rightarrow> as_error_set_message err code s
           | None \<Rightarrow> as_error_set_message err status s)
      | _ \<Rightarrow> as_error_set_message err status (ascii (as_error_string status)))"

fun udf_failure_loop :: "platform \<Rightarrow> nat \<Rightarrow> byte mem \<Rightarrow> nat \<Rightarrow> nat \<Rightarrow> as_error \<Rightarrow> int \<Rightarrow> (int \<times> as_error) outcome" where
  "udf_failure_loop pf fuel buf p 0 err status = Done (as_error_set_message err status (ascii (as_error_string status)))"
| "udf_failure_loop pf fuel buf p (Suc n) err status =
     outcome_bind (lift_opt (op_head (byte_order pf) buf p)) (\<lambda>(t, name, q, value_size).
     if c_str name = ascii ''FAILURE'' then
       outcome_bind (as_command_parse_value pf fuel buf q t value_size None) (\<lambda>v. Done (as_command_parse_udf_error err status v))
     else udf_failure_loop pf fuel buf (q + unat value_size) n err status)"

definition as_command_parse_udf_failure :: "platform \<Rightarrow> nat \<Rightarrow> byte mem \<Rightarrow> as_error \<Rightarrow> as_msg \<Rightarrow> int \<Rightarrow> (int \<times> as_error) outcome" where
  "as_command_parse_udf_failure pf fuel buf err msg status =
     outcome_bind (lift_opt (as_command_ignore_fields (byte_order pf) buf 0 (unat (msg_n_fields msg)))) (\<lambda>p.
     udf_failure_loop pf fuel buf p (unat (msg_n_ops msg)) err status)"

subsection \<open>Replies\<close>

text \<open>
  The reply to a write.  The header stays as it was read except for the length; it comes back if it was read in full.
\<close>

definition as_command_parse_header ::
  "errno_codes \<Rightarrow> host \<Rightarrow> as_error \<Rightarrow> sock \<Rightarrow> u64 \<Rightarrow> (int \<times> as_error \<times> as_proto_msg option \<times> sock) outcome" where
  "as_command_parse_header ec h err s deadline =
     outcome_bind (as_socket_read_deadline ec err s 30 deadline) (\<lambda>(status, err, hdr, s).
     if status \<noteq> AEROSPIKE_OK then Done (status, err, None, s)
     else
       let raw = proto_msg_fields h hdr;
           msg = raw\<lparr>pm_proto := as_proto_swap_from_be h (pm_proto raw)\<rparr>;
           size = proto_sz (pm_proto msg) - ucast (msg_header_sz (pm_msg msg));
           code = uint (msg_result_code (pm_msg msg));
           finish = (\<lambda>err s.
             if code \<noteq> AEROSPIKE_OK \<and> code \<noteq> AEROSPIKE_ERR_RECORD_NOT_FOUND then
               let (st, err) = as_error_set_message err code (ascii (as_error_string code)) in Done (st, err, Some msg, s)
             else Done (code, err, Some msg, s)) in
       if size > 0 then
         if size > 100000 then
           let (st, err) = as_error_update err AEROSPIKE_ERR_CLIENT
                 ''Unexpected data received from socket after a write: fd=%d size=%zu'' [int (sk_fd s), uint size] in
           Done (st, err, Some msg, s)
         else
           outcome_bind (as_socket_read_deadline ec err s (unat size) deadline) (\<lambda>(status, err, _, s).
           if status \<noteq> AEROSPIKE_OK then Done (status, err, Some msg, s) else finish err s)
       else finish err s)"

text \<open>The frame of both readers of results: header and body.  The body is handed to \<open>k\<close>; a read error skips it.\<close>

definition with_reply ::
  "errno_codes \<Rightarrow> host \<Rightarrow> as_error \<Rightarrow> sock \<Rightarrow> u64 \<Rightarrow> 'u \<Rightarrow> (as_error \<Rightarrow> as_msg \<Rightarrow> byte list \<Rightarrow> (int \<times> as_error \<times> 'u) outcome) \<Rightarrow>
   (int \<times> as_error \<times> 'u \<times> sock) outcome" where
  "with_reply ec h err s deadline user_data k =
     outcome_bind (as_socket_read_deadline ec err s 30 deadline) (\<lambda>(status, err, hdr, s).
     if status \<noteq> AEROSPIKE_OK then Done (status, err, user_data, s)
     else
       let raw = proto_msg_fields h hdr;
           proto = as_proto_swap_from_be h (pm_proto raw);
           msg = as_msg_swap_header_from_be h (pm_msg raw);
           size = proto_sz proto - ucast (msg_header_sz msg);
           finish = (\<lambda>err s body. outcome_bind (k err msg body) (\<lambda>(st, err, u). Done (st, err, u, s))) in
       if size > 0 then
         outcome_bind (as_socket_read_deadline ec err s (unat size) deadline) (\<lambda>(status, err, body, s).
         if status \<noteq> AEROSPIKE_OK then Done (status, err, user_data, s) else finish err s body)
       else finish err s [])"

text \<open>\<open>now\<close> is the time in seconds since the epoch of the server.\<close>

definition cf_server_void_time_to_ttl :: "u32 \<Rightarrow> u32 \<Rightarrow> u32" where
  "cf_server_void_time_to_ttl now t = (if t = 0 then - 1 else if t > now then t - now else 1)"

text \<open>The record the bins go to: the one of the caller, with a larger array if it has too few entries, or a new one.\<close>

definition record_for :: "(nat \<Rightarrow> as_bin) \<Rightarrow> as_msg \<Rightarrow> as_record option \<Rightarrow> as_record" where
  "record_for junk msg rec =
     (case rec of
        Some r \<Rightarrow>
          if msg_n_ops msg > rec_capacity r then
            r\<lparr>rec_capacity := msg_n_ops msg, rec_size := 0, rec_entries := map junk [0..<unat (msg_n_ops msg)], bins_free := True\<rparr>
          else r
      | None \<Rightarrow> as_record_new junk (msg_n_ops msg))"

definition parse_record ::
  "platform \<Rightarrow> nat \<Rightarrow> (nat \<Rightarrow> as_bin) \<Rightarrow> u32 \<Rightarrow> as_msg \<Rightarrow> byte list \<Rightarrow> as_record option \<Rightarrow> as_record outcome" where
  "parse_record pf fuel junk now msg buf rec =
     (let r = (record_for junk msg rec)\<lparr>rec_gen := ucast (msg_generation msg), rec_ttl := cf_server_void_time_to_ttl now (msg_record_ttl msg)\<rparr> in
      outcome_bind (lift_opt (as_command_ignore_fields (byte_order pf) buf 0 (unat (msg_n_fields msg)))) (\<lambda>p.
      outcome_bind (as_command_parse_bins pf fuel True buf (unat (msg_n_ops msg)) r p) (\<lambda>(r, _). Done r)))"

definition as_command_parse_result ::
  "errno_codes \<Rightarrow> platform \<Rightarrow> nat \<Rightarrow> (nat \<Rightarrow> as_bin) \<Rightarrow> u32 \<Rightarrow> as_error \<Rightarrow> sock \<Rightarrow> u64 \<Rightarrow> as_record option option \<Rightarrow>
   (int \<times> as_error \<times> as_record option option \<times> sock) outcome" where
  "as_command_parse_result ec pf fuel junk now err s deadline rec =
     with_reply ec (byte_order pf) err s deadline rec (\<lambda>err msg buf.
       let status = uint (msg_result_code msg) in
       if status = AEROSPIKE_OK then
         (case rec of
            None \<Rightarrow> Done (status, err, None)
          | Some r \<Rightarrow> outcome_bind (parse_record pf fuel junk now msg buf r) (\<lambda>r. Done (status, err, Some (Some r))))
       else if status = AEROSPIKE_ERR_UDF then
         outcome_bind (as_command_parse_udf_failure pf fuel buf err msg status) (\<lambda>(status, err). Done (status, err, rec))
       else if status = AEROSPIKE_ERR_RECORD_NOT_FOUND \<or> status = AEROSPIKE_ERR_LARGE_ITEM_NOT_FOUND then Done (status, err, rec)
       else Done (status, snd (as_error_set_message err status (ascii (as_error_string status))), rec))"

text \<open>Except on success the result is set to null through a pointer that is not tested.\<close>

definition as_command_parse_success_failure ::
  "errno_codes \<Rightarrow> platform \<Rightarrow> nat \<Rightarrow> as_error \<Rightarrow> sock \<Rightarrow> u64 \<Rightarrow> as_val option option \<Rightarrow>
   (int \<times> as_error \<times> as_val option option \<times> sock) outcome" where
  "as_command_parse_success_failure ec pf fuel err s deadline val =
     with_reply ec (byte_order pf) err s deadline val (\<lambda>err msg buf.
       let status = uint (msg_result_code msg);
           cleared = (\<lambda>(status, err). if val = None then Fault else Done (status, err, Some None)) in
       if status = AEROSPIKE_OK then
         outcome_bind (as_command_parse_success_failure_bins pf fuel buf err msg val) (\<lambda>(err, val, _). Done (status, err, val))
       else if status = AEROSPIKE_ERR_UDF then outcome_bind (as_command_parse_udf_failure pf fuel buf err msg status) cleared
       else if status = AEROSPIKE_ERR_RECORD_NOT_FOUND \<or> status = AEROSPIKE_ERR_LARGE_ITEM_NOT_FOUND then cleared (status, err)
       else cleared (as_error_set_message err status (ascii (as_error_string status))))"

end
