(* ===== verification/CommandParseProps.thy ===== *)
theory CommandParseProps
  imports CommandParse CommandProps MsgpackDecode
begin

text \<open>
  The readers of replies against the writers of commands: keys and bins come back as they were sent, whole replies become
  records, and the defects of the reply handling.
\<close>

subsection \<open>Bins\<close>

lemma load_at: "k < length ys \<Longrightarrow> mem_load (pre @ ys @ post) (length pre + k) = Some (ys ! k)"
  by (simp add: mem_load_def nth_append)

lemma be32_at_wire [simp]: "be32_at h (pre @ be32 x @ post) (length pre) = Some x"
  by (simp add: be32_at_def mem_read_append)

lemma op_head_wire:
  assumes "length name \<le> AS_BIN_NAME_MAX_LEN"
  shows "op_head h (pre @ (be32 (of_nat (length name + length bs + 4)) @ [op, t, 0, of_nat (length name)] @ name @ bs) @ post) (length pre) =
    Some (t, name, length pre + 8 + length name, of_nat (length bs))"
proof -
  let ?hdr = "be32 (of_nat (length name + length bs + 4)) @ [op, t, 0, of_nat (length name)]"
  let ?buf = "pre @ (?hdr @ name @ bs) @ post"
  have n: "unat (of_nat (length name) :: byte) = length name" "ucast (of_nat (length name) :: byte) = (of_nat (length name) :: u32)"
    using assms by (simp_all add: name_len_word unat_of_nat AS_BIN_NAME_MAX_LEN_def)
  have "be32_at h ?buf (length pre) = Some (of_nat (length name + length bs + 4))"
    using be32_at_wire [of h pre] by simp
  moreover have "mem_load ?buf (length pre + 5) = Some t" "mem_load ?buf (length pre + 7) = Some (of_nat (length name))"
    using load_at [of 5 "?hdr @ name @ bs" pre post] load_at [of 7 "?hdr @ name @ bs" pre post] by (simp_all add: nth_append)
  moreover have "mem_read ?buf (length pre + 8) (length name) = Some name"
    using mem_read_append [of "length name" name "pre @ ?hdr" "bs @ post"] by simp
  ultimately show ?thesis
    using assms n by (simp add: op_head_def)
qed

text \<open>What arrives of the value of a bin.\<close>

definition arrives :: "as_val \<Rightarrow> as_val \<Rightarrow> bool" where
  "arrives v w \<longleftrightarrow>
     (case v of AsInteger _ \<Rightarrow> w = v | AsString _ \<Rightarrow> w = v | AsBytes _ _ \<Rightarrow> w = v | AsList _ \<Rightarrow> received v w | AsMap _ \<Rightarrow> received v w
      | _ \<Rightarrow> w = AsNil)"

text \<open>The values that can be sent in a bin: short enough, blobs of a blob type, lists and maps that the decoder can hold.\<close>

definition bin_sendable :: "as_val \<Rightarrow> bool" where
  "bin_sendable v \<longleftrightarrow> length (snd (particle v)) + 1 < 2 ^ 32 \<and>
     (case v of AsBytes t _ \<Rightarrow> t \<notin> {AS_BYTES_UNDEF, AS_BYTES_INTEGER, AS_BYTES_STRING, AS_BYTES_LIST, AS_BYTES_MAP}
      | AsList _ \<Rightarrow> sendable v | AsMap _ \<Rightarrow> sendable v | _ \<Rightarrow> True)"

lemma bytes_to_int_wire: "as_command_bytes_to_int h (pre @ be64 i @ post) (length pre) 8 = Some (Some i)"
  by (simp add: as_command_bytes_to_int_def mem_read_append)

lemma copy_wire:
  assumes "length bs + 1 < 2 ^ 32"
  shows "copy_string (pre @ bs @ post) (length pre) (of_nat (length bs)) = Some (AsString bs)"
    "copy_bytes t (pre @ bs @ post) (length pre) (of_nat (length bs)) = Some (AsBytes t bs)"
proof -
  have "unat (of_nat (length bs) :: u32) = length bs"
    using assms by (simp add: unat_of_nat)
  moreover have "(of_nat (length bs) :: u32) + 1 \<noteq> 0"
  proof -
    have "unat (of_nat (length bs + 1) :: u32) = length bs + 1"
      using assms by (simp only: unat_of_nat) simp
    then show ?thesis
      by (metis Suc_eq_plus1 nat.distinct(1) of_nat_1 of_nat_add unat_0)
  qed
  ultimately show "copy_string (pre @ bs @ post) (length pre) (of_nat (length bs)) = Some (AsString bs)"
    "copy_bytes t (pre @ bs @ post) (length pre) (of_nat (length bs)) = Some (AsBytes t bs)"
    by (simp_all add: copy_string_def copy_bytes_def mem_read_append)
qed


lemma parse_bin_value_wire:
  assumes p: "particle v = (t, bs)" and v: "bin_sendable v" and fuel: "length bs \<le> fuel" and z: "hpux_libc pf \<longrightarrow> 0 \<in> set post"
  shows "\<exists>w. arrives v w \<and> parse_bin_value pf fuel True (pre @ bs @ post) (length pre) t (of_nat (length bs)) old = Done (Some w)"
proof -
  have len: "length bs + 1 < 2 ^ 32"
    using v p by (simp add: bin_sendable_def)
  have enc: "\<exists>bs. enc_val v = Some bs" if "sendable v"
    using decodes_enc [OF sendable_decodes [OF that]] .
  have unpacked: ?thesis if "sendable v" and enc: "enc_val v = Some bs" and "t = AS_BYTES_LIST \<or> t = AS_BYTES_MAP" and "\<And>w. received v w \<Longrightarrow> arrives v w"
  proof -
    obtain w where "received v w"
      "as_unpack_val pf (pre @ bs @ post) fuel (int (length pre)) = Done (Some w, int (length pre + length bs), 0)"
      using decodesD [OF sendable_decodes [OF \<open>sendable v\<close>], of fuel pf post pre] fuel z enc by auto
    then show ?thesis
      using \<open>t = AS_BYTES_LIST \<or> t = AS_BYTES_MAP\<close> that(4) by (auto simp: parse_bin_value_def as_bytes_types)
  qed
  show ?thesis
  proof (cases v)
    case (AsInteger i)
    then show ?thesis
      using p bytes_to_int_wire [of "byte_order pf" pre i post]
      by (auto simp: parse_bin_value_def arrives_def as_bytes_types lift_opt_def)
  next
    case (AsString s)
    then show ?thesis
      using p copy_wire(1) [OF len] by (auto simp: parse_bin_value_def arrives_def as_bytes_types lift_opt_def)
  next
    case (AsBytes ty b)
    then show ?thesis
      using p v copy_wire(2) [OF len] by (auto simp: parse_bin_value_def arrives_def lift_opt_def bin_sendable_def)
  next
    case (AsList xs)
    have "sendable v"
      using v AsList by (simp add: bin_sendable_def)
    moreover have "enc_val v = Some bs" "t = AS_BYTES_LIST"
      using enc [OF calculation] p by (auto simp del: enc_val.simps simp: AsList)
    ultimately show ?thesis
      using unpacked by (simp add: arrives_def AsList del: enc_val.simps)
  next
    case (AsMap es)
    have "sendable v"
      using v AsMap by (simp add: bin_sendable_def)
    moreover have "enc_val v = Some bs" "t = AS_BYTES_MAP"
      using enc [OF calculation] p by (auto simp del: enc_val.simps simp: AsMap)
    ultimately show ?thesis
      using unpacked by (simp add: arrives_def AsMap del: enc_val.simps)
  qed (use p in \<open>auto simp: parse_bin_value_def arrives_def as_bytes_types\<close>)
qed

definition bin_arrives :: "as_bin \<Rightarrow> as_bin \<Rightarrow> bool" where
  "bin_arrives b b' \<longleftrightarrow> bin_name b' = c_str (bin_name b) \<and> (\<exists>w. bin_valuep b' = Some w \<and> arrives (the (bin_valuep b)) w)"

text \<open>A bin that can be sent.\<close>

definition bin_fit :: "as_bin \<Rightarrow> bool" where
  "bin_fit b \<longleftrightarrow> length (c_str (bin_name b)) \<le> AS_BIN_NAME_MAX_LEN \<and> (\<exists>v. bin_valuep b = Some v \<and> bin_sendable v)"

lemma bin_fit_ready: "bin_fit b \<Longrightarrow> bin_ready b"
proof -
  have "enc_val v \<noteq> None" if "sendable v" for v
    using decodes_enc [OF sendable_decodes [OF that]] by auto
  moreover assume "bin_fit b"
  then obtain v where "length (c_str (bin_name b)) \<le> AS_BIN_NAME_MAX_LEN" "bin_valuep b = Some v" "bin_sendable v"
    by (auto simp: bin_fit_def)
  ultimately show "bin_ready b"
    by (cases v) (simp_all add: bin_ready_def bin_sendable_def del: enc_val.simps)
qed

text \<open>The bytes of the longest value bound the fuel of the decoder.\<close>

lemma parse_bins_wire:
  assumes "\<forall>(op, b) \<in> set ops. bin_fit b" and "i + length ops \<le> length (rec_entries r)"
    and "length (ops_wire ops) \<le> fuel" and "hpux_libc pf \<longrightarrow> 0 \<in> set post"
  shows "\<exists>bs. list_all2 bin_arrives (map snd ops) bs \<and>
    parse_bins_from pf fuel True (pre @ ops_wire ops @ post) i (length ops) r (length pre) =
      Done (r\<lparr>rec_entries := take i (rec_entries r) @ bs @ drop (i + length ops) (rec_entries r),
              rec_size := rec_size r + of_nat (length ops)\<rparr>, length pre + length (ops_wire ops))"
  using assms
proof (induction ops arbitrary: i r pre)
  case (Cons x ops)
  obtain op b where x: "x = (op, b)"
    by (cases x)
  obtain v t bs where b: "length (c_str (bin_name b)) \<le> AS_BIN_NAME_MAX_LEN" "bin_valuep b = Some v" "bin_sendable v" "particle v = (t, bs)"
    using Cons.prems(1) x by (auto simp: bin_fit_def) (metis surj_pair)
  let ?name = "c_str (bin_name b)"
  let ?hdr = "be32 (of_nat (length ?name + length bs + 4)) @ [operator_code op, t, 0, of_nat (length ?name)]"
  let ?post = "ops_wire ops @ post"
  have w: "bin_wire op b = ?hdr @ ?name @ bs" "ops_wire (x # ops) = bin_wire op b @ ops_wire ops"
    using b by (simp_all add: bin_wire_def ops_wire_def x Let_def)
  have len: "unat (of_nat (length bs) :: u32) = length bs"
    using b(3,4) by (simp add: bin_sendable_def unat_of_nat)
  have head: "op_head (byte_order pf) (pre @ ops_wire (x # ops) @ post) (length pre) = Some (t, ?name, length pre + 8 + length ?name, of_nat (length bs))"
    using op_head_wire [OF b(1), of "byte_order pf" pre bs "operator_code op" t ?post] by (simp add: w)
  have buf: "pre @ ops_wire (x # ops) @ post = (pre @ ?hdr @ ?name) @ bs @ ?post" "length (pre @ ?hdr @ ?name) = length pre + 8 + length ?name"
    by (simp_all add: w)
  have "\<exists>u. arrives v u \<and> parse_bin_value pf fuel True ((pre @ ?hdr @ ?name) @ bs @ ?post) (length (pre @ ?hdr @ ?name)) t (of_nat (length bs))
      (bin_valuep (rec_entries r ! i)) = Done (Some u)"
    by (rule parse_bin_value_wire [OF b(4,3)]) (use Cons.prems(3,4) in \<open>auto simp: w\<close>)
  then obtain u where u: "arrives v u"
    "parse_bin_value pf fuel True (pre @ ops_wire (x # ops) @ post) (length pre + 8 + length ?name) t (of_nat (length bs)) (bin_valuep (rec_entries r ! i)) = Done (Some u)"
    unfolding buf(2) buf(1) [symmetric] by blast
  let ?b = "\<lparr> bin_name = ?name, bin_valuep = Some u \<rparr>"
  let ?r = "r\<lparr>rec_entries := (rec_entries r)[i := ?b], rec_size := rec_size r + 1\<rparr>"
  have pos: "length pre + 8 + length ?name + length bs = length (pre @ bin_wire op b)" "pre @ ops_wire (x # ops) @ post = (pre @ bin_wire op b) @ ops_wire ops @ post"
    by (simp_all add: w)
  have i: "i < length (rec_entries r)"
    using Cons.prems(2) by simp
  have "parse_bins_from pf fuel True (pre @ ops_wire (x # ops) @ post) i (length (x # ops)) r (length pre) =
      parse_bins_from pf fuel True (pre @ ops_wire (x # ops) @ post) (Suc i) (length ops) ?r (length pre + 8 + length ?name + length bs)"
    using head u(2) i len by (simp add: lift_opt_def mem_load_in)
  note step = this [unfolded pos]
  obtain bs' where bs': "list_all2 bin_arrives (map snd ops) bs'"
    "parse_bins_from pf fuel True ((pre @ bin_wire op b) @ ops_wire ops @ post) (Suc i) (length ops) ?r (length (pre @ bin_wire op b)) =
      Done (?r\<lparr>rec_entries := take (Suc i) (rec_entries ?r) @ bs' @ drop (Suc i + length ops) (rec_entries ?r),
              rec_size := rec_size ?r + of_nat (length ops)\<rparr>, length (pre @ bin_wire op b) + length (ops_wire ops))"
    using Cons.IH [of "Suc i" ?r "pre @ bin_wire op b"] Cons.prems by (auto simp: w(2))
  have arr: "bin_arrives b ?b"
    using u(1) b(2) by (simp add: bin_arrives_def)
  have "take (Suc i) (rec_entries ?r) = take i (rec_entries r) @ [?b]"
    using i by (simp add: take_Suc_conv_app_nth)
  then show ?case
    unfolding pos(2) step bs'(2) using bs'(1) arr
    by (intro exI [of _ "?b # bs'"]) (simp add: x w(2) [unfolded x] add_ac)
qed (simp add: ops_wire_def)

lemma write_at:
  assumes "emits f bs" and "p + length bs \<le> length mem"
  shows "f mem p = Some (take p mem @ bs @ drop (p + length bs) mem, p + length bs)"
proof -
  have "mem = take p mem @ take (length bs) (drop p mem) @ drop (p + length bs) mem"
    by (metis append_take_drop_id drop_drop add.commute)
  moreover have "length (take p mem) = p"
    using assms(2) by simp
  ultimately show ?thesis
    using emitsD [OF assms(1), of "take (length bs) (drop p mem)" "take p mem" "drop (p + length bs) mem"] assms(2) by simp
qed


definition some_list_bin :: as_bin where
  "some_list_bin = \<lparr> bin_name = [108], bin_valuep = Some some_value \<rparr>"

lemma some_list_bin_fit: "bin_fit some_list_bin"
proof -
  have "length (snd (particle some_value)) + 1 < 2 ^ 32"
    by (simp add: some_value_def enc_list_header_def enc_map_header_def enc_int_def enc_raw_def enc_raw_header_def)
  then show ?thesis
    using some_value_sendable by (simp add: bin_fit_def some_list_bin_def bin_sendable_def c_str_def AS_BIN_NAME_MAX_LEN_def some_value_def)
qed


subsection \<open>Keys\<close>

lemma field_at:
  assumes "length bs < 2 ^ 32"
  shows "be32_at h (pre @ field_wire fid bs @ post) (length pre) = Some (of_nat (length bs) + 1)"
    "mem_load (pre @ field_wire fid bs @ post) (length pre + 4) = Some fid"
    "n \<le> length bs \<Longrightarrow> mem_read (pre @ field_wire fid bs @ post) (length pre + 5) n = Some (take n bs)"
    "unat (of_nat (length bs) :: u32) = length bs"
proof -
  show "be32_at h (pre @ field_wire fid bs @ post) (length pre) = Some (of_nat (length bs) + 1)"
    by (simp add: field_wire_def)
  show "mem_load (pre @ field_wire fid bs @ post) (length pre + 4) = Some fid"
    using load_at [of 4 "field_wire fid bs" pre post] by (simp add: field_wire_def nth_append)
  show "mem_read (pre @ field_wire fid bs @ post) (length pre + 5) n = Some (take n bs)" if "n \<le> length bs"
    using that mem_read_append [of n "take n bs" "pre @ be32 (of_nat (length bs) + 1) @ [fid]" "drop n bs @ post"]
    by (simp add: field_wire_def) (metis append_assoc append_take_drop_id)
  show "unat (of_nat (length bs) :: u32) = length bs"
    using assms by (simp add: unat_of_nat)
qed

lemma c_str_terminated: "0 \<notin> set bs \<Longrightarrow> c_str (bs @ 0 # rest) = bs"
  by (induction bs) (auto simp: c_str_def)

lemma write_terminated:
  "length bs < length m \<Longrightarrow> \<exists>m'. mem_write m 0 (bs @ [0]) = Some m' \<and> length m' = length m \<and> (0 \<notin> set bs \<longrightarrow> c_str m' = bs)"
  by (auto simp: mem_write_def c_str_terminated)

lemmas field_ids = AS_FIELD_DIGEST_def AS_FIELD_NAMESPACE_def AS_FIELD_SETNAME_def AS_FIELD_KEY_def

text \<open>The arrays of a key have their full size.\<close>

definition key_arrays :: "as_key \<Rightarrow> bool" where
  "key_arrays k \<longleftrightarrow> length (key_ns k) = AS_NAMESPACE_MAX_SIZE \<and> length (key_set k) = AS_SET_MAX_SIZE \<and>
     length (key_digest k) = AS_DIGEST_VALUE_SIZE"

lemmas field_sizes = key_arrays_def AS_NAMESPACE_MAX_SIZE_def AS_SET_MAX_SIZE_def AS_DIGEST_VALUE_SIZE_def

lemma parse_ns:
  assumes "length bs < AS_NAMESPACE_MAX_SIZE" and "0 \<notin> set bs" and "key_arrays k"
  shows "\<exists>ns. parse_key_field h (pre @ field_wire AS_FIELD_NAMESPACE bs @ post) (length pre) k =
      Some (k\<lparr>key_ns := ns\<rparr>, length (pre @ field_wire AS_FIELD_NAMESPACE bs)) \<and> c_str ns = bs \<and> key_arrays (k\<lparr>key_ns := ns\<rparr>)"
proof -
  have len: "length bs < 2 ^ 32"
    using assms(1) by (simp add: field_sizes)
  obtain ns where "mem_write (key_ns k) 0 (bs @ [0]) = Some ns" "length ns = length (key_ns k)" "c_str ns = bs"
    using write_terminated [of bs "key_ns k"] assms by (auto simp: key_arrays_def)
  then show ?thesis
    using field_at [OF len] assms
    by (auto simp: parse_key_field_def field_ids field_sizes min_def intro!: exI [of _ ns])
qed

lemma parse_set:
  assumes "length bs < AS_SET_MAX_SIZE" and "0 \<notin> set bs" and "key_arrays k"
  shows "\<exists>s. parse_key_field h (pre @ field_wire AS_FIELD_SETNAME bs @ post) (length pre) k =
      Some (k\<lparr>key_set := s\<rparr>, length (pre @ field_wire AS_FIELD_SETNAME bs)) \<and> c_str s = bs \<and> key_arrays (k\<lparr>key_set := s\<rparr>)"
proof -
  have len: "length bs < 2 ^ 32"
    using assms(1) by (simp add: field_sizes)
  obtain s where "mem_write (key_set k) 0 (bs @ [0]) = Some s" "length s = length (key_set k)" "c_str s = bs"
    using write_terminated [of bs "key_set k"] assms by (auto simp: key_arrays_def)
  then show ?thesis
    using field_at [OF len] assms
    by (auto simp: parse_key_field_def field_ids field_sizes min_def intro!: exI [of _ s])
qed

lemma parse_digest:
  assumes "length bs = AS_DIGEST_VALUE_SIZE" and "key_arrays k"
  shows "parse_key_field h (pre @ field_wire AS_FIELD_DIGEST bs @ post) (length pre) k =
      Some (k\<lparr>key_digest := bs\<rparr>, length (pre @ field_wire AS_FIELD_DIGEST bs)) \<and> key_arrays (k\<lparr>key_digest := bs\<rparr>)"
proof -
  have "length bs < 2 ^ 32"
    using assms(1) by (simp add: field_sizes)
  then show ?thesis
    using field_at [of bs] assms by (simp add: parse_key_field_def field_ids field_sizes mem_write_def)
qed

text \<open>The values of keys: integers, strings and plain blobs.\<close>

definition key_value_fit :: "as_val \<Rightarrow> bool" where
  "key_value_fit v \<longleftrightarrow> (case v of AsInteger _ \<Rightarrow> True | AsString s \<Rightarrow> length s + 2 < 2 ^ 32 | AsBytes t b \<Rightarrow> t = AS_BYTES_BLOB \<and> length b + 2 < 2 ^ 32 | _ \<Rightarrow> False)"

lemma parse_user_key:
  assumes v: "key_value_fit v" and p: "key_particle v = (t, bs)"
  shows "parse_key_field h (pre @ field_wire AS_FIELD_KEY (t # bs) @ post) (length pre) k =
      Some (k\<lparr>key_valuep := Some v\<rparr>, length (pre @ field_wire AS_FIELD_KEY (t # bs)))"
proof -
  have len: "length bs + 1 < 2 ^ 32"
    using v p by (cases v) (auto simp: key_value_fit_def key_particle_def)
  then have len1: "length (t # bs) < 2 ^ 32"
    by simp
  let ?pre = "pre @ be32 (of_nat (length (t # bs)) + 1) @ [AS_FIELD_KEY, t]"
  let ?buf = "pre @ field_wire AS_FIELD_KEY (t # bs) @ post"
  have buf: "?buf = ?pre @ bs @ post" "length ?pre = length pre + 5 + 1"
    by (simp_all add: field_wire_def)
  have "parse_key_value h (?pre @ bs @ post) (length ?pre) t (of_nat (length bs)) (key_valuep k) = Some (Some v)"
  proof (cases v)
    case (AsInteger i)
    then have "t = AS_BYTES_INTEGER" "bs = be64 i"
      using p by (simp_all add: key_particle_def)
    then show ?thesis
      using bytes_to_int_wire [of h ?pre i post] AsInteger by (simp add: parse_key_value_def)
  next
    case (AsString s)
    then have "t = AS_BYTES_STRING" "bs = s"
      using p by (simp_all add: key_particle_def)
    then show ?thesis
      using copy_wire(1) [OF len, of ?pre post] AsString by (simp add: parse_key_value_def as_bytes_types)
  next
    case (AsBytes ty b)
    then have "t = AS_BYTES_BLOB" "bs = b" "ty = t"
      using p v by (simp_all add: key_particle_def key_value_fit_def)
    then show ?thesis
      using copy_wire(2) [OF len, of AS_BYTES_BLOB ?pre post] AsBytes by (simp add: parse_key_value_def as_bytes_types)
  qed (use v in \<open>simp_all add: key_value_fit_def\<close>)
  note kv = this [folded buf(1), unfolded buf(2)]
  have "mem_load ?buf (length pre + 5) = Some t"
    using load_at [of 5 "field_wire AS_FIELD_KEY (t # bs)" pre post] by (simp add: field_wire_def nth_append)
  moreover have "unat (of_nat (length bs) :: u32) = length bs"
    using len by (simp add: unat_of_nat)
  ultimately show ?thesis
    using field_at(1) [OF len1, of h pre AS_FIELD_KEY post] field_at(2) [OF len1, of pre AS_FIELD_KEY post] kv
    by (simp add: parse_key_field_def field_ids)
qed


lemma parse_key_step:
  "parse_key_field h buf p k = Some (k', q) \<Longrightarrow> as_command_parse_key h buf p (Suc n) k = as_command_parse_key h buf q n k'"
  by simp

definition same_key :: "as_policy_key \<Rightarrow> as_key \<Rightarrow> as_key \<Rightarrow> as_key \<Rightarrow> bool" where
  "same_key policy k0 k k' \<longleftrightarrow> c_str (key_ns k') = c_str (key_ns k) \<and> c_str (key_set k') = c_str (key_set k) \<and> key_digest k' = key_digest k \<and>
     key_valuep k' = (if policy = AS_POLICY_KEY_SEND then key_valuep k else key_valuep k0)"

lemma parse_key_wire:
  assumes ready: "key_ready policy k" and ns: "length (c_str (key_ns k)) < AS_NAMESPACE_MAX_SIZE" and set: "length (c_str (key_set k)) < AS_SET_MAX_SIZE"
    and v: "policy = AS_POLICY_KEY_SEND \<longrightarrow> key_value_fit (the (key_valuep k))" and k0: "key_arrays k0"
  shows "\<exists>k'. as_command_parse_key h (pre @ key_wire policy k @ post) (length pre) (unat (key_fields policy)) k0 =
      Some (k', length pre + length (key_wire policy k)) \<and> same_key policy k0 k k'"
proof -
  let ?f1 = "field_wire AS_FIELD_NAMESPACE (c_str (key_ns k))" and ?f2 = "field_wire AS_FIELD_SETNAME (c_str (key_set k))"
  let ?f3 = "field_wire AS_FIELD_DIGEST (key_digest k)"
  let ?f4 = "if policy = AS_POLICY_KEY_SEND then case key_particle (the (key_valuep k)) of (t, bs) \<Rightarrow> field_wire AS_FIELD_KEY (t # bs) else []"
  let ?buf = "pre @ key_wire policy k @ post"
  have wire: "key_wire policy k = ?f1 @ ?f2 @ ?f3 @ ?f4"
    by (simp add: key_wire_def)
  obtain n where n: "parse_key_field h ?buf (length pre) k0 = Some (k0\<lparr>key_ns := n\<rparr>, length (pre @ ?f1))"
    "c_str n = c_str (key_ns k)" "key_arrays (k0\<lparr>key_ns := n\<rparr>)"
    using parse_ns [OF ns _ k0, of h pre "?f2 @ ?f3 @ ?f4 @ post"] wire by auto
  obtain s where s: "parse_key_field h ?buf (length (pre @ ?f1)) (k0\<lparr>key_ns := n\<rparr>) = Some (k0\<lparr>key_ns := n, key_set := s\<rparr>, length (pre @ ?f1 @ ?f2))"
    "c_str s = c_str (key_set k)" "key_arrays (k0\<lparr>key_ns := n, key_set := s\<rparr>)"
    using parse_set [OF set _ n(3), of h "pre @ ?f1" "?f3 @ ?f4 @ post"] wire by auto
  let ?k3 = "k0\<lparr>key_ns := n, key_set := s, key_digest := key_digest k\<rparr>"
  have d: "parse_key_field h ?buf (length (pre @ ?f1 @ ?f2)) (k0\<lparr>key_ns := n, key_set := s\<rparr>) = Some (?k3, length (pre @ ?f1 @ ?f2 @ ?f3))"
    using parse_digest [OF _ s(3), of "key_digest k" h "pre @ ?f1 @ ?f2" "?f4 @ post"] ready wire by (simp add: key_ready_def)
  have three: "as_command_parse_key h ?buf (length pre) (Suc (Suc (Suc m))) k0 = as_command_parse_key h ?buf (length (pre @ ?f1 @ ?f2 @ ?f3)) m ?k3" for m
    by (simp only: parse_key_step [OF n(1)] parse_key_step [OF s(1)] parse_key_step [OF d])
  show ?thesis
  proof (cases "policy = AS_POLICY_KEY_SEND")
    case True
    then obtain u t bs where u: "key_valuep k = Some u" "key_particle u = (t, bs)"
      using ready by (metis key_ready_def not_None_eq old.prod.exhaust)
    then have "parse_key_field h ?buf (length (pre @ ?f1 @ ?f2 @ ?f3)) ?k3 = Some (?k3\<lparr>key_valuep := Some u\<rparr>, length (pre @ ?f1 @ ?f2 @ ?f3 @ field_wire AS_FIELD_KEY (t # bs)))"
      using parse_user_key [OF _ u(2), of h "pre @ ?f1 @ ?f2 @ ?f3" post ?k3] v True wire by simp
    then have four: "as_command_parse_key h ?buf (length pre) (Suc (Suc (Suc (Suc 0)))) k0 =
        Some (?k3\<lparr>key_valuep := Some u\<rparr>, length (pre @ ?f1 @ ?f2 @ ?f3 @ field_wire AS_FIELD_KEY (t # bs)))"
      unfolding three by (simp only: parse_key_step as_command_parse_key.simps(1))
    have n4: "unat (key_fields policy) = Suc (Suc (Suc (Suc 0)))"
        "length (pre @ ?f1 @ ?f2 @ ?f3 @ field_wire AS_FIELD_KEY (t # bs)) = length pre + length (key_wire policy k)"
      using True u by (simp_all add: key_fields_def key_wire_def)
    have "same_key policy k0 k (?k3\<lparr>key_valuep := Some u\<rparr>)"
      using n(2) s(2) True u by (simp add: same_key_def)
    then show ?thesis
      using four unfolding n4 by blast
  next
    case False
    then have "unat (key_fields policy) = Suc (Suc (Suc 0))" "length pre + length (key_wire policy k) = length (pre @ ?f1 @ ?f2 @ ?f3)"
      by (simp_all add: key_fields_def wire)
    then show ?thesis
      using n(2) s(2) False by (simp only: three) (simp add: same_key_def)
  qed
qed

text \<open>
  C10.  Keys survive the trip.  The fields that identify a record, written on one machine into a command, are read back on
  another as the same namespace, set and digest, and with the value of the key if the policy sends it.
\<close>

theorem key_roundtrip:
  assumes "sound_platform pf" and "key_ready policy k"
    and "length (c_str (key_ns k)) < AS_NAMESPACE_MAX_SIZE" and "length (c_str (key_set k)) < AS_SET_MAX_SIZE"
    and "policy = AS_POLICY_KEY_SEND \<longrightarrow> key_value_fit (the (key_valuep k))"
    and "p + length (key_wire policy k) \<le> length mem" and "key_arrays k0"
  shows "\<exists>mem' q. as_command_write_key pf policy k mem p = Some (mem', q) \<and>
    (\<forall>h. \<exists>k'. as_command_parse_key h mem' p (unat (key_fields policy)) k0 = Some (k', q) \<and> same_key policy k0 k k')"
proof -
  have "as_command_write_key pf policy k mem p =
      Some (take p mem @ key_wire policy k @ drop (p + length (key_wire policy k)) mem, p + length (key_wire policy k))"
    by (rule write_at [OF emits_key [OF assms(1,2)] assms(6)])
  moreover have "length (take p mem) = p"
    using assms(6) by simp
  ultimately show ?thesis
    using parse_key_wire [OF assms(2-5,7), of _ "take p mem" "drop (p + length (key_wire policy k)) mem"] by auto
qed

theorem key_roundtrip_witness:
  "\<exists>mem' q k'. as_command_write_key linux_platform AS_POLICY_KEY_SEND some_key (replicate 60 0) 0 = Some (mem', q) \<and>
     as_command_parse_key Big_Endian mem' 0 4 fresh_key = Some (k', q) \<and> same_key AS_POLICY_KEY_SEND fresh_key some_key k'"
proof -
  have fields: "unat (key_fields AS_POLICY_KEY_SEND) = 4"
    by (simp add: key_fields_def)
  show ?thesis
    using key_roundtrip [OF sound_platforms(1) some_key_ready, of AS_POLICY_KEY_SEND 0 "replicate 60 0" fresh_key]
    by (auto simp: some_key_def fresh_key_def c_str_def field_sizes key_value_fit_def key_wire_def key_particle_def fields)
qed

subsection \<open>Replies\<close>

text \<open>A read of the whole of \<open>bs\<close> succeeds.\<close>

definition delivers :: "errno_codes \<Rightarrow> as_error \<Rightarrow> u64 \<Rightarrow> sock \<Rightarrow> byte list \<Rightarrow> sock \<Rightarrow> bool" where
  "delivers ec err dl s bs s' \<longleftrightarrow> as_socket_read_deadline ec err s (length bs) dl = Done (AEROSPIKE_OK, err, bs, s')"

text \<open>The header of a reply with this message and a body of this length.\<close>

definition reply_header :: "as_msg \<Rightarrow> nat \<Rightarrow> byte list" where
  "reply_header m n = proto_wire \<lparr> proto_version = 2, proto_type = 3, proto_sz = of_nat (22 + n) \<rparr> @ msg_wire m"

lemma length_reply_header [simp]: "length (reply_header m n) = 30"
  by (simp add: reply_header_def)

lemma reply_header_fields:
  assumes "22 + n < 2 ^ 48"
  shows "proto_sz (as_proto_swap_from_be h (pm_proto (proto_msg_fields h (reply_header m n)))) = of_nat (22 + n)"
    "as_msg_swap_header_from_be h (pm_msg (proto_msg_fields h (reply_header m n))) = m"
proof -
  let ?p = "\<lparr> proto_version = 2, proto_type = 3, proto_sz = of_nat (22 + n) \<rparr> :: as_proto"
  have "uint (of_nat (22 + n) :: u64) = int (22 + n)"
    using assms by (subst uint_nat) (simp only: unat_of_nat, simp)
  then have "take_bit 48 (proto_sz ?p) = proto_sz ?p"
    using assms by (simp add: word_uint_eq_iff take_bit_int_eq_self unsigned_take_bit_eq del: of_nat_add)
  from proto_from_wire' [OF this, of h] msg_from_wire [of h m "[]"]
  show "proto_sz (as_proto_swap_from_be h (pm_proto (proto_msg_fields h (reply_header m n)))) = of_nat (22 + n)"
    "as_msg_swap_header_from_be h (pm_msg (proto_msg_fields h (reply_header m n))) = m"
    by (simp_all add: proto_msg_fields_def reply_header_def)
qed


lemma with_reply_delivered:
  assumes hdr: "delivers ec err dl s (reply_header m (length body)) s1" and sz: "msg_header_sz m = 22" "22 + length body < 2 ^ 48"
    and body: "if body = [] then s2 = s1 else delivers ec err dl s1 body s2"
  shows "with_reply ec h err s dl u k = outcome_bind (k err m body) (\<lambda>(st, err, u). Done (st, err, u, s2))"
proof -
  have "unat (of_nat (length body) :: u64) = length body"
    using sz(2) by (subst unat_of_nat) simp
  moreover from this have "(of_nat (length body) :: u64) > 0 \<longleftrightarrow> body \<noteq> []"
    by (metis length_greater_0_conv unat_gt_0 word_gt_0)
  ultimately show ?thesis
    using hdr body reply_header_fields [OF sz(2), of h m] sz(1)
    by (auto simp: with_reply_def delivers_def Let_def split: if_splits)
qed

lemma ignore_fields_wire:
  assumes "\<forall>(f, b) \<in> set fs. length b + 5 < 2 ^ 32"
  shows "as_command_ignore_fields h (pre @ concat (map (\<lambda>(f, b). field_wire f b) fs) @ post) (length pre) (length fs) =
    Some (length pre + length (concat (map (\<lambda>(f, b). field_wire f b) fs)))"
  using assms
proof (induction fs arbitrary: pre)
  case (Cons x fs)
  obtain f b where x: "x = (f, b)"
    by (cases x)
  let ?rest = "concat (map (\<lambda>(f, b). field_wire f b) fs)"
  have b: "length b < 2 ^ 32" "length b + 5 < 2 ^ 32"
    using Cons.prems x by auto
  have "unat (of_nat (length b + 5) :: u32) = length b + 5"
    using b(2) by (subst unat_of_nat) simp
  then have "unat (of_nat (length b) + 1 + 4 :: u32) = length b + 5"
    by (simp add: add.assoc)
  then have "as_command_ignore_fields h (pre @ field_wire f b @ ?rest @ post) (length pre) (Suc (length fs)) =
      as_command_ignore_fields h ((pre @ field_wire f b) @ ?rest @ post) (length (pre @ field_wire f b)) (length fs)"
    using field_at(1) [OF b(1), of h pre f "?rest @ post"] by (simp add: add_ac)
  then show ?case
    using Cons.IH [of "pre @ field_wire f b"] Cons.prems by (simp add: x)
qed simp

text \<open>A reply with bins: ignored fields, the operations, and whatever follows.\<close>

definition fields_wire :: "(byte \<times> byte list) list \<Rightarrow> byte list" where
  "fields_wire fs = concat (map (\<lambda>(f, b). field_wire f b) fs)"

definition record_reply :: "as_msg \<Rightarrow> (byte \<times> byte list) list \<Rightarrow> (as_operator \<times> as_bin) list \<Rightarrow> byte list \<Rightarrow> bool" where
  "record_reply m fs ops body \<longleftrightarrow> msg_header_sz m = 22 \<and> msg_result_code m = 0 \<and>
     unat (msg_n_fields m) = length fs \<and> unat (msg_n_ops m) = length ops \<and>
     (\<forall>(f, b) \<in> set fs. length b + 5 < 2 ^ 32) \<and> (\<forall>(op, b) \<in> set ops. bin_fit b) \<and>
     (\<exists>post. body = fields_wire fs @ ops_wire ops @ post) \<and> 22 + length body < 2 ^ 48"

lemma parse_record_delivered:
  assumes reply: "record_reply m fs ops body" and fuel: "length body \<le> fuel"
    and z: "hpux_libc pf \<longrightarrow> 0 \<in> set (drop (length (fields_wire fs @ ops_wire ops)) body)"
    and entries: "length ops \<le> length (rec_entries (record_for junk m rec))"
  shows "\<exists>bs. list_all2 bin_arrives (map snd ops) bs \<and> parse_record pf fuel junk now m body rec =
    Done ((record_for junk m rec)\<lparr>rec_gen := ucast (msg_generation m), rec_ttl := cf_server_void_time_to_ttl now (msg_record_ttl m),
      rec_entries := bs @ drop (length ops) (rec_entries (record_for junk m rec)),
      rec_size := rec_size (record_for junk m rec) + msg_n_ops m\<rparr>)"
proof -
  let ?r = "(record_for junk m rec)\<lparr>rec_gen := ucast (msg_generation m), rec_ttl := cf_server_void_time_to_ttl now (msg_record_ttl m)\<rparr>"
  obtain post where body: "body = fields_wire fs @ ops_wire ops @ post"
    using reply by (auto simp: record_reply_def)
  have n: "unat (msg_n_fields m) = length fs" "unat (msg_n_ops m) = length ops"
    using reply by (auto simp: record_reply_def)
  have n3: "of_nat (length ops) = msg_n_ops m"
    using n(2) [symmetric] by simp
  have skip: "as_command_ignore_fields (byte_order pf) body 0 (unat (msg_n_fields m)) = Some (length (fields_wire fs))"
    using ignore_fields_wire [of fs "byte_order pf" "[]" "ops_wire ops @ post"] reply n(1)
    by (simp add: body record_reply_def fields_wire_def)
  obtain bs where "list_all2 bin_arrives (map snd ops) bs"
    "parse_bins_from pf fuel True body 0 (length ops) ?r (length (fields_wire fs)) =
      Done (?r\<lparr>rec_entries := bs @ drop (length ops) (rec_entries ?r), rec_size := rec_size ?r + of_nat (length ops)\<rparr>, length (fields_wire fs) + length (ops_wire ops))"
    using parse_bins_wire [of ops 0 ?r fuel pf post "fields_wire fs"] reply entries fuel z by (auto simp: body record_reply_def)
  then show ?thesis
    using skip n(2) by (auto simp: parse_record_def as_command_parse_bins_def lift_opt_def Let_def n3)
qed

lemma parse_result_delivered:
  assumes "delivers ec err dl s (reply_header m (length body)) s1" and "if body = [] then s2 = s1 else delivers ec err dl s1 body s2"
    and reply: "record_reply m fs ops body" and "parse_record pf fuel junk now m body rec = Done r"
  shows "as_command_parse_result ec pf fuel junk now err s dl (Some rec) = Done (AEROSPIKE_OK, err, Some (Some r), s2)"
proof -
  have m: "msg_header_sz m = 22" "22 + length body < 2 ^ 48" "msg_result_code m = 0"
    using reply by (simp_all add: record_reply_def)
  show ?thesis
    unfolding as_command_parse_result_def with_reply_delivered [OF assms(1) m(1,2) assms(2)]
    using assms(4) m(3) by (simp add: status_codes)
qed

text \<open>
  A reply becomes a record.  When the server answers a read with any number of fields and bins, split over the connection in
  any way, and the caller has no record or one that is too small, the call succeeds and the record holds exactly the bins of the
  reply, in order, with its generation cut to sixteen bits and its expiry turned into a time to live; the rest of the
  connection is left alone.
\<close>

lemma reply_to_record:
  assumes reply: "record_reply m fs ops body" and hdr: "delivers ec err dl s (reply_header m (length body)) s1"
    and body: "if body = [] then s2 = s1 else delivers ec err dl s1 body s2" and fuel: "length body \<le> fuel"
    and z: "hpux_libc pf \<longrightarrow> 0 \<in> set (drop (length (fields_wire fs @ ops_wire ops)) body)"
    and fresh: "case rec of None \<Rightarrow> True | Some r0 \<Rightarrow> rec_capacity r0 < msg_n_ops m"
  shows "sk_in s = reply_header m (length body) @ body @ sk_in s2 \<and>
    (\<exists>r. as_command_parse_result ec pf fuel junk now err s dl (Some rec) = Done (AEROSPIKE_OK, err, Some (Some r), s2) \<and>
      list_all2 bin_arrives (map snd ops) (used_bins r) \<and> rec_size r = msg_n_ops m \<and> rec_capacity r = msg_n_ops m \<and>
      rec_gen r = ucast (msg_generation m) \<and> rec_ttl r = cf_server_void_time_to_ttl now (msg_record_ttl m))"
proof -
  have n: "unat (msg_n_ops m) = length ops"
    using reply by (simp add: record_reply_def)
  have r0: "length (rec_entries (record_for junk m rec)) = length ops" "rec_size (record_for junk m rec) = 0" "rec_capacity (record_for junk m rec) = msg_n_ops m"
    using fresh n by (auto simp: record_for_def as_record_new_def as_record_defaults_def split: option.splits)
  obtain bs where bs: "list_all2 bin_arrives (map snd ops) bs" "parse_record pf fuel junk now m body rec =
    Done ((record_for junk m rec)\<lparr>rec_gen := ucast (msg_generation m), rec_ttl := cf_server_void_time_to_ttl now (msg_record_ttl m),
      rec_entries := bs, rec_size := msg_n_ops m\<rparr>)"
    using parse_record_delivered [OF reply fuel z, of junk rec now] r0 by auto
  have "length bs = length ops"
    using list_all2_lengthD [OF bs(1)] by simp
  moreover have "sk_in s = reply_header m (length body) @ body @ sk_in s2"
    using hdr body read_deadline_moves unfolding delivers_def by (metis append.simps(1))
  ultimately show ?thesis
    using parse_result_delivered [OF hdr body reply bs(2)] bs(1) r0(3) n by (simp add: used_bins_def)
qed


text \<open>A connection on which everything asked for arrives at once.\<close>

definition quick_turn :: turn where
  "quick_turn = \<lparr> turn_now = 1, turn_select = 1, turn_isset = True, turn_moved = Some 1000, turn_errno = 0 \<rparr>"

definition quick_sock :: "byte list \<Rightarrow> turn list \<Rightarrow> sock" where
  "quick_sock bs ts = \<lparr> sk_fd = 3, sk_flags = Some True, sk_setfl = True, sk_malloc = True, sk_in = bs, sk_out = [], sk_turns = ts \<rparr>"

lemma quick_delivers:
  "bs \<noteq> [] \<Longrightarrow> length bs \<le> 1000 \<Longrightarrow> delivers some_errnos err 9 (quick_sock (bs @ rest) (quick_turn # ts)) bs (quick_sock rest ts)"
  by (simp add: delivers_def run_socket quick_turn_def quick_sock_def min_def)

definition int_bin :: as_bin where
  "int_bin = \<lparr> bin_name = [98], bin_valuep = Some (AsInteger 5) \<rparr>"

definition int_reply :: as_msg where
  "int_reply = \<lparr> msg_header_sz = 22, msg_info1 = 0, msg_info2 = 0, msg_info3 = 0, msg_unused = 0, msg_result_code = 0,
     msg_generation = 7, msg_record_ttl = 0, msg_transaction_ttl = 0, msg_n_fields = 0, msg_n_ops = 1 \<rparr>"

lemma int_record_reply: "record_reply int_reply [] [(AS_OPERATOR_READ, int_bin)] (bin_wire AS_OPERATOR_READ int_bin)"
  by (simp add: record_reply_def int_reply_def int_bin_def fields_wire_def ops_wire_def bin_fit_def bin_sendable_def
      c_str_def AS_BIN_NAME_MAX_LEN_def bin_wire_def)

lemma length_int_bin: "length (bin_wire op int_bin) = 17"
  by (simp add: bin_wire_def int_bin_def c_str_def)

definition int_sock :: sock where
  "int_sock = quick_sock (reply_header int_reply 17 @ bin_wire AS_OPERATOR_READ int_bin) [quick_turn, quick_turn]"

lemma int_delivers:
  "delivers some_errnos as_error_reset 9 int_sock (reply_header int_reply (length (bin_wire AS_OPERATOR_READ int_bin)))
     (quick_sock (bin_wire AS_OPERATOR_READ int_bin) [quick_turn])"
  "delivers some_errnos as_error_reset 9 (quick_sock (bin_wire AS_OPERATOR_READ int_bin) [quick_turn]) (bin_wire AS_OPERATOR_READ int_bin) (quick_sock [] [])"
  "bin_wire AS_OPERATOR_READ int_bin \<noteq> []"
proof -
  have ne: "reply_header int_reply 17 \<noteq> []" "bin_wire AS_OPERATOR_READ int_bin \<noteq> []"
    by (metis length_reply_header list.size(3) zero_neq_numeral, metis length_int_bin list.size(3) zero_neq_numeral)
  show "bin_wire AS_OPERATOR_READ int_bin \<noteq> []"
    by (rule ne)
  show "delivers some_errnos as_error_reset 9 int_sock (reply_header int_reply (length (bin_wire AS_OPERATOR_READ int_bin)))
     (quick_sock (bin_wire AS_OPERATOR_READ int_bin) [quick_turn])"
    unfolding int_sock_def length_int_bin by (rule quick_delivers) (simp_all add: ne)
  show "delivers some_errnos as_error_reset 9 (quick_sock (bin_wire AS_OPERATOR_READ int_bin) [quick_turn]) (bin_wire AS_OPERATOR_READ int_bin) (quick_sock [] [])"
    using quick_delivers [of "bin_wire AS_OPERATOR_READ int_bin" as_error_reset "[]" "[]"] by (simp add: length_int_bin ne)
qed

lemma find_runs_off:
  assumes "\<forall>b \<in> set (drop i es). c_str (bin_name b) \<noteq> c_str name" and "length es < i + n" and "i \<le> length es"
  shows "find_bin es name i n = None"
  using assms
proof (induction es name i n rule: find_bin.induct)
  case (2 es name i n)
  show ?case
  proof (cases "i < length es")
    case True
    then have "drop i es = es ! i # drop (Suc i) es"
      by (simp add: Cons_nth_drop_Suc)
    then show ?thesis
      using 2 True by (simp add: mem_load_in)
  qed (simp add: mem_load_def)
qed simp

text \<open>
  C33.  Reading into a record that is already full breaks it: the bins of the reply overwrite the entries, but the size is
  not reset and counts them twice, so that looking up a bin that the record does not have reads behind the array.
\<close>

theorem reread_breaks_record:
  assumes reply: "record_reply m fs ops body" and hdr: "delivers ec err dl s (reply_header m (length body)) s1"
    and body: "if body = [] then s2 = s1 else delivers ec err dl s1 body s2" and fuel: "length body \<le> fuel"
    and z: "hpux_libc pf \<longrightarrow> 0 \<in> set (drop (length (fields_wire fs @ ops_wire ops)) body)"
    and full: "length (rec_entries r0) = length ops" "rec_capacity r0 = msg_n_ops m" "rec_size r0 = msg_n_ops m"
    and some: "ops \<noteq> []" "2 * length ops < 2 ^ 16" and absent: "\<forall>(op, b) \<in> set ops. c_str (bin_name b) \<noteq> c_str name"
  shows "\<exists>r. as_command_parse_result ec pf fuel junk now err s dl (Some (Some r0)) = Done (AEROSPIKE_OK, err, Some (Some r), s2) \<and>
    rec_size r = 2 * rec_capacity r \<and> as_record_get r name = None"
proof -
  have n: "unat (msg_n_ops m) = length ops"
    using reply by (simp add: record_reply_def)
  have r0: "record_for junk m (Some r0) = r0"
    using full(2) by (simp add: record_for_def)
  obtain bs where bs: "list_all2 bin_arrives (map snd ops) bs" "parse_record pf fuel junk now m body (Some r0) =
    Done (r0\<lparr>rec_gen := ucast (msg_generation m), rec_ttl := cf_server_void_time_to_ttl now (msg_record_ttl m),
      rec_entries := bs, rec_size := rec_size r0 + msg_n_ops m\<rparr>)"
    using parse_record_delivered [OF reply fuel z, of junk "Some r0" now] full(1) unfolding r0 by auto
  have len: "length bs = length ops"
    using list_all2_lengthD [OF bs(1)] by simp
  have "c_str (bin_name b) \<noteq> c_str name" if b: "b \<in> set bs" for b
  proof -
    obtain i where i: "i < length bs" "b = bs ! i"
      using b by (auto simp: in_set_conv_nth)
    then have "bin_arrives (snd (ops ! i)) b" "ops ! i \<in> set ops"
      using list_all2_nthD2 [OF bs(1), of i] len by simp_all
    then show ?thesis
      using absent by (cases "ops ! i") (auto simp: bin_arrives_def)
  qed
  moreover have "unat (msg_n_ops m + msg_n_ops m) = 2 * length ops"
    using n some(2) by (simp add: unat_word_ariths)
  ultimately have "find_bin bs name 0 (unat (msg_n_ops m + msg_n_ops m)) = None"
    using some(1) len by (intro find_runs_off) auto
  then show ?thesis
    using parse_result_delivered [OF hdr body reply bs(2)] full by (simp add: as_record_get_def)
qed


definition int_record :: as_record where
  "int_record = (as_record_new (\<lambda>_. some_junk) 1)\<lparr>rec_size := 1\<rparr>"

theorem reread_breaks_record_witness:
  "\<exists>r s2. as_command_parse_result some_errnos linux_platform 20 (\<lambda>_. some_junk) 0 as_error_reset int_sock 9 (Some (Some int_record)) =
      Done (AEROSPIKE_OK, as_error_reset, Some (Some r), s2) \<and> as_record_get r [99] = None"
proof -
  have "\<not> hpux_libc linux_platform" "msg_n_ops int_reply = 1" "length (rec_entries int_record) = 1" "rec_capacity int_record = 1" "rec_size int_record = 1"
      "c_str (bin_name int_bin) \<noteq> c_str [99]"
    by (simp_all add: linux_platform_def int_reply_def int_record_def as_record_new_def as_record_defaults_def int_bin_def c_str_def)
  then show ?thesis
    using reread_breaks_record [OF int_record_reply int_delivers(1), of "quick_sock [] []" 20 linux_platform int_record "[99]" "\<lambda>_. some_junk" 0] int_delivers(2,3)
    by (auto simp: length_int_bin)
qed

lemma strrchr_last: "strrchr c s = Some p \<Longrightarrow> strrchr c (tl p) = None \<and> p \<noteq> []"
  by (induction s) (auto split: option.splits if_splits)

lemma udf_code_lost: "udf_error_code s = None"
  using strrchr_last [of 58 s] by (auto simp: udf_error_code_def split: option.splits)

text \<open>The reply of a function that failed, with the text of the failure.\<close>

definition failure_bin :: "byte list \<Rightarrow> as_bin" where
  "failure_bin why = \<lparr> bin_name = ascii ''FAILURE'', bin_valuep = Some (AsString why) \<rparr>"

lemma c_str_failure: "c_str (ascii ''FAILURE'') = ascii ''FAILURE''" "length (ascii ''FAILURE'') = 7" "ascii ''FAILURE'' \<noteq> ascii ''SUCCESS''"
  by (simp_all add: ascii_def c_str_def)

lemma failure_head:
  "op_head h (bin_wire op (failure_bin why) @ post) 0 = Some (AS_BYTES_STRING, ascii ''FAILURE'', 15, of_nat (length why))"
proof -
  have wire: "bin_wire op (failure_bin why) = be32 (of_nat (length (ascii ''FAILURE'') + length why + 4)) @
      [operator_code op, AS_BYTES_STRING, 0, of_nat (length (ascii ''FAILURE''))] @ ascii ''FAILURE'' @ why"
    unfolding bin_wire_def failure_bin_def by (simp only: Let_def c_str_failure as_bin.simps option.sel particle.simps prod.case)
  have "length (ascii ''FAILURE'') \<le> AS_BIN_NAME_MAX_LEN"
    by (simp add: c_str_failure AS_BIN_NAME_MAX_LEN_def)
  from op_head_wire [OF this, of h "[]" why "operator_code op" AS_BYTES_STRING post] show ?thesis
    unfolding wire by (simp add: c_str_failure(2))
qed

text \<open>
  C34.  Failures of server functions are lost.  A reply with the result code of success that carries a \<^verbatim>\<open>FAILURE\<close> bin makes the call
  return success: the text of the failure and the client error are in the error structure only, and the result is not set.
  And the error code at the end of such a text never becomes the status: the second search for a colon
  starts behind the last one.
\<close>

theorem udf_failures_lost:
  assumes hdr: "delivers ec err dl s (reply_header m (length body)) s1" and dl: "delivers ec err dl s1 body s2"
    and m: "msg_header_sz m = 22" "msg_result_code m = 0" "msg_n_fields m = 0" "0 < msg_n_ops m"
    and body: "body = bin_wire op (failure_bin why) @ post" "length body + 22 < 2 ^ 48" "length why + 1 < 2 ^ 32"
  shows "as_command_parse_success_failure ec pf fuel err s dl val =
      Done (AEROSPIKE_OK, snd (as_error_set_message err AEROSPIKE_ERR_CLIENT why), val, s2) \<and>
    as_command_parse_udf_error err status (Some (AsString why)) = as_error_set_message err status why"
proof
  have "unat (msg_n_ops m) \<noteq> 0"
    using m(4) by (simp add: unat_eq_0)
  then obtain n where n: "unat (msg_n_ops m) = Suc n"
    by (cases "unat (msg_n_ops m)") auto
  have "copy_string ((be32 (of_nat (7 + length why + 4)) @ [operator_code op, AS_BYTES_STRING, 0, 7] @ ascii ''FAILURE'') @ why @ post) 15 (of_nat (length why)) = Some (AsString why)"
    using copy_wire(1) [OF body(3), of "be32 (of_nat (7 + length why + 4)) @ [operator_code op, AS_BYTES_STRING, 0, 7] @ ascii ''FAILURE''" post]
    by (simp add: c_str_failure)
  then have copied: "copy_string body 15 (of_nat (length why)) = Some (AsString why)"
    by (simp add: body(1) bin_wire_def failure_bin_def c_str_failure)
  have "success_failure_loop pf fuel body 0 (Suc n) err val = Done (snd (as_error_set_message err AEROSPIKE_ERR_CLIENT why), val, None)"
    using failure_head [of "byte_order pf" op why post] copied c_str_failure
    by (simp add: body(1) [symmetric] lift_opt_def as_command_parse_value_def as_bytes_types)
  then have bins: "as_command_parse_success_failure_bins pf fuel body err m val =
      Done (snd (as_error_set_message err AEROSPIKE_ERR_CLIENT why), val, None)"
    using n m(3) by (simp add: as_command_parse_success_failure_bins_def lift_opt_def)
  have "if body = [] then s2 = s1 else delivers ec err dl s1 body s2" "22 + length body < 2 ^ 48"
    using dl body(1,2) by (auto simp: bin_wire_def Let_def split: prod.splits)
  note reply = with_reply_delivered [OF hdr m(1) this(2,1)]
  show "as_command_parse_success_failure ec pf fuel err s dl val =
      Done (AEROSPIKE_OK, snd (as_error_set_message err AEROSPIKE_ERR_CLIENT why), val, s2)"
    unfolding as_command_parse_success_failure_def reply using bins m(2) by (simp add: AEROSPIKE_OK_def Let_def)
  show "as_command_parse_udf_error err status (Some (AsString why)) = as_error_set_message err status why"
    by (simp add: as_command_parse_udf_error_def udf_code_lost)
qed


theorem udf_failures_lost_witness:
  "\<exists>s err. as_command_parse_success_failure some_errnos linux_platform 0 as_error_reset s 9 (Some None) =
     Done (AEROSPIKE_OK, err, Some None, quick_sock [] []) \<and> err_code err = AEROSPIKE_ERR_CLIENT"
proof -
  let ?body = "bin_wire AS_OPERATOR_READ (failure_bin [120]) @ []"
  let ?s1 = "quick_sock ?body [quick_turn]"
  let ?s = "quick_sock (reply_header int_reply (length ?body) @ ?body) [quick_turn, quick_turn]"
  have len: "length ?body = 16"
    by (simp add: bin_wire_def failure_bin_def c_str_failure)
  have ne: "reply_header int_reply (length ?body) \<noteq> []" "?body \<noteq> []"
    by (metis length_reply_header list.size(3) zero_neq_numeral, metis len list.size(3) zero_neq_numeral)
  have "delivers some_errnos as_error_reset 9 ?s (reply_header int_reply (length ?body)) ?s1"
    by (rule quick_delivers [OF ne(1)]) simp
  moreover have "delivers some_errnos as_error_reset 9 (quick_sock (?body @ []) [quick_turn]) ?body (quick_sock [] [])"
    by (rule quick_delivers [OF ne(2)]) (use len in simp)
  moreover have "msg_header_sz int_reply = 22" "msg_result_code int_reply = 0" "msg_n_fields int_reply = 0" "0 < msg_n_ops int_reply"
    by (simp_all add: int_reply_def)
  ultimately have "as_command_parse_success_failure some_errnos linux_platform 0 as_error_reset ?s 9 (Some None) =
      Done (AEROSPIKE_OK, snd (as_error_set_message as_error_reset AEROSPIKE_ERR_CLIENT [120]), Some None, quick_sock [] [])"
    using udf_failures_lost [where body = ?body and op = AS_OPERATOR_READ and why = "[120]" and post = "[]" and m = int_reply and s = ?s and ?s1.0 = ?s1] len by simp
  then show ?thesis
    by (metis error_code_set(2))
qed

end
