(* ===== verification/CommandExec.thy ===== *)
theory CommandExec
  imports CommandParse
begin

text \<open>
  The loop that sends a command and reads its reply, \<^verbatim>\<open>as_command_execute\<close>.  The cluster is a list of tries: which node
  and which connection it hands out in each pass, and the clock.  The reader of the reply is a parameter, as in the code.
  Nodes are numbers; the events record what happens to nodes and connections, in order.  A fixed node is neither reserved nor released.
\<close>

fun retry_code :: "as_policy_retry \<Rightarrow> nat" where
  "retry_code AS_POLICY_RETRY_NONE = 0"
| "retry_code AS_POLICY_RETRY_ONCE = 1"

datatype event =
    Node_Reserved nat
  | Node_Released nat
  | Fd_Taken
  | Fd_Closed
  | Fd_Put sock
  | Slept nat

record try_env =
  try_node :: "nat option"
  try_conn :: "int \<times> sock"
  try_write_clock :: u64
  try_clock :: u64

text \<open>The end of a pass: the function returns, or goes to \<^verbatim>\<open>Retry\<close> with a pause and with what it adds to the failure counts.\<close>

datatype 'u passed = Returned int as_error 'u | Again nat nat nat as_error 'u

type_synonym 'u reader = "as_error \<Rightarrow> sock \<Rightarrow> u64 \<Rightarrow> 'u \<Rightarrow> (int \<times> as_error \<times> 'u \<times> sock) outcome"

definition attempt ::
  "errno_codes \<Rightarrow> 'u reader \<Rightarrow> nat option \<Rightarrow> u64 \<Rightarrow> byte list \<Rightarrow> as_error \<Rightarrow> 'u \<Rightarrow> try_env \<Rightarrow> ('u passed \<times> event list) outcome" where
  "attempt ec parse_results fixed deadline cmd err u e =
     (case (case fixed of Some n \<Rightarrow> Some n | None \<Rightarrow> try_node e) of
        None \<Rightarrow> Done (Again 10 1 0 err u, [])
      | Some node \<Rightarrow>
          (let reserved = (if fixed = None then [Node_Reserved node] else []);
               released = (if fixed = None then [Node_Released node] else []);
               (status, s) = try_conn e in
           if status \<noteq> AEROSPIKE_OK then Done (Again 1 0 1 err u, reserved @ released)
           else
             outcome_bind (as_socket_write_deadline ec err s cmd (try_write_clock e) deadline) (\<lambda>(status, err, s).
             if status \<noteq> AEROSPIKE_OK then Done (Again 0 0 0 err u, reserved @ [Fd_Taken, Fd_Closed] @ released)
             else
               outcome_bind (parse_results err s deadline u) (\<lambda>(status, err, u, s).
               if status = AEROSPIKE_ERR_TIMEOUT then Done (Again 0 0 0 err u, reserved @ [Fd_Taken, Fd_Closed] @ released)
               else if status = AEROSPIKE_ERR_QUERY_ABORTED \<or> status = AEROSPIKE_ERR_SCAN_ABORTED \<or> status = AEROSPIKE_ERR_CLIENT then
                 Done (Returned status (err\<lparr>err_code := status\<rparr>) u, reserved @ [Fd_Taken, Fd_Closed] @ released)
               else
                 Done (Returned status (if status \<noteq> AEROSPIKE_OK then err\<lparr>err_code := status\<rparr> else err) u,
                       reserved @ [Fd_Taken, Fd_Put s] @ released)))))"

text \<open>What is left of the deadline is computed in 64 bits and cut to an \<^verbatim>\<open>int\<close>; it replaces the timeout in the command.\<close>

definition remaining_ms :: "u64 \<Rightarrow> u64 \<Rightarrow> nat \<Rightarrow> int" where
  "remaining_ms deadline now pause = sint (ucast (deadline - now - of_nat pause) :: u32)"

fun execute_loop ::
  "errno_codes \<Rightarrow> host \<Rightarrow> 'u reader \<Rightarrow> nat option \<Rightarrow> u32 \<Rightarrow> u64 \<Rightarrow> nat \<Rightarrow> nat \<Rightarrow> nat \<Rightarrow> nat \<Rightarrow> byte list \<Rightarrow> as_error \<Rightarrow> 'u \<Rightarrow>
   event list \<Rightarrow> try_env list \<Rightarrow> (int \<times> as_error \<times> 'u \<times> event list) outcome" where
  "execute_loop ec h parse_results fixed timeout_ms deadline max_retries iterations failed_nodes failed_conns cmd err u log [] = Timeout"
| "execute_loop ec h parse_results fixed timeout_ms deadline max_retries iterations failed_nodes failed_conns cmd err u log (e # es) =
     outcome_bind (attempt ec parse_results fixed deadline cmd err u e) (\<lambda>(r, events).
     case r of
       Returned status err u \<Rightarrow> Done (status, err, u, log @ events)
     | Again pause nodes conns err u \<Rightarrow>
         (let iterations = iterations + 1; failed_nodes = failed_nodes + nodes; failed_conns = failed_conns + conns;
              log = log @ events;
              given_up = (let (status, err) = as_error_update err AEROSPIKE_ERR_TIMEOUT
                             ''Client timeout: timeout=%d iterations=%u failedNodes=%u failedConns=%u''
                             [sint timeout_ms, int iterations, int failed_nodes, int failed_conns] in
                          Done (status, err, u, log));
              next_pass = (\<lambda>cmd. execute_loop ec h parse_results fixed timeout_ms deadline max_retries iterations failed_nodes failed_conns cmd err u
                             (log @ (if pause > 0 then [Slept pause] else [])) es) in
          if iterations > max_retries then given_up
          else if deadline > 0 then
            (if remaining_ms deadline (try_clock e) pause \<le> 0 then given_up
             else
               outcome_bind (lift_opt (mem_write cmd 22
                   (store32 h (cf_swap_to_be32 h (word_of_int (remaining_ms deadline (try_clock e) pause)))))) next_pass)
          else next_pass cmd))"

definition as_command_execute ::
  "errno_codes \<Rightarrow> host \<Rightarrow> 'u reader \<Rightarrow> nat option \<Rightarrow> byte list \<Rightarrow> u32 \<Rightarrow> as_policy_retry \<Rightarrow> u64 \<Rightarrow> as_error \<Rightarrow> 'u \<Rightarrow> try_env list \<Rightarrow>
   (int \<times> as_error \<times> 'u \<times> event list) outcome" where
  "as_command_execute ec h parse_results fixed cmd timeout_ms retry now err u tries =
     execute_loop ec h parse_results fixed timeout_ms (as_socket_deadline now timeout_ms) (retry_code retry + 1) 0 0 0 cmd err u [] tries"

end
