(* ===== verification/KeyOps.thy ===== *)
theory KeyOps
  imports CommandExec
begin

text \<open>
  The single-record calls of \<^verbatim>\<open>aerospike_key.c\<close> from end to end: the digest of the key, the command, the sending loop with the reader of the reply,
  and what is done with the result.  A client holds what a call finds outside: the default policies, the hash function of the
  crypto library, the memory that allocations return, the clocks, and the tries of the cluster.  The result of a call has the status, the error, the
  key with its digest, what the last argument points to, and the events.  Which replica the cluster chooses is part of the tries.
\<close>

record client =
  cl_errnos :: errno_codes
  cl_platform :: platform
  cl_hash :: "byte list \<Rightarrow> byte list \<Rightarrow> byte list"
  cl_junk :: "nat \<Rightarrow> byte"
  cl_bin_junk :: "nat \<Rightarrow> as_bin"
  cl_allocs :: "nat \<Rightarrow> bool list"
  cl_fuel :: nat
  cl_epoch :: u32
  cl_start :: u64
  cl_tries :: "try_env list"
  cl_read :: as_policy_read
  cl_write :: as_policy_write
  cl_remove :: as_policy_remove
  cl_apply :: as_policy_apply
  cl_operate :: as_policy_operate

type_synonym 'u answered = "(int \<times> as_error \<times> as_key \<times> 'u \<times> event list) outcome"

text \<open>A null policy is the default one.\<close>

definition policy_or :: "'p \<Rightarrow> 'p option \<Rightarrow> 'p" where
  "policy_or standard p = (case p of None \<Rightarrow> standard | Some q \<Rightarrow> q)"

definition with_digest :: "client \<Rightarrow> as_key \<Rightarrow> 'u \<Rightarrow> (as_key \<Rightarrow> 'u answered) \<Rightarrow> 'u answered" where
  "with_digest cl key u k =
     outcome_bind (lift_opt (as_key_set_digest (cl_hash cl) (byte_order (cl_platform cl)) key)) (\<lambda>(status, key).
     if status \<noteq> AEROSPIKE_OK then
       let (st, err) = as_error_update as_error_reset AEROSPIKE_ERR_PARAM ''Invalid key type: %d''
             [val_type_code (case key_valuep key of Some v \<Rightarrow> as_val_type v | None \<Rightarrow> AS_UNKNOWN)] in
       Done (st, err, key, u, [])
     else k key)"

text \<open>The buffer is given back by the number of bytes written; giving a stack buffer to the heap is a fault.\<close>

definition as_command_free :: "command_buffer \<Rightarrow> unit option" where
  "as_command_free c = (if cmd_len c > AS_STACK_BUF_SIZE \<and> \<not> cmd_alloc c > AS_STACK_BUF_SIZE then None else Some ())"

definition send :: "client \<Rightarrow> 'u reader \<Rightarrow> as_key \<Rightarrow> built \<Rightarrow> u32 \<Rightarrow> as_policy_retry \<Rightarrow> 'u \<Rightarrow> 'u answered" where
  "send cl read_reply key cmd timeout retry u =
     outcome_bind (lift_opt cmd) (\<lambda>b.
     case b of
       Inl status \<Rightarrow> Done (status, as_error_reset, key, u, [])
     | Inr c \<Rightarrow>
         outcome_bind (as_command_execute (cl_errnos cl) (byte_order (cl_platform cl)) read_reply None (take (cmd_len c) (cmd_mem c))
             timeout retry (cl_start cl) as_error_reset u (cl_tries cl)) (\<lambda>(st, err, u, log).
         outcome_bind (lift_opt (as_command_free c)) (\<lambda>_. Done (st, err, key, u, log))))"

text \<open>The readers, with the arguments they take from the client.\<close>

definition result_reader :: "client \<Rightarrow> as_record option option reader" where
  "result_reader cl err s deadline rec =
     as_command_parse_result (cl_errnos cl) (cl_platform cl) (cl_fuel cl) (cl_bin_junk cl) (cl_epoch cl) err s deadline rec"

definition header_reader :: "errno_codes \<Rightarrow> host \<Rightarrow> as_proto_msg option reader" where
  "header_reader ec h err s deadline u = as_command_parse_header ec h err s deadline"

definition aerospike_key_get :: "client \<Rightarrow> as_policy_read option \<Rightarrow> as_key \<Rightarrow> as_record option option \<Rightarrow> as_record option option answered" where
  "aerospike_key_get cl policy key rec =
     (let pol = policy_or (cl_read cl) policy in
      with_digest cl key rec (\<lambda>key.
        send cl (result_reader cl) key (key_get_command (cl_platform cl) (cl_junk cl) pol key) (pr_timeout pol) AS_POLICY_RETRY_NONE rec))"

text \<open>The first name that is too long is in the error.\<close>

definition long_name_error :: "byte list list \<Rightarrow> as_error" where
  "long_name_error bins =
     (case dropWhile (\<lambda>b. length (c_str b) \<le> AS_BIN_NAME_MAX_LEN) bins of
        [] \<Rightarrow> as_error_reset
      | b # _ \<Rightarrow> as_error_reset\<lparr>err_code := AEROSPIKE_ERR_PARAM, err_message := Formatted_Text ''Bin name too long: %s'' (c_str b)\<rparr>)"

definition aerospike_key_select ::
  "client \<Rightarrow> as_policy_read option \<Rightarrow> as_key \<Rightarrow> byte list list \<Rightarrow> as_record option option \<Rightarrow> as_record option option answered" where
  "aerospike_key_select cl policy key bins rec =
     (let pol = policy_or (cl_read cl) policy in
      with_digest cl key rec (\<lambda>key.
        outcome_bind (send cl (result_reader cl) key (key_select_command (cl_platform cl) (cl_junk cl) pol key bins) (pr_timeout pol) AS_POLICY_RETRY_NONE rec)
          (\<lambda>(st, err, key, rec, log).
        if \<exists>b \<in> set (takeWhile (\<lambda>b. c_str b \<noteq> []) bins). length (c_str b) > AS_BIN_NAME_MAX_LEN
        then Done (st, long_name_error bins, key, rec, log) else Done (st, err, key, rec, log))))"

text \<open>The header of the reply becomes the metadata of the record.\<close>

definition aerospike_key_exists :: "client \<Rightarrow> as_policy_read option \<Rightarrow> as_key \<Rightarrow> as_record option option \<Rightarrow> as_record option option answered" where
  "aerospike_key_exists cl policy key rec =
     (let pol = policy_or (cl_read cl) policy in
      with_digest cl key rec (\<lambda>key.
        outcome_bind (send cl (header_reader (cl_errnos cl) (byte_order (cl_platform cl))) key
            (key_exists_command (cl_platform cl) (cl_junk cl) pol key) (pr_timeout pol) AS_POLICY_RETRY_NONE None)
          (\<lambda>(st, err, key, msg, log).
        case rec of
          None \<Rightarrow> Done (st, err, key, None, log)
        | Some r0 \<Rightarrow>
            if st = AEROSPIKE_OK then
              outcome_bind (lift_opt msg) (\<lambda>msg.
              let r = (case r0 of Some r \<Rightarrow> r | None \<Rightarrow> as_record_new (cl_bin_junk cl) 0) in
              Done (st, err, key, Some (Some (r\<lparr>rec_gen := ucast (msg_generation (pm_msg msg)), rec_ttl := msg_record_ttl (pm_msg msg)\<rparr>)), log))
            else Done (st, err, key, Some None, log))))"

text \<open>The bins of the record are the first \<open>rec_size\<close> entries of its array.\<close>

definition aerospike_key_put :: "client \<Rightarrow> as_policy_write option \<Rightarrow> as_key \<Rightarrow> as_record \<Rightarrow> as_proto_msg option answered" where
  "aerospike_key_put cl policy key rec =
     (let pol = policy_or (cl_write cl) policy in
      with_digest cl key None (\<lambda>key.
        outcome_bind (lift_opt (mem_read (rec_entries rec) 0 (unat (rec_size rec)))) (\<lambda>bins.
        send cl (header_reader (cl_errnos cl) (byte_order (cl_platform cl))) key
          (key_put_command (cl_platform cl) (cl_junk cl) (cl_allocs cl) pol key bins (ucast (rec_gen rec)) (rec_ttl rec))
          (pw_timeout pol) (pw_retry pol) None)))"

definition aerospike_key_remove :: "client \<Rightarrow> as_policy_remove option \<Rightarrow> as_key \<Rightarrow> as_proto_msg option answered" where
  "aerospike_key_remove cl policy key =
     (let pol = policy_or (cl_remove cl) policy in
      with_digest cl key None (\<lambda>key.
        outcome_bind (send cl (header_reader (cl_errnos cl) (byte_order (cl_platform cl))) key (key_remove_command (cl_platform cl) pol key)
            (px_timeout pol) (px_retry pol) None)
          (\<lambda>(st, err, key, msg, log).
        Done (if st = AEROSPIKE_OK \<or> st = AEROSPIKE_ERR_RECORD_NOT_FOUND then AEROSPIKE_OK else st, err, key, msg, log))))"

definition aerospike_key_operate ::
  "client \<Rightarrow> as_policy_operate option \<Rightarrow> as_key \<Rightarrow> (as_operator \<times> as_bin) list \<Rightarrow> u16 \<Rightarrow> u32 \<Rightarrow> as_record option option \<Rightarrow>
   as_record option option answered" where
  "aerospike_key_operate cl policy key ops gen ttl rec =
     (let pol = policy_or (cl_operate cl) policy in
      with_digest cl key rec (\<lambda>key.
        send cl (result_reader cl) key (key_operate_command (cl_platform cl) (cl_allocs cl) pol key ops (ucast gen) ttl)
          (po_timeout pol) (po_retry pol) rec))"

definition aerospike_key_apply ::
  "client \<Rightarrow> as_policy_apply option \<Rightarrow> as_key \<Rightarrow> byte list \<Rightarrow> byte list \<Rightarrow> as_val \<Rightarrow> as_val option option \<Rightarrow> as_val option option answered" where
  "aerospike_key_apply cl policy key module func arglist result =
     (let pol = policy_or (cl_apply cl) policy in
      with_digest cl key result (\<lambda>key.
        send cl (as_command_parse_success_failure (cl_errnos cl) (cl_platform cl) (cl_fuel cl)) key
          (key_apply_command (cl_platform cl) (cl_junk cl) (cl_allocs cl 0) pol key module func arglist)
          (pa_timeout pol) AS_POLICY_RETRY_NONE result))"

end
