(* ===== verification/CommandExecProps.thy ===== *)
theory CommandExecProps
  imports KeyOps CommandParseProps
begin

text \<open>
  What the sending loop guarantees: nodes and connections are given back, it ends, and how often it sends.
\<close>

subsection \<open>Nodes and connections\<close>

text \<open>
  The protocol of the events: a connection is taken while none is held and then closed or put back; a node is reserved while none is
  reserved and released after the connection; nothing is held during a pause or at the end.
\<close>

fun run_ok :: "bool \<Rightarrow> nat option \<Rightarrow> event list \<Rightarrow> bool" where
  "run_ok fd node [] \<longleftrightarrow> \<not> fd \<and> node = None"
| "run_ok fd node (Fd_Taken # l) \<longleftrightarrow> \<not> fd \<and> run_ok True node l"
| "run_ok fd node (Fd_Closed # l) \<longleftrightarrow> fd \<and> run_ok False node l"
| "run_ok fd node (Fd_Put s # l) \<longleftrightarrow> fd \<and> run_ok False node l"
| "run_ok fd node (Node_Reserved n # l) \<longleftrightarrow> node = None \<and> run_ok fd (Some n) l"
| "run_ok fd node (Node_Released n # l) \<longleftrightarrow> \<not> fd \<and> node = Some n \<and> run_ok fd None l"
| "run_ok fd node (Slept ms # l) \<longleftrightarrow> \<not> fd \<and> node = None \<and> run_ok fd node l"

fun is_put :: "event \<Rightarrow> bool" where
  "is_put (Fd_Put s) = True"
| "is_put _ = False"

definition puts :: "event list \<Rightarrow> nat" where
  "puts l = length (filter is_put l)"

definition takes :: "event list \<Rightarrow> nat" where
  "takes l = length (filter (\<lambda>e. e = Fd_Taken) l)"

text \<open>A stretch of events that leaves nothing held.\<close>

definition keeps :: "event list \<Rightarrow> bool" where
  "keeps l \<longleftrightarrow> (\<forall>l'. run_ok False None (l @ l') = run_ok False None l')"

lemma keeps_append: "keeps a \<Longrightarrow> keeps b \<Longrightarrow> keeps (a @ b)"
  by (simp add: keeps_def)

lemma keeps_simps [simp]: "keeps []" "keeps [Slept n]"
  by (simp_all add: keeps_def)

lemma counts_append [simp]: "puts (a @ b) = puts a + puts b" "takes (a @ b) = takes a + takes b"
  by (simp_all add: puts_def takes_def)

lemma counts_simps [simp]: "puts [] = 0" "puts [Slept n] = 0" "takes [] = 0" "takes [Slept n] = 0"
  by (simp_all add: puts_def takes_def)

text \<open>The statuses after which a connection may hold unread bytes.\<close>

definition unread :: "int set" where
  "unread = {AEROSPIKE_ERR_TIMEOUT, AEROSPIKE_ERR_CLIENT, AEROSPIKE_ERR_SCAN_ABORTED, AEROSPIKE_ERR_QUERY_ABORTED}"

text \<open>The two shapes of a pass.\<close>

definition pass_ok :: "'u passed \<Rightarrow> event list \<Rightarrow> bool" where
  "pass_ok r ev \<longleftrightarrow> keeps ev \<and> takes ev \<le> 1 \<and>
     (case r of
        Returned st err u \<Rightarrow> puts ev = (if st \<in> unread then 0 else 1) \<and> st \<noteq> AEROSPIKE_ERR_TIMEOUT \<and> (st \<noteq> AEROSPIKE_OK \<longrightarrow> err_code err = st)
      | Again _ _ _ _ _ \<Rightarrow> puts ev = 0)"

lemma pass_events:
  "keeps ((if fixed = None then [Node_Reserved n] else []) @ (if fixed = None then [Node_Released n] else []))"
  "keeps ((if fixed = None then [Node_Reserved n] else []) @ [Fd_Taken, Fd_Closed] @ (if fixed = None then [Node_Released n] else []))"
  "keeps ((if fixed = None then [Node_Reserved n] else []) @ [Fd_Taken, Fd_Put s] @ (if fixed = None then [Node_Released n] else []))"
  by (simp_all add: keeps_def)

lemma attempt_ok:
  assumes "attempt ec parse_results fixed deadline cmd err u e = Done (r, ev)"
  shows "pass_ok r ev"
proof (cases "case fixed of Some n \<Rightarrow> Some n | None \<Rightarrow> try_node e")
  case None
  then show ?thesis
    using assms by (auto simp: attempt_def pass_ok_def)
next
  case (Some node)
  let ?res = "if fixed = None then [Node_Reserved node] else []" and ?rel = "if fixed = None then [Node_Released node] else []"
  have counts: "puts (?res @ ?rel) = 0" "takes (?res @ ?rel) = 0"
      "puts (?res @ [Fd_Taken, Fd_Closed] @ ?rel) = 0" "takes (?res @ [Fd_Taken, Fd_Closed] @ ?rel) = 1"
      "puts (?res @ [Fd_Taken, Fd_Put q] @ ?rel) = 1" "takes (?res @ [Fd_Taken, Fd_Put q] @ ?rel) = 1" for q
    by (simp_all add: puts_def takes_def)
  obtain st s where c: "try_conn e = (st, s)"
    by (cases "try_conn e")
  show ?thesis
  proof (cases "st = AEROSPIKE_OK")
    case False
    then show ?thesis
      using assms Some c counts pass_events(1) [of fixed node] by (auto simp: attempt_def pass_ok_def Let_def)
  next
    case True
    then obtain st err' s' where w: "as_socket_write_deadline ec err s cmd (try_write_clock e) deadline = Done (st, err', s')"
      using assms Some c by (auto simp: attempt_def Let_def outcome_bind_Done)
    show ?thesis
    proof (cases "st = AEROSPIKE_OK")
      case False
      then have "r = Again 0 0 0 err' u" "ev = ?res @ [Fd_Taken, Fd_Closed] @ ?rel"
        using assms Some c True w by (simp_all add: attempt_def Let_def)
      then show ?thesis
        using counts pass_events(2) [of fixed node] by (simp add: pass_ok_def)
    next
      case ok: True
      then obtain st err'' u' s'' where p: "parse_results err' s' deadline u = Done (st, err'', u', s'')"
        using assms Some c True w by (auto simp: attempt_def Let_def outcome_bind_Done)
      have r: "Done (r, ev) =
          (if st = AEROSPIKE_ERR_TIMEOUT then Done (Again 0 0 0 err'' u', ?res @ [Fd_Taken, Fd_Closed] @ ?rel)
           else if st = AEROSPIKE_ERR_QUERY_ABORTED \<or> st = AEROSPIKE_ERR_SCAN_ABORTED \<or> st = AEROSPIKE_ERR_CLIENT then
             Done (Returned st (err''\<lparr>err_code := st\<rparr>) u', ?res @ [Fd_Taken, Fd_Closed] @ ?rel)
           else Done (Returned st (if st \<noteq> AEROSPIKE_OK then err''\<lparr>err_code := st\<rparr> else err'') u', ?res @ [Fd_Taken, Fd_Put s''] @ ?rel))"
        using assms Some c True ok w p by (simp add: attempt_def Let_def)
      show ?thesis
        using r counts pass_events(2) [of fixed node] pass_events(3) [of fixed node s'']
        by (cases "st = AEROSPIKE_ERR_TIMEOUT"; cases "st = AEROSPIKE_ERR_QUERY_ABORTED \<or> st = AEROSPIKE_ERR_SCAN_ABORTED \<or> st = AEROSPIKE_ERR_CLIENT")
          (simp_all only: pass_ok_def if_True if_False, auto simp: unread_def)
    qed
  qed
qed


lemma loop_step:
  assumes "attempt ec parse_results fixed deadline cmd err u e = Done (Again pause nodes conns err' u', ev)"
  obtains (gave_up) args where "execute_loop ec h parse_results fixed t deadline mx i fn fc cmd err u log (e # es) =
      Done (AEROSPIKE_ERR_TIMEOUT, snd (as_error_update err' AEROSPIKE_ERR_TIMEOUT
        ''Client timeout: timeout=%d iterations=%u failedNodes=%u failedConns=%u'' args), u', log @ ev)"
  | (fault) "execute_loop ec h parse_results fixed t deadline mx i fn fc cmd err u log (e # es) = Fault" "length cmd < 26"
  | (again) cmd' where "i < mx" "length cmd' = length cmd" "execute_loop ec h parse_results fixed t deadline mx i fn fc cmd err u log (e # es) =
      execute_loop ec h parse_results fixed t deadline mx (i + 1) (fn + nodes) (fc + conns) cmd' err' u'
        (log @ ev @ (if pause > 0 then [Slept pause] else [])) es"
proof (cases "i + 1 > mx \<or> deadline > 0 \<and> remaining_ms deadline (try_clock e) pause \<le> 0")
  case True
  then show ?thesis
    using assms gave_up by (auto simp: as_error_update_def Let_def)
next
  case False
  let ?patch = "mem_write cmd 22 (store32 h (cf_swap_to_be32 h (word_of_int (remaining_ms deadline (try_clock e) pause))))"
  show ?thesis
  proof (cases "deadline > 0")
    case nolimit: False
    then show ?thesis
      using False assms again [of cmd] by (simp add: Let_def)
  next
    case limit: True
    show ?thesis
    proof (cases ?patch)
      case None
      then have "length cmd < 26"
        by (simp add: mem_write_None)
      then show ?thesis
        using False limit assms None fault by (simp add: Let_def lift_opt_def)
    next
      case (Some cmd')
      then show ?thesis
        using False limit assms again [of cmd'] mem_write_length [OF Some] by (simp add: Let_def lift_opt_def)
    qed
  qed
qed

lemma loop_ok:
  assumes "execute_loop ec h parse_results fixed t deadline mx i fn fc cmd err u log es = Done (st, err', u', log')"
    and "keeps log" and "puts log = 0"
  shows "keeps log' \<and> puts log' = (if st \<in> unread then 0 else 1) \<and> (st \<noteq> AEROSPIKE_OK \<longrightarrow> err_code err' = st) \<and>
    takes log' \<le> takes log + (if i \<le> mx then mx - i + 1 else 1)"
  using assms
proof (induction es arbitrary: i fn fc cmd err u log)
  case (Cons e es)
  obtain r ev where a: "attempt ec parse_results fixed deadline cmd err u e = Done (r, ev)"
    using Cons.prems(1) by (auto simp: outcome_bind_Done)
  note ok = attempt_ok [OF a]
  show ?case
  proof (cases r)
    case (Returned st1 err1 u1)
    then show ?thesis
      using a ok Cons.prems by (auto simp: pass_ok_def intro: keeps_append)
  next
    case (Again pause nodes conns err1 u1)
    have ev: "keeps (log @ ev)" "puts (log @ ev) = 0" "takes ev \<le> 1"
      using ok Cons.prems(2,3) by (auto simp: Again pass_ok_def intro: keeps_append)
    show ?thesis
    proof (rule loop_step [OF a [unfolded Again], of h t mx i fn fc log es])
      fix args assume "execute_loop ec h parse_results fixed t deadline mx i fn fc cmd err u log (e # es) =
        Done (AEROSPIKE_ERR_TIMEOUT, snd (as_error_update err1 AEROSPIKE_ERR_TIMEOUT
          ''Client timeout: timeout=%d iterations=%u failedNodes=%u failedConns=%u'' args), u1, log @ ev)"
      then have "st = AEROSPIKE_ERR_TIMEOUT" "log' = log @ ev" "err_code err' = st"
        using Cons.prems(1) by auto
      then show ?thesis
        using ev by (auto simp: unread_def)
    next
      assume "execute_loop ec h parse_results fixed t deadline mx i fn fc cmd err u log (e # es) = Fault"
      then show ?thesis
        using Cons.prems(1) by simp
    next
      fix cmd' assume c: "i < mx" "execute_loop ec h parse_results fixed t deadline mx i fn fc cmd err u log (e # es) =
        execute_loop ec h parse_results fixed t deadline mx (i + 1) (fn + nodes) (fc + conns) cmd' err1 u1
          (log @ ev @ (if pause > 0 then [Slept pause] else [])) es"
      have "keeps (log @ ev @ (if pause > 0 then [Slept pause] else []))"
        using ev(1) keeps_append [OF ev(1), of "[Slept pause]"] by simp
      moreover have "puts (log @ ev @ (if pause > 0 then [Slept pause] else [])) = 0"
        using ev(2) by simp
      moreover have "takes (log @ ev @ (if pause > 0 then [Slept pause] else [])) \<le> takes log + 1"
        using ev(3) by simp
      ultimately show ?thesis
        using Cons.IH [of "i + 1" "fn + nodes" "fc + conns" cmd' err1 u1] Cons.prems(1) c by fastforce
    qed
  qed
qed simp

lemma loop_returns:
  assumes "\<And>e cmd err u. e \<in> set es \<Longrightarrow> \<exists>r. attempt ec parse_results fixed deadline cmd err u e = Done r"
    and "26 \<le> length cmd" and "mx < i + length es" and "es \<noteq> []"
  shows "\<exists>r. execute_loop ec h parse_results fixed t deadline mx i fn fc cmd err u log es = Done r"
  using assms
proof (induction es arbitrary: i fn fc cmd err u log)
  case (Cons e es)
  obtain r ev where a: "attempt ec parse_results fixed deadline cmd err u e = Done (r, ev)"
    using Cons.prems(1) [of e cmd err u] by auto
  show ?case
  proof (cases r)
    case (Returned st1 err1 u1)
    then show ?thesis
      using a by simp
  next
    case (Again pause nodes conns err1 u1)
    show ?thesis
    proof (rule loop_step [OF a [unfolded Again], of h t mx i fn fc log es])
      fix args assume "execute_loop ec h parse_results fixed t deadline mx i fn fc cmd err u log (e # es) =
        Done (AEROSPIKE_ERR_TIMEOUT, snd (as_error_update err1 AEROSPIKE_ERR_TIMEOUT
          ''Client timeout: timeout=%d iterations=%u failedNodes=%u failedConns=%u'' args), u1, log @ ev)"
      then show ?thesis
        by simp
    next
      assume "length cmd < 26"
      then show ?thesis
        using Cons.prems(2) by simp
    next
      fix cmd' assume c: "i < mx" "length cmd' = length cmd" "execute_loop ec h parse_results fixed t deadline mx i fn fc cmd err u log (e # es) =
        execute_loop ec h parse_results fixed t deadline mx (i + 1) (fn + nodes) (fc + conns) cmd' err1 u1
          (log @ ev @ (if pause > 0 then [Slept pause] else [])) es"
      have "\<exists>r. execute_loop ec h parse_results fixed t deadline mx (i + 1) (fn + nodes) (fc + conns) cmd' err1 u1
          (log @ ev @ (if pause > 0 then [Slept pause] else [])) es = Done r"
        by (rule Cons.IH) (use Cons.prems c in auto)
      then show ?thesis
        using c(3) by simp
    qed
  qed
qed simp

subsection \<open>A connection on which everything moves at once\<close>

definition prompt :: "sock \<Rightarrow> bool" where
  "prompt s \<longleftrightarrow> sk_fd s = 3 \<and> sk_flags s = Some True"

lemma prompt_delivers:
  assumes "prompt s" and "sk_in s = bs @ rest" and "sk_turns s = quick_turn # ts" and "bs \<noteq> []" and "length bs \<le> 1000" and "dl \<noteq> 0"
  shows "delivers some_errnos err dl s bs (s\<lparr>sk_in := rest, sk_turns := ts\<rparr>)"
proof -
  have "1 \<le> dl"
    using assms(6) by (simp add: word_le_nat_alt unat_gt_0 Suc_le_eq)
  then show ?thesis
    using assms by (simp add: prompt_def delivers_def run_socket quick_turn_def min_def not_less)
qed

lemma prompt_accepts:
  assumes "prompt s" and "sk_turns s = quick_turn # ts" and "cmd \<noteq> []" and "length cmd \<le> 1000" and "dl \<noteq> 0"
  shows "as_socket_write_deadline some_errnos err s cmd now dl = Done (AEROSPIKE_OK, err, s\<lparr>sk_out := sk_out s @ cmd, sk_turns := ts\<rparr>)"
proof -
  have "1 \<le> dl"
    using assms(5) by (simp add: word_le_nat_alt unat_gt_0 Suc_le_eq)
  then show ?thesis
    using assms by (simp add: prompt_def run_socket quick_turn_def min_def not_less)
qed

text \<open>The header of the reply to a write, as \<^verbatim>\<open>as_command_parse_header\<close> leaves it.\<close>

definition raw_header :: "host \<Rightarrow> as_msg \<Rightarrow> as_proto_msg" where
  "raw_header h m = \<lparr> pm_proto = \<lparr> proto_version = 2, proto_type = 3, proto_sz = 22 \<rparr>, pm_msg = msg_fields h (msg_wire m) \<rparr>"

lemma parse_header_delivered:
  assumes hdr: "delivers ec err dl s (reply_header m 0) s1" and m: "msg_header_sz m = 22"
  shows "as_command_parse_header ec h err s dl =
    (let code = uint (msg_result_code m) in
     if code \<noteq> AEROSPIKE_OK \<and> code \<noteq> AEROSPIKE_ERR_RECORD_NOT_FOUND
     then Done (code, snd (as_error_set_message err code (ascii (as_error_string code))), Some (raw_header h m), s1)
     else Done (code, err, Some (raw_header h m), s1))"
proof -
  have raw: "pm_msg (proto_msg_fields h (reply_header m 0)) = msg_fields h (msg_wire m)"
    by (simp add: proto_msg_fields_def reply_header_def)
  have "take_bit 48 (22 :: u64) = 22"
    by simp
  then have proto: "as_proto_swap_from_be h (pm_proto (proto_msg_fields h (reply_header m 0))) = \<lparr> proto_version = 2, proto_type = 3, proto_sz = 22 \<rparr>"
    using proto_from_wire' [of "\<lparr> proto_version = 2, proto_type = 3, proto_sz = 22 \<rparr>" h] by (simp add: proto_msg_fields_def reply_header_def)
  have code: "msg_header_sz (msg_fields h (msg_wire m)) = 22" "msg_result_code (msg_fields h (msg_wire m)) = msg_result_code m"
      "pm_msg (raw_header h m) = msg_fields h (msg_wire m)"
    using m by (simp_all add: raw_header_def msg_fields_def msg_wire_def)
  have "(proto_msg_fields h (reply_header m 0))\<lparr>pm_proto := \<lparr> proto_version = 2, proto_type = 3, proto_sz = 22 \<rparr>\<rparr> = raw_header h m"
    using raw by (cases "proto_msg_fields h (reply_header m 0)") (simp add: raw_header_def)
  then show ?thesis
    using hdr raw proto code by (simp add: as_command_parse_header_def delivers_def Let_def as_error_set_message_def)
qed

lemma forever_delivers:
  assumes "prompt s" and "sk_setfl s" and "sk_in s = bs @ rest" and "sk_turns s = quick_turn # ts" and "bs \<noteq> []" and "length bs \<le> 1000"
  shows "delivers some_errnos err 0 s bs (s\<lparr>sk_flags := Some False, sk_in := rest, sk_turns := ts\<rparr>)"
  using assms by (simp add: prompt_def delivers_def run_socket as_socket_read_forever_def blocking_turn_def quick_turn_def min_def)

lemma forever_accepts:
  assumes "prompt s" and "sk_turns s = quick_turn # ts" and "cmd \<noteq> []" and "length cmd \<le> 1000"
  shows "as_socket_write_deadline some_errnos err s cmd 0 0 = Done (AEROSPIKE_OK, err, s\<lparr>sk_out := sk_out s @ cmd, sk_turns := ts\<rparr>)"
  using assms by (simp add: prompt_def run_socket as_socket_write_forever_def quick_turn_def min_def)

text \<open>A try whose connection takes the command and answers with a result code.\<close>

definition answer :: "byte \<Rightarrow> as_msg" where
  "answer code = int_reply\<lparr>msg_result_code := code, msg_n_ops := 0\<rparr>"

definition answering :: "byte \<Rightarrow> try_env" where
  "answering code = \<lparr> try_node = Some 1, try_conn = (AEROSPIKE_OK, quick_sock (reply_header (answer code) 0) [quick_turn, quick_turn]),
     try_write_clock = 0, try_clock = 0 \<rparr>"

lemma answer_header: "reply_header m 0 \<noteq> []" "msg_header_sz (answer code) = 22" "msg_result_code (answer code) = code"
  by (metis length_reply_header list.size(3) zero_neq_numeral) (simp_all add: answer_def int_reply_def)

lemma quick_sock_simps [simp]:
  "prompt (quick_sock bs ts)" "sk_setfl (quick_sock bs ts)" "sk_in (quick_sock bs ts) = bs" "sk_turns (quick_sock bs ts) = ts"
  "sk_out (quick_sock bs ts) = []"
  by (simp_all add: quick_sock_def prompt_def)

lemma prompt_update [simp]: "prompt (s\<lparr>sk_out := out, sk_turns := ts\<rparr>) = prompt s"
  by (simp add: prompt_def)

lemma answering_reply:
  assumes "cmd \<noteq> []" and "length cmd \<le> 1000"
  shows "\<exists>s s'. as_socket_write_deadline some_errnos err (quick_sock (reply_header (answer code) 0) [quick_turn, quick_turn]) cmd 0 dl = Done (AEROSPIKE_OK, err, s) \<and>
    delivers some_errnos err dl s (reply_header (answer code) 0) s'"
proof (cases "dl = 0")
  case True
  let ?s = "(quick_sock (reply_header (answer code) 0) [quick_turn, quick_turn])\<lparr>sk_out := [] @ cmd, sk_turns := [quick_turn]\<rparr>"
  have "delivers some_errnos err 0 ?s (reply_header (answer code) 0) (?s\<lparr>sk_flags := Some False, sk_in := [], sk_turns := []\<rparr>)"
    by (rule forever_delivers) (simp_all add: answer_header)
  then show ?thesis
    using forever_accepts [of "quick_sock (reply_header (answer code) 0) [quick_turn, quick_turn]" "[quick_turn]" cmd err] assms True by auto
next
  case False
  let ?s = "(quick_sock (reply_header (answer code) 0) [quick_turn, quick_turn])\<lparr>sk_out := [] @ cmd, sk_turns := [quick_turn]\<rparr>"
  have "delivers some_errnos err dl ?s (reply_header (answer code) 0) (?s\<lparr>sk_in := [], sk_turns := []\<rparr>)"
    by (rule prompt_delivers) (simp_all add: answer_header False)
  then show ?thesis
    using prompt_accepts [of "quick_sock (reply_header (answer code) 0) [quick_turn, quick_turn]" "[quick_turn]" cmd dl err 0] assms False by auto
qed

lemma answering_ok:
  assumes "cmd \<noteq> []" and "length cmd \<le> 1000"
  shows "\<exists>u' s. attempt some_errnos (header_reader some_errnos h) None dl cmd err u (answering 0) =
    Done (Returned AEROSPIKE_OK err u', [Node_Reserved 1, Fd_Taken, Fd_Put s, Node_Released 1])"
proof -
  obtain s s' where "as_socket_write_deadline some_errnos err (quick_sock (reply_header (answer 0) 0) [quick_turn, quick_turn]) cmd 0 dl = Done (AEROSPIKE_OK, err, s)"
    "delivers some_errnos err dl s (reply_header (answer 0) 0) s'"
    using answering_reply [OF assms] by blast
  then show ?thesis
    using parse_header_delivered [of some_errnos err dl s "answer 0" s' h] answer_header
    by (simp add: attempt_def answering_def header_reader_def status_codes)
qed

lemma answering_timeout:
  assumes "cmd \<noteq> []" and "length cmd \<le> 1000"
  shows "\<exists>err' u'. attempt some_errnos (header_reader some_errnos h) None dl cmd err u (answering 9) =
    Done (Again 0 0 0 err' u', [Node_Reserved 1, Fd_Taken, Fd_Closed, Node_Released 1])"
proof -
  obtain s s' where "as_socket_write_deadline some_errnos err (quick_sock (reply_header (answer 9) 0) [quick_turn, quick_turn]) cmd 0 dl = Done (AEROSPIKE_OK, err, s)"
    "delivers some_errnos err dl s (reply_header (answer 9) 0) s'"
    using answering_reply [OF assms] by blast
  then show ?thesis
    using parse_header_delivered [of some_errnos err dl s "answer 9" s' h] answer_header
    by (simp add: attempt_def answering_def header_reader_def status_codes)
qed

subsection \<open>The guarantees\<close>



text \<open>
  C20.  A command ends: if every single pass returns, the loop ends after at most two passes, or three with one retry.
\<close>

theorem execute_terminates:
  assumes "\<And>e cmd err u. e \<in> set tries \<Longrightarrow> \<exists>r. attempt ec parse_results fixed (as_socket_deadline now timeout_ms) cmd err u e = Done r"
    and "26 \<le> length cmd" and "retry_code retry + 2 \<le> length tries"
  shows "\<exists>r. as_command_execute ec h parse_results fixed cmd timeout_ms retry now err u tries = Done r"
  unfolding as_command_execute_def by (rule loop_returns) (use assms in auto)

definition nowhere :: try_env where
  "nowhere = \<lparr> try_node = None, try_conn = (AEROSPIKE_OK, quick_sock [] []), try_write_clock = 0, try_clock = 0 \<rparr>"

theorem execute_terminates_witness:
  "\<exists>r. as_command_execute some_errnos Big_Endian (header_reader some_errnos Big_Endian) None (replicate 30 0) 0 AS_POLICY_RETRY_ONCE 0
     as_error_reset None [nowhere, nowhere, nowhere] = Done r"
  by (rule execute_terminates) (auto simp: attempt_def nowhere_def)

text \<open>
  C32.  A policy without retries does not prevent a second attempt: when the connection breaks or the server answers the first one
  with a timeout, the same command is sent again, so that an increment may be applied twice.
\<close>

theorem retry_none_sends_twice:
  assumes "attempt ec parse_results fixed 0 cmd err u e1 = Done (Again pause nodes conns err1 u1, ev1)"
    and "attempt ec parse_results fixed 0 cmd err1 u1 e2 = Done (Returned st err2 u2, ev2)"
  shows "as_command_execute ec h parse_results fixed cmd 0 AS_POLICY_RETRY_NONE now err u (e1 # e2 # es) =
    Done (st, err2, u2, ev1 @ (if pause > 0 then [Slept pause] else []) @ ev2)"
  using assms by (simp add: as_command_execute_def as_socket_deadline_def Let_def)

theorem retry_none_sends_twice_witness:
  "\<exists>err u log. as_command_execute some_errnos Big_Endian (header_reader some_errnos Big_Endian) None (replicate 30 0) 0 AS_POLICY_RETRY_NONE 0
     as_error_reset None [answering 9, answering 0] = Done (AEROSPIKE_OK, err, u, log) \<and> takes log = 2"
proof -
  have cmd: "replicate 30 0 \<noteq> ([] :: byte list)" "length (replicate 30 (0 :: byte)) \<le> 1000"
    by simp_all
  obtain err1 u1 where one: "attempt some_errnos (header_reader some_errnos Big_Endian) None 0 (replicate 30 0) as_error_reset None (answering 9) =
      Done (Again 0 0 0 err1 u1, [Node_Reserved 1, Fd_Taken, Fd_Closed, Node_Released 1])"
    using answering_timeout [OF cmd] by blast
  obtain u2 s where two: "attempt some_errnos (header_reader some_errnos Big_Endian) None 0 (replicate 30 0) err1 u1 (answering 0) =
      Done (Returned AEROSPIKE_OK err1 u2, [Node_Reserved 1, Fd_Taken, Fd_Put s, Node_Released 1])"
    using answering_ok [OF cmd] by blast
  show ?thesis
    using retry_none_sends_twice [OF one two, of Big_Endian 0 "[]"] by (simp add: takes_def)
qed

end
