(* ===== verification/KeyOpsProps.thy ===== *)
theory KeyOpsProps
  imports CommandExecProps
begin

text \<open>
  The single-record calls from the key to the result, over a connection that takes the command and delivers the reply.
\<close>

text \<open>The first try reaches node \<open>n\<close> over \<open>s0\<close>, which takes the bytes and is then in state \<open>s\<close>.\<close>

definition accepted :: "client \<Rightarrow> u32 \<Rightarrow> byte list \<Rightarrow> nat \<Rightarrow> sock \<Rightarrow> sock \<Rightarrow> bool" where
  "accepted cl timeout wire n s0 s \<longleftrightarrow> (\<exists>e es. cl_tries cl = e # es \<and> try_node e = Some n \<and> try_conn e = (AEROSPIKE_OK, s0) \<and>
     as_socket_write_deadline (cl_errnos cl) as_error_reset s0 wire (try_write_clock e) (as_socket_deadline (cl_start cl) timeout) =
       Done (AEROSPIKE_OK, as_error_reset, s))"

abbreviation deadline_of :: "client \<Rightarrow> u32 \<Rightarrow> u64" where
  "deadline_of cl timeout \<equiv> as_socket_deadline (cl_start cl) timeout"

lemma accepted_out:
  assumes "accepted cl timeout wire n s0 s"
  shows "sk_out s = sk_out s0 @ wire" "sk_in s = sk_in s0"
proof -
  obtain moved where "sk_out s = sk_out s0 @ moved" "prefix_moved wire (length wire) AEROSPIKE_OK moved" "sk_in s = sk_in s0"
    using assms write_deadline_moves unfolding accepted_def by blast
  then show "sk_out s = sk_out s0 @ wire" "sk_in s = sk_in s0"
    by (auto simp: prefix_moved_def)
qed

lemma delivers_out: "delivers ec err dl s bs s' \<Longrightarrow> sk_out s' = sk_out s \<and> sk_in s = bs @ sk_in s'"
  using read_deadline_moves unfolding delivers_def by blast

lemma send_answered:
  assumes cmd: "exact cmd m body" and acc: "accepted cl timeout (command_wire m body) n s0 s"
    and reply: "read_reply as_error_reset s (deadline_of cl timeout) u = Done (AEROSPIKE_OK, err, u', s2)"
  shows "send cl read_reply key cmd timeout retry u =
    Done (AEROSPIKE_OK, err, key, u', [Node_Reserved n, Fd_Taken, Fd_Put s2, Node_Released n])"
proof -
  obtain e es where e: "cl_tries cl = e # es" "try_node e = Some n" "try_conn e = (AEROSPIKE_OK, s0)"
     "as_socket_write_deadline (cl_errnos cl) as_error_reset s0 (command_wire m body) (try_write_clock e) (deadline_of cl timeout) =
       Done (AEROSPIKE_OK, as_error_reset, s)"
    using acc by (auto simp: accepted_def)
  then have "attempt (cl_errnos cl) read_reply None (deadline_of cl timeout) (command_wire m body) as_error_reset u e =
      Done (Returned AEROSPIKE_OK err u', [Node_Reserved n, Fd_Taken, Fd_Put s2, Node_Released n])"
    using reply by (simp add: attempt_def status_codes)
  then show ?thesis
    using cmd e(1) by (simp add: send_def exact_def lift_opt_def as_command_execute_def as_command_free_def)
qed

text \<open>A key whose digest is or can be computed.\<close>

definition digested :: "client \<Rightarrow> as_key \<Rightarrow> as_key \<Rightarrow> bool" where
  "digested cl key key' \<longleftrightarrow> as_key_set_digest (cl_hash cl) (byte_order (cl_platform cl)) key = Some (AEROSPIKE_OK, key')"

lemma with_digest_ok: "digested cl key key' \<Longrightarrow> with_digest cl key u k = k key'"
  by (simp add: digested_def with_digest_def lift_opt_def)

lemma digest_value:
  assumes "key_valuep key = Some v" and "digest_bytes (byte_order (cl_platform cl)) v = Some bs" and "\<not> digest_init key"
  shows "digested cl key (key\<lparr>key_digest := cl_hash cl (c_str (key_set key)) bs, digest_init := True\<rparr>)"
  using assms by (simp add: digested_def as_key_set_digest_def AEROSPIKE_OK_def)

text \<open>A client whose cluster answers its first try at once.\<close>

definition some_client :: "byte list \<Rightarrow> client" where
  "some_client reply =
     \<lparr> cl_errnos = some_errnos, cl_platform = linux_platform, cl_hash = (\<lambda>_ _. replicate 20 0), cl_junk = (\<lambda>_. 0), cl_bin_junk = (\<lambda>_. some_junk),
       cl_allocs = (\<lambda>_. []), cl_fuel = 20, cl_epoch = 0, cl_start = 1,
       cl_tries = [\<lparr> try_node = Some 1, try_conn = (AEROSPIKE_OK, quick_sock reply [quick_turn, quick_turn, quick_turn]), try_write_clock = 0, try_clock = 0 \<rparr>],
       cl_read = some_read_policy, cl_write = some_write_policy, cl_remove = some_remove_policy,
       cl_apply = \<lparr> pa_timeout = 0, pa_key = AS_POLICY_KEY_DIGEST, pa_commit = AS_POLICY_COMMIT_LEVEL_ALL \<rparr>,
       cl_operate = \<lparr> po_timeout = 0, po_retry = AS_POLICY_RETRY_NONE, po_key = AS_POLICY_KEY_DIGEST, po_gen = AS_POLICY_GEN_IGNORE,
         po_replica = AS_POLICY_REPLICA_MASTER, po_consistency = AS_POLICY_CONSISTENCY_LEVEL_ONE, po_commit = AS_POLICY_COMMIT_LEVEL_ALL \<rparr> \<rparr>"

definition sent :: "byte list \<Rightarrow> byte list \<Rightarrow> turn list \<Rightarrow> sock" where
  "sent wire reply ts = (quick_sock reply ts)\<lparr>sk_out := wire\<rparr>"

lemma some_client_simps [simp]:
  "cl_errnos (some_client b) = some_errnos" "cl_platform (some_client b) = linux_platform" "cl_fuel (some_client b) = 20" "cl_start (some_client b) = 1"
  "cl_allocs (some_client b) = (\<lambda>_. [])" "deadline_of (some_client b) 8 = 9"
  by (simp_all add: some_client_def as_socket_deadline_def)

lemma some_client_accepts:
  assumes "wire \<noteq> []" and "length wire \<le> 1000"
  shows "accepted (some_client b) 8 wire 1 (quick_sock b [quick_turn, quick_turn, quick_turn]) (sent wire b [quick_turn, quick_turn])"
proof -
  have "as_socket_write_deadline some_errnos as_error_reset (quick_sock b [quick_turn, quick_turn, quick_turn]) wire 0 9 =
      Done (AEROSPIKE_OK, as_error_reset, sent wire b [quick_turn, quick_turn])"
    using prompt_accepts [of "quick_sock b [quick_turn, quick_turn, quick_turn]" "[quick_turn, quick_turn]" wire 9 as_error_reset 0] assms
    by (simp add: sent_def quick_sock_def prompt_def)
  then show ?thesis
    by (auto simp: accepted_def some_client_def as_socket_deadline_def)
qed

lemma sent_delivers:
  assumes "bs \<noteq> []" and "length bs \<le> 1000"
  shows "delivers some_errnos err 9 (sent wire (bs @ rest) (quick_turn # ts)) bs (sent wire rest ts)"
  using prompt_delivers [of "sent wire (bs @ rest) (quick_turn # ts)" bs rest ts 9 err] assms
  by (simp add: sent_def quick_sock_def prompt_def)

lemma some_key_digested: "digested (some_client b) some_key some_key"
  by (simp add: digested_def as_key_set_digest_def some_key_def AEROSPIKE_OK_def)

lemma some_key_length: "length (key_wire AS_POLICY_KEY_DIGEST some_key) = 37"
  by (simp add: some_wire)

lemma command_not_empty: "command_wire m body \<noteq> []"
  by (metis add_gr_0 length_command_wire length_greater_0_conv zero_less_numeral)

definition quick_read_policy :: as_policy_read where
  "quick_read_policy = some_read_policy\<lparr>pr_timeout := 8\<rparr>"

lemma quick_read_policy_simps [simp]: "pr_timeout quick_read_policy = 8" "pr_key quick_read_policy = AS_POLICY_KEY_DIGEST"
  by (simp_all add: quick_read_policy_def some_read_policy_def)

definition quick_write_policy :: as_policy_write where
  "quick_write_policy = some_write_policy\<lparr>pw_timeout := 8\<rparr>"

definition int_put :: as_record where
  "int_put = \<lparr> rec_key = fresh_key, rec_gen = 3, rec_ttl = 60, bins_free = True, rec_capacity = 1, rec_size = 1, rec_entries = [int_bin] \<rparr>"

lemma int_put_ok: "rec_ok int_put" "used_bins int_put = [int_bin]" "bin_ready int_bin"
  by (simp_all add: rec_ok_def used_bins_def int_put_def int_bin_def c_str_def AS_BIN_NAME_MAX_LEN_def bin_ready_def)

end
