(* ===== verification/Admin.thy ===== *)
theory Admin
  imports Command Socket
begin

text \<open>
  The part of \<^verbatim>\<open>as_admin.c\<close> every new connection of a secured cluster goes through: the writers of an administration
  message and \<^verbatim>\<open>as_authenticate\<close>.  The message is built in a buffer of fixed size on the stack; its old content is a parameter.
\<close>

definition AUTHENTICATE :: byte where "AUTHENTICATE = 0"
definition USER :: byte where "USER = 0"
definition CREDENTIAL :: byte where "CREDENTIAL = 3"
definition MSG_VERSION :: u64 where "MSG_VERSION = 0"
definition MSG_TYPE :: u64 where "MSG_TYPE = 2"
definition FIELD_HEADER_SIZE :: nat where "FIELD_HEADER_SIZE = 5"
definition HEADER_SIZE :: nat where "HEADER_SIZE = 24"
definition HEADER_REMAINING :: nat where "HEADER_REMAINING = 16"
definition RESULT_CODE :: nat where "RESULT_CODE = 9"

lemmas admin_codes = AUTHENTICATE_def USER_def CREDENTIAL_def MSG_VERSION_def MSG_TYPE_def FIELD_HEADER_SIZE_def
  HEADER_SIZE_def HEADER_REMAINING_def RESULT_CODE_def

definition as_admin_write_header :: "byte \<Rightarrow> byte \<Rightarrow> writer" where
  "as_admin_write_header command field_count m p = do {
     m \<leftarrow> mem_write m p (replicate HEADER_REMAINING 0);
     m \<leftarrow> mem_write m (p + 2) [command];
     m \<leftarrow> mem_write m (p + 3) [field_count];
     Some (m, p + HEADER_REMAINING) }"

definition as_admin_write_field_header :: "host \<Rightarrow> byte \<Rightarrow> nat \<Rightarrow> writer" where
  "as_admin_write_field_header h fid sz m p = do {
     m \<leftarrow> mem_write m p (store32 h (cf_swap_to_be32 h (of_nat (sz + 1))));
     m \<leftarrow> mem_write m (p + 4) [fid];
     Some (m, p + 5) }"

definition as_admin_write_field_string :: "host \<Rightarrow> byte \<Rightarrow> byte list \<Rightarrow> writer" where
  "as_admin_write_field_string h fid val m p = do {
     m \<leftarrow> mem_write m (p + FIELD_HEADER_SIZE) (c_str val);
     let q = p + FIELD_HEADER_SIZE + length (c_str val);
     (m, _) \<leftarrow> as_admin_write_field_header h fid (q - p - FIELD_HEADER_SIZE) m p;
     Some (m, q) }"

definition as_admin_send :: "errno_codes \<Rightarrow> host \<Rightarrow> as_error \<Rightarrow> sock \<Rightarrow> byte mem \<Rightarrow> nat \<Rightarrow> u64 \<Rightarrow> u64 \<Rightarrow> (int \<times> as_error \<times> sock) outcome" where
  "as_admin_send ec h err s buffer len now deadline =
     (let proto = (of_nat len - 8) OR push_bit 56 MSG_VERSION OR push_bit 48 MSG_TYPE in
      outcome_bind (lift_opt (do { m \<leftarrow> mem_write buffer 0 (store64 h (cf_swap_to_be64 h proto)); mem_read m 0 len })) (\<lambda>bs.
      as_socket_write_deadline ec err s bs now deadline))"

definition authenticate_message :: "host \<Rightarrow> byte mem \<Rightarrow> byte list \<Rightarrow> byte list \<Rightarrow> cursor option" where
  "authenticate_message h buffer user credential = do {
     (m, p) \<leftarrow> as_admin_write_header AUTHENTICATE 2 buffer 8;
     (m, p) \<leftarrow> as_admin_write_field_string h USER user m p;
     as_admin_write_field_string h CREDENTIAL credential m p }"

definition as_authenticate ::
  "errno_codes \<Rightarrow> host \<Rightarrow> byte mem \<Rightarrow> as_error \<Rightarrow> sock \<Rightarrow> byte list \<Rightarrow> byte list \<Rightarrow> u64 \<Rightarrow> u64 \<Rightarrow> (int \<times> as_error \<times> sock) outcome" where
  "as_authenticate ec h buffer err s user credential now deadline =
     outcome_bind (lift_opt (authenticate_message h buffer user credential)) (\<lambda>(m, p).
     outcome_bind (as_admin_send ec h err s m p now deadline) (\<lambda>(status, err, s).
     if status \<noteq> AEROSPIKE_OK then Done (status, err, s)
     else
       outcome_bind (as_socket_read_deadline ec err s HEADER_SIZE deadline) (\<lambda>(status, err, got, s).
       if status \<noteq> AEROSPIKE_OK then Done (status, err, s)
       else
         outcome_bind (lift_opt (mem_load got RESULT_CODE)) (\<lambda>code.
         let status = uint code in
         Done (status, if status \<noteq> 0 then snd (as_error_set_message err status (ascii (as_error_string status))) else err, s)))))"


subsection \<open>The message\<close>

definition admin_field_wire :: "byte \<Rightarrow> byte list \<Rightarrow> byte list" where
  "admin_field_wire fid val = be32 (of_nat (length (c_str val) + 1)) @ [fid] @ c_str val"

definition admin_header_wire :: "byte \<Rightarrow> byte \<Rightarrow> byte list" where
  "admin_header_wire command field_count = [0, 0, command, field_count] @ replicate 12 0"

lemma emits_admin_header [emit_intros]: "emits (as_admin_write_header command n) (admin_header_wire command n)"
proof (rule emitsI)
  fix pre old post :: "byte list"
  assume len: "length old = length (admin_header_wire command n)"
  have z: "replicate 16 0 = [0, 0] @ [0] @ [0 :: byte] @ replicate 12 0"
    by (simp add: eval_nat_numeral)
  have "mem_write (pre @ old @ post) (length pre) (replicate 16 0) = Some (pre @ replicate 16 0 @ post)"
    using len by (intro mem_write_append) (simp add: admin_header_wire_def)
  moreover have "mem_write ((pre @ [0, 0]) @ [0] @ ([0] @ replicate 12 0 @ post)) (length (pre @ [0, 0 :: byte])) [command] =
      Some ((pre @ [0, 0]) @ [command] @ ([0] @ replicate 12 0 @ post))"
    by (rule mem_write_append) simp
  moreover have "mem_write ((pre @ [0, 0, command]) @ [0] @ (replicate 12 0 @ post)) (length (pre @ [0, 0, command :: byte])) [n] =
      Some ((pre @ [0, 0, command]) @ [n] @ (replicate 12 0 @ post))"
    by (rule mem_write_append) simp
  ultimately show "as_admin_write_header command n (pre @ old @ post) (length pre) =
      Some (pre @ admin_header_wire command n @ post, length pre + length (admin_header_wire command n))"
    unfolding as_admin_write_header_def HEADER_REMAINING_def z by (simp add: admin_header_wire_def eval_nat_numeral)
qed

lemma emits_admin_field [emit_intros]: "emits (as_admin_write_field_string h fid val) (admin_field_wire fid val)"
proof (rule emitsI)
  fix pre old post :: "byte list"
  assume len: "length old = length (admin_field_wire fid val)"
  define n where "n = length (c_str val)"
  obtain a b c where old: "old = a @ b @ c" "length a = 4" "length b = 1" "length c = n"
  proof
    show "old = take 4 old @ take 1 (drop 4 old) @ drop 5 old"
      by (metis add.commute append_take_drop_id drop_drop numeral_plus_one semiring_norm(5))
  qed (use len in \<open>simp_all add: admin_field_wire_def n_def\<close>)
  have w1: "mem_write ((pre @ a @ b) @ c @ post) (length (pre @ a @ b)) (c_str val) = Some ((pre @ a @ b) @ c_str val @ post)"
    using old(4) by (intro mem_write_append) (simp add: n_def)
  have w2: "mem_write (pre @ a @ (b @ c_str val @ post)) (length pre) (be32 w) = Some (pre @ be32 w @ (b @ c_str val @ post))" for w
    using old(2) by (intro mem_write_append) simp
  have w3: "mem_write ((pre @ be32 w) @ b @ (c_str val @ post)) (length (pre @ be32 w)) [fid] =
      Some ((pre @ be32 w) @ [fid] @ (c_str val @ post))" for w
    using old(3) by (intro mem_write_append) simp
  show "as_admin_write_field_string h fid val (pre @ old @ post) (length pre) =
      Some (pre @ admin_field_wire fid val @ post, length pre + length (admin_field_wire fid val))"
    using w1 w2 w3 old
    by (simp add: as_admin_write_field_string_def as_admin_write_field_header_def admin_field_wire_def FIELD_HEADER_SIZE_def Let_def)
qed

definition authenticate_wire :: "byte list \<Rightarrow> byte list \<Rightarrow> byte list" where
  "authenticate_wire user credential =
     admin_header_wire AUTHENTICATE 2 @ admin_field_wire USER user @ admin_field_wire CREDENTIAL credential"

text \<open>The message fits its buffer exactly when its bytes do; nothing in the code checks it.\<close>

lemma authenticate_message_fits:
  assumes "8 + length (authenticate_wire user credential) \<le> length buffer"
  shows "authenticate_message h buffer user credential =
    Some (take 8 buffer @ authenticate_wire user credential @ drop (8 + length (authenticate_wire user credential)) buffer,
      8 + length (authenticate_wire user credential))"
proof -
  have "authenticate_message h buffer user credential =
      seq (as_admin_write_header AUTHENTICATE 2)
        (seq (as_admin_write_field_string h USER user) (as_admin_write_field_string h CREDENTIAL credential)) buffer 8"
    by (simp add: authenticate_message_def seq_bind case_prod_unfold)
  moreover have "emits (seq (as_admin_write_header AUTHENTICATE 2)
        (seq (as_admin_write_field_string h USER user) (as_admin_write_field_string h CREDENTIAL credential)))
      (authenticate_wire user credential)"
    unfolding authenticate_wire_def by (intro emit_intros)
  ultimately show ?thesis
    using emits_within assms by simp
qed

end
