(* ===== verification/Info.thy ===== *)
theory Info
  imports Admin CommandParse Base64
begin

text \<open>
  Information requests, \<^verbatim>\<open>as_info.c\<close>: a request is a list of names, one per line, and the answer one line
  \<^verbatim>\<open>name TAB value\<close> for each.  The parsers work in the buffer of the answer and end the strings they find with zero bytes;
  a string is the offset of its first byte.  A read behind the buffer is nothing.
\<close>

definition AEROSPIKE_ERR_SERVER :: int where "AEROSPIKE_ERR_SERVER = 1"

text \<open>The loops \<^verbatim>\<open>while (*p && ...) p++\<close>: the offset of the next byte that is zero or wanted.\<close>

function scan :: "(byte \<Rightarrow> bool) \<Rightarrow> byte mem \<Rightarrow> nat \<Rightarrow> nat option" where
  "scan wanted buf p =
     (if p < length buf then (if buf ! p = 0 \<or> wanted (buf ! p) then Some p else scan wanted buf (Suc p)) else None)"
  by pat_completeness auto
termination
  by (relation "measure (\<lambda>(_, buf, p). length buf - p)") auto

declare scan.simps [simp del]

lemma scan_bounds: "scan wanted buf p = Some q \<Longrightarrow> p \<le> q \<and> q < length buf \<and> (buf ! q = 0 \<or> wanted (buf ! q))"
proof (induction wanted buf p rule: scan.induct)
  case (1 wanted buf p)
  from 1(2) have "p < length buf"
    by (subst (asm) scan.simps) (simp split: if_splits)
  with 1(2) show ?case
    using 1(1) by (subst (asm) scan.simps) (fastforce split: if_splits)
qed

text \<open>The string at an offset; it has to end in the buffer.\<close>

definition str_at :: "byte mem \<Rightarrow> nat \<Rightarrow> byte list option" where
  "str_at buf p = (if 0 \<in> set (drop p buf) then Some (c_str (drop p buf)) else None)"


subsection \<open>Answers\<close>

definition as_info_parse_single_response :: "byte mem \<Rightarrow> nat \<Rightarrow> (int \<times> byte mem \<times> nat option) option" where
  "as_info_parse_single_response buf values = do {
     t \<leftarrow> scan (\<lambda>b. b = 9) buf values;
     if buf ! t = 0 then Some (AEROSPIKE_ERR_CLIENT, buf, None)
     else do {
       e \<leftarrow> scan (\<lambda>b. b = 10) buf (t + 1);
       if buf ! e = 0 then Some (AEROSPIKE_ERR_CLIENT, buf, Some (t + 1))
       else Some (AEROSPIKE_OK, buf[e := 0], Some (t + 1)) } }"

function parse_multi_loop :: "byte mem \<Rightarrow> nat \<Rightarrow> nat \<Rightarrow> (nat \<times> nat) list \<Rightarrow> (byte mem \<times> (nat \<times> nat) list) option" where
  "parse_multi_loop buf start p values =
     (case scan (\<lambda>b. b = 9 \<or> b = 10) buf p of
        None \<Rightarrow> None
      | Some p \<Rightarrow>
          if buf ! p = 0 then Some (buf, if p > start then values @ [(start, p)] else values)
          else if buf ! p = 9 then
            (let buf = buf[p := 0] in
             case scan (\<lambda>b. b = 10) buf (p + 1) of
               None \<Rightarrow> None
             | Some e \<Rightarrow> parse_multi_loop (buf[e := 0]) (e + 1) (e + 1) (values @ [(start, p + 1)]))
          else
            parse_multi_loop (buf[p := 0]) (p + 1) (p + 1) (if p > start then values @ [(start, p)] else values))"
  by pat_completeness auto
termination
  by (relation "measure (\<lambda>(buf, _, p, _). length buf - p)") (auto dest!: scan_bounds)

declare parse_multi_loop.simps [simp del]

definition as_info_parse_multi_response :: "byte mem \<Rightarrow> nat \<Rightarrow> (byte mem \<times> (nat \<times> nat) list) option" where
  "as_info_parse_multi_response buf p = parse_multi_loop buf p p []"


subsection \<open>Errors in answers\<close>

text \<open>The code and the offset of the message.\<close>

definition as_info_parse_error :: "byte mem \<Rightarrow> nat \<Rightarrow> (int \<times> byte mem \<times> nat option) option" where
  "as_info_parse_error buf start = do {
     e \<leftarrow> scan (\<lambda>b. b = 58) buf start;
     if buf ! e = 0 then Some (AEROSPIKE_ERR_SERVER, buf, None)
     else do {
       let buf = buf[e := 0];
       digits \<leftarrow> str_at buf start;
       let rc = atoi digits;
       if rc = 0 then Some (AEROSPIKE_ERR_SERVER, buf, None)
       else do {
         n \<leftarrow> scan (\<lambda>b. b = 10) buf (e + 1);
         Some (rc, buf[n := 0], Some (e + 1)) } } }"

text \<open>\<^verbatim>\<open>strstr\<close>: the offset of the first occurrence in a string.\<close>

fun strstr :: "byte list \<Rightarrow> byte list \<Rightarrow> nat option" where
  "strstr [] w = (if w = [] then Some 0 else None)"
| "strstr (c # s) w = (if take (length w) (c # s) = w then Some 0 else map_option Suc (strstr s w))"

text \<open>The length of the message without its newline is computed in 32 bits.\<close>

definition as_info_decode_error :: "byte mem \<Rightarrow> nat \<Rightarrow> byte mem option" where
  "as_info_decode_error buf start = do {
     s \<leftarrow> str_at buf start;
     case strstr s (ascii ''message='') of
       None \<Rightarrow> Some buf
     | Some k \<Rightarrow> do {
         let msg = start + k + 8;
         m \<leftarrow> str_at buf msg;
         let src_len = (of_nat (length m) - 1 :: u32);
         r \<leftarrow> cf_b64_validate_and_decode_in_place (drop msg buf) (unat src_len);
         case r of
           None \<Rightarrow> Some buf
         | Some (out, trg_len) \<Rightarrow> mem_write (take msg buf @ out) (msg + trg_len) [0] } }"

definition starts_with :: "byte mem \<Rightarrow> nat \<Rightarrow> byte list \<Rightarrow> bool" where
  "starts_with buf p w \<longleftrightarrow> take (length w) (c_str (drop p buf)) = w"

function validate_loop :: "byte mem \<Rightarrow> nat \<Rightarrow> (int \<times> byte mem \<times> nat option) option" where
  "validate_loop buf p =
     (case scan (\<lambda>b. b = 9) buf p of
        None \<Rightarrow> None
      | Some t \<Rightarrow>
          if buf ! t = 0 then Some (AEROSPIKE_OK, buf, None)
          else if starts_with buf (t + 1) (ascii ''ERROR:'') then as_info_parse_error buf (t + 1 + 6)
          else if starts_with buf (t + 1) (ascii ''FAIL:'') then as_info_parse_error buf (t + 1 + 5)
          else if starts_with buf (t + 1) (ascii ''error='') then
            map_option (\<lambda>buf. (AEROSPIKE_ERR_UDF, buf, Some (t + 1))) (as_info_decode_error buf (t + 1 + 6))
          else validate_loop buf (t + 1))"
  by pat_completeness auto
termination
  by (relation "measure (\<lambda>(buf, p). length buf - p)") (auto dest!: scan_bounds)

declare validate_loop.simps [simp del]

definition as_info_validate :: "byte mem \<Rightarrow> (int \<times> byte mem \<times> nat option) option" where
  "as_info_validate response =
     (if starts_with response 0 (ascii ''ERROR:'') then as_info_parse_error response 6 else validate_loop response 0)"


subsection \<open>Requests\<close>

definition AS_INFO_MESSAGE_VERSION :: u64 where "AS_INFO_MESSAGE_VERSION = 2"
definition AS_INFO_MESSAGE_TYPE :: u64 where "AS_INFO_MESSAGE_TYPE = 1"

text \<open>
  The names are changed in place unless they are sent as they are; a missing newline is added.  The result is the
  status, the error, the answer if there is one, and the connection.
\<close>

definition request_names :: "byte list \<Rightarrow> bool \<Rightarrow> byte list" where
  "request_names names send_asis =
     (if send_asis then c_str names else map (\<lambda>c. if c = 59 \<or> c = 58 \<or> c = 44 then 10 else c) (c_str names))"

definition info_request :: "host \<Rightarrow> byte list option \<Rightarrow> bool \<Rightarrow> byte list" where
  "info_request h names send_asis =
     (let body = (case names of None \<Rightarrow> [] | Some s \<Rightarrow>
                    (let s = request_names s send_asis in if s \<noteq> [] \<and> last s \<noteq> 10 then s @ [10] else s));
          proto = of_nat (length body) OR push_bit 56 AS_INFO_MESSAGE_VERSION OR push_bit 48 AS_INFO_MESSAGE_TYPE in
      store64 h (cf_swap_to_be64 h proto) @ body)"

definition as_info_command ::
  "errno_codes \<Rightarrow> host \<Rightarrow> as_error \<Rightarrow> sock \<Rightarrow> byte list option \<Rightarrow> bool \<Rightarrow> u64 \<Rightarrow> u64 \<Rightarrow> u64 \<Rightarrow>
   (int \<times> as_error \<times> byte mem option \<times> sock) outcome" where
  "as_info_command ec h err s names send_asis now deadline max_response_length =
     outcome_bind (as_socket_write_deadline ec err s (info_request h names send_asis) now deadline) (\<lambda>(status, err, s).
     if status \<noteq> AEROSPIKE_OK then Done (status, err, None, s)
     else
       outcome_bind (as_socket_read_deadline ec err s 8 deadline) (\<lambda>(status, err, got, s).
       if status \<noteq> AEROSPIKE_OK then Done (status, err, None, s)
       else
         let sz = proto_sz (as_proto_swap_from_be h (proto_fields h got)) in
         if sz = 0 then Done (status, err, None, s)
         else if max_response_length > 0 \<and> sz > max_response_length then
           outcome_bind (as_socket_read_deadline ec err s 100 deadline) (\<lambda>(status, err, got, s).
           if status \<noteq> AEROSPIKE_OK then Done (status, err, None, s)
           else
             let (status, err) = as_error_update err AEROSPIKE_ERR_CLIENT
                   ''Info request '%s' failed. Response buffer length %lu is excessive. Buffer: %s'' [uint sz] in
             Done (status, err, None, s))
         else
           outcome_bind (as_socket_read_deadline ec err s (unat sz) deadline) (\<lambda>(status, err, got, s).
           if status \<noteq> AEROSPIKE_OK then Done (status, err, None, s)
           else
             outcome_bind (lift_opt (as_info_validate (got @ [0]))) (\<lambda>(status, response, error).
             if status \<noteq> AEROSPIKE_OK then
               (case error of
                  None \<Rightarrow> Fault
                | Some e \<Rightarrow> outcome_bind (lift_opt (str_at response e)) (\<lambda>msg.
                    Done (status, snd (as_error_set_message err status msg), None, s)))
             else Done (status, err, Some response, s)))))"

text \<open>
  A request on a connection of its own, which the system opens or does not; authentication comes first on a secured cluster.
\<close>

definition as_info_command_host ::
  "errno_codes \<Rightarrow> host \<Rightarrow> byte mem \<Rightarrow> (byte list \<times> byte list option) option \<Rightarrow> as_error \<Rightarrow> int \<times> sock \<Rightarrow> byte list \<Rightarrow> bool \<Rightarrow> u64 \<Rightarrow> u64 \<Rightarrow>
   (int \<times> as_error \<times> byte mem option) outcome" where
  "as_info_command_host ec h stack login err opened command send_asis now deadline =
     (if fst opened \<noteq> AEROSPIKE_OK then Done (fst opened, err, None)
      else
        outcome_bind (case login of
            None \<Rightarrow> Done (AEROSPIKE_OK, err, snd opened)
          | Some (user, None) \<Rightarrow> Fault
          | Some (user, Some password) \<Rightarrow> as_authenticate ec h stack err (snd opened) user password now deadline) (\<lambda>(status, err, s).
        if status \<noteq> AEROSPIKE_OK then Done (status, err, None)
        else
          outcome_bind (as_info_command ec h err s (Some command) send_asis now deadline 0) (\<lambda>(status, err, response, s).
          Done (status, err, response))))"

end
