(* ===== verification/InfoProps.thy ===== *)
theory InfoProps
  imports Info CommandExecProps
begin

text \<open>
  What the parsers of \<^verbatim>\<open>as_info.c\<close> make of an answer: every well-formed one is split into its names and values; an answer whose
  last line does not end makes the parser leave its buffer, and some reports of a failure make the client crash.
\<close>

definition plain :: "byte list \<Rightarrow> bool" where
  "plain s \<longleftrightarrow> 0 \<notin> set s \<and> 9 \<notin> set s \<and> 10 \<notin> set s"

lemma scan_found:
  assumes "\<forall>b \<in> set xs. b \<noteq> 0 \<and> \<not> wanted b" and "c = 0 \<or> wanted c"
  shows "scan wanted (pre @ xs @ c # post) (length pre) = Some (length pre + length xs)"
  using assms(1)
proof (induction xs arbitrary: pre)
  case Nil
  then show ?case
    using assms(2) by (subst scan.simps) simp
next
  case (Cons x xs)
  from Cons(1) [of "pre @ [x]"] Cons(2)
  have "scan wanted (pre @ x # xs @ c # post) (Suc (length pre)) = Some (Suc (length pre + length xs))"
    by simp
  with Cons(2) show ?case
    by (subst scan.simps) simp
qed

lemma scan_off:
  assumes "\<forall>b \<in> set xs. b \<noteq> 0 \<and> \<not> wanted b"
  shows "scan wanted (pre @ xs) (length pre) = None"
  using assms
proof (induction xs arbitrary: pre)
  case Nil
  then show ?case
    by (subst scan.simps) simp
next
  case (Cons x xs)
  from Cons(1) [of "pre @ [x]"] Cons(2) have "scan wanted (pre @ x # xs) (Suc (length pre)) = None"
    by simp
  with Cons(2) show ?case
    by (subst scan.simps) simp
qed

lemma str_at_found: "0 \<notin> set s \<Longrightarrow> str_at (pre @ s @ 0 # post) (length pre) = Some s"
  by (induction s arbitrary: pre) (auto simp: str_at_def c_str_def)


subsection \<open>Lines\<close>

definition line_wire :: "byte list \<times> byte list \<Rightarrow> byte list" where
  "line_wire l = fst l @ 9 # snd l @ [10]"

definition line_split :: "byte list \<times> byte list \<Rightarrow> byte list" where
  "line_split l = fst l @ 0 # snd l @ [0]"

fun line_offsets :: "nat \<Rightarrow> (byte list \<times> byte list) list \<Rightarrow> (nat \<times> nat) list" where
  "line_offsets p [] = []"
| "line_offsets p (l # ls) = (p, p + length (fst l) + 1) # line_offsets (p + length (line_wire l)) ls"

lemma length_line_split: "length (line_split l) = length (line_wire l)"
  by (simp add: line_split_def line_wire_def)

lemma multi_step:
  assumes "plain n" and "plain v"
  shows "parse_multi_loop (pre @ line_wire (n, v) @ post) (length pre) (length pre) vs =
    parse_multi_loop (pre @ line_split (n, v) @ post) (length pre + length (line_wire (n, v))) (length pre + length (line_wire (n, v)))
      (vs @ [(length pre, length pre + length n + 1)])"
proof -
  have "scan (\<lambda>b. b = 9 \<or> b = 10) (pre @ n @ 9 # (v @ [10] @ post)) (length pre) = Some (length pre + length n)"
    using assms(1) by (intro scan_found) (auto simp: plain_def)
  moreover have "scan (\<lambda>b. b = 10) ((pre @ n @ [0]) @ v @ 10 # post) (length (pre @ n @ [0])) = Some (length (pre @ n @ [0]) + length v)"
    using assms(2) by (intro scan_found) (auto simp: plain_def)
  ultimately show ?thesis
    by (subst parse_multi_loop.simps)
      (simp add: line_wire_def line_split_def Let_def nth_append list_update_append add.assoc)
qed

lemma multi_lines:
  assumes "\<forall>l \<in> set ls. plain (fst l) \<and> plain (snd l)"
  shows "parse_multi_loop (pre @ concat (map line_wire ls) @ 0 # post) (length pre) (length pre) vs =
    Some (pre @ concat (map line_split ls) @ 0 # post, vs @ line_offsets (length pre) ls)"
  using assms
proof (induction ls arbitrary: pre vs)
  case Nil
  have "scan (\<lambda>b. b = 9 \<or> b = 10) (pre @ 0 # post) (length pre) = Some (length pre)"
    using scan_found [of "[]" _ 0 pre post] by simp
  then show ?case
    by (subst parse_multi_loop.simps) simp
next
  case (Cons l ls)
  from Cons(2) have l: "plain (fst l)" "plain (snd l)" and ls: "\<forall>l \<in> set ls. plain (fst l) \<and> plain (snd l)"
    by auto
  show ?case
    using multi_step [OF l, of pre "concat (map line_wire ls) @ 0 # post" vs] Cons(1) [OF ls, of "pre @ line_split l"]
    by (simp add: length_line_split add.assoc)
qed

lemma offsets_strings:
  assumes "\<forall>l \<in> set ls. plain (fst l) \<and> plain (snd l)"
  shows "map (\<lambda>(n, v). (str_at (pre @ concat (map line_split ls) @ post) n, str_at (pre @ concat (map line_split ls) @ post) v))
      (line_offsets (length pre) ls) = map (\<lambda>(n, v). (Some n, Some v)) ls"
  using assms
proof (induction ls arbitrary: pre)
  case (Cons l ls)
  obtain n v where l: "l = (n, v)"
    by (cases l)
  have w: "line_split l = n @ 0 # v @ [0]" "length (line_wire l) = length n + length v + 2"
    by (simp_all add: l line_split_def line_wire_def)
  have "str_at (pre @ n @ 0 # (v @ [0] @ concat (map line_split ls) @ post)) (length pre) = Some n"
    using Cons(2) by (intro str_at_found) (auto simp: l plain_def)
  moreover have "str_at ((pre @ n @ [0]) @ v @ 0 # (concat (map line_split ls) @ post)) (length (pre @ n @ [0])) = Some v"
    using Cons(2) by (intro str_at_found) (auto simp: l plain_def)
  ultimately show ?case
    using Cons(1) [of "pre @ line_split l"] Cons(2)
    by (simp add: w add.assoc) (simp add: l)
qed simp

text \<open>
  C37.  Every answer made of lines with a name, a tab and a value is split into exactly these names and values, in order,
  whatever follows its end in the buffer, and the buffer keeps its length.
\<close>

theorem info_lines_split:
  assumes "\<forall>l \<in> set ls. plain (fst l) \<and> plain (snd l)"
  shows "\<exists>buf vs. as_info_parse_multi_response (concat (map line_wire ls) @ 0 # rest) 0 = Some (buf, vs) \<and>
    map (\<lambda>(n, v). (str_at buf n, str_at buf v)) vs = map (\<lambda>(n, v). (Some n, Some v)) ls \<and>
    length buf = length (concat (map line_wire ls) @ 0 # rest)"
proof -
  have "length (concat (map line_split ls)) = length (concat (map line_wire ls))"
    by (induction ls) (simp_all add: length_line_split)
  then show ?thesis
    using multi_lines [OF assms, of "[]" rest "[]"] offsets_strings [OF assms, of "[]" "0 # rest"]
    by (auto simp: as_info_parse_multi_response_def)
qed

theorem info_lines_split_witness:
  "\<exists>buf vs. as_info_parse_multi_response (ascii ''node'' @ 9 # ascii ''B1'' @ [10] @ [0, 7]) 0 = Some (buf, vs) \<and>
    map (\<lambda>(n, v). (str_at buf n, str_at buf v)) vs = [(Some (ascii ''node''), Some (ascii ''B1''))]"
proof -
  have "\<forall>l \<in> set [(ascii ''node'', ascii ''B1'')]. plain (fst l) \<and> plain (snd l)"
    by (simp add: plain_def ascii_def)
  from info_lines_split [OF this, of "[7]"] show ?thesis
    by (auto simp: line_wire_def)
qed

text \<open>
  C38.  An answer whose last line has a value but does not end with a newline takes the parser behind the zero byte that ends the
  buffer: it goes on reading there, outside the memory it was given.
\<close>

theorem info_overrun:
  assumes "plain n" and "plain v" and "\<forall>l \<in> set ls. plain (fst l) \<and> plain (snd l)"
  shows "as_info_parse_multi_response (concat (map line_wire ls) @ n @ 9 # v @ [0]) 0 = None"
proof -
  have step: "parse_multi_loop (pre @ n @ 9 # v @ [0]) (length pre) (length pre) vs = None" for pre vs
  proof -
    have "scan (\<lambda>b. b = 9 \<or> b = 10) (pre @ n @ 9 # (v @ [0])) (length pre) = Some (length pre + length n)"
      using assms(1) by (intro scan_found) (auto simp: plain_def)
    moreover have "scan (\<lambda>b. b = 10) ((pre @ n @ [0]) @ v @ 0 # []) (length (pre @ n @ [0])) = Some (length (pre @ n @ [0]) + length v)"
      using assms(2) by (intro scan_found) (auto simp: plain_def)
    moreover have "scan (\<lambda>b. b = 9 \<or> b = 10) ((pre @ n @ [0] @ v @ [0]) @ []) (length (pre @ n @ [0] @ v @ [0])) = None"
      by (intro scan_off) simp
    ultimately show ?thesis
      by (subst parse_multi_loop.simps, simp add: Let_def nth_append list_update_append add.assoc, subst parse_multi_loop.simps, simp)
  qed
  have "parse_multi_loop (pre @ concat (map line_wire ls) @ n @ 9 # v @ [0]) (length pre) (length pre) vs = None" for pre vs
    using assms(3)
  proof (induction ls arbitrary: pre vs)
    case Nil
    then show ?case
      using step by simp
  next
    case (Cons l ls)
    then show ?case
      using multi_step [of "fst l" "snd l" pre "concat (map line_wire ls) @ n @ 9 # v @ [0]" vs]
        Cons(1) [of "pre @ line_split l"]
      by (simp add: length_line_split add.assoc)
  qed
  from this [of "[]" "[]"] show ?thesis
    by (simp add: as_info_parse_multi_response_def)
qed

theorem info_overrun_witness:
  "as_info_parse_multi_response (ascii ''node'' @ 9 # ascii ''B1'' @ [0]) 0 = None"
  using info_overrun [of "ascii ''node''" "ascii ''B1''" "[]"] by (simp add: plain_def ascii_def)


subsection \<open>Failures\<close>

lemma c_str_prefix: "0 \<notin> set w \<Longrightarrow> c_str (w @ s) = w @ c_str s"
  by (induction w) (auto simp: c_str_def)

lemma fail_message_missing:
  assumes n: "plain n" "take 6 n \<noteq> ascii ''ERROR:''" and msg: "0 \<notin> set msg" "58 \<notin> set msg"
  shows "as_info_validate (n @ 9 # ascii ''FAIL:'' @ msg @ [0]) =
    Some (AEROSPIKE_ERR_SERVER, n @ 9 # ascii ''FAIL:'' @ msg @ [0], None)"
proof -
  define fail where "fail = ascii ''FAIL:''"
  define buf where "buf = n @ 9 # fail @ msg @ [0 :: byte]"
  have fail: "0 \<notin> set fail" "length fail = 5" "take 6 (fail @ x) \<noteq> ascii ''ERROR:''" "9 \<notin> set (ascii ''ERROR:'')"
    "length (ascii ''ERROR:'') = 6" for x
    by (simp_all add: fail_def ascii_def)
  have tab: "scan (\<lambda>b. b = 9) buf 0 = Some (length n)"
    using scan_found [of n "\<lambda>b. b = 9" 9 "[]"] n(1) by (auto simp: buf_def plain_def)
  have tail: "c_str (drop (Suc (length n)) buf) = fail @ msg"
    using fail msg(1) c_str_prefix [of "fail @ msg" "[0]"] by (simp add: buf_def c_str_def)
  have starts: "starts_with buf (length n + 1) (ascii ''FAIL:'')" "\<not> starts_with buf (length n + 1) (ascii ''ERROR:'')"
    using fail by (simp_all add: starts_with_def tail fail_def [symmetric])
  have colon: "scan (\<lambda>b. b = 58) buf (length n + 1 + 5) = Some (length (n @ 9 # fail) + length msg)"
  proof -
    have "scan (\<lambda>b. b = 58) ((n @ 9 # fail) @ msg @ 0 # []) (length (n @ 9 # fail)) = Some (length (n @ 9 # fail) + length msg)"
      by (rule scan_found) (use msg in auto)
    then show ?thesis
      by (simp add: buf_def fail(2) add.commute [of _ 6])
  qed
  have whole: "c_str buf = n @ 9 # fail @ msg"
    using c_str_prefix [of "n @ 9 # fail @ msg" "[0]"] n(1) fail msg(1) by (simp add: buf_def plain_def c_str_def)
  have "\<not> starts_with buf 0 (ascii ''ERROR:'')"
  proof
    assume "starts_with buf 0 (ascii ''ERROR:'')"
    then have e: "take 6 n @ take (6 - length n) (9 # fail @ msg) = ascii ''ERROR:''"
      by (simp add: starts_with_def whole fail(5))
    then have "9 \<notin> set (take (6 - length n) (9 # fail @ msg))"
      by (metis Un_iff fail(4) set_append)
    then have "6 - length n = 0"
      by (cases "6 - length n") simp_all
    with e n(2) show False
      by simp
  qed
  moreover have "buf ! (length n) = 9" "buf ! (length (n @ 9 # fail) + length msg) = 0"
    by (simp_all add: buf_def nth_append)
  ultimately show ?thesis
    using tab starts colon unfolding fail_def [symmetric] buf_def [symmetric]
    by (simp add: as_info_validate_def validate_loop.simps [of buf 0] as_info_parse_error_def fail_def [symmetric])
qed

text \<open>
  C39.  A server that reports a failure as a text without a code makes the client crash: the parser answers with a null pointer
  for the message, and \<^verbatim>\<open>as_info_command\<close> copies the message from there.
\<close>

theorem info_failure_crashes:
  assumes "as_socket_write_deadline ec err s (info_request h names send_asis) now dl = Done (AEROSPIKE_OK, err, s1)"
    and "delivers ec err dl s1 (proto_wire \<lparr> proto_version = 2, proto_type = 1, proto_sz = of_nat (length body) \<rparr>) s2"
    and "delivers ec err dl s2 body s3" and "length body < 2 ^ 48"
    and "body = n @ 9 # ascii ''FAIL:'' @ msg" and "plain n" and "take 6 n \<noteq> ascii ''ERROR:''" and "0 \<notin> set msg" and "58 \<notin> set msg"
  shows "as_info_command ec h err s names send_asis now dl 0 = Fault"
proof -
  have "0 < length body"
    using assms(5) by simp
  then have len: "unat (of_nat (length body) :: u64) = length body" "(of_nat (length body) :: u64) \<noteq> 0"
    "take_bit 48 (of_nat (length body) :: u64) = of_nat (length body)"
    using assms(4) by (simp_all add: unat_of_nat word_unat_eq_iff unsigned_take_bit_eq take_bit_nat_eq_self)
  have "as_info_validate (body @ [0]) = Some (AEROSPIKE_ERR_SERVER, body @ [0], None)"
    using fail_message_missing [OF assms(6-9)] assms(5) by simp
  moreover have "length (proto_wire \<lparr> proto_version = 2, proto_type = 1, proto_sz = of_nat (length body) \<rparr>) = 8"
    by (simp add: proto_wire_def)
  ultimately show ?thesis
    using assms(1-3) len
    by (simp add: as_info_command_def delivers_def proto_from_wire' Let_def lift_opt_def AEROSPIKE_ERR_SERVER_def AEROSPIKE_OK_def)
qed

theorem info_failure_crashes_witness:
  "as_info_command some_errnos Big_Endian as_error_reset
     (quick_sock (proto_wire \<lparr> proto_version = 2, proto_type = 1, proto_sz = 8 \<rparr> @ [110, 9] @ ascii ''FAIL:'' @ [120]) [quick_turn, quick_turn, quick_turn])
     (Some [110]) True 0 9 0 = Fault"
proof -
  define body where "body = [110, 9] @ ascii ''FAIL:'' @ [120 :: byte]"
  define hdr where "hdr = proto_wire \<lparr> proto_version = 2, proto_type = 1, proto_sz = of_nat (length body) \<rparr>"
  define s where "s = quick_sock (hdr @ body) [quick_turn, quick_turn, quick_turn]"
  have b: "length body = 8" "length hdr = 8" "body = [110] @ 9 # ascii ''FAIL:'' @ [120]"
    by (simp_all add: body_def hdr_def ascii_def)
  have req: "info_request Big_Endian (Some [110]) True \<noteq> []" "length (info_request Big_Endian (Some [110]) True) \<le> 1000"
    by (simp_all add: info_request_def request_names_def c_str_def Let_def)
  have w: "as_socket_write_deadline some_errnos as_error_reset s (info_request Big_Endian (Some [110]) True) 0 9 =
      Done (AEROSPIKE_OK, as_error_reset, s\<lparr>sk_out := sk_out s @ info_request Big_Endian (Some [110]) True, sk_turns := [quick_turn, quick_turn]\<rparr>)"
    using req by (intro prompt_accepts) (simp_all add: s_def)
  define s1 where "s1 = s\<lparr>sk_out := sk_out s @ info_request Big_Endian (Some [110]) True, sk_turns := [quick_turn, quick_turn]\<rparr>"
  have s1: "prompt s1" "sk_in s1 = hdr @ body" "sk_turns s1 = [quick_turn, quick_turn]"
    by (simp_all add: s1_def s_def prompt_def quick_sock_def)
  have d1: "delivers some_errnos as_error_reset 9 s1 hdr (s1\<lparr>sk_in := body, sk_turns := [quick_turn]\<rparr>)"
    using s1 b(2) by (intro prompt_delivers) auto
  have d2: "delivers some_errnos as_error_reset 9 (s1\<lparr>sk_in := body, sk_turns := [quick_turn]\<rparr>) body
      (s1\<lparr>sk_in := body, sk_turns := [quick_turn]\<rparr>\<lparr>sk_in := [], sk_turns := []\<rparr>)"
    using s1 b(1) by (intro prompt_delivers) (auto simp: prompt_def)
  have "as_info_command some_errnos Big_Endian as_error_reset s (Some [110]) True 0 9 0 = Fault"
    by (rule info_failure_crashes [OF w [folded s1_def] d1 [unfolded hdr_def] d2 _ b(3)]) (simp_all add: plain_def ascii_def b(1))
  then show ?thesis
    unfolding s_def hdr_def b(1) unfolding body_def by simp
qed

end
