(* ===== verification/AsNode.thy ===== *)
theory AsNode
  imports Info Counted CfQueueProps
begin

text \<open>
  Nodes of the cluster, \<^verbatim>\<open>as_node.c\<close> and \<^verbatim>\<open>as_node.h\<close>: their pool of connections, the connection for information
  requests, and reference counts.  A connection is a socket, the pool a \<^verbatim>\<open>cf_queue\<close> of them.  What the system answers is in the
  records \<open>net\<close> and \<open>open_env\<close>; operations that close connections return these in a list.
\<close>

type_synonym sockaddr = "u32 \<times> u16"

definition AS_NODE_NAME_SIZE :: nat where "AS_NODE_NAME_SIZE = 20"
definition AEROSPIKE_ERR_CLUSTER :: int where "AEROSPIKE_ERR_CLUSTER = 11"

record as_node =
  ref_count :: u32
  partition_generation :: u32
  node_name :: "byte list"
  address_index :: u32
  addresses :: "sockaddr list"
  conn_q :: "sock cf_queue"
  info_fd :: "sock option"
  node_friends :: u32
  node_failures :: u32
  node_active :: bool

text \<open>
  The system: its error codes, the result and error code of \<^verbatim>\<open>recv\<close> with \<^verbatim>\<open>MSG_PEEK\<close> on a connection, whether the code for HP-UX and
  AIX is compiled in, the byte order, and the old content of stack buffers.
\<close>

record net =
  net_errnos :: errno_codes
  net_ebadf :: int
  net_peek :: "sock \<Rightarrow> int \<times> int"
  net_peek_sets_flags :: bool
  net_host :: host
  net_stack :: "byte mem"

text \<open>One attempt to open a connection: the socket, and what connecting it to each address of the node gives.\<close>

record open_env =
  oe_socket :: "sock option"
  oe_connect :: "nat \<Rightarrow> sock option"
  oe_now :: u64

text \<open>User and password hash, if the cluster is secured, and the connection timeout; a missing password is a null pointer.\<close>

record conn_conf =
  cc_login :: "(byte list \<times> byte list option) option"
  cc_timeout_ms :: u32


subsection \<open>Creation and destruction\<close>

definition as_node_add_address :: "as_node \<Rightarrow> sockaddr \<Rightarrow> as_node" where
  "as_node_add_address node addr = node\<lparr>addresses := addresses node @ [addr]\<rparr>"

definition as_node_create :: "byte list \<Rightarrow> sockaddr \<Rightarrow> as_node option" where
  "as_node_create name addr = do {
     q \<leftarrow> cf_queue_create True True True True True;
     Some (as_node_add_address
       \<lparr> ref_count = 1, partition_generation = 0xFFFFFFFF, node_name = name, address_index = 0, addresses = [],
         conn_q = q, info_fd = None, node_friends = 0, node_failures = 0, node_active = True \<rparr> addr) }"

text \<open>Emptying the pool; \<open>fuel\<close> bounds the passes of the loop.\<close>

fun drain :: "nat \<Rightarrow> sock cf_queue \<Rightarrow> sock list outcome" where
  "drain 0 q = Timeout"
| "drain (Suc fuel) q =
     (case cf_queue_pop q CF_QUEUE_NOWAIT [] of
        None \<Rightarrow> Fault
      | Some (Popped fd q) \<Rightarrow> outcome_bind (drain fuel q) (\<lambda>fds. Done (fd # fds))
      | Some _ \<Rightarrow> Done [])"

definition as_node_destroy :: "as_node \<Rightarrow> sock list outcome" where
  "as_node_destroy node =
     outcome_bind (drain (Suc (unat (CF_Q_SZ (conn_q node)))) (conn_q node)) (\<lambda>fds.
     Done (fds @ (case info_fd node of None \<Rightarrow> [] | Some fd \<Rightarrow> [fd])))"

definition as_node_deactivate :: "as_node \<Rightarrow> as_node" where
  "as_node_deactivate node = node\<lparr>node_active := False\<rparr>"

definition as_node_reserve :: "as_node heap \<Rightarrow> nat \<Rightarrow> as_node heap option" where
  "as_node_reserve h n = map_option (\<lambda>x. set_obj n (Some (x\<lparr>ref_count := ref_count x + 1\<rparr>)) h) (obj h n)"

text \<open>The node that has to be destroyed, if the count has reached zero.\<close>

definition as_node_release :: "as_node heap \<Rightarrow> nat \<Rightarrow> (as_node heap \<times> as_node option) option" where
  "as_node_release h n =
     (case obj h n of
        None \<Rightarrow> None
      | Some x \<Rightarrow>
          let x = x\<lparr>ref_count := ref_count x - 1\<rparr> in
          if ref_count x = 0 then Some (set_obj n None h, Some x) else Some (set_obj n (Some x) h, None))"

interpretation node_count: refcount ref_count as_node_reserve as_node_release
  by unfold_locales (auto simp: as_node_reserve_def as_node_release_def)


subsection \<open>Connections\<close>

definition CONNECTED :: int where "CONNECTED = 0"
definition CONNECTED_NOT :: int where "CONNECTED_NOT = 1"
definition CONNECTED_ERROR :: int where "CONNECTED_ERROR = 2"
definition CONNECTED_BADFD :: int where "CONNECTED_BADFD = 3"

lemmas connected_codes = CONNECTED_def CONNECTED_NOT_def CONNECTED_ERROR_def CONNECTED_BADFD_def

text \<open>On some systems the connection becomes nonblocking by being looked at.\<close>

definition peeked :: "net \<Rightarrow> sock \<Rightarrow> sock" where
  "peeked net s = (if net_peek_sets_flags net \<and> sk_setfl s then s\<lparr>sk_flags := map_option (\<lambda>_. True) (sk_flags s)\<rparr> else s)"

definition is_connected :: "net \<Rightarrow> sock \<Rightarrow> int" where
  "is_connected net s =
     (let (rv, e) = net_peek net s in
      if rv = 0 then CONNECTED_NOT
      else if rv < 0 then
        (if e = net_ebadf net then CONNECTED_BADFD
         else if e = ewouldblock (net_errnos net) \<or> e = eagain (net_errnos net) then CONNECTED
         else CONNECTED_ERROR)
      else CONNECTED)"

definition as_node_authenticate_connection :: "net \<Rightarrow> conn_conf \<Rightarrow> u64 \<Rightarrow> sock \<Rightarrow> (int \<times> sock option \<times> sock list) outcome" where
  "as_node_authenticate_connection net conf now fd =
     (case cc_login conf of
        None \<Rightarrow> Done (AEROSPIKE_OK, Some fd, [])
      | Some (user, None) \<Rightarrow> Fault
      | Some (user, Some password) \<Rightarrow>
          outcome_bind (as_authenticate (net_errnos net) (net_host net) (net_stack net) as_error_reset fd user password now
              (as_socket_deadline now (cc_timeout_ms conf))) (\<lambda>(status, err, fd).
          if status \<noteq> AEROSPIKE_OK then Done (status, None, [fd]) else Done (AEROSPIKE_OK, Some fd, [])))"

text \<open>The first of the other addresses that can be connected to.\<close>

fun connect_others :: "(nat \<Rightarrow> sock option) \<Rightarrow> nat list \<Rightarrow> (nat \<times> sock) option" where
  "connect_others connect [] = None"
| "connect_others connect (i # is) = (case connect i of Some fd \<Rightarrow> Some (i, fd) | None \<Rightarrow> connect_others connect is)"

text \<open>The status, the connection, the node and the closed connections.\<close>

type_synonym got_connection = "(int \<times> sock option \<times> as_node \<times> sock list) outcome"

definition as_node_create_connection :: "net \<Rightarrow> conn_conf \<Rightarrow> as_node \<Rightarrow> open_env \<Rightarrow> got_connection" where
  "as_node_create_connection net conf node e =
     (case oe_socket e of
        None \<Rightarrow> Done (AEROSPIKE_ERR_CLIENT, None, node, [])
      | Some fd \<Rightarrow>
          let primary = unat (address_index node);
              authenticate = (\<lambda>node fd. outcome_bind (as_node_authenticate_connection net conf (oe_now e) fd)
                (\<lambda>(status, fd, closed). Done (status, fd, node, closed))) in
          if length (addresses node) \<le> primary then Fault
          else (case oe_connect e primary of
              Some fd \<Rightarrow> authenticate node fd
            | None \<Rightarrow>
                (case connect_others (oe_connect e) (filter (\<lambda>i. i \<noteq> primary) [0..<length (addresses node)]) of
                   Some (i, fd) \<Rightarrow> authenticate (node\<lparr>address_index := of_nat i\<rparr>) fd
                 | None \<Rightarrow> Done (AEROSPIKE_ERR_CLUSTER, None, node, [fd]))))"

fun get_connection_loop :: "nat \<Rightarrow> net \<Rightarrow> conn_conf \<Rightarrow> as_node \<Rightarrow> sock list \<Rightarrow> open_env \<Rightarrow> got_connection" where
  "get_connection_loop 0 net conf node closed e = Timeout"
| "get_connection_loop (Suc fuel) net conf node closed e =
     (case cf_queue_pop (conn_q node) CF_QUEUE_NOWAIT [] of
        None \<Rightarrow> Fault
      | Some (Popped fd q) \<Rightarrow>
          let node = node\<lparr>conn_q := q\<rparr>; rv = is_connected net fd; fd = peeked net fd in
          if rv = CONNECTED then Done (0, Some fd, node, closed)
          else if rv = CONNECTED_BADFD then get_connection_loop fuel net conf node closed e
          else get_connection_loop fuel net conf node (closed @ [fd]) e
      | Some (Empty q) \<Rightarrow>
          outcome_bind (as_node_create_connection net conf (node\<lparr>conn_q := q\<rparr>) e) (\<lambda>(status, fd, node, more).
          Done (status, fd, node, closed @ more))
      | Some Blocked \<Rightarrow> Done (AEROSPIKE_ERR_CLIENT, None, node, closed))"

definition as_node_get_connection :: "net \<Rightarrow> conn_conf \<Rightarrow> as_node \<Rightarrow> open_env \<Rightarrow> got_connection" where
  "as_node_get_connection net conf node e = get_connection_loop (Suc (unat (CF_Q_SZ (conn_q node)))) net conf node [] e"

definition as_node_put_connection :: "as_node \<Rightarrow> sock \<Rightarrow> (as_node \<times> sock list) option" where
  "as_node_put_connection node fd = do {
     (q, ok) \<leftarrow> cf_queue_push_limit True (conn_q node) fd 300;
     Some (node\<lparr>conn_q := q\<rparr>, if ok then [] else [fd]) }"


subsection \<open>Information requests\<close>

definition as_node_get_info_connection :: "net \<Rightarrow> conn_conf \<Rightarrow> as_node \<Rightarrow> open_env \<Rightarrow> (int \<times> as_node \<times> sock list) outcome" where
  "as_node_get_info_connection net conf node e =
     (case info_fd node of
        Some _ \<Rightarrow> Done (0, node, [])
      | None \<Rightarrow> outcome_bind (as_node_create_connection net conf node e) (\<lambda>(status, fd, node, closed).
          Done (status, node\<lparr>info_fd := fd\<rparr>, closed)))"

definition as_node_close_info_connection :: "as_node \<Rightarrow> (as_node \<times> sock list)" where
  "as_node_close_info_connection node = (node\<lparr>info_fd := None\<rparr>, case info_fd node of None \<Rightarrow> [] | Some fd \<Rightarrow> [fd])"

definition INFO_STACK_BUF_SIZE :: nat where "INFO_STACK_BUF_SIZE = 16 * 1024"

text \<open>The answer with a zero byte behind it, in the stack buffer or in one of its own.\<close>

definition info_response :: "byte mem \<Rightarrow> byte list \<Rightarrow> byte mem" where
  "info_response stack_buf body =
     (if length body \<ge> INFO_STACK_BUF_SIZE then body @ [0] else body @ [0] @ drop (length body + 1) stack_buf)"

definition as_node_get_info :: "net \<Rightarrow> as_node \<Rightarrow> byte list \<Rightarrow> u32 \<Rightarrow> u64 \<Rightarrow> (byte mem option \<times> as_node) outcome" where
  "as_node_get_info net node names timeout_ms now =
     (case info_fd node of
        None \<Rightarrow> Fault
      | Some fd \<Rightarrow>
          let h = net_host net; ec = net_errnos net;
              request = proto_bytes h (as_proto_swap_to_be h \<lparr> proto_version = 2, proto_type = 1, proto_sz = of_nat (length names) \<rparr>) @ names;
              deadline = as_socket_deadline now timeout_ms in
          outcome_bind (lift_opt (mem_write (net_stack net) 0 request)) (\<lambda>stack_buf.
          outcome_bind (as_socket_write_deadline ec as_error_reset fd request now deadline) (\<lambda>(status, err, fd).
          if status \<noteq> 0 then Done (None, node\<lparr>info_fd := Some fd\<rparr>)
          else
            outcome_bind (as_socket_read_deadline ec err fd 8 deadline) (\<lambda>(status, err, got, fd).
            if status \<noteq> 0 then Done (None, node\<lparr>info_fd := Some fd\<rparr>)
            else
              let sz = proto_sz (as_proto_swap_from_be h (proto_fields h got)) in
              if sz = 0 \<or> sz > 512 * 1024 then Done (None, node\<lparr>info_fd := Some fd\<rparr>)
              else
                outcome_bind (as_socket_read_deadline ec err fd (unat sz) deadline) (\<lambda>(status, err, body, fd).
                if status \<noteq> 0 then Done (None, node\<lparr>info_fd := Some fd\<rparr>)
                else Done (Some (info_response (got @ drop 8 stack_buf) body), node\<lparr>info_fd := Some fd\<rparr>))))))"

text \<open>\<open>name\<close> is nothing for a null pointer.\<close>

definition as_node_verify_name :: "as_node \<Rightarrow> byte list option \<Rightarrow> bool \<times> as_node" where
  "as_node_verify_name node name =
     (case name of
        None \<Rightarrow> (False, node)
      | Some s \<Rightarrow>
          if s = [] then (False, node)
          else if node_name node \<noteq> s then (False, node\<lparr>node_active := False\<rparr>)
          else (True, node))"


subsection \<open>The pool\<close>

lemma drain_all: "q_rep q xs \<Longrightarrow> length xs < fuel \<Longrightarrow> drain fuel q = Done xs"
proof (induction fuel arbitrary: q xs)
  case (Suc fuel)
  show ?case
  proof (cases xs)
    case Nil
    then show ?thesis
      using Suc.prems by (simp add: pop_nowait)
  next
    case (Cons x ys)
    then obtain q' where "cf_queue_pop q CF_QUEUE_NOWAIT [] = Some (Popped x q')" "q_rep q' ys"
      using Suc.prems(1) by (auto simp: pop_nowait elim!: pop_elem_rep)
    with Suc Cons show ?thesis
      by simp
  qed
qed simp

lemma destroy_closes_all:
  assumes "q_rep (conn_q node) xs"
  shows "as_node_destroy node = Done (xs @ (case info_fd node of None \<Rightarrow> [] | Some fd \<Rightarrow> [fd]))"
proof -
  have "drain (Suc (unat (CF_Q_SZ (conn_q node)))) (conn_q node) = Done xs"
    using q_ring_sz(1) [OF q_rep_ring [OF assms]] by (intro drain_all [OF assms]) simp
  then show ?thesis
    by (simp add: as_node_destroy_def)
qed

definition alive :: "net \<Rightarrow> sock \<Rightarrow> bool" where
  "alive net fd \<longleftrightarrow> is_connected net fd = CONNECTED"

definition closable :: "net \<Rightarrow> sock \<Rightarrow> bool" where
  "closable net fd \<longleftrightarrow> is_connected net fd \<noteq> CONNECTED_BADFD"

lemma get_loop_rep:
  assumes "q_rep (conn_q node) xs" and "length xs < fuel"
  shows "\<exists>q. q_rep q (tl (dropWhile (\<lambda>fd. \<not> alive net fd) xs)) \<and>
    get_connection_loop fuel net conf node closed e =
      (let dead = closed @ map (peeked net) (filter (closable net) (takeWhile (\<lambda>fd. \<not> alive net fd) xs)) in
       case dropWhile (\<lambda>fd. \<not> alive net fd) xs of
         fd # _ \<Rightarrow> Done (0, Some (peeked net fd), node\<lparr>conn_q := q\<rparr>, dead)
       | [] \<Rightarrow> outcome_bind (as_node_create_connection net conf (node\<lparr>conn_q := q\<rparr>) e) (\<lambda>(status, fd, node, more).
           Done (status, fd, node, dead @ more)))"
  using assms
proof (induction fuel arbitrary: node xs closed)
  case (Suc fuel)
  show ?case
  proof (cases xs)
    case Nil
    then show ?thesis
      using Suc.prems by (intro exI [of _ "conn_q node"]) (simp add: pop_nowait)
  next
    case (Cons x ys)
    then obtain q' where q': "cf_queue_pop (conn_q node) CF_QUEUE_NOWAIT [] = Some (Popped x q')" "q_rep q' ys"
      using Suc.prems(1) by (auto simp: pop_nowait elim!: pop_elem_rep)
    show ?thesis
    proof (cases "alive net x")
      case True
      with q' Cons show ?thesis
        by (intro exI [of _ q']) (simp add: alive_def Let_def)
    next
      case False
      define dead where "dead = (if closable net x then [peeked net x] else [])"
      have step: "get_connection_loop (Suc fuel) net conf node closed e =
          get_connection_loop fuel net conf (node\<lparr>conn_q := q'\<rparr>) (closed @ dead) e"
        using False q' by (simp add: alive_def closable_def dead_def Let_def)
      have "q_rep (conn_q (node\<lparr>conn_q := q'\<rparr>)) ys" "length ys < fuel"
        using q'(2) Suc.prems(2) Cons by simp_all
      from Suc.IH [OF this, of "closed @ dead"] show ?thesis
        unfolding step using False Cons by (cases "dropWhile (\<lambda>fd. \<not> alive net fd) ys") (auto simp: dead_def Let_def simp del: dropWhile_eq_Nil_conv)
    qed
  qed
qed simp

lemma pool_cases:
  assumes "q_rep (conn_q node) xs"
  shows "(case dropWhile (\<lambda>fd. \<not> alive net fd) xs of
      fd # rest \<Rightarrow> \<exists>q. as_node_get_connection net conf node e = Done (0, Some (peeked net fd), node\<lparr>conn_q := q\<rparr>,
          map (peeked net) (filter (closable net) (takeWhile (\<lambda>fd. \<not> alive net fd) xs))) \<and> q_rep q rest
    | [] \<Rightarrow> \<exists>q. q_rep q [] \<and> as_node_get_connection net conf node e =
        outcome_bind (as_node_create_connection net conf (node\<lparr>conn_q := q\<rparr>) e) (\<lambda>(status, fd, node, more).
        Done (status, fd, node, map (peeked net) (filter (closable net) xs) @ more)))"
    and "\<exists>q. as_node_put_connection node fd = Some (node\<lparr>conn_q := q\<rparr>, if length xs < 300 then [] else [fd]) \<and>
      q_rep q (if length xs < 300 then xs @ [fd] else xs)"
proof -
  have "length xs < Suc (unat (CF_Q_SZ (conn_q node)))"
    using q_ring_sz(1) [OF q_rep_ring [OF assms]] by simp
  from get_loop_rep [OF assms this, of net conf "[]" e] obtain q where
    q: "q_rep q (tl (dropWhile (\<lambda>fd. \<not> alive net fd) xs))" "as_node_get_connection net conf node e =
      (let dead = map (peeked net) (filter (closable net) (takeWhile (\<lambda>fd. \<not> alive net fd) xs)) in
       case dropWhile (\<lambda>fd. \<not> alive net fd) xs of
         fd # _ \<Rightarrow> Done (0, Some (peeked net fd), node\<lparr>conn_q := q\<rparr>, dead)
       | [] \<Rightarrow> outcome_bind (as_node_create_connection net conf (node\<lparr>conn_q := q\<rparr>) e) (\<lambda>(status, fd, node, more).
           Done (status, fd, node, dead @ more)))"
    by (auto simp: as_node_get_connection_def)
  show "case dropWhile (\<lambda>fd. \<not> alive net fd) xs of
      fd # rest \<Rightarrow> \<exists>q. as_node_get_connection net conf node e = Done (0, Some (peeked net fd), node\<lparr>conn_q := q\<rparr>,
          map (peeked net) (filter (closable net) (takeWhile (\<lambda>fd. \<not> alive net fd) xs))) \<and> q_rep q rest
    | [] \<Rightarrow> \<exists>q. q_rep q [] \<and> as_node_get_connection net conf node e =
        outcome_bind (as_node_create_connection net conf (node\<lparr>conn_q := q\<rparr>) e) (\<lambda>(status, fd, node, more).
        Done (status, fd, node, map (peeked net) (filter (closable net) xs) @ more))"
  proof (cases "dropWhile (\<lambda>fd. \<not> alive net fd) xs")
    case Nil
    then have "takeWhile (\<lambda>fd. \<not> alive net fd) xs = xs"
      by (metis append_Nil2 takeWhile_dropWhile_id)
    with q show ?thesis
      unfolding Nil by (auto simp del: takeWhile_eq_all_conv)
  next
    case (Cons fd rest)
    with q show ?thesis
      by (auto simp: Let_def)
  qed
  show "\<exists>q. as_node_put_connection node fd = Some (node\<lparr>conn_q := q\<rparr>, if length xs < 300 then [] else [fd]) \<and>
      q_rep q (if length xs < 300 then xs @ [fd] else xs)"
  proof (cases "length xs < 300")
    case True
    then obtain q where "cf_queue_push_limit True (conn_q node) fd 300 = Some (q, True)" "q_rep q (xs @ [fd])"
      using push_limit_rep [OF assms, of 300 fd] by auto
    with True show ?thesis
      by (auto simp: as_node_put_connection_def)
  next
    case False
    then show ?thesis
      using push_limit_full [OF assms, of 300 True fd] assms by (auto simp: as_node_put_connection_def intro!: exI [of _ "conn_q node"])
  qed
qed

text \<open>
  C40.  A node hands out its oldest connection that is still alive.  The connections it finds dead on the way are closed, each
  once, except those the system does not know; the others stay in the pool in their order; a new connection is
  opened only when none is left.  A connection that comes back joins the end of the pool, or is closed if there are 300.
\<close>

theorem connection_pool:
  assumes "q_rep (conn_q node) xs"
  shows "(case dropWhile (\<lambda>fd. \<not> alive net fd) xs of
      fd # rest \<Rightarrow> \<exists>q. as_node_get_connection net conf node e = Done (0, Some (peeked net fd), node\<lparr>conn_q := q\<rparr>,
          map (peeked net) (filter (closable net) (takeWhile (\<lambda>fd. \<not> alive net fd) xs))) \<and> q_rep q rest
    | [] \<Rightarrow> \<exists>q. q_rep q [] \<and> as_node_get_connection net conf node e =
        outcome_bind (as_node_create_connection net conf (node\<lparr>conn_q := q\<rparr>) e) (\<lambda>(status, fd, node, more).
        Done (status, fd, node, map (peeked net) (filter (closable net) xs) @ more))) \<and>
    (\<exists>q. as_node_put_connection node fd = Some (node\<lparr>conn_q := q\<rparr>, if length xs < 300 then [] else [fd]) \<and>
      q_rep q (if length xs < 300 then xs @ [fd] else xs))"
  using pool_cases [OF assms] by (intro conjI)

definition lonely_node :: as_node where
  "lonely_node =
     \<lparr> ref_count = 1, partition_generation = 0, node_name = [66], address_index = 0, addresses = [(1, 3000)],
       conn_q = \<lparr> threadsafe = True, allocsz = 64, write_offset = 0, read_offset = 0, queue = Some (replicate 64 None) \<rparr>,
       info_fd = None, node_friends = 0, node_failures = 0, node_active = True \<rparr>"

lemma lonely_node_rep: "q_rep (conn_q lonely_node) []"
  by (simp add: lonely_node_def q_rep_def q_ring_def)

theorem connection_pool_witness:
  "\<exists>q. as_node_put_connection lonely_node some_sock = Some (lonely_node\<lparr>conn_q := q\<rparr>, []) \<and> q_rep q [some_sock]"
  using connection_pool [OF lonely_node_rep, THEN conjunct2, of some_sock] by simp

end
