(* ===== verification/ClusterState.thy ===== *)
theory ClusterState
  imports AsNode Command
begin

text \<open>
  The cluster as the client sees it, \<^verbatim>\<open>as_cluster.h\<close> and \<^verbatim>\<open>as_partition.h\<close>: nodes, arrays of nodes, partition tables and arrays of
  these are objects on heaps; the cluster points to the current arrays, and the garbage list to what it will release.  An array has
  the length of its size field; a null entry is nothing.  Shared memory is not used.
\<close>

record as_nodes =
  nodes_ref_count :: u32
  nodes_array :: "nat option list"

record as_partition =
  master :: "nat option"
  prole :: "nat option"

record as_partition_table =
  table_ns :: "byte list"
  partitions :: "as_partition list"

record as_partition_tables =
  tables_ref_count :: u32
  tables_array :: "nat option list"

datatype as_gc_item = Gc_Node nat | Gc_Nodes nat | Gc_Tables nat

text \<open>
  The randomizer of \<^verbatim>\<open>as_partition.c\<close> is a global variable.  \<open>closed_fds\<close> are the connections closed so far, in order.
\<close>

record as_cluster =
  node_heap :: "as_node heap"
  nodes_heap :: "as_nodes heap"
  table_heap :: "as_partition_table heap"
  tables_heap :: "as_partition_tables heap"
  cl_nodes :: nat
  cl_partition_tables :: nat
  cl_gc :: "as_gc_item list"
  cl_conf :: conn_conf
  cl_seeds :: "(byte list \<times> u16) list"
  cl_ip_map :: "(byte list \<times> byte list) list"
  node_index :: u32
  n_partitions :: u16
  randomizer :: u32
  cl_valid :: bool
  closed_fds :: "sock list"


subsection \<open>Reference counts\<close>

definition as_nodes_reserve :: "as_nodes heap \<Rightarrow> nat \<Rightarrow> as_nodes heap option" where
  "as_nodes_reserve h i = map_option (\<lambda>x. set_obj i (Some (x\<lparr>nodes_ref_count := nodes_ref_count x + 1\<rparr>)) h) (obj h i)"

definition as_nodes_release :: "as_nodes heap \<Rightarrow> nat \<Rightarrow> (as_nodes heap \<times> as_nodes option) option" where
  "as_nodes_release h i =
     (case obj h i of
        None \<Rightarrow> None
      | Some x \<Rightarrow>
          let x = x\<lparr>nodes_ref_count := nodes_ref_count x - 1\<rparr> in
          if nodes_ref_count x = 0 then Some (set_obj i None h, Some x) else Some (set_obj i (Some x) h, None))"

definition as_partition_tables_reserve :: "as_partition_tables heap \<Rightarrow> nat \<Rightarrow> as_partition_tables heap option" where
  "as_partition_tables_reserve h i = map_option (\<lambda>x. set_obj i (Some (x\<lparr>tables_ref_count := tables_ref_count x + 1\<rparr>)) h) (obj h i)"

definition as_partition_tables_release :: "as_partition_tables heap \<Rightarrow> nat \<Rightarrow> (as_partition_tables heap \<times> as_partition_tables option) option" where
  "as_partition_tables_release h i =
     (case obj h i of
        None \<Rightarrow> None
      | Some x \<Rightarrow>
          let x = x\<lparr>tables_ref_count := tables_ref_count x - 1\<rparr> in
          if tables_ref_count x = 0 then Some (set_obj i None h, Some x) else Some (set_obj i (Some x) h, None))"

interpretation nodes_count: refcount nodes_ref_count as_nodes_reserve as_nodes_release
  by unfold_locales (auto simp: as_nodes_reserve_def as_nodes_release_def)

interpretation tables_count: refcount tables_ref_count as_partition_tables_reserve as_partition_tables_release
  by unfold_locales (auto simp: as_partition_tables_reserve_def as_partition_tables_release_def)

text \<open>The same on the cluster; releasing the last reference to a node destroys it.\<close>

definition reserve_in :: "as_cluster \<Rightarrow> nat \<Rightarrow> as_cluster outcome" where
  "reserve_in c n = outcome_bind (lift_opt (as_node_reserve (node_heap c) n)) (\<lambda>h. Done (c\<lparr>node_heap := h\<rparr>))"

definition release_in :: "as_cluster \<Rightarrow> nat \<Rightarrow> as_cluster outcome" where
  "release_in c n =
     outcome_bind (lift_opt (as_node_release (node_heap c) n)) (\<lambda>(h, dead).
     case dead of
       None \<Rightarrow> Done (c\<lparr>node_heap := h\<rparr>)
     | Some node \<Rightarrow> outcome_bind (as_node_destroy node) (\<lambda>fds. Done (c\<lparr>node_heap := h, closed_fds := closed_fds c @ fds\<rparr>)))"

definition release_nodes :: "as_cluster \<Rightarrow> nat \<Rightarrow> as_cluster outcome" where
  "release_nodes c i = outcome_bind (lift_opt (as_nodes_release (nodes_heap c) i)) (\<lambda>(h, _). Done (c\<lparr>nodes_heap := h\<rparr>))"

definition release_partition_tables :: "as_cluster \<Rightarrow> nat \<Rightarrow> as_cluster outcome" where
  "release_partition_tables c i =
     outcome_bind (lift_opt (as_partition_tables_release (tables_heap c) i)) (\<lambda>(h, _). Done (c\<lparr>tables_heap := h\<rparr>))"

text \<open>A node behind a pointer; nothing for a null pointer and for a freed node.\<close>

definition the_node :: "as_cluster \<Rightarrow> nat option \<Rightarrow> as_node option" where
  "the_node c p = Option.bind p (obj (node_heap c))"

definition upd_node :: "nat \<Rightarrow> as_node \<Rightarrow> as_cluster \<Rightarrow> as_cluster" where
  "upd_node n x c = c\<lparr>node_heap := set_obj n (Some x) (node_heap c)\<rparr>"


subsection \<open>Choosing a node at random\<close>

fun get_random_loop :: "nat \<Rightarrow> nat option list \<Rightarrow> as_cluster \<Rightarrow> (nat option \<times> as_cluster) outcome" where
  "get_random_loop 0 nodes c = Done (None, c)"
| "get_random_loop (Suc k) nodes c =
     (let index = node_index c; c = c\<lparr>node_index := index + 1\<rparr>; p = nodes ! (unat index mod length nodes) in
      case the_node c p of
        None \<Rightarrow> Fault
      | Some node \<Rightarrow>
          if node_active node then outcome_bind (reserve_in c (the p)) (\<lambda>c. Done (p, c))
          else get_random_loop k nodes c)"

definition as_node_get_random :: "as_cluster \<Rightarrow> (nat option \<times> as_cluster) outcome" where
  "as_node_get_random c =
     outcome_bind (lift_opt (as_nodes_reserve (nodes_heap c) (cl_nodes c))) (\<lambda>h.
     outcome_bind (lift_opt (obj h (cl_nodes c))) (\<lambda>nodes.
     outcome_bind (get_random_loop (length (nodes_array nodes)) (nodes_array nodes) (c\<lparr>nodes_heap := h\<rparr>)) (\<lambda>(p, c').
     outcome_bind (release_nodes c' (cl_nodes c)) (\<lambda>c'. Done (p, c')))))"

fun find_by_name :: "as_cluster \<Rightarrow> byte list \<Rightarrow> nat option list \<Rightarrow> nat option outcome" where
  "find_by_name c name [] = Done None"
| "find_by_name c name (p # ps) =
     (case the_node c p of
        None \<Rightarrow> Fault
      | Some node \<Rightarrow> if node_name node = name then Done p else find_by_name c name ps)"

definition as_node_get_by_name :: "as_cluster \<Rightarrow> byte list \<Rightarrow> (nat option \<times> as_cluster) outcome" where
  "as_node_get_by_name c name =
     outcome_bind (lift_opt (as_nodes_reserve (nodes_heap c) (cl_nodes c))) (\<lambda>h.
     outcome_bind (lift_opt (obj h (cl_nodes c))) (\<lambda>nodes.
     let c' = c\<lparr>nodes_heap := h\<rparr> in
     outcome_bind (find_by_name c' name (nodes_array nodes)) (\<lambda>p.
     outcome_bind (case p of None \<Rightarrow> Done c' | Some n \<Rightarrow> reserve_in c' n) (\<lambda>c'.
     outcome_bind (release_nodes c' (cl_nodes c)) (\<lambda>c'. Done (p, c'))))))"

end
