(* ===== verification/Partition.thy ===== *)
theory Partition
  imports ClusterState
begin

text \<open>
  Partition tables, \<^verbatim>\<open>as_partition.c\<close>: which node is the master of a partition and which one holds its copy, how the tables follow
  the bitmaps that the servers send, and how the node for a key is chosen.
\<close>

definition AS_MAX_NAMESPACE_SIZE :: nat where "AS_MAX_NAMESPACE_SIZE = 32"

definition as_strncpy :: "byte list \<Rightarrow> nat \<Rightarrow> byte list" where
  "as_strncpy src sz = take (sz - 1) (c_str src)"

definition as_partition_table_create :: "byte list \<Rightarrow> nat \<Rightarrow> as_partition_table" where
  "as_partition_table_create ns cap =
     \<lparr> table_ns = as_strncpy ns AS_MAX_NAMESPACE_SIZE, partitions = replicate cap \<lparr> master = None, prole = None \<rparr> \<rparr>"

definition as_partition_tables_create :: "nat \<Rightarrow> as_partition_tables" where
  "as_partition_tables_create cap = \<lparr> tables_ref_count = 1, tables_array = replicate cap None \<rparr>"

fun destroy_partitions :: "as_cluster \<Rightarrow> as_partition list \<Rightarrow> as_cluster outcome" where
  "destroy_partitions c [] = Done c"
| "destroy_partitions c (p # ps) =
     outcome_bind (case master p of None \<Rightarrow> Done c | Some n \<Rightarrow> release_in c n) (\<lambda>c.
     outcome_bind (case prole p of None \<Rightarrow> Done c | Some n \<Rightarrow> release_in c n) (\<lambda>c.
     destroy_partitions c ps))"

definition as_partition_table_destroy :: "as_cluster \<Rightarrow> nat \<Rightarrow> as_cluster outcome" where
  "as_partition_table_destroy c t =
     outcome_bind (lift_opt (obj (table_heap c) t)) (\<lambda>tbl.
     outcome_bind (destroy_partitions c (partitions tbl)) (\<lambda>c.
     Done (c\<lparr>table_heap := set_obj t None (table_heap c)\<rparr>)))"


subsection \<open>Choosing the node of a key\<close>

text \<open>The first two bytes of the digest, read in the order of the machine.\<close>

definition cl_partition_getid :: "host \<Rightarrow> u32 \<Rightarrow> byte list \<Rightarrow> u16" where
  "cl_partition_getid h n digest = ucast ((ucast (load16 h (take 2 digest)) :: u32) AND (n - 1))"

definition reserve_node :: "as_cluster \<Rightarrow> nat option \<Rightarrow> (nat option \<times> as_cluster) outcome" where
  "reserve_node c p =
     (case p of
        None \<Rightarrow> as_node_get_random c
      | Some n \<Rightarrow>
          outcome_bind (lift_opt (obj (node_heap c) n)) (\<lambda>node.
          if node_active node then outcome_bind (reserve_in c n) (\<lambda>c. Done (p, c)) else as_node_get_random c))"

definition reserve_node_alternate :: "as_cluster \<Rightarrow> nat \<Rightarrow> nat option \<Rightarrow> (nat option \<times> as_cluster) outcome" where
  "reserve_node_alternate c chosen alternate =
     outcome_bind (lift_opt (obj (node_heap c) chosen)) (\<lambda>node.
     if node_active node then outcome_bind (reserve_in c chosen) (\<lambda>c. Done (Some chosen, c)) else reserve_node c alternate)"

definition as_partition_table_get_node ::
  "host \<Rightarrow> as_cluster \<Rightarrow> nat option \<Rightarrow> byte list \<Rightarrow> bool \<Rightarrow> as_policy_replica \<Rightarrow> (nat option \<times> as_cluster) outcome" where
  "as_partition_table_get_node h c tbl d write replica =
     (case tbl of
        None \<Rightarrow> as_node_get_random c
      | Some t \<Rightarrow>
          outcome_bind (lift_opt (obj (table_heap c) t)) (\<lambda>tb.
          outcome_bind (lift_opt (mem_load (partitions tb) (unat (cl_partition_getid h (ucast (n_partitions c)) d)))) (\<lambda>p.
          if write then reserve_node c (master p)
          else
            let use_master_replica = (case replica of AS_POLICY_REPLICA_MASTER \<Rightarrow> True | AS_POLICY_REPLICA_ANY \<Rightarrow> False) in
            if use_master_replica then reserve_node c (master p)
            else (case prole p of
                None \<Rightarrow> reserve_node c (master p)
              | Some pr \<Rightarrow>
                  (case master p of
                     None \<Rightarrow> reserve_node c (prole p)
                   | Some m \<Rightarrow>
                       let r = randomizer c; c = c\<lparr>randomizer := r + 1\<rparr> in
                       if r AND 1 \<noteq> 0 then reserve_node_alternate c m (prole p) else reserve_node_alternate c pr (master p))))))"

text \<open>The table of a namespace in an array of tables.\<close>

fun find_table :: "as_cluster \<Rightarrow> byte list \<Rightarrow> nat option list \<Rightarrow> nat option outcome" where
  "find_table c ns [] = Done None"
| "find_table c ns (p # ps) =
     (case Option.bind p (obj (table_heap c)) of
        None \<Rightarrow> Fault
      | Some tbl \<Rightarrow> if table_ns tbl = ns then Done p else find_table c ns ps)"

definition as_partition_tables_get :: "as_cluster \<Rightarrow> nat \<Rightarrow> byte list \<Rightarrow> nat option outcome" where
  "as_partition_tables_get c ts ns =
     outcome_bind (lift_opt (obj (tables_heap c) ts)) (\<lambda>tables. find_table c ns (tables_array tables))"

definition as_cluster_get_partition_table :: "as_cluster \<Rightarrow> byte list \<Rightarrow> (nat option \<times> as_cluster) outcome" where
  "as_cluster_get_partition_table c ns =
     outcome_bind (lift_opt (as_partition_tables_reserve (tables_heap c) (cl_partition_tables c))) (\<lambda>h.
     let c' = c\<lparr>tables_heap := h\<rparr> in
     outcome_bind (as_partition_tables_get c' (cl_partition_tables c) ns) (\<lambda>t.
     outcome_bind (release_partition_tables c' (cl_partition_tables c)) (\<lambda>c'. Done (t, c'))))"

definition as_node_get ::
  "host \<Rightarrow> as_cluster \<Rightarrow> byte list \<Rightarrow> byte list \<Rightarrow> bool \<Rightarrow> as_policy_replica \<Rightarrow> (nat option \<times> as_cluster) outcome" where
  "as_node_get h c ns d write replica =
     outcome_bind (as_cluster_get_partition_table c ns) (\<lambda>(tbl, c). as_partition_table_get_node h c tbl d write replica)"

fun in_partitions :: "nat \<Rightarrow> as_partition list \<Rightarrow> bool" where
  "in_partitions n [] = False"
| "in_partitions n (p # ps) = (if master p = Some n \<or> prole p = Some n then True else in_partitions n ps)"

fun in_tables :: "as_cluster \<Rightarrow> nat \<Rightarrow> nat option list \<Rightarrow> bool outcome" where
  "in_tables c n [] = Done False"
| "in_tables c n (p # ps) =
     (case Option.bind p (obj (table_heap c)) of
        None \<Rightarrow> Fault
      | Some tbl \<Rightarrow> if in_partitions n (partitions tbl) then Done True else in_tables c n ps)"

definition as_partition_tables_find_node :: "as_cluster \<Rightarrow> nat \<Rightarrow> nat \<Rightarrow> bool outcome" where
  "as_partition_tables_find_node c ts n =
     outcome_bind (lift_opt (obj (tables_heap c) ts)) (\<lambda>tables. in_tables c n (tables_array tables))"


subsection \<open>Following the servers\<close>

text \<open>One of the two entries of a partition.\<close>

definition slot :: "bool \<Rightarrow> as_partition \<Rightarrow> nat option" where
  "slot is_master p = (if is_master then master p else prole p)"

definition set_slot :: "bool \<Rightarrow> nat option \<Rightarrow> as_partition \<Rightarrow> as_partition" where
  "set_slot is_master v p = (if is_master then p\<lparr>master := v\<rparr> else p\<lparr>prole := v\<rparr>)"

definition set_partition :: "nat \<Rightarrow> nat \<Rightarrow> as_partition \<Rightarrow> as_cluster \<Rightarrow> as_cluster option" where
  "set_partition t i p c =
     map_option (\<lambda>tb. c\<lparr>table_heap := set_obj t (Some (tb\<lparr>partitions := (partitions tb)[i := p]\<rparr>)) (table_heap c)\<rparr>) (obj (table_heap c) t)"

definition force_replicas_refresh :: "as_cluster \<Rightarrow> nat \<Rightarrow> as_cluster option" where
  "force_replicas_refresh c n = map_option (\<lambda>x. upd_node n (x\<lparr>partition_generation := - 1\<rparr>) c) (obj (node_heap c) n)"

definition as_partition_update :: "as_cluster \<Rightarrow> nat \<Rightarrow> nat \<Rightarrow> nat \<Rightarrow> bool \<Rightarrow> bool \<Rightarrow> as_cluster outcome" where
  "as_partition_update c t i node is_master owns =
     outcome_bind (lift_opt (Option.bind (obj (table_heap c) t) (\<lambda>tb. mem_load (partitions tb) i))) (\<lambda>p.
     if slot is_master p = Some node then
       (if \<not> owns then
          outcome_bind (lift_opt (set_partition t i (set_slot is_master None p) c)) (\<lambda>c. release_in c node)
        else Done c)
     else if owns then
       (let tmp = slot is_master p in
        outcome_bind (reserve_in c node) (\<lambda>c.
        outcome_bind (lift_opt (set_partition t i (set_slot is_master (Some node) p) c)) (\<lambda>c.
        case tmp of
          None \<Rightarrow> Done c
        | Some old \<Rightarrow> outcome_bind (lift_opt (force_replicas_refresh c old)) (\<lambda>c. release_in c old))))
     else Done c)"

definition bitmap_owns :: "byte list \<Rightarrow> nat \<Rightarrow> bool option" where
  "bitmap_owns bitmap i = map_option (\<lambda>b. b AND drop_bit (i mod 8) 0x80 \<noteq> 0) (mem_load bitmap (i div 8))"

fun expand_bitmap :: "as_cluster \<Rightarrow> byte list \<Rightarrow> nat \<Rightarrow> nat \<Rightarrow> bool \<Rightarrow> nat list \<Rightarrow> as_cluster outcome" where
  "expand_bitmap c bitmap t node is_master [] = Done c"
| "expand_bitmap c bitmap t node is_master (i # is) =
     outcome_bind (lift_opt (bitmap_owns bitmap i)) (\<lambda>owns.
     outcome_bind (as_partition_update c t i node is_master owns) (\<lambda>c. expand_bitmap c bitmap t node is_master is))"

definition decode_and_update :: "as_cluster \<Rightarrow> byte list \<Rightarrow> nat \<Rightarrow> nat \<Rightarrow> bool \<Rightarrow> as_cluster outcome" where
  "decode_and_update c bitmap_b64 t node is_master =
     outcome_bind (lift_opt (obj (table_heap c) t)) (\<lambda>tb.
     outcome_bind (lift_opt (cf_b64_decode bitmap_b64)) (\<lambda>(bitmap, _).
     expand_bitmap c bitmap t node is_master [0..<length (partitions tb)]))"

definition as_partition_tables_copy_add :: "as_cluster \<Rightarrow> nat \<Rightarrow> nat list \<Rightarrow> as_cluster outcome" where
  "as_partition_tables_copy_add c tables_old tables_to_add =
     outcome_bind (lift_opt (obj (tables_heap c) tables_old)) (\<lambda>old.
     let new = (as_partition_tables_create (length (tables_array old) + length tables_to_add))
                 \<lparr>tables_array := tables_array old @ map Some tables_to_add\<rparr> in
     Done (c\<lparr>tables_heap := new_obj new (tables_heap c), cl_partition_tables := length (tables_heap c),
             cl_gc := cl_gc c @ [Gc_Tables tables_old]\<rparr>))"

text \<open>
  The loop of \<^verbatim>\<open>as_partition_tables_update\<close> over the text \<^verbatim>\<open>namespace:bitmap;namespace:bitmap...\<close> in the buffer, which it cuts
  into strings.  \<open>old\<close> is the array of tables at the start, \<open>to_add\<close> are the tables created so far.
\<close>

definition table_for :: "as_cluster \<Rightarrow> nat \<Rightarrow> byte list \<Rightarrow> nat list \<Rightarrow> (nat \<times> as_cluster \<times> nat list) outcome" where
  "table_for c old ns to_add =
     outcome_bind (as_partition_tables_get c old ns) (\<lambda>p.
     case p of
       Some t \<Rightarrow> Done (t, c, to_add)
     | None \<Rightarrow>
         outcome_bind (find_table c ns (map Some to_add)) (\<lambda>p.
         case p of
           Some t \<Rightarrow> Done (t, c, to_add)
         | None \<Rightarrow>
             let t = length (table_heap c) in
             Done (t, c\<lparr>table_heap := new_obj (as_partition_table_create ns (unat (n_partitions c))) (table_heap c)\<rparr>, to_add @ [t])))"

definition expected_len :: "as_cluster \<Rightarrow> nat" where
  "expected_len c = unat (cf_b64_encoded_len ((ucast (n_partitions c) + 7) div 8))"

function tables_update_loop ::
  "as_cluster \<Rightarrow> nat \<Rightarrow> nat \<Rightarrow> bool \<Rightarrow> byte mem \<Rightarrow> nat \<Rightarrow> nat \<Rightarrow> nat list \<Rightarrow> (bool \<times> as_cluster \<times> byte mem \<times> nat list) outcome" where
  "tables_update_loop c old node is_master buf ns p to_add =
     (case scan (\<lambda>b. b = 58) buf p of
        None \<Rightarrow> Fault
      | Some p \<Rightarrow>
          if buf ! p = 0 then Done (True, c, buf, to_add)
          else
            let buf = buf[p := 0]; len = p - ns in
            if len \<le> 0 \<or> len \<ge> 32 then Done (False, c, buf, to_add)
            else
              (case scan (\<lambda>b. b = 59 \<or> b = 10) buf (p + 1) of
                 None \<Rightarrow> Fault
               | Some e \<Rightarrow>
                   let buf = buf[e := 0]; bitmap_b64 = take (e - (p + 1)) (drop (p + 1) buf) in
                   if length bitmap_b64 \<noteq> expected_len c then Done (False, c, buf, to_add)
                   else
                     outcome_bind (lift_opt (str_at buf ns)) (\<lambda>name.
                     outcome_bind (table_for c old name to_add) (\<lambda>(t, c, to_add).
                     outcome_bind (decode_and_update c bitmap_b64 t node is_master) (\<lambda>c.
                     tables_update_loop c old node is_master buf (e + 1) (e + 1) to_add)))))"
  by pat_completeness auto
termination
  by (relation "measure (\<lambda>(_, _, _, _, buf, _, p, _). length buf - p)") (auto dest!: scan_bounds)

declare tables_update_loop.simps [simp del]

definition as_partition_tables_update :: "as_cluster \<Rightarrow> nat \<Rightarrow> byte mem \<Rightarrow> nat \<Rightarrow> bool \<Rightarrow> (bool \<times> as_cluster \<times> byte mem) outcome" where
  "as_partition_tables_update c node buf start is_master =
     outcome_bind (tables_update_loop c (cl_partition_tables c) node is_master buf start start []) (\<lambda>(ok, c', buf, to_add).
     if \<not> ok then Done (False, c', buf)
     else
       outcome_bind (if to_add = [] then Done c' else as_partition_tables_copy_add c' (cl_partition_tables c) to_add) (\<lambda>c'.
       Done (True, c', buf)))"

end
