(* ===== verification/ClusterInv.thy ===== *)
theory ClusterInv
  imports Partition
begin

text \<open>
  The invariant of the cluster: every object on the heaps counts exactly the references to it.  The references to a node are the
  current array of nodes, the garbage list, the partition tables and \<open>held\<close>, the reservations of the commands that are running.
  Every operation of \<^verbatim>\<open>as_partition.c\<close> keeps it and never meets a freed object.
\<close>

definition opt_mset :: "'a option \<Rightarrow> 'a multiset" where
  "opt_mset x = (case x of None \<Rightarrow> {#} | Some n \<Rightarrow> {#n#})"

lemma opt_mset_simps [simp]: "opt_mset None = {#}" "opt_mset (Some n) = {#n#}"
  by (simp_all add: opt_mset_def)

definition partition_refs :: "as_partition \<Rightarrow> nat multiset" where
  "partition_refs p = opt_mset (master p) + opt_mset (prole p)"

definition table_refs :: "as_partition_table option \<Rightarrow> nat multiset" where
  "table_refs t = (case t of None \<Rightarrow> {#} | Some tb \<Rightarrow> sum_list (map partition_refs (partitions tb)))"

lemma table_refs_simps [simp]:
  "table_refs None = {#}" "table_refs (Some tb) = sum_list (map partition_refs (partitions tb))"
  by (simp_all add: table_refs_def)

definition current_nodes :: "as_cluster \<Rightarrow> nat option list" where
  "current_nodes c = (case obj (nodes_heap c) (cl_nodes c) of None \<Rightarrow> [] | Some x \<Rightarrow> nodes_array x)"

definition current_tables :: "as_cluster \<Rightarrow> nat option list" where
  "current_tables c = (case obj (tables_heap c) (cl_partition_tables c) of None \<Rightarrow> [] | Some x \<Rightarrow> tables_array x)"

fun gc_node_refs :: "as_gc_item list \<Rightarrow> nat multiset" where
  "gc_node_refs [] = {#}"
| "gc_node_refs (Gc_Node n # g) = add_mset n (gc_node_refs g)"
| "gc_node_refs (_ # g) = gc_node_refs g"

fun gc_nodes_refs :: "as_gc_item list \<Rightarrow> nat multiset" where
  "gc_nodes_refs [] = {#}"
| "gc_nodes_refs (Gc_Nodes n # g) = add_mset n (gc_nodes_refs g)"
| "gc_nodes_refs (_ # g) = gc_nodes_refs g"

fun gc_tables_refs :: "as_gc_item list \<Rightarrow> nat multiset" where
  "gc_tables_refs [] = {#}"
| "gc_tables_refs (Gc_Tables n # g) = add_mset n (gc_tables_refs g)"
| "gc_tables_refs (_ # g) = gc_tables_refs g"

lemma gc_refs_append [simp]:
  "gc_node_refs (g @ g') = gc_node_refs g + gc_node_refs g'"
  "gc_nodes_refs (g @ g') = gc_nodes_refs g + gc_nodes_refs g'"
  "gc_tables_refs (g @ g') = gc_tables_refs g + gc_tables_refs g'"
  by (induction g rule: gc_node_refs.induct; simp)+

definition node_owners :: "as_cluster \<Rightarrow> nat multiset" where
  "node_owners c = sum_list (map opt_mset (current_nodes c)) + gc_node_refs (cl_gc c) + sum_list (map table_refs (table_heap c))"

text \<open>The pool of every node is a queue and its preferred address exists.\<close>

definition node_sane :: "as_node \<Rightarrow> bool" where
  "node_sane x \<longleftrightarrow> (\<exists>xs. q_rep (conn_q x) xs) \<and> unat (address_index x) < length (addresses x)"

definition cluster_ok :: "nat multiset \<Rightarrow> as_cluster \<Rightarrow> bool" where
  "cluster_ok held c \<longleftrightarrow>
     counted ref_count (node_heap c) (node_owners c + held) \<and>
     counted nodes_ref_count (nodes_heap c) (add_mset (cl_nodes c) (gc_nodes_refs (cl_gc c))) \<and>
     counted tables_ref_count (tables_heap c) (add_mset (cl_partition_tables c) (gc_tables_refs (cl_gc c))) \<and>
     (\<forall>n x. obj (node_heap c) n = Some x \<longrightarrow> node_sane x) \<and>
     None \<notin> set (current_nodes c) \<and>
     (\<forall>p \<in> set (current_tables c). \<exists>t. p = Some t \<and> obj (table_heap c) t \<noteq> None) \<and>
     (\<forall>t tb. obj (table_heap c) t = Some tb \<longrightarrow> length (partitions tb) = unat (n_partitions c))"

lemma cluster_okD:
  assumes "cluster_ok held c"
  shows "counted ref_count (node_heap c) (node_owners c + held)"
    and "counted nodes_ref_count (nodes_heap c) (add_mset (cl_nodes c) (gc_nodes_refs (cl_gc c)))"
    and "counted tables_ref_count (tables_heap c) (add_mset (cl_partition_tables c) (gc_tables_refs (cl_gc c)))"
    and "obj (node_heap c) n = Some x \<Longrightarrow> node_sane x"
    and "None \<notin> set (current_nodes c)"
    and "p \<in> set (current_tables c) \<Longrightarrow> \<exists>t. p = Some t \<and> obj (table_heap c) t \<noteq> None"
    and "obj (table_heap c) t = Some tb \<Longrightarrow> length (partitions tb) = unat (n_partitions c)"
  using assms by (auto simp: cluster_ok_def)

definition live :: "as_cluster \<Rightarrow> nat \<Rightarrow> bool" where
  "live c n \<longleftrightarrow> obj (node_heap c) n \<noteq> None"

lemma live_iff: "cluster_ok held c \<Longrightarrow> live c n \<longleftrightarrow> n \<in># node_owners c + held"
  unfolding live_def by (rule counted_live [OF cluster_okD(1)])

text \<open>How many more references there is room for.\<close>

definition room :: "nat \<Rightarrow> nat multiset \<Rightarrow> as_cluster \<Rightarrow> bool" where
  "room k held c \<longleftrightarrow> size (node_owners c + held) + k < 2 ^ 32"


subsection \<open>Reserving and releasing nodes\<close>

text \<open>What differs between two clusters if only nodes have been counted, changed or destroyed.\<close>

definition same_shape :: "as_cluster \<Rightarrow> as_cluster \<Rightarrow> bool" where
  "same_shape c c' \<longleftrightarrow> (\<exists>h fds. c' = c\<lparr>node_heap := h, closed_fds := fds\<rparr> \<and> length h = length (node_heap c))"

lemma same_shape_refl [simp]: "same_shape c c"
  by (auto simp: same_shape_def intro!: exI [of _ "node_heap c"] exI [of _ "closed_fds c"])

lemma same_shapeI: "length h = length (node_heap c) \<Longrightarrow> same_shape c (c\<lparr>node_heap := h\<rparr>)"
  by (auto simp: same_shape_def intro!: exI [of _ h] exI [of _ "closed_fds c"])

lemma same_shapeI': "length h = length (node_heap c) \<Longrightarrow> same_shape c (c\<lparr>node_heap := h, closed_fds := fds\<rparr>)"
  by (auto simp: same_shape_def)

lemma same_shape_trans: "same_shape a b \<Longrightarrow> same_shape b c \<Longrightarrow> same_shape a c"
  by (fastforce simp: same_shape_def)

lemma same_shapeD:
  assumes "same_shape c c'"
  shows "nodes_heap c' = nodes_heap c" "table_heap c' = table_heap c" "tables_heap c' = tables_heap c"
    "cl_nodes c' = cl_nodes c" "cl_partition_tables c' = cl_partition_tables c" "cl_gc c' = cl_gc c"
    "n_partitions c' = n_partitions c" "current_nodes c' = current_nodes c" "current_tables c' = current_tables c"
    "node_owners c' = node_owners c" "cl_conf c' = cl_conf c"
  using assms by (auto simp: same_shape_def current_nodes_def current_tables_def node_owners_def)

lemma cluster_ok_nodes:
  assumes "cluster_ok held c" and "same_shape c c'" and "counted ref_count (node_heap c') (node_owners c + held')"
    and "\<And>n x. obj (node_heap c') n = Some x \<Longrightarrow> node_sane x"
  shows "cluster_ok held' c'"
  using assms(1,3,4) same_shapeD [OF assms(2)] by (simp add: cluster_ok_def)

lemma reserve_in_ok:
  assumes ok: "cluster_ok held c" and n: "live c n" and "room 1 held c"
  shows "\<exists>c'. reserve_in c n = Done c' \<and> cluster_ok (add_mset n held) c' \<and> same_shape c c' \<and> (\<forall>m. live c' m \<longleftrightarrow> live c m)"
proof -
  obtain h where h: "as_node_reserve (node_heap c) n = Some h" "counted ref_count h (add_mset n (node_owners c + held))"
    using node_count.reserve_counted [OF cluster_okD(1) [OF ok], of n] n assms(3) live_iff [OF ok] by (auto simp: room_def)
  obtain x where x: "obj (node_heap c) n = Some x" "h = set_obj n (Some (x\<lparr>ref_count := ref_count x + 1\<rparr>)) (node_heap c)"
    using h(1) by (auto simp: as_node_reserve_def)
  define c' where "c' = c\<lparr>node_heap := h\<rparr>"
  have s: "same_shape c c'"
    using x(2) by (auto simp: c'_def intro: same_shapeI)
  have "cluster_ok (add_mset n held) c'"
    using ok s
  proof (rule cluster_ok_nodes)
    show "node_sane y" if "obj (node_heap c') m = Some y" for m y
      using that x cluster_okD(4) [OF ok] by (auto simp: c'_def node_sane_def split: if_splits)
  qed (use h(2) in \<open>simp add: c'_def\<close>)
  moreover have "reserve_in c n = Done c'"
    using h(1) by (simp add: reserve_in_def c'_def lift_opt_def)
  moreover have "live c' m \<longleftrightarrow> live c m" for m
    using x by (auto simp: live_def c'_def)
  ultimately show ?thesis
    using s by blast
qed

text \<open>A release needs no more than nodes that are counted and sane.\<close>

definition nodes_ok :: "nat multiset \<Rightarrow> as_cluster \<Rightarrow> bool" where
  "nodes_ok M c \<longleftrightarrow> counted ref_count (node_heap c) M \<and> (\<forall>n x. obj (node_heap c) n = Some x \<longrightarrow> node_sane x)"

lemma release_nodes_ok:
  assumes ok: "nodes_ok (add_mset n M) c"
  shows "\<exists>c'. release_in c n = Done c' \<and> nodes_ok M c' \<and> same_shape c c'"
proof -
  obtain h d where h: "as_node_release (node_heap c) n = Some (h, d)" "counted ref_count h M"
    using node_count.release_counted [of "node_heap c" n M] ok by (auto simp: nodes_ok_def)
  obtain x where x: "obj (node_heap c) n = Some x"
    using h(1) by (auto simp: as_node_release_def split: option.splits)
  define x' where "x' = x\<lparr>ref_count := ref_count x - 1\<rparr>"
  have hd: "(h = set_obj n None (node_heap c) \<and> d = Some x') \<or> (h = set_obj n (Some x') (node_heap c) \<and> d = None)"
    using h(1) x by (auto simp: as_node_release_def x'_def Let_def split: if_splits)
  have x's: "node_sane x'"
    using ok x by (auto simp: nodes_ok_def node_sane_def x'_def)
  then obtain fds where fds: "as_node_destroy x' = Done fds"
    using destroy_closes_all by (auto simp: node_sane_def)
  define c' where "c' = (if d = None then c\<lparr>node_heap := h\<rparr> else c\<lparr>node_heap := h, closed_fds := closed_fds c @ fds\<rparr>)"
  have rel: "release_in c n = Done c'"
    using h(1) hd fds by (auto simp: release_in_def c'_def lift_opt_def)
  have nh: "node_heap c' = h"
    by (simp add: c'_def)
  have "same_shape c c'"
    using hd same_shapeI [of h c] same_shapeI' [of h c] by (auto simp: c'_def)
  moreover have "node_sane y" if "obj (node_heap c') m = Some y" for m y
    using that hd x's ok unfolding nh by (auto simp: nodes_ok_def split: if_splits)
  ultimately show ?thesis
    using rel h(2) nh by (auto simp: nodes_ok_def)
qed

lemma release_in_ok:
  assumes ok: "cluster_ok (add_mset n held) c"
  shows "\<exists>c'. release_in c n = Done c' \<and> cluster_ok held c' \<and> same_shape c c'"
proof -
  have "nodes_ok (add_mset n (node_owners c + held)) c"
    using cluster_okD(1,4) [OF ok] by (simp add: nodes_ok_def)
  then obtain c' where "release_in c n = Done c'" "nodes_ok (node_owners c + held) c'" "same_shape c c'"
    using release_nodes_ok by blast
  with cluster_ok_nodes [OF ok] show ?thesis
    by (auto simp: nodes_ok_def)
qed


subsection \<open>Partitions\<close>

lemma sum_list_upd: "i < length xs \<Longrightarrow> sum_list (xs[i := y]) + xs ! i = sum_list xs + y" for xs :: "'a multiset list"
  by (induction xs arbitrary: i) (auto simp: less_Suc_eq_0_disj ac_simps)

lemma refs_moved: "a + x = b + y \<Longrightarrow> z + b = w + a \<Longrightarrow> x + h = y + h' \<Longrightarrow> z + h' = w + h" for a :: "'a multiset"
proof (rule multiset_eqI)
  fix e assume *: "a + x = b + y" "z + b = w + a" "x + h = y + h'"
  show "count (z + h') e = count (w + h) e"
    using *[THEN arg_cong [where f = "\<lambda>M. count M e"]] by simp
qed

lemma partition_refs_slot: "partition_refs (set_slot m v p) + opt_mset (slot m p) = partition_refs p + opt_mset v"
  by (simp add: partition_refs_def set_slot_def slot_def ac_simps)

lemma cluster_ok_tables:
  assumes ok: "cluster_ok held c" and c': "c' = c\<lparr>table_heap := th\<rparr>" and own: "node_owners c' + held' = node_owners c + held"
    and live: "\<And>t. obj (table_heap c') t = None \<Longrightarrow> obj (table_heap c) t = None"
    and len: "\<And>t tb. obj (table_heap c') t = Some tb \<Longrightarrow> length (partitions tb) = unat (n_partitions c)"
  shows "cluster_ok held' c'"
proof -
  have same: "current_nodes c' = current_nodes c" "current_tables c' = current_tables c" "node_heap c' = node_heap c"
    "nodes_heap c' = nodes_heap c" "tables_heap c' = tables_heap c" "cl_nodes c' = cl_nodes c" "cl_gc c' = cl_gc c"
    "cl_partition_tables c' = cl_partition_tables c" "n_partitions c' = n_partitions c"
    by (simp_all add: c' current_nodes_def current_tables_def)
  show ?thesis
    unfolding cluster_ok_def
  proof (intro conjI allI ballI impI)
    show "counted ref_count (node_heap c') (node_owners c' + held')"
      unfolding own same by (rule cluster_okD(1) [OF ok])
    show "counted nodes_ref_count (nodes_heap c') (add_mset (cl_nodes c') (gc_nodes_refs (cl_gc c')))"
      unfolding same by (rule cluster_okD(2) [OF ok])
    show "counted tables_ref_count (tables_heap c') (add_mset (cl_partition_tables c') (gc_tables_refs (cl_gc c')))"
      unfolding same by (rule cluster_okD(3) [OF ok])
    show "node_sane x" if "obj (node_heap c') n = Some x" for n x
      using that unfolding same by (rule cluster_okD(4) [OF ok])
    show "None \<notin> set (current_nodes c')"
      unfolding same by (rule cluster_okD(5) [OF ok])
    show "\<exists>t. p = Some t \<and> obj (table_heap c') t \<noteq> None" if p: "p \<in> set (current_tables c')" for p
    proof -
      obtain t where "p = Some t" "obj (table_heap c) t \<noteq> None"
        using cluster_okD(6) [OF ok p [unfolded same]] by blast
      moreover from this(2) have "obj (table_heap c') t \<noteq> None"
        by (rule contrapos_nn) (rule live)
      ultimately show ?thesis
        by blast
    qed
    show "length (partitions tb) = unat (n_partitions c')" if "obj (table_heap c') t = Some tb" for t tb
      unfolding same by (rule len [OF that])
  qed
qed

text \<open>Storing a partition moves its references from \<open>held\<close> into the table and those of the old partition out of it.\<close>

lemma set_partition_ok:
  assumes ok: "cluster_ok held c" and tb: "obj (table_heap c) t = Some tb" and i: "i < length (partitions tb)"
    and refs: "partition_refs (partitions tb ! i) + held = partition_refs p + held'"
  shows "\<exists>c'. set_partition t i p c = Some c' \<and> cluster_ok held' c' \<and> node_heap c' = node_heap c \<and>
    node_owners c' + held' = node_owners c + held"
proof -
  define tb' where "tb' = tb\<lparr>partitions := (partitions tb)[i := p]\<rparr>"
  define c' where "c' = c\<lparr>table_heap := set_obj t (Some tb') (table_heap c)\<rparr>"
  have t: "t < length (table_heap c)" "table_heap c ! t = Some tb"
    using tb by (auto simp: obj_def split: if_splits)
  have p: "table_refs (Some tb') + partition_refs (partitions tb ! i) = table_refs (Some tb) + partition_refs p"
    using sum_list_upd [of i "map partition_refs (partitions tb)" "partition_refs p"] i by (simp add: tb'_def map_update)
  have "sum_list (map table_refs (table_heap c')) + table_refs (Some tb) = sum_list (map table_refs (table_heap c)) + table_refs (Some tb')"
    using sum_list_upd [of t "map table_refs (table_heap c)" "table_refs (Some tb')"] t by (simp add: c'_def set_obj_def map_update)
  with p have "sum_list (map table_refs (table_heap c')) + held' = sum_list (map table_refs (table_heap c)) + held"
    using refs by (rule refs_moved)
  then have own: "node_owners c' + held' = node_owners c + held"
    by (simp add: node_owners_def c'_def current_nodes_def ac_simps)
  have "cluster_ok held' c'"
    using ok
  proof (rule cluster_ok_tables)
    show "obj (table_heap c) u = None" if "obj (table_heap c') u = None" for u
      using that tb t by (simp add: c'_def split: if_splits)
    show "length (partitions y) = unat (n_partitions c)" if "obj (table_heap c') u = Some y" for u y
      using that cluster_okD(7) [OF ok] tb by (auto simp: c'_def tb'_def split: if_splits)
  qed (use own in \<open>simp_all add: c'_def\<close>)
  moreover have "set_partition t i p c = Some c'"
    using tb by (simp add: set_partition_def c'_def tb'_def)
  ultimately show ?thesis
    using own by (auto simp: c'_def)
qed

definition slot_after :: "bool \<Rightarrow> nat \<Rightarrow> bool \<Rightarrow> as_partition \<Rightarrow> as_partition" where
  "slot_after is_master node owns p =
     (if owns then set_slot is_master (Some node) p
      else if slot is_master p = Some node then set_slot is_master None p else p)"

lemma set_slot_same: "slot m p = v \<Longrightarrow> set_slot m v p = p"
  by (auto simp: slot_def set_slot_def split: if_splits)

text \<open>One partition: the invariant is kept, and the table has the new entry.\<close>

lemma partition_update_ok:
  assumes ok: "cluster_ok held c" and node: "live c node" and tb: "obj (table_heap c) t = Some tb" and i: "i < length (partitions tb)"
    and room: "room 1 held c"
  shows "\<exists>c'. as_partition_update c t i node is_master owns = Done c' \<and> cluster_ok held c' \<and>
    table_heap c' = set_obj t (Some (tb\<lparr>partitions := (partitions tb)[i := slot_after is_master node owns (partitions tb ! i)]\<rparr>)) (table_heap c)"
proof -
  define p where "p = partitions tb ! i"
  have p: "Option.bind (obj (table_heap c) t) (\<lambda>tb. mem_load (partitions tb) i) = Some p"
    using tb i by (simp add: mem_load_def p_def)
  have unchanged: "set_obj t (Some (tb\<lparr>partitions := (partitions tb)[i := p]\<rparr>)) (table_heap c) = table_heap c"
    using tb by (auto simp: p_def set_obj_def obj_def list_update_same_conv split: if_splits)
  consider (stays) "slot is_master p = Some node" owns | (leaves) "slot is_master p = Some node" "\<not> owns"
    | (comes) "slot is_master p \<noteq> Some node" owns | (other) "slot is_master p \<noteq> Some node" "\<not> owns"
    by blast
  then show ?thesis
  proof cases
    case stays
    with p have "as_partition_update c t i node is_master owns = Done c" "slot_after is_master node owns (partitions tb ! i) = p"
      by (simp_all add: as_partition_update_def slot_after_def set_slot_same p_def [symmetric] lift_opt_def)
    with ok unchanged show ?thesis
      by metis
  next
    case leaves
    have "partition_refs p + held = partition_refs (set_slot is_master None p) + add_mset node held"
      using partition_refs_slot [of is_master None p] leaves(1) by simp
    then obtain c1 where c1: "set_partition t i (set_slot is_master None p) c = Some c1" "cluster_ok (add_mset node held) c1"
      using set_partition_ok [OF ok tb i] unfolding p_def by blast
    obtain c2 where "release_in c1 node = Done c2" "cluster_ok held c2" "same_shape c1 c2"
      using release_in_ok [OF c1(2)] by blast
    with leaves p c1 tb show ?thesis
      by (auto simp: as_partition_update_def slot_after_def p_def [symmetric] set_partition_def lift_opt_def dest!: same_shapeD(2))
  next
    case comes
    obtain c1 where c1: "reserve_in c node = Done c1" "cluster_ok (add_mset node held) c1" "same_shape c c1"
      using reserve_in_ok [OF ok node room] by blast
    have tb1: "obj (table_heap c1) t = Some tb"
      using tb same_shapeD(2) [OF c1(3)] by simp
    have "partition_refs p + add_mset node held = partition_refs (set_slot is_master (Some node) p) + (opt_mset (slot is_master p) + held)"
      using partition_refs_slot [of is_master "Some node" p] by (simp add: add.assoc [symmetric])
    then obtain c2 where c2: "set_partition t i (set_slot is_master (Some node) p) c1 = Some c2"
        "cluster_ok (opt_mset (slot is_master p) + held) c2"
      using set_partition_ok [OF c1(2) tb1 i] unfolding p_def by blast
    have th: "table_heap c2 = set_obj t (Some (tb\<lparr>partitions := (partitions tb)[i := set_slot is_master (Some node) p]\<rparr>)) (table_heap c)"
      using c2(1) tb1 same_shapeD(2) [OF c1(3)] by (auto simp: set_partition_def)
    show ?thesis
    proof (cases "slot is_master p")
      case None
      with comes p c1 c2 th show ?thesis
        by (simp add: as_partition_update_def slot_after_def p_def [symmetric] lift_opt_def)
    next
      case (Some old)
      have ok2: "cluster_ok (add_mset old held) c2"
        using c2(2) Some by simp
      then have "live c2 old"
        using live_iff [OF ok2] by simp
      then obtain x where x: "obj (node_heap c2) old = Some x"
        by (auto simp: live_def)
      define c3 where "c3 = upd_node old (x\<lparr>partition_generation := - 1\<rparr>) c2"
      have s3: "same_shape c2 c3"
        by (auto simp: c3_def upd_node_def intro: same_shapeI)
      have "cluster_ok (add_mset old held) c3"
        using ok2 s3
      proof (rule cluster_ok_nodes)
        show "counted ref_count (node_heap c3) (node_owners c2 + add_mset old held)"
          using counted_upd [OF cluster_okD(1) [OF ok2] x] by (simp add: c3_def upd_node_def)
        show "node_sane y" if "obj (node_heap c3) m = Some y" for m y
          using that x cluster_okD(4) [OF ok2] by (auto simp: c3_def upd_node_def node_sane_def split: if_splits)
      qed
      then obtain c4 where "release_in c3 old = Done c4" "cluster_ok held c4" "same_shape c3 c4"
        using release_in_ok by blast
      moreover have "force_replicas_refresh c2 old = Some c3"
        using x by (simp add: force_replicas_refresh_def c3_def)
      ultimately show ?thesis
        using comes p c1 c2 th Some same_shapeD(2) [OF s3] same_shapeD(2) [of c3 c4]
        by (simp add: as_partition_update_def slot_after_def p_def [symmetric] lift_opt_def)
    qed
  next
    case other
    with p have "as_partition_update c t i node is_master owns = Done c" "slot_after is_master node owns (partitions tb ! i) = p"
      by (simp_all add: as_partition_update_def slot_after_def p_def [symmetric] lift_opt_def)
    with ok unchanged show ?thesis
      by metis
  qed
qed

end
