(* ===== verification/Cluster.thy ===== *)
theory Cluster
  imports Partition
begin

text \<open>
  Tending the cluster, \<^verbatim>\<open>as_cluster.c\<close>, \<^verbatim>\<open>as_lookup.c\<close> and the second half of \<^verbatim>\<open>as_node.c\<close>: one pass of the tend thread releases what
  the pass before has put on the garbage list, asks every node for its state, its neighbours and its partitions, and adds and
  removes nodes.  Resolving names and opening connections are inputs, labelled with the occasion: a seeding of the pass (the first
  one or the one for a lone node), a neighbour, or the question for the number of partitions, each with what is left of the loop.
  The two requests of a refresh have the time and the old content of the buffer on the stack.
\<close>

datatype occasion = Seeding nat nat | Neighbour nat | Counting nat

record tend_env =
  te_net :: net
  te_inet_aton :: "byte list \<Rightarrow> u32 option"
  te_resolve :: "occasion \<Rightarrow> byte list \<Rightarrow> u32 list option"
  te_connect :: "occasion \<Rightarrow> sockaddr \<Rightarrow> int \<times> sock"
  te_connect_now :: "occasion \<Rightarrow> sockaddr \<Rightarrow> u64"
  te_open :: "nat \<Rightarrow> open_env"
  te_info_now :: "nat \<Rightarrow> u64 \<times> u64"
  te_info_stack :: "nat \<Rightarrow> byte mem \<times> byte mem"


subsection \<open>Names and addresses\<close>

definition append_unique :: "'a list \<Rightarrow> 'a \<Rightarrow> 'a list" where
  "append_unique xs x = (if x \<in> set xs then xs else xs @ [x])"

definition as_lookup :: "host \<Rightarrow> (byte list \<times> byte list) list \<Rightarrow> (byte list \<Rightarrow> u32 list option) \<Rightarrow> byte list \<Rightarrow> u16 \<Rightarrow> int \<times> sockaddr list" where
  "as_lookup h ip_map resolve hostname port =
     (let hostname = (case map_of ip_map hostname of Some alt \<Rightarrow> alt | None \<Rightarrow> hostname) in
      case resolve hostname of
        None \<Rightarrow> (AEROSPIKE_ERR_CLUSTER, [])
      | Some ips \<Rightarrow> (0, foldl append_unique [] (map (\<lambda>ip. (ip, cf_swap_to_be16 h port)) ips)))"

text \<open>An information request with one name to an address; the status and the value.\<close>

definition ask_host :: "tend_env \<Rightarrow> occasion \<Rightarrow> conn_conf \<Rightarrow> sockaddr \<Rightarrow> byte list \<Rightarrow> (int \<times> byte list) outcome" where
  "ask_host e occ conf addr name =
     (let net = te_net e; now = te_connect_now e occ addr; deadline = as_socket_deadline now (cc_timeout_ms conf) in
      outcome_bind (as_info_command_host (net_errnos net) (net_host net) (net_stack net) (cc_login conf) as_error_reset
          (te_connect e occ addr) name True now deadline) (\<lambda>(status, err, response).
      if status \<noteq> AEROSPIKE_OK then Done (status, [])
      else
        (case response of
           None \<Rightarrow> Fault
         | Some buf \<Rightarrow>
             outcome_bind (lift_opt (as_info_parse_single_response buf 0)) (\<lambda>(status, buf, value).
             if status \<noteq> AEROSPIKE_OK then Done (status, [])
             else outcome_bind (lift_opt (Option.bind value (str_at buf))) (\<lambda>v. Done (status, v))))))"

definition as_lookup_node_name :: "tend_env \<Rightarrow> occasion \<Rightarrow> conn_conf \<Rightarrow> sockaddr \<Rightarrow> (int \<times> byte list) outcome" where
  "as_lookup_node_name e occ conf addr =
     outcome_bind (ask_host e occ conf addr (ascii ''node'')) (\<lambda>(status, value).
     Done (status, if status = AEROSPIKE_OK then as_strncpy value AS_NODE_NAME_SIZE else []))"


subsection \<open>Adding nodes\<close>

text \<open>A new node on the heap; the caller holds its only reference.\<close>

definition create_in :: "as_cluster \<Rightarrow> byte list \<Rightarrow> sockaddr \<Rightarrow> (nat \<times> as_cluster) outcome" where
  "create_in c name addr =
     outcome_bind (lift_opt (as_node_create name addr)) (\<lambda>node.
     Done (length (node_heap c), c\<lparr>node_heap := new_obj node (node_heap c)\<rparr>))"

definition add_address_in :: "as_cluster \<Rightarrow> nat \<Rightarrow> sockaddr \<Rightarrow> as_cluster outcome" where
  "add_address_in c n addr =
     outcome_bind (lift_opt (obj (node_heap c) n)) (\<lambda>node. Done (upd_node n (as_node_add_address node addr) c))"

definition as_cluster_add_nodes_copy :: "as_cluster \<Rightarrow> nat list \<Rightarrow> as_cluster outcome" where
  "as_cluster_add_nodes_copy c nodes_to_add =
     outcome_bind (lift_opt (obj (nodes_heap c) (cl_nodes c))) (\<lambda>old.
     Done (c\<lparr>nodes_heap := new_obj \<lparr> nodes_ref_count = 1, nodes_array = nodes_array old @ map Some nodes_to_add \<rparr> (nodes_heap c),
             cl_nodes := length (nodes_heap c), cl_gc := cl_gc c @ [Gc_Nodes (cl_nodes c)]\<rparr>))"

text \<open>The addresses of one seed: new nodes, other addresses of these, and the first error.\<close>

fun seed_addresses ::
  "tend_env \<Rightarrow> occasion \<Rightarrow> as_cluster \<Rightarrow> nat list \<Rightarrow> int \<Rightarrow> sockaddr list \<Rightarrow> (as_cluster \<times> nat list \<times> int) outcome" where
  "seed_addresses e occ c to_add first_error [] = Done (c, to_add, first_error)"
| "seed_addresses e occ c to_add first_error (addr # addrs) =
     outcome_bind (as_lookup_node_name e occ (cl_conf c) addr) (\<lambda>(status, name).
     if status = 0 then
       outcome_bind (find_by_name c name (map Some to_add)) (\<lambda>p.
       case p of
         Some n \<Rightarrow> outcome_bind (add_address_in c n addr) (\<lambda>c. seed_addresses e occ c to_add first_error addrs)
       | None \<Rightarrow> outcome_bind (create_in c name addr) (\<lambda>(n, c). seed_addresses e occ c (to_add @ [n]) first_error addrs))
     else seed_addresses e occ c to_add (if first_error = 0 then status else first_error) addrs)"

fun seed_loop ::
  "tend_env \<Rightarrow> nat \<Rightarrow> as_cluster \<Rightarrow> nat list \<Rightarrow> int \<Rightarrow> (byte list \<times> u16) list \<Rightarrow> (as_cluster \<times> nat list \<times> int) outcome" where
  "seed_loop e round c to_add first_error [] = Done (c, to_add, first_error)"
| "seed_loop e round c to_add first_error (seed # seeds) =
     (let (status, addrs) = as_lookup (net_host (te_net e)) (cl_ip_map c) (te_resolve e (Seeding round (length seeds))) (fst seed) (snd seed) in
      if status \<noteq> 0 then seed_loop e round c to_add (if first_error = 0 then status else first_error) seeds
      else
        outcome_bind (seed_addresses e (Seeding round (length seeds)) c to_add first_error addrs) (\<lambda>(c, to_add, first_error).
        seed_loop e round c to_add first_error seeds))"

definition as_cluster_seed_nodes :: "tend_env \<Rightarrow> nat \<Rightarrow> as_cluster \<Rightarrow> (int \<times> as_cluster) outcome" where
  "as_cluster_seed_nodes e round c =
     outcome_bind (seed_loop e round c [] 0 (cl_seeds c)) (\<lambda>(c, to_add, first_error).
     if to_add \<noteq> [] then outcome_bind (as_cluster_add_nodes_copy c to_add) (\<lambda>c. Done (0, c))
     else Done (if first_error \<noteq> 0 then first_error else AEROSPIKE_ERR_CLIENT, c))"

text \<open>A neighbour: its name, its address and its port, in the order of the machine.\<close>

type_synonym as_friend = "byte list \<times> u32 \<times> u16"

fun friend_addresses :: "tend_env \<Rightarrow> occasion \<Rightarrow> as_cluster \<Rightarrow> nat list \<Rightarrow> sockaddr list \<Rightarrow> (as_cluster \<times> nat list) outcome" where
  "friend_addresses e occ c to_add [] = Done (c, to_add)"
| "friend_addresses e occ c to_add (addr # addrs) =
     outcome_bind (as_lookup_node_name e occ (cl_conf c) addr) (\<lambda>(status, name).
     if status = 0 then
       outcome_bind (lift_opt (obj (nodes_heap c) (cl_nodes c))) (\<lambda>nodes.
       outcome_bind (find_by_name c name (nodes_array nodes)) (\<lambda>p.
       case p of
         Some n \<Rightarrow>
           outcome_bind (lift_opt (obj (node_heap c) n)) (\<lambda>node.
           friend_addresses e occ
             (upd_node n (as_node_add_address (node\<lparr>node_friends := node_friends node + 1\<rparr>) addr) c) to_add addrs)
       | None \<Rightarrow> outcome_bind (create_in c name addr) (\<lambda>(n, c). friend_addresses e occ c (to_add @ [n]) addrs)))
     else friend_addresses e occ c to_add addrs)"

fun as_cluster_find_nodes_to_add :: "tend_env \<Rightarrow> as_cluster \<Rightarrow> nat list \<Rightarrow> as_friend list \<Rightarrow> (as_cluster \<times> nat list) outcome" where
  "as_cluster_find_nodes_to_add e c to_add [] = Done (c, to_add)"
| "as_cluster_find_nodes_to_add e c to_add (f # fs) =
     (let (status, addrs) = as_lookup (net_host (te_net e)) (cl_ip_map c) (te_resolve e (Neighbour (length fs))) (fst f) (snd (snd f)) in
      if status \<noteq> 0 then as_cluster_find_nodes_to_add e c to_add fs
      else
        outcome_bind (friend_addresses e (Neighbour (length fs)) c to_add addrs) (\<lambda>(c, to_add). as_cluster_find_nodes_to_add e c to_add fs))"


subsection \<open>Removing nodes\<close>

text \<open>Whether a node has to go; the loop runs over the array of nodes at its start, whose size is \<open>sz\<close>.\<close>

definition unwanted :: "tend_env \<Rightarrow> nat \<Rightarrow> nat \<Rightarrow> nat \<Rightarrow> as_node \<Rightarrow> as_cluster \<Rightarrow> (bool \<times> as_cluster) outcome" where
  "unwanted e refresh_count sz n node c =
     (if \<not> node_active node then Done (True, c)
      else if sz = 1 then
        (if node_failures node \<ge> 5 then outcome_bind (as_cluster_seed_nodes e 1 c) (\<lambda>(status, c). Done (status = 0, c))
         else Done (False, c))
      else if sz = 2 then Done (refresh_count = 1 \<and> node_friends node = 0 \<and> node_failures node > 0, c)
      else if refresh_count \<ge> 2 \<and> node_friends node = 0 then
        (if node_failures node = 0 then
           outcome_bind (as_partition_tables_find_node c (cl_partition_tables c) n) (\<lambda>mapped. Done (\<not> mapped, c))
         else Done (True, c))
      else Done (False, c))"

fun as_cluster_find_nodes_to_remove ::
  "tend_env \<Rightarrow> nat \<Rightarrow> nat \<Rightarrow> as_cluster \<Rightarrow> nat list \<Rightarrow> nat option list \<Rightarrow> (as_cluster \<times> nat list) outcome" where
  "as_cluster_find_nodes_to_remove e refresh_count sz c to_remove [] = Done (c, to_remove)"
| "as_cluster_find_nodes_to_remove e refresh_count sz c to_remove (p # ps) =
     outcome_bind (lift_opt (the_node c p)) (\<lambda>node.
     outcome_bind (unwanted e refresh_count sz (the p) node c) (\<lambda>(gone, c).
     as_cluster_find_nodes_to_remove e refresh_count sz c (if gone then to_remove @ [the p] else to_remove) ps))"

text \<open>The loop that fills the new array: what is left of it, its entries so far and the garbage list.\<close>

fun split_nodes :: "nat list \<Rightarrow> nat \<Rightarrow> nat option list \<Rightarrow> as_gc_item list \<Rightarrow> nat option list \<Rightarrow> nat option list \<times> as_gc_item list" where
  "split_nodes to_remove sz new gc [] = (new @ replicate (sz - length new) None, gc)"
| "split_nodes to_remove sz new gc (p # ps) =
     (if p \<in> Some ` set to_remove then split_nodes to_remove sz new (gc @ [Gc_Node (the p)]) ps
      else if length new < sz then split_nodes to_remove sz (new @ [p]) gc ps
      else split_nodes to_remove sz new gc ps)"

definition as_cluster_remove_nodes_copy :: "as_cluster \<Rightarrow> nat list \<Rightarrow> as_cluster outcome" where
  "as_cluster_remove_nodes_copy c nodes_to_remove =
     outcome_bind (lift_opt (obj (nodes_heap c) (cl_nodes c))) (\<lambda>old.
     if length (nodes_array old) < length nodes_to_remove then Fault
     else
       let (new, gc) = split_nodes nodes_to_remove (length (nodes_array old) - length nodes_to_remove) [] (cl_gc c) (nodes_array old) in
       Done (c\<lparr>nodes_heap := new_obj \<lparr> nodes_ref_count = 1, nodes_array = new \<rparr> (nodes_heap c),
               cl_nodes := length (nodes_heap c), cl_gc := gc @ [Gc_Nodes (cl_nodes c)]\<rparr>))"

fun deactivate_all :: "as_cluster \<Rightarrow> nat list \<Rightarrow> as_cluster outcome" where
  "deactivate_all c [] = Done c"
| "deactivate_all c (n # ns) =
     outcome_bind (lift_opt (obj (node_heap c) n)) (\<lambda>node. deactivate_all (upd_node n (as_node_deactivate node) c) ns)"

definition as_cluster_remove_nodes :: "as_cluster \<Rightarrow> nat list \<Rightarrow> as_cluster outcome" where
  "as_cluster_remove_nodes c nodes_to_remove =
     outcome_bind (deactivate_all c nodes_to_remove) (\<lambda>c. as_cluster_remove_nodes_copy c nodes_to_remove)"

fun gc_items :: "as_cluster \<Rightarrow> as_gc_item list \<Rightarrow> as_cluster outcome" where
  "gc_items c [] = Done c"
| "gc_items c (Gc_Node n # g) = outcome_bind (release_in c n) (\<lambda>c. gc_items c g)"
| "gc_items c (Gc_Nodes i # g) = outcome_bind (release_nodes c i) (\<lambda>c. gc_items c g)"
| "gc_items c (Gc_Tables i # g) = outcome_bind (release_partition_tables c i) (\<lambda>c. gc_items c g)"

definition as_cluster_gc :: "as_cluster \<Rightarrow> as_cluster outcome" where
  "as_cluster_gc c = outcome_bind (gc_items c (cl_gc c)) (\<lambda>c. Done (c\<lparr>cl_gc := []\<rparr>))"


subsection \<open>Asking a node\<close>

text \<open>The node with an address, whose port is given in the order of the machine.\<close>

fun find_by_addr :: "as_cluster \<Rightarrow> sockaddr \<Rightarrow> nat option list \<Rightarrow> nat option outcome" where
  "find_by_addr c addr [] = Done None"
| "find_by_addr c addr (p # ps) =
     (case the_node c p of
        None \<Rightarrow> Fault
      | Some node \<Rightarrow> if addr \<in> set (addresses node) then Done p else find_by_addr c addr ps)"

definition as_cluster_find_node :: "host \<Rightarrow> as_cluster \<Rightarrow> u32 \<Rightarrow> u16 \<Rightarrow> nat option outcome" where
  "as_cluster_find_node h c addr port =
     outcome_bind (lift_opt (obj (nodes_heap c) (cl_nodes c))) (\<lambda>nodes.
     find_by_addr c (addr, cf_swap_to_be16 h port) (nodes_array nodes))"

definition as_cluster_find_friend :: "as_friend list \<Rightarrow> u32 \<Rightarrow> u16 \<Rightarrow> bool" where
  "as_cluster_find_friend friends addr port \<longleftrightarrow> (addr, port) \<in> snd ` set friends"

definition INET_ADDRSTRLEN :: nat where "INET_ADDRSTRLEN = 16"

text \<open>A neighbour that is a node of the cluster is counted, any other one remembered.\<close>

definition note_friend :: "tend_env \<Rightarrow> as_cluster \<Rightarrow> as_friend list \<Rightarrow> byte list \<Rightarrow> u16 \<Rightarrow> (as_cluster \<times> as_friend list) outcome" where
  "note_friend e c friends name port =
     (case (if port > 0 then te_inet_aton e name else None) of
        None \<Rightarrow> Done (c, friends)
      | Some addr \<Rightarrow>
          outcome_bind (as_cluster_find_node (net_host (te_net e)) c addr port) (\<lambda>r.
          case r of
            Some n \<Rightarrow>
              outcome_bind (lift_opt (obj (node_heap c) n)) (\<lambda>node.
              Done (upd_node n (node\<lparr>node_friends := node_friends node + 1\<rparr>) c, friends))
          | None \<Rightarrow>
              Done (c, if as_cluster_find_friend friends addr port then friends
                       else friends @ [(as_strncpy name INET_ADDRSTRLEN, addr, port)])))"

text \<open>The loop over \<^verbatim>\<open>host:port;host:port...\<close>.\<close>

function add_friends_loop ::
  "tend_env \<Rightarrow> as_cluster \<Rightarrow> byte mem \<Rightarrow> nat \<Rightarrow> nat \<Rightarrow> as_friend list \<Rightarrow> (as_cluster \<times> byte mem \<times> as_friend list) outcome" where
  "add_friends_loop e c buf addr_str p friends =
     (case scan (\<lambda>b. b = 58) buf p of
        None \<Rightarrow> Fault
      | Some p \<Rightarrow>
          if buf ! p = 0 then Done (c, buf, friends)
          else
            let buf = buf[p := 0] in
            (case scan (\<lambda>b. b = 59) buf (p + 1) of
               None \<Rightarrow> Fault
             | Some q \<Rightarrow>
                 let buf = buf[q := 0] in
                 outcome_bind (lift_opt (str_at buf (p + 1))) (\<lambda>port_str.
                 outcome_bind (lift_opt (str_at buf addr_str)) (\<lambda>name.
                 let port = word_of_int (atoi port_str) :: u16 in
                 outcome_bind (note_friend e c friends name port)
                   (\<lambda>(c, friends). add_friends_loop e c buf (q + 1) (q + 1) friends)))))"
  by pat_completeness auto
termination
  by (relation "measure (\<lambda>(_, _, buf, _, p, _). length buf - p)") (auto dest!: scan_bounds)

declare add_friends_loop.simps [simp del]

definition as_node_add_friends ::
  "tend_env \<Rightarrow> as_cluster \<Rightarrow> byte mem \<Rightarrow> nat \<Rightarrow> as_friend list \<Rightarrow> (as_cluster \<times> byte mem \<times> as_friend list) outcome" where
  "as_node_add_friends e c buf start friends =
     outcome_bind (lift_opt (mem_load buf start)) (\<lambda>b.
     if b = 0 then Done (c, buf, friends) else add_friends_loop e c buf start start friends)"

text \<open>The answers to the first request: the status, and whether the partitions of the node have changed.\<close>

fun as_node_process_response ::
  "tend_env \<Rightarrow> as_cluster \<Rightarrow> nat \<Rightarrow> byte mem \<Rightarrow> (nat \<times> nat) list \<Rightarrow> as_friend list \<Rightarrow> bool \<Rightarrow> bool \<Rightarrow>
   (bool \<times> bool \<times> as_cluster \<times> as_friend list) outcome" where
  "as_node_process_response e c n buf [] friends status update = Done (status, update, c, friends)"
| "as_node_process_response e c n buf ((name_p, value_p) # nvs) friends status update =
     outcome_bind (lift_opt (obj (node_heap c) n)) (\<lambda>node.
     outcome_bind (lift_opt (str_at buf name_p)) (\<lambda>name.
     if name = ascii ''node'' then
       outcome_bind (lift_opt (str_at buf value_p)) (\<lambda>v.
       let (same, node) = as_node_verify_name node (Some v); c = upd_node n node c in
       if same then as_node_process_response e c n buf nvs friends True update
       else Done (False, update, c, friends))
     else if name = ascii ''partition-generation'' then
       outcome_bind (lift_opt (str_at buf value_p)) (\<lambda>v.
       as_node_process_response e c n buf nvs friends status
         (if partition_generation node \<noteq> word_of_int (atoi v) then True else update))
     else if name = ascii ''services'' then
       outcome_bind (as_node_add_friends e c buf value_p friends) (\<lambda>(c, buf, friends).
       as_node_process_response e c n buf nvs friends status update)
     else as_node_process_response e c n buf nvs friends status update))"

fun as_node_process_partitions :: "as_cluster \<Rightarrow> nat \<Rightarrow> byte mem \<Rightarrow> (nat \<times> nat) list \<Rightarrow> as_cluster outcome" where
  "as_node_process_partitions c n buf [] = Done c"
| "as_node_process_partitions c n buf ((name_p, value_p) # nvs) =
     outcome_bind (lift_opt (str_at buf name_p)) (\<lambda>name.
     if name = ascii ''partition-generation'' then
       outcome_bind (lift_opt (str_at buf value_p)) (\<lambda>v.
       outcome_bind (lift_opt (obj (node_heap c) n)) (\<lambda>node.
       as_node_process_partitions (upd_node n (node\<lparr>partition_generation := word_of_int (atoi v)\<rparr>) c) n buf nvs))
     else if name = ascii ''replicas-master'' then
       outcome_bind (as_partition_tables_update c n buf value_p True) (\<lambda>(_, c, buf). as_node_process_partitions c n buf nvs)
     else if name = ascii ''replicas-prole'' then
       outcome_bind (as_partition_tables_update c n buf value_p False) (\<lambda>(_, c, buf). as_node_process_partitions c n buf nvs)
     else as_node_process_partitions c n buf nvs)"

definition INFO_STR_CHECK :: "byte list" where
  "INFO_STR_CHECK = ascii ''node'' @ [10] @ ascii ''partition-generation'' @ [10] @ ascii ''services'' @ [10]"

definition INFO_STR_GET_REPLICAS :: "byte list" where
  "INFO_STR_GET_REPLICAS = ascii ''partition-generation'' @ [10] @ ascii ''replicas-master'' @ [10] @ ascii ''replicas-prole'' @ [10]"

text \<open>A request on the connection of a node; the connection is closed if there is no answer.\<close>

definition ask_node :: "tend_env \<Rightarrow> as_cluster \<Rightarrow> nat \<Rightarrow> byte list \<Rightarrow> u64 \<Rightarrow> byte mem \<Rightarrow> (byte mem option \<times> as_cluster) outcome" where
  "ask_node e c n names now stack_buf =
     outcome_bind (lift_opt (obj (node_heap c) n)) (\<lambda>node.
     outcome_bind (as_node_get_info ((te_net e)\<lparr>net_stack := stack_buf\<rparr>) node names (cc_timeout_ms (cl_conf c)) now) (\<lambda>(buf, node).
     case buf of
       Some b \<Rightarrow> Done (Some b, upd_node n node c)
     | None \<Rightarrow>
         let (node, fds) = as_node_close_info_connection node in
         Done (None, (upd_node n node c)\<lparr>closed_fds := closed_fds c @ fds\<rparr>)))"

text \<open>The second request of a refresh, if the partitions have changed.\<close>

definition replicas :: "tend_env \<Rightarrow> nat \<Rightarrow> bool \<times> bool \<times> as_cluster \<times> as_friend list \<Rightarrow> (bool \<times> as_cluster \<times> as_friend list) outcome" where
  "replicas e n = (\<lambda>(status, update, c, friends).
     if status \<and> update then
       outcome_bind (ask_node e c n INFO_STR_GET_REPLICAS (snd (te_info_now e n)) (snd (te_info_stack e n))) (\<lambda>(buf, c).
       case buf of
         None \<Rightarrow> Done (False, c, friends)
       | Some b \<Rightarrow>
           outcome_bind (lift_opt (as_info_parse_multi_response b 0)) (\<lambda>(b, nvs).
           outcome_bind (as_node_process_partitions c n b nvs) (\<lambda>c. Done (status, c, friends))))
     else Done (status, c, friends))"

definition as_node_refresh :: "tend_env \<Rightarrow> as_cluster \<Rightarrow> nat \<Rightarrow> as_friend list \<Rightarrow> (bool \<times> as_cluster \<times> as_friend list) outcome" where
  "as_node_refresh e c n friends =
     outcome_bind (lift_opt (obj (node_heap c) n)) (\<lambda>node.
     outcome_bind (as_node_get_info_connection (te_net e) (cl_conf c) node (te_open e n)) (\<lambda>(ret, node, fds).
     let c = (upd_node n node c)\<lparr>closed_fds := closed_fds c @ fds\<rparr> in
     if ret \<noteq> 0 then Done (False, c, friends)
     else
       outcome_bind (ask_node e c n INFO_STR_CHECK (fst (te_info_now e n)) (fst (te_info_stack e n))) (\<lambda>(buf, c).
       case buf of
         None \<Rightarrow> Done (False, c, friends)
       | Some b \<Rightarrow>
           outcome_bind (lift_opt (as_info_parse_multi_response b 0)) (\<lambda>(b, nvs).
           outcome_bind (as_node_process_response e c n b nvs friends False False) (replicas e n)))))"


subsection \<open>One pass\<close>

fun partition_size_loop :: "tend_env \<Rightarrow> as_cluster \<Rightarrow> int \<Rightarrow> nat option list \<Rightarrow> (int \<times> as_cluster) outcome" where
  "partition_size_loop e c first_error [] = Done (first_error, c)"
| "partition_size_loop e c first_error (p # ps) =
     (if n_partitions c \<noteq> 0 then Done (first_error, c)
      else
        outcome_bind (lift_opt (the_node c p)) (\<lambda>node.
        outcome_bind (lift_opt (mem_load (addresses node) (unat (address_index node)))) (\<lambda>addr.
        outcome_bind (ask_host e (Counting (length ps)) (cl_conf c) addr (ascii ''partitions'')) (\<lambda>(status, v).
        if status = AEROSPIKE_OK then partition_size_loop e (c\<lparr>n_partitions := word_of_int (atoi v)\<rparr>) first_error ps
        else partition_size_loop e c (if first_error = 0 then status else first_error) ps))))"

definition as_cluster_set_partition_size :: "tend_env \<Rightarrow> as_cluster \<Rightarrow> (int \<times> as_cluster) outcome" where
  "as_cluster_set_partition_size e c =
     outcome_bind (lift_opt (obj (nodes_heap c) (cl_nodes c))) (\<lambda>nodes.
     outcome_bind (partition_size_loop e c 0 (nodes_array nodes)) (\<lambda>(first_error, c).
     Done (if n_partitions c > 0 then 0 else if first_error \<noteq> 0 then first_error else AEROSPIKE_ERR_CLIENT, c)))"

fun clear_friends :: "as_cluster \<Rightarrow> nat option list \<Rightarrow> as_cluster outcome" where
  "clear_friends c [] = Done c"
| "clear_friends c (p # ps) =
     outcome_bind (lift_opt (the_node c p)) (\<lambda>node. clear_friends (upd_node (the p) (node\<lparr>node_friends := 0\<rparr>) c) ps)"

fun refresh_all ::
  "tend_env \<Rightarrow> as_cluster \<Rightarrow> as_friend list \<Rightarrow> nat \<Rightarrow> nat option list \<Rightarrow> (as_cluster \<times> as_friend list \<times> nat) outcome" where
  "refresh_all e c friends refresh_count [] = Done (c, friends, refresh_count)"
| "refresh_all e c friends refresh_count (p # ps) =
     outcome_bind (lift_opt (the_node c p)) (\<lambda>node.
     if node_active node then
       outcome_bind (as_node_refresh e c (the p) friends) (\<lambda>(ok, c, friends).
       outcome_bind (lift_opt (the_node c p)) (\<lambda>node.
       if ok then refresh_all e (upd_node (the p) (node\<lparr>node_failures := 0\<rparr>) c) friends (refresh_count + 1) ps
       else refresh_all e (upd_node (the p) (node\<lparr>node_failures := node_failures node + 1\<rparr>) c) friends refresh_count ps))
     else refresh_all e c friends refresh_count ps)"

text \<open>From the refreshed nodes on: neighbours are added and nodes removed.\<close>

definition tend_changes :: "tend_env \<Rightarrow> as_cluster \<Rightarrow> as_friend list \<Rightarrow> nat \<Rightarrow> as_cluster outcome" where
  "tend_changes e c friends refresh_count =
     outcome_bind (as_cluster_find_nodes_to_add e c [] friends) (\<lambda>(c, to_add).
     outcome_bind (lift_opt (obj (nodes_heap c) (cl_nodes c))) (\<lambda>current.
     outcome_bind (as_cluster_find_nodes_to_remove e refresh_count (length (nodes_array current)) c [] (nodes_array current)) (\<lambda>(c, to_remove).
     outcome_bind (if to_remove \<noteq> [] then as_cluster_remove_nodes c to_remove else Done c) (\<lambda>c.
     if to_add \<noteq> [] then as_cluster_add_nodes_copy c to_add else Done c))))"

definition as_cluster_tend :: "tend_env \<Rightarrow> as_cluster \<Rightarrow> (int \<times> as_cluster) outcome" where
  "as_cluster_tend e c =
     outcome_bind (as_cluster_gc c) (\<lambda>c.
     outcome_bind (lift_opt (obj (nodes_heap c) (cl_nodes c))) (\<lambda>nodes.
     outcome_bind (if nodes_array nodes = [] then as_cluster_seed_nodes e 0 c else Done (0, c)) (\<lambda>(status, c).
     if status \<noteq> 0 then Done (status, c)
     else
       outcome_bind (if n_partitions c = 0 then as_cluster_set_partition_size e c else Done (0, c)) (\<lambda>(status, c).
       if status \<noteq> 0 then Done (status, c)
       else
         outcome_bind (lift_opt (obj (nodes_heap c) (cl_nodes c))) (\<lambda>nodes.
         outcome_bind (clear_friends c (nodes_array nodes)) (\<lambda>c.
         outcome_bind (refresh_all e c [] 0 (nodes_array nodes)) (\<lambda>(c, friends, refresh_count).
         outcome_bind (tend_changes e c friends refresh_count) (\<lambda>c. Done (0, c)))))))))"


subsection \<open>From creation to destruction\<close>

text \<open>
  The passes until the number of nodes stays the same or the time is over.  Every pass has its environment and the clock after it;
  a list that is too short stands for a loop that is still running.
\<close>

fun stabilize_loop :: "u64 \<Rightarrow> u32 \<Rightarrow> as_cluster \<Rightarrow> (tend_env \<times> u64) list \<Rightarrow> (int \<times> as_cluster) outcome" where
  "stabilize_loop limit cnt c [] = Timeout"
| "stabilize_loop limit cnt c ((e, now) # es) =
     outcome_bind (as_cluster_tend e c) (\<lambda>(status, c).
     if status \<noteq> 0 then Done (status, c)
     else
       outcome_bind (lift_opt (obj (nodes_heap c) (cl_nodes c))) (\<lambda>nodes.
       let sz = of_nat (length (nodes_array nodes)) in
       if cnt = sz then Done (0, c)
       else if now < limit then stabilize_loop limit sz c es
       else Done (0, c)))"

definition as_wait_till_stabilized :: "u64 \<Rightarrow> as_cluster \<Rightarrow> (tend_env \<times> u64) list \<Rightarrow> (int \<times> as_cluster) outcome" where
  "as_wait_till_stabilized now c es = stabilize_loop (now + ucast (cc_timeout_ms (cl_conf c))) (- 1) c es"

definition as_find_seed :: "as_cluster \<Rightarrow> byte list \<Rightarrow> u16 \<Rightarrow> bool" where
  "as_find_seed c hostname port \<longleftrightarrow> (hostname, port) \<in> set (cl_seeds c)"

text \<open>\<open>ntoa\<close> is the printed form of an address.\<close>

fun seeds_to_add :: "host \<Rightarrow> (u32 \<Rightarrow> byte list) \<Rightarrow> as_cluster \<Rightarrow> nat option list \<Rightarrow> (byte list \<times> u16) list outcome" where
  "seeds_to_add h ntoa c [] = Done []"
| "seeds_to_add h ntoa c (p # ps) =
     outcome_bind (lift_opt (the_node c p)) (\<lambda>node.
     outcome_bind (seeds_to_add h ntoa c ps) (\<lambda>rest.
     Done (filter (\<lambda>(name, port). \<not> as_find_seed c name port)
             (map (\<lambda>(addr, port). (ntoa addr, cf_swap_from_be16 h port)) (addresses node)) @ rest)))"

definition as_add_seeds :: "as_cluster \<Rightarrow> (byte list \<times> u16) list \<Rightarrow> as_cluster" where
  "as_add_seeds c new = c\<lparr>cl_seeds := cl_seeds c @ new\<rparr>"

definition as_cluster_add_seeds :: "host \<Rightarrow> (u32 \<Rightarrow> byte list) \<Rightarrow> as_cluster \<Rightarrow> as_cluster outcome" where
  "as_cluster_add_seeds h ntoa c =
     outcome_bind (lift_opt (obj (nodes_heap c) (cl_nodes c))) (\<lambda>nodes.
     outcome_bind (seeds_to_add h ntoa c (nodes_array nodes)) (\<lambda>new. Done (if new \<noteq> [] then as_add_seeds c new else c)))"

definition as_cluster_init ::
  "host \<Rightarrow> (u32 \<Rightarrow> byte list) \<Rightarrow> u64 \<Rightarrow> as_cluster \<Rightarrow> bool \<Rightarrow> (tend_env \<times> u64) list \<Rightarrow> (int \<times> as_cluster) outcome" where
  "as_cluster_init h ntoa now c fail_if_not_connected es =
     outcome_bind (as_wait_till_stabilized now c es) (\<lambda>(status, c).
     if status \<noteq> 0 \<and> fail_if_not_connected then Done (status, c)
     else outcome_bind (as_cluster_add_seeds h ntoa c) (\<lambda>c. Done (0, c\<lparr>cl_valid := True\<rparr>)))"

fun destroy_tables :: "as_cluster \<Rightarrow> nat option list \<Rightarrow> as_cluster outcome" where
  "destroy_tables c [] = Done c"
| "destroy_tables c (p # ps) =
     outcome_bind (lift_opt p) (\<lambda>t. outcome_bind (as_partition_table_destroy c t) (\<lambda>c. destroy_tables c ps))"

fun release_all :: "as_cluster \<Rightarrow> nat option list \<Rightarrow> as_cluster outcome" where
  "release_all c [] = Done c"
| "release_all c (p # ps) = outcome_bind (lift_opt p) (\<lambda>n. outcome_bind (release_in c n) (\<lambda>c. release_all c ps))"

text \<open>The tend thread has ended.\<close>

definition as_cluster_destroy :: "as_cluster \<Rightarrow> as_cluster outcome" where
  "as_cluster_destroy c =
     outcome_bind (as_cluster_gc (c\<lparr>cl_valid := False\<rparr>)) (\<lambda>c.
     outcome_bind (lift_opt (obj (tables_heap c) (cl_partition_tables c))) (\<lambda>tables.
     outcome_bind (destroy_tables c (tables_array tables)) (\<lambda>c.
     outcome_bind (release_partition_tables c (cl_partition_tables c)) (\<lambda>c.
     outcome_bind (lift_opt (obj (nodes_heap c) (cl_nodes c))) (\<lambda>nodes.
     outcome_bind (release_all c (nodes_array nodes)) (\<lambda>c.
     release_nodes c (cl_nodes c)))))))"

record as_config =
  cfg_user :: "byte list"
  cfg_password :: "byte list"
  cfg_conn_timeout_ms :: u32
  cfg_hosts :: "(byte list option \<times> u16) list"
  cfg_ip_map :: "(byte list \<times> byte list) list"
  cfg_fail_if_not_connected :: bool

definition seeds_create :: "as_config \<Rightarrow> (byte list \<times> u16) list" where
  "seeds_create cfg = map (\<lambda>(a, port). (the a, port)) (takeWhile (\<lambda>h. fst h \<noteq> None) (cfg_hosts cfg))"

definition empty_cluster :: "as_config \<Rightarrow> as_cluster" where
  "empty_cluster cfg =
     \<lparr> node_heap = [], nodes_heap = [Some \<lparr> nodes_ref_count = 1, nodes_array = [] \<rparr>], table_heap = [],
       tables_heap = [Some (as_partition_tables_create 0)], cl_nodes = 0, cl_partition_tables = 0, cl_gc = [],
       cl_conf = \<lparr> cc_login = (if cfg_user cfg \<noteq> [] then Some (cfg_user cfg, if cfg_password cfg \<noteq> [] then Some (cfg_password cfg) else None) else None),
                   cc_timeout_ms = (if cfg_conn_timeout_ms cfg = 0 then 1000 else cfg_conn_timeout_ms cfg) \<rparr>,
       cl_seeds = seeds_create cfg, cl_ip_map = cfg_ip_map cfg, node_index = 0, n_partitions = 0, randomizer = 0,
       cl_valid = False, closed_fds = [] \<rparr>"

text \<open>The cluster is destroyed again if it cannot be reached; otherwise the tend thread starts.\<close>

definition as_cluster_create ::
  "host \<Rightarrow> (u32 \<Rightarrow> byte list) \<Rightarrow> u64 \<Rightarrow> as_config \<Rightarrow> (tend_env \<times> u64) list \<Rightarrow> (int \<times> as_cluster option \<times> as_cluster) outcome" where
  "as_cluster_create h ntoa now cfg es =
     outcome_bind (as_cluster_init h ntoa now (empty_cluster cfg) (cfg_fail_if_not_connected cfg) es) (\<lambda>(status, c).
     if status \<noteq> 0 then outcome_bind (as_cluster_destroy c) (\<lambda>c. Done (status, None, c))
     else Done (0, Some c, c))"

definition as_cluster_is_connected :: "as_cluster \<Rightarrow> bool option" where
  "as_cluster_is_connected c = map_option (\<lambda>nodes. nodes_array nodes \<noteq> [] \<and> cl_valid c) (obj (nodes_heap c) (cl_nodes c))"

definition as_cluster_change_password :: "as_cluster \<Rightarrow> byte list option \<Rightarrow> byte list \<Rightarrow> as_cluster" where
  "as_cluster_change_password c user password =
     (case user of
        None \<Rightarrow> c
      | Some u \<Rightarrow>
          if u \<noteq> [] \<and> (case cc_login (cl_conf c) of None \<Rightarrow> True | Some (old, _) \<Rightarrow> old = u)
          then c\<lparr>cl_conf := (cl_conf c)\<lparr>cc_login := Some (u, Some password)\<rparr>\<rparr> else c)"

end
