(* ===== verification/ClusterTend.thy ===== *)
theory ClusterTend
  imports ClusterInv Cluster
begin

text \<open>
  Every operation of a tend pass keeps the reference counts.  The nodes that a pass has created and not yet stored in the array of
  the cluster are \<open>new\<close>.  Counts have 32 bits, so the number of references that can exist at the end of the pass is bounded;
  since it only grows from the garbage collection at the start of the pass on, it is bounded everywhere before.
\<close>

definition slots :: "as_cluster \<Rightarrow> nat" where
  "slots c = length (current_nodes c) + length (cl_gc c) + 131072 * length (table_heap c)"

definition fits :: "nat multiset \<Rightarrow> nat list \<Rightarrow> as_cluster \<Rightarrow> bool" where
  "fits held new c \<longleftrightarrow> slots c + length new + size held + 2 < 2 ^ 32"

definition tend_ok :: "nat multiset \<Rightarrow> nat list \<Rightarrow> as_cluster \<Rightarrow> bool" where
  "tend_ok held new c \<longleftrightarrow> cluster_ok (mset new + held) c \<and> distinct (map Some new @ current_nodes c)"

text \<open>From one state to another, without losing a node, and possibly losing some.\<close>

definition leads :: "nat multiset \<Rightarrow> nat list \<Rightarrow> as_cluster \<Rightarrow> nat list \<Rightarrow> as_cluster \<Rightarrow> bool" where
  "leads held new c new' c' \<longleftrightarrow>
     n_partitions c' = n_partitions c \<and> (n_partitions c = 0 \<longrightarrow> table_heap c' = table_heap c) \<and> slots c + length new \<le> slots c' + length new' \<and>
     (tend_ok held new c \<and> fits held new' c' \<longrightarrow> tend_ok held new' c')"

definition evolves :: "nat multiset \<Rightarrow> nat list \<Rightarrow> as_cluster \<Rightarrow> nat list \<Rightarrow> as_cluster \<Rightarrow> bool" where
  "evolves held new c new' c' \<longleftrightarrow> leads held new c new' c' \<and> mset (current_nodes c) \<subseteq># mset (current_nodes c')"

lemma leads_refl [simp]: "leads held new c new c"
  by (simp add: leads_def)

lemma evolves_refl [simp]: "evolves held new c new c"
  by (simp add: evolves_def)

lemma leads_trans: "leads held a c b d \<Longrightarrow> leads held b d e f \<Longrightarrow> leads held a c e f"
  by (auto simp: leads_def fits_def)

lemma evolves_trans: "evolves held a c b d \<Longrightarrow> evolves held b d e f \<Longrightarrow> evolves held a c e f"
  unfolding evolves_def by (blast intro: leads_trans subset_mset.trans)

lemma evolves_node: "evolves held a c b d \<Longrightarrow> p \<in> set (current_nodes c) \<Longrightarrow> p \<in> set (current_nodes d)"
  by (auto simp: evolves_def dest!: set_mset_mono)

lemma evolves_partitions: "evolves held a c b d \<Longrightarrow> n_partitions d = n_partitions c"
  by (simp add: evolves_def leads_def)

lemma size_opt_mset: "size (opt_mset x) \<le> 1"
  by (cases x) simp_all

lemma size_sum_list_le: "(\<And>x. x \<in> set xs \<Longrightarrow> size (f x) \<le> k) \<Longrightarrow> size (sum_list (map f xs)) \<le> k * length xs"
  for f :: "'a \<Rightarrow> 'b multiset"
proof (induction xs)
  case (Cons a xs)
  then have "size (f a) \<le> k" "size (sum_list (map f xs)) \<le> k * length xs"
    by auto
  then show ?case
    by simp
qed simp

lemma size_gc_refs: "size (gc_node_refs g) + size (gc_nodes_refs g) + size (gc_tables_refs g) = length g"
  by (induction g rule: gc_node_refs.induct) simp_all

lemma size_table_refs:
  assumes "cluster_ok held c" and "t \<in> set (table_heap c)"
  shows "size (table_refs t) \<le> 131072"
proof (cases t)
  case (Some tb)
  then obtain i where "i < length (table_heap c)" "table_heap c ! i = Some tb"
    using assms(2) by (auto simp: in_set_conv_nth)
  then have "obj (table_heap c) i = Some tb"
    by (simp add: obj_def)
  then have "length (partitions tb) < 65536"
    using cluster_okD(7) [OF assms(1)] unsigned_less [of "n_partitions c", where ?'a = nat] by simp
  moreover have "size (partition_refs p) \<le> 2" for p
    using size_opt_mset [of "master p"] size_opt_mset [of "prole p"] by (simp add: partition_refs_def)
  then have "size (table_refs t) \<le> 2 * length (partitions tb)"
    unfolding Some table_refs_simps by (rule size_sum_list_le)
  ultimately show ?thesis
    by simp
qed simp

lemma owners_bound: "cluster_ok held c \<Longrightarrow> size (node_owners c) \<le> slots c"
proof -
  assume ok: "cluster_ok held c"
  have "size (sum_list (map opt_mset (current_nodes c))) \<le> 1 * length (current_nodes c)"
    by (rule size_sum_list_le) (rule size_opt_mset)
  moreover have "size (sum_list (map table_refs (table_heap c))) \<le> 131072 * length (table_heap c)"
    by (rule size_sum_list_le) (rule size_table_refs [OF ok])
  moreover have "size (gc_node_refs (cl_gc c)) \<le> length (cl_gc c)"
    using size_gc_refs [of "cl_gc c"] by simp
  ultimately show ?thesis
    by (simp add: node_owners_def slots_def)
qed

lemma fits_room: "cluster_ok (mset new + held) c \<Longrightarrow> fits held new c \<Longrightarrow> room 1 (mset new + held) c"
  using owners_bound by (fastforce simp: room_def fits_def)

lemma current_live: "cluster_ok held c \<Longrightarrow> Some n \<in> set (current_nodes c) \<Longrightarrow> live c n"
  using live_iff [of held c n] by (force simp: node_owners_def)

lemma live_length: "live c n \<Longrightarrow> n < length (node_heap c)"
  by (auto simp: live_def obj_def split: if_splits)


subsection \<open>Changes of nodes\<close>

lemma evolves_same_shape:
  assumes s: "same_shape c c'" and ok: "\<And>h. cluster_ok h c \<Longrightarrow> cluster_ok h c'"
  shows "evolves held new c new c'"
  using same_shapeD [OF s] ok by (simp add: evolves_def leads_def tend_ok_def slots_def)

lemma upd_node_shape: "same_shape c (upd_node n y c)"
  by (auto simp: upd_node_def intro: same_shapeI)

lemma upd_node_ok:
  assumes ok: "cluster_ok h c" and x: "obj (node_heap c) n = Some x" and y: "ref_count y = ref_count x" "node_sane x \<Longrightarrow> node_sane y"
  shows "cluster_ok h (upd_node n y c)"
  using ok upd_node_shape
proof (rule cluster_ok_nodes)
  show "counted ref_count (node_heap (upd_node n y c)) (node_owners c + h)"
    using counted_upd [OF cluster_okD(1) [OF ok] x y(1)] by (simp add: upd_node_def)
  show "node_sane z" if "obj (node_heap (upd_node n y c)) m = Some z" for m z
    using that x y(2) cluster_okD(4) [OF ok] by (auto simp: upd_node_def split: if_splits)
qed

lemma evolves_upd:
  assumes "obj (node_heap c) n = Some x" and "ref_count y = ref_count x" "node_sane x \<Longrightarrow> node_sane y"
  shows "evolves held new c new (upd_node n y c)"
  using upd_node_shape upd_node_ok [OF _ assms] by (rule evolves_same_shape)

lemma closed_ok: "cluster_ok h (c\<lparr>closed_fds := fds\<rparr>) = cluster_ok h c"
  by (simp add: cluster_ok_def node_owners_def current_nodes_def current_tables_def)

lemma closed_shape: "same_shape c (c\<lparr>closed_fds := fds\<rparr>)"
  using same_shapeI' [of "node_heap c" c fds] by simp

lemma evolves_closed: "evolves held new c new (c\<lparr>closed_fds := fds\<rparr>)"
  using closed_shape by (rule evolves_same_shape) (simp add: closed_ok)

text \<open>A new node, which the pass holds.\<close>

lemma create_evolves:
  assumes "create_in c name addr = Done (n, c')"
  shows "evolves held new c (new @ [n]) c'"
proof -
  obtain x where x: "as_node_create name addr = Some x" and n: "n = length (node_heap c)"
      and c': "c' = c\<lparr>node_heap := new_obj x (node_heap c)\<rparr>"
    using assms by (auto simp: create_in_def outcome_bind_Done lift_opt_Done)
  have x1: "ref_count x = 1"
    using x by (auto simp: as_node_create_def as_node_add_address_def split: Option.bind_splits)
  have "node_sane x"
    using x create_rep(1) by (fastforce simp: as_node_create_def as_node_add_address_def node_sane_def split: Option.bind_splits)
  have same: "current_nodes c' = current_nodes c" "node_owners c' = node_owners c" "slots c' = slots c" "n_partitions c' = n_partitions c"
    "table_heap c' = table_heap c"
    by (simp_all add: c' current_nodes_def node_owners_def slots_def)
  have "tend_ok held (new @ [n]) c'" if t: "tend_ok held new c" and f: "fits held (new @ [n]) c'"
  proof -
    have ok: "cluster_ok (mset new + held) c" and d: "distinct (map Some new @ current_nodes c)"
      using t by (simp_all add: tend_ok_def)
    have "size (node_owners c + (mset new + held)) + 1 < 2 ^ 32"
      using owners_bound [OF ok] f same by (simp add: fits_def)
    from counted_new [OF cluster_okD(1) [OF ok] x1 this]
    have cnt: "counted ref_count (node_heap c') (node_owners c + (mset (new @ [n]) + held))"
      by (simp add: c' n)
    have "\<not> live c n"
      using live_length [of c n] n by auto
    then have "n \<notin> set new" "Some n \<notin> set (current_nodes c)"
      using live_iff [OF ok] current_live [OF ok] by auto
    with d same have "distinct (map Some (new @ [n]) @ current_nodes c')"
      by auto
    moreover have "cluster_ok (mset (new @ [n]) + held) c'"
      using cluster_okD [OF ok] cnt \<open>node_sane x\<close> unfolding cluster_ok_def
      by (auto simp: c' current_nodes_def current_tables_def node_owners_def)
    ultimately show ?thesis
      by (simp add: tend_ok_def)
  qed
  with same show ?thesis
    by (simp add: evolves_def leads_def)
qed


subsection \<open>Adding nodes\<close>

lemma sum_opt_msets: "sum_list (map opt_mset (map Some xs)) = mset xs"
  by (induction xs) simp_all

lemma add_nodes_evolves:
  assumes "as_cluster_add_nodes_copy c to_add = Done c'"
  shows "evolves held (new @ to_add) c new c'"
proof -
  obtain old where old: "obj (nodes_heap c) (cl_nodes c) = Some old" and
      c': "c' = c\<lparr>nodes_heap := new_obj \<lparr> nodes_ref_count = 1, nodes_array = nodes_array old @ map Some to_add \<rparr> (nodes_heap c),
             cl_nodes := length (nodes_heap c), cl_gc := cl_gc c @ [Gc_Nodes (cl_nodes c)]\<rparr>"
    using assms by (auto simp: as_cluster_add_nodes_copy_def outcome_bind_Done lift_opt_Done)
  have cur: "current_nodes c' = current_nodes c @ map Some to_add"
    using old by (simp add: c' current_nodes_def)
  have own: "node_owners c' = node_owners c + mset to_add"
    using sum_opt_msets [of to_add] unfolding node_owners_def cur by (simp add: c' ac_simps del: map_map)
  have slots: "slots c' = slots c + length to_add + 1"
    by (simp add: slots_def cur) (simp add: c')
  have "tend_ok held new c'" if t: "tend_ok held (new @ to_add) c" and f: "fits held new c'"
  proof -
    have ok: "cluster_ok (mset (new @ to_add) + held) c" and d: "distinct (map Some (new @ to_add) @ current_nodes c)"
      using t by (simp_all add: tend_ok_def)
    have "size (add_mset (cl_nodes c) (gc_nodes_refs (cl_gc c))) + 1 < 2 ^ 32"
      using f slots size_gc_refs [of "cl_gc c"] by (simp add: fits_def slots_def)
    from counted_new [OF cluster_okD(2) [OF ok] _ this]
    have cnt: "counted nodes_ref_count (nodes_heap c') (add_mset (cl_nodes c') (gc_nodes_refs (cl_gc c')))"
      by (simp add: c')
    have "node_owners c' + (mset new + held) = node_owners c + (mset (new @ to_add) + held)"
      unfolding own by (simp add: ac_simps)
    moreover have "node_heap c' = node_heap c"
      by (simp add: c')
    ultimately have "counted ref_count (node_heap c') (node_owners c' + (mset new + held))"
      using cluster_okD(1) [OF ok] by metis
    then have "cluster_ok (mset new + held) c'"
      unfolding cluster_ok_def cur using cluster_okD(3-7) [OF ok] cnt by (auto simp: c' current_tables_def)
    moreover have "distinct (map Some new @ current_nodes c')"
      using d unfolding cur by auto
    ultimately show ?thesis
      by (simp add: tend_ok_def)
  qed
  then show ?thesis
    using slots by (auto simp: evolves_def leads_def cur) (simp_all add: c')
qed

lemma add_address_evolves: "add_address_in c n addr = Done c' \<Longrightarrow> evolves held new c new c'"
  by (auto simp: add_address_in_def as_node_add_address_def node_sane_def outcome_bind_Done lift_opt_Done intro!: evolves_upd)

lemma seed_addresses_evolves:
  "seed_addresses e occ c to_add err addrs = Done (c', to_add', err') \<Longrightarrow> evolves held (new @ to_add) c (new @ to_add') c'"
proof (induction addrs arbitrary: c to_add err)
  case (Cons addr addrs)
  obtain status name where l: "as_lookup_node_name e occ (cl_conf c) addr = Done (status, name)"
    using Cons.prems by (auto simp: outcome_bind_Done)
  show ?case
  proof (cases "status = 0")
    case True
    obtain p where p: "find_by_name c name (map Some to_add) = Done p"
      using Cons.prems l True by (auto simp: outcome_bind_Done)
    show ?thesis
    proof (cases p)
      case None
      then obtain n c1 where n: "create_in c name addr = Done (n, c1)"
          and "seed_addresses e occ c1 (to_add @ [n]) err addrs = Done (c', to_add', err')"
        using Cons.prems l p True by (auto simp: outcome_bind_Done)
      from Cons.IH [OF this(2)] show ?thesis
        using create_evolves [OF n, of held "new @ to_add"] evolves_trans by simp
    next
      case (Some n)
      then obtain c1 where n: "add_address_in c n addr = Done c1"
          and "seed_addresses e occ c1 to_add err addrs = Done (c', to_add', err')"
        using Cons.prems l p True by (auto simp: outcome_bind_Done)
      from Cons.IH [OF this(2)] show ?thesis
        using add_address_evolves [OF n] evolves_trans by blast
    qed
  qed (use Cons l in simp)
qed simp

lemma seed_loop_evolves:
  "seed_loop e round c to_add err seeds = Done (c', to_add', err') \<Longrightarrow> evolves held (new @ to_add) c (new @ to_add') c'"
proof (induction seeds arbitrary: c to_add err)
  case (Cons seed seeds)
  obtain status addrs where l: "as_lookup (net_host (te_net e)) (cl_ip_map c) (te_resolve e (Seeding round (length seeds))) (fst seed) (snd seed) = (status, addrs)"
    by fastforce
  show ?case
  proof (cases "status = 0")
    case True
    then obtain c1 to_add1 err1 where a: "seed_addresses e (Seeding round (length seeds)) c to_add err addrs = Done (c1, to_add1, err1)"
        and "seed_loop e round c1 to_add1 err1 seeds = Done (c', to_add', err')"
      using Cons.prems l by (auto simp: outcome_bind_Done)
    from Cons.IH [OF this(2)] show ?thesis
      using seed_addresses_evolves [OF a] evolves_trans by blast
  qed (use Cons l in simp)
qed simp

lemma seed_nodes_evolves:
  assumes "as_cluster_seed_nodes e round c = Done (status, c')"
  shows "evolves held new c new c'"
proof -
  obtain c1 to_add err where l: "seed_loop e round c [] 0 (cl_seeds c) = Done (c1, to_add, err)"
    using assms by (auto simp: as_cluster_seed_nodes_def outcome_bind_Done)
  have e: "evolves held new c (new @ to_add) c1"
    using seed_loop_evolves [OF l, of held new] by simp
  show ?thesis
  proof (cases "to_add = []")
    case True
    with assms l e show ?thesis
      by (auto simp: as_cluster_seed_nodes_def)
  next
    case False
    then have "as_cluster_add_nodes_copy c1 to_add = Done c'"
      using assms l by (auto simp: as_cluster_seed_nodes_def outcome_bind_Done)
    from add_nodes_evolves [OF this] e show ?thesis
      using evolves_trans by blast
  qed
qed

lemma friend_addresses_evolves:
  "friend_addresses e occ c to_add addrs = Done (c', to_add') \<Longrightarrow> evolves held to_add c to_add' c'"
proof (induction addrs arbitrary: c to_add)
  case (Cons addr addrs)
  obtain status name where l: "as_lookup_node_name e occ (cl_conf c) addr = Done (status, name)"
    using Cons.prems by (auto simp: outcome_bind_Done)
  show ?case
  proof (cases "status = 0")
    case True
    obtain nodes p where nodes: "obj (nodes_heap c) (cl_nodes c) = Some nodes" and p: "find_by_name c name (nodes_array nodes) = Done p"
      using Cons.prems l True by (auto simp: outcome_bind_Done lift_opt_Done)
    show ?thesis
    proof (cases p)
      case None
      then obtain n c1 where n: "create_in c name addr = Done (n, c1)" and "friend_addresses e occ c1 (to_add @ [n]) addrs = Done (c', to_add')"
        using Cons.prems l True nodes p by (auto simp: outcome_bind_Done lift_opt_Done)
      from Cons.IH [OF this(2)] show ?thesis
        using create_evolves [OF n] evolves_trans by blast
    next
      case (Some n)
      then obtain x where x: "obj (node_heap c) n = Some x" and
          "friend_addresses e occ (upd_node n (as_node_add_address (x\<lparr>node_friends := node_friends x + 1\<rparr>) addr) c) to_add addrs = Done (c', to_add')"
        using Cons.prems l True nodes p by (auto simp: outcome_bind_Done lift_opt_Done)
      moreover have "evolves held to_add c to_add (upd_node n (as_node_add_address (x\<lparr>node_friends := node_friends x + 1\<rparr>) addr) c)"
        using x by (rule evolves_upd) (auto simp: as_node_add_address_def node_sane_def)
      ultimately show ?thesis
        using Cons.IH evolves_trans by blast
    qed
  qed (use Cons l in simp)
qed simp

lemma find_to_add_evolves:
  "as_cluster_find_nodes_to_add e c to_add fs = Done (c', to_add') \<Longrightarrow> evolves held to_add c to_add' c'"
proof (induction fs arbitrary: c to_add)
  case (Cons f fs)
  obtain status addrs where l: "as_lookup (net_host (te_net e)) (cl_ip_map c) (te_resolve e (Neighbour (length fs))) (fst f) (snd (snd f)) = (status, addrs)"
    by fastforce
  show ?case
  proof (cases "status = 0")
    case True
    then obtain c1 to_add1 where a: "friend_addresses e (Neighbour (length fs)) c to_add addrs = Done (c1, to_add1)"
        and "as_cluster_find_nodes_to_add e c1 to_add1 fs = Done (c', to_add')"
      using Cons.prems l by (auto simp: outcome_bind_Done)
    from Cons.IH [OF this(2)] show ?thesis
      using friend_addresses_evolves [OF a] evolves_trans by blast
  qed (use Cons l in simp)
qed simp


subsection \<open>Removing nodes\<close>

lemma unwanted_evolves:
  "unwanted e refresh_count sz n node c = Done (gone, c') \<Longrightarrow> evolves held new c new c'"
  by (auto simp: unwanted_def outcome_bind_Done split: if_splits dest: seed_nodes_evolves)

lemma find_to_remove_evolves:
  "as_cluster_find_nodes_to_remove e refresh_count sz c to_remove ps = Done (c', to_remove') \<Longrightarrow>
    evolves held new c new c' \<and> mset (map Some to_remove') \<subseteq># mset (map Some to_remove) + mset ps"
proof (induction ps arbitrary: c to_remove)
  case (Cons p ps)
  obtain n where p: "p = Some n"
    using Cons.prems by (cases p) (auto simp: the_node_def outcome_bind_Done lift_opt_Done)
  obtain gone c1 x where u: "unwanted e refresh_count sz n x c = Done (gone, c1)"
      and r: "as_cluster_find_nodes_to_remove e refresh_count sz c1 (if gone then to_remove @ [n] else to_remove) ps = Done (c', to_remove')"
    using Cons.prems p by (auto simp: outcome_bind_Done lift_opt_Done cong: if_cong)
  from Cons.IH [OF r] have e: "evolves held new c1 new c'"
      and m: "mset (map Some to_remove') \<subseteq># mset (map Some (if gone then to_remove @ [n] else to_remove)) + mset ps"
    by blast+
  have "mset (map Some (if gone then to_remove @ [n] else to_remove)) + mset ps \<subseteq># mset (map Some to_remove) + mset (p # ps)"
    by (simp add: p)
  then have "mset (map Some to_remove') \<subseteq># mset (map Some to_remove) + mset (p # ps)"
    by (rule subset_mset.trans [OF m])
  with e show ?case
    using unwanted_evolves [OF u] evolves_trans by blast
qed simp

lemma deactivate_evolves: "deactivate_all c ns = Done c' \<Longrightarrow> evolves held new c new c'"
proof (induction ns arbitrary: c)
  case (Cons n ns)
  then obtain x where x: "obj (node_heap c) n = Some x" and r: "deactivate_all (upd_node n (as_node_deactivate x) c) ns = Done c'"
    by (auto simp: outcome_bind_Done lift_opt_Done)
  have "evolves held new c new (upd_node n (as_node_deactivate x) c)"
    using x by (rule evolves_upd) (auto simp: as_node_deactivate_def node_sane_def)
  with Cons.IH [OF r] show ?case
    using evolves_trans by blast
qed simp

abbreviation going :: "nat list \<Rightarrow> nat option \<Rightarrow> bool" where
  "going rm p \<equiv> p \<in> Some ` set rm"

lemma split_nodes_gc: "snd (split_nodes rm sz new gc ps) = gc @ map (Gc_Node \<circ> the) (filter (going rm) ps)"
  by (induction rm sz new gc ps rule: split_nodes.induct) simp_all

lemma split_nodes_length: "length new \<le> sz \<Longrightarrow> length (fst (split_nodes rm sz new gc ps)) = sz"
  by (induction rm sz new gc ps rule: split_nodes.induct) simp_all

lemma split_nodes_new:
  "length new + length (filter (\<lambda>p. \<not> going rm p) ps) = sz \<Longrightarrow> fst (split_nodes rm sz new gc ps) = new @ filter (\<lambda>p. \<not> going rm p) ps"
proof (induction ps arbitrary: new gc)
  case (Cons p ps)
  then show ?case
    by (cases "going rm p") (auto simp del: image_iff)
qed simp

lemma gc_refs_nodes: "gc_node_refs (map (Gc_Node \<circ> the) ps) = mset (map the ps)"
    "gc_nodes_refs (map (Gc_Node \<circ> the) ps) = {#}" "gc_tables_refs (map (Gc_Node \<circ> the) ps) = {#}"
  by (induction ps) simp_all

lemma opt_msets_the: "None \<notin> set ps \<Longrightarrow> sum_list (map opt_mset ps) = mset (map the ps)"
proof (induction ps)
  case (Cons p ps)
  then show ?case
    by (cases p) simp_all
qed simp

lemma going_length:
  assumes "mset (map Some rm) \<subseteq># mset ps"
  shows "length rm \<le> length (filter (going rm) ps)" and "distinct ps \<Longrightarrow> length (filter (going rm) ps) = length rm"
proof -
  have "filter_mset (going rm) (mset (map Some rm)) \<subseteq># filter_mset (going rm) (mset ps)"
    by (rule multiset_filter_mono [OF assms])
  moreover have "filter_mset (going rm) (mset (map Some rm)) = mset (map Some rm)"
    by (simp add: filter_mset_eq_conv)
  ultimately have m: "mset (map Some rm) \<subseteq># mset (filter (going rm) ps)"
    by simp
  then show le: "length rm \<le> length (filter (going rm) ps)"
    using size_mset_mono [OF m] by (metis length_map size_mset)
  show "length (filter (going rm) ps) = length rm" if d: "distinct ps"
  proof -
    have "length (filter (going rm) ps) = card (set (filter (going rm) ps))"
      using d by (simp add: distinct_card [symmetric])
    also have "\<dots> \<le> card (Some ` set rm)"
      by (rule card_mono) auto
    also have "\<dots> \<le> length rm"
      using card_image_le [of "set rm" Some] card_length [of rm] by simp
    finally show ?thesis
      using le by simp
  qed
qed

lemma filter_parts: "mset (map f (filter P xs)) + mset (map f (filter (\<lambda>x. \<not> P x) xs)) = mset (map f xs)"
  by (induction xs) auto

lemma remove_copy_leads:
  assumes r: "as_cluster_remove_nodes_copy c rm = Done c'" and rm: "mset (map Some rm) \<subseteq># mset (current_nodes c)"
  shows "leads held new c new c'"
proof -
  obtain old where old: "obj (nodes_heap c) (cl_nodes c) = Some old"
    using r by (auto simp: as_cluster_remove_nodes_copy_def outcome_bind_Done lift_opt_Done)
  define ps where "ps = current_nodes c"
  have ps: "nodes_array old = ps"
    using old by (simp add: ps_def current_nodes_def)
  obtain arr gc where sp: "split_nodes rm (length ps - length rm) [] (cl_gc c) ps = (arr, gc)"
    by fastforce
  have len: "length rm \<le> length ps"
    using size_mset_mono [OF rm] by (simp add: ps_def)
  have c': "c' = c\<lparr>nodes_heap := new_obj \<lparr> nodes_ref_count = 1, nodes_array = arr \<rparr> (nodes_heap c),
      cl_nodes := length (nodes_heap c), cl_gc := gc @ [Gc_Nodes (cl_nodes c)]\<rparr>"
    using r old ps sp len by (simp add: as_cluster_remove_nodes_copy_def lift_opt_def Let_def)
  have gc: "gc = cl_gc c @ map (Gc_Node \<circ> the) (filter (going rm) ps)"
    using split_nodes_gc [of rm "length ps - length rm" "[]" "cl_gc c" ps] sp by simp
  have cur: "current_nodes c' = arr"
    by (simp add: c' current_nodes_def)
  have "length arr = length ps - length rm"
    using split_nodes_length [of "[]" "length ps - length rm" rm "cl_gc c" ps] sp by simp
  then have slots: "slots c < slots c'"
    using going_length(1) [OF rm] len by (simp add: slots_def cur) (simp add: c' gc ps_def)
  have "tend_ok held new c'" if t: "tend_ok held new c" and f: "fits held new c'"
  proof -
    have ok: "cluster_ok (mset new + held) c" and d: "distinct (map Some new @ ps)"
      using t by (simp_all add: tend_ok_def ps_def)
    have "length (filter (going rm) ps) = length rm"
      using going_length(2) [OF rm] d by (simp add: ps_def)
    then have "length ([] :: nat option list) + length (filter (\<lambda>p. \<not> going rm p) ps) = length ps - length rm"
      using sum_length_filter_compl [of "going rm" ps] by simp
    from split_nodes_new [OF this, of "cl_gc c"] sp have arr: "arr = filter (\<lambda>p. \<not> going rm p) ps"
      by simp
    have "None \<notin> set ps"
      using cluster_okD(5) [OF ok] by (simp add: ps_def)
    then have none: "None \<notin> set arr" and "sum_list (map opt_mset arr) = mset (map the arr)" "sum_list (map opt_mset ps) = mset (map the ps)"
      unfolding arr by (auto simp del: mset_map mset_filter intro!: opt_msets_the)
    then have own: "node_owners c' = node_owners c"
      unfolding node_owners_def cur ps_def [symmetric] using filter_parts [of the "going rm" ps]
      by (simp add: c' gc gc_refs_nodes arr [symmetric] ac_simps)
    have "size (add_mset (cl_nodes c) (gc_nodes_refs (cl_gc c))) + 1 < 2 ^ 32"
      using f slots size_gc_refs [of "cl_gc c"] by (simp add: fits_def slots_def)
    from counted_new [OF cluster_okD(2) [OF ok] _ this]
    have cnt: "counted nodes_ref_count (nodes_heap c') (add_mset (cl_nodes c') (gc_nodes_refs (cl_gc c')))"
      by (simp add: c' gc gc_refs_nodes)
    have "cluster_ok (mset new + held) c'"
      unfolding cluster_ok_def cur own using cluster_okD [OF ok] cnt none
      by (auto simp: c' current_tables_def gc gc_refs_nodes)
    moreover have "distinct (map Some new @ current_nodes c')"
      using d unfolding cur arr by auto
    ultimately show ?thesis
      by (simp add: tend_ok_def)
  qed
  then show ?thesis
    using slots by (auto simp: leads_def) (simp_all add: c')
qed


subsection \<open>Partition tables\<close>

text \<open>What an update of the tables leaves alone.\<close>

definition frame :: "as_cluster \<Rightarrow> as_cluster \<Rightarrow> bool" where
  "frame c c' \<longleftrightarrow>
     current_nodes c' = current_nodes c \<and> tables_heap c' = tables_heap c \<and> cl_partition_tables c' = cl_partition_tables c \<and>
     cl_gc c' = cl_gc c \<and> n_partitions c' = n_partitions c \<and> length (table_heap c) \<le> length (table_heap c') \<and>
     (\<forall>t. obj (table_heap c) t \<noteq> None \<longrightarrow> obj (table_heap c') t \<noteq> None)"

lemma frame_refl [simp]: "frame c c"
  by (simp add: frame_def)

lemma frame_trans: "frame a b \<Longrightarrow> frame b c \<Longrightarrow> frame a c"
  by (auto simp: frame_def)

lemma frame_same_shape: "same_shape c c' \<Longrightarrow> frame c c'"
  using same_shapeD [of c c'] by (simp add: frame_def)

lemma frame_evolves:
  assumes "frame c c'" and "n_partitions c \<noteq> 0" and "cluster_ok (mset new + held) c \<Longrightarrow> fits held new c \<Longrightarrow> fits held new c' \<Longrightarrow> cluster_ok (mset new + held) c'"
  shows "evolves held new c new c'"
proof -
  have "slots c \<le> slots c'"
    using assms(1) by (simp add: frame_def slots_def)
  then have "fits held new c' \<Longrightarrow> fits held new c"
    by (simp add: fits_def)
  with assms \<open>slots c \<le> slots c'\<close> show ?thesis
    by (auto simp: evolves_def leads_def tend_ok_def frame_def)
qed

lemma reserve_in_shape: "reserve_in c n = Done c' \<Longrightarrow> same_shape c c'"
  by (auto simp: reserve_in_def as_node_reserve_def outcome_bind_Done lift_opt_Done intro: same_shapeI)

lemma release_in_shape:
  assumes "release_in c n = Done c'"
  shows "same_shape c c'"
proof -
  obtain h d where h: "as_node_release (node_heap c) n = Some (h, d)" and
      c': "c' = c\<lparr>node_heap := h\<rparr> \<or> (\<exists>fds. c' = c\<lparr>node_heap := h, closed_fds := fds\<rparr>)"
    using assms by (auto simp: release_in_def outcome_bind_Done lift_opt_Done split: option.splits) blast+
  have "length h = length (node_heap c)"
    using h by (auto simp: as_node_release_def Let_def split: option.splits if_splits)
  with c' show ?thesis
    by (auto intro: same_shapeI same_shapeI')
qed

lemma set_partition_frame: "set_partition t i p c = Some c' \<Longrightarrow> frame c c'"
  by (auto simp: set_partition_def frame_def current_nodes_def)

lemma force_refresh_shape: "force_replicas_refresh c n = Some c' \<Longrightarrow> same_shape c c'"
  by (auto simp: force_replicas_refresh_def upd_node_def intro: same_shapeI)

lemmas frame_steps = reserve_in_shape [THEN frame_same_shape] release_in_shape [THEN frame_same_shape]
  force_refresh_shape [THEN frame_same_shape] set_partition_frame

lemma partition_update_frame:
  assumes u: "as_partition_update c t i node is_master owns = Done c'"
  shows "frame c c'"
proof -
  obtain p where p: "Option.bind (obj (table_heap c) t) (\<lambda>tb. mem_load (partitions tb) i) = Some p"
    using u by (auto simp: as_partition_update_def outcome_bind_Done lift_opt_Done)
  consider "c' = c" | (leaves) c1 where "set_partition t i (set_slot is_master None p) c = Some c1" "release_in c1 node = Done c'"
    | (comes) c1 c2 where "reserve_in c node = Done c1" "set_partition t i (set_slot is_master (Some node) p) c1 = Some c2"
        "c' = c2 \<or> (\<exists>old c3. force_replicas_refresh c2 old = Some c3 \<and> release_in c3 old = Done c')"
    using u p by (auto simp: as_partition_update_def outcome_bind_Done lift_opt_Done Let_def split: if_splits option.splits) blast
  then show ?thesis
  proof cases
    case leaves
    then show ?thesis
      using frame_trans [OF frame_steps(4) frame_steps(2)] by blast
  next
    case comes
    then have "frame c c2"
      using frame_trans [OF frame_steps(1) frame_steps(4)] by blast
    with comes(3) show ?thesis
      using frame_trans [OF frame_trans [OF _ frame_steps(3)] frame_steps(2)] by blast
  qed simp
qed

lemma partition_update_evolves:
  assumes u: "as_partition_update c t i node is_master owns = Done c'" and node: "Some node \<in> set (current_nodes c)"
    and n: "n_partitions c \<noteq> 0"
  shows "evolves held new c new c'"
proof (rule frame_evolves)
  show "frame c c'"
    using u by (rule partition_update_frame)
  show "n_partitions c \<noteq> 0"
    by (rule n)
  assume ok: "cluster_ok (mset new + held) c" and "fits held new c"
  obtain tb where tb: "obj (table_heap c) t = Some tb" and i: "i < length (partitions tb)"
    using u by (auto simp: as_partition_update_def outcome_bind_Done lift_opt_Done bind_eq_Some_conv mem_load_def split: if_splits)
  show "cluster_ok (mset new + held) c'"
    using partition_update_ok [OF ok current_live [OF ok node] tb i fits_room [OF ok \<open>fits held new c\<close>], of is_master owns] u by auto
qed

lemma expand_bitmap_evolves:
  "expand_bitmap c bitmap t node is_master is = Done c' \<Longrightarrow> Some node \<in> set (current_nodes c) \<Longrightarrow> n_partitions c \<noteq> 0 \<Longrightarrow>
    frame c c' \<and> evolves held new c new c'"
proof (induction "is" arbitrary: c)
  case (Cons i "is")
  then obtain owns c1 where u: "as_partition_update c t i node is_master owns = Done c1"
      and r: "expand_bitmap c1 bitmap t node is_master is = Done c'"
    by (auto simp: outcome_bind_Done)
  have f: "frame c c1"
    using u by (rule partition_update_frame)
  then have "Some node \<in> set (current_nodes c1)" "n_partitions c1 \<noteq> 0"
    using Cons.prems(2,3) by (simp_all add: frame_def)
  from Cons.IH [OF r this] f partition_update_evolves [OF u Cons.prems(2,3)] show ?case
    using frame_trans evolves_trans by blast
qed simp

lemma decode_evolves:
  "decode_and_update c bitmap_b64 t node is_master = Done c' \<Longrightarrow> Some node \<in> set (current_nodes c) \<Longrightarrow> n_partitions c \<noteq> 0 \<Longrightarrow>
    frame c c' \<and> evolves held new c new c'"
  using expand_bitmap_evolves by (auto simp: decode_and_update_def outcome_bind_Done)

lemma table_refs_new: "table_refs (Some (as_partition_table_create ns cap)) = {#}"
proof -
  have "sum_list (replicate cap ({#} :: nat multiset)) = {#}"
    by (induction cap) simp_all
  then show ?thesis
    by (simp add: as_partition_table_create_def partition_refs_def)
qed

abbreviation add_table :: "byte list \<Rightarrow> as_cluster \<Rightarrow> as_cluster" where
  "add_table ns c \<equiv> c\<lparr>table_heap := new_obj (as_partition_table_create ns (unat (n_partitions c))) (table_heap c)\<rparr>"

lemma add_table_frame: "frame c (add_table ns c)"
  by (auto simp: frame_def current_nodes_def obj_def new_obj_def nth_append)

lemma add_table_ok:
  assumes ok: "cluster_ok held c"
  shows "cluster_ok held (add_table ns c)"
  using ok refl
proof (rule cluster_ok_tables)
  have "node_owners (add_table ns c) = node_owners c"
    using table_refs_new [of ns "unat (n_partitions c)"] by (simp add: node_owners_def current_nodes_def new_obj_def del: table_refs_simps)
  then show "node_owners (add_table ns c) + held = node_owners c + held"
    by simp
  show "obj (table_heap c) u = None" if "obj (table_heap (add_table ns c)) u = None" for u
    using that by (auto split: if_splits)
  show "length (partitions y) = unat (n_partitions c)" if "obj (table_heap (add_table ns c)) u = Some y" for u y
    using that cluster_okD(7) [OF ok] by (auto simp: as_partition_table_create_def split: if_splits)
qed

lemma table_for_evolves:
  assumes "table_for c old ns to_add = Done (t, c', to_add')" and n: "n_partitions c \<noteq> 0"
  shows "frame c c' \<and> evolves held new c new c' \<and> ((\<forall>t \<in> set to_add. obj (table_heap c) t \<noteq> None) \<longrightarrow> (\<forall>t \<in> set to_add'. obj (table_heap c') t \<noteq> None))"
proof -
  have cases: "(c' = c \<and> to_add' = to_add) \<or> (c' = add_table ns c \<and> to_add' = to_add @ [length (table_heap c)])"
    using assms(1) by (auto simp: table_for_def outcome_bind_Done Let_def split: option.splits)
  moreover have "evolves held new c new (add_table ns c)"
    using add_table_frame n by (rule frame_evolves) (rule add_table_ok)
  moreover have "\<forall>t \<in> set (to_add @ [length (table_heap c)]). obj (table_heap (add_table ns c)) t \<noteq> None"
    if "\<forall>t \<in> set to_add. obj (table_heap c) t \<noteq> None"
    using that by simp
  ultimately show ?thesis
    using add_table_frame by (elim disjE) auto
qed

lemma tables_loop_cases:
  assumes "tables_update_loop c old node is_master buf ns p to_add = Done (ok, c', buf', to_add')"
  obtains "c' = c" "to_add' = to_add"
  | name bitmap t c1 to_add1 c2 buf1 q where "table_for c old name to_add = Done (t, c1, to_add1)"
      "decode_and_update c1 bitmap t node is_master = Done c2"
      "tables_update_loop c2 old node is_master buf1 q q to_add1 = Done (ok, c', buf', to_add')"
      "length buf1 - q < length buf - p"
proof -
  obtain q where q: "scan (\<lambda>b. b = 58) buf p = Some q"
    using assms by (subst (asm) tables_update_loop.simps) (auto split: option.splits)
  note qb = scan_bounds [OF q]
  show thesis
  proof (cases "buf ! q = 0 \<or> q - ns \<le> 0 \<or> q - ns \<ge> 32")
    case True
    with assms q show thesis
      by (subst (asm) tables_update_loop.simps) (auto simp: Let_def split: if_splits intro: that(1))
  next
    case False
    obtain e where e: "scan (\<lambda>b. b = 59 \<or> b = 10) (buf[q := 0]) (q + 1) = Some e"
      using assms q False by (subst (asm) tables_update_loop.simps) (auto simp: Let_def split: option.splits)
    have "q + 1 \<le> e" "e < length buf"
      using scan_bounds [OF e] by simp_all
    then have m: "length (buf[q := 0, e := 0]) - (e + 1) < length buf - p"
      using qb by (auto intro: diff_less_mono2)
    show thesis
    proof (cases "length (take (e - (q + 1)) (drop (q + 1) (buf[q := 0, e := 0]))) \<noteq> expected_len c")
      case True
      with assms q False e show thesis
        by (subst (asm) tables_update_loop.simps) (auto simp: Let_def intro: that(1))
    next
      case len: False
      from assms q False e show thesis
        apply (subst (asm) tables_update_loop.simps)
        using len m by (auto simp: Let_def outcome_bind_Done lift_opt_Done simp del: length_take length_drop intro: that(2))
    qed
  qed
qed

lemma tables_loop_evolves:
  "tables_update_loop c old node is_master buf ns p to_add = Done (ok, c', buf', to_add') \<Longrightarrow> Some node \<in> set (current_nodes c) \<Longrightarrow>
    n_partitions c \<noteq> 0 \<Longrightarrow> \<forall>t \<in> set to_add. obj (table_heap c) t \<noteq> None \<Longrightarrow>
    frame c c' \<and> evolves held new c new c' \<and> (\<forall>t \<in> set to_add'. obj (table_heap c') t \<noteq> None)"
proof (induction "length buf - p" arbitrary: c buf ns p to_add rule: less_induct)
  case less
  from less.prems(1) show ?case
  proof (cases rule: tables_loop_cases)
    case 1
    with less.prems show ?thesis
      by simp
  next
    case (2 name bitmap t c1 to_add1 c2 buf1 q)
    from table_for_evolves [OF 2(1) less.prems(3), of held new] less.prems(4)
    have a: "frame c c1" "evolves held new c new c1" "\<forall>t \<in> set to_add1. obj (table_heap c1) t \<noteq> None"
      by blast+
    then have n1: "Some node \<in> set (current_nodes c1)" "n_partitions c1 \<noteq> 0"
      using less.prems(2,3) by (simp_all add: frame_def)
    from decode_evolves [OF 2(2) n1, of held new] have b: "frame c1 c2" "evolves held new c1 new c2"
      by blast+
    have n2: "Some node \<in> set (current_nodes c2)" "n_partitions c2 \<noteq> 0" "\<forall>t \<in> set to_add1. obj (table_heap c2) t \<noteq> None"
      using b(1) n1 a(3) by (simp_all add: frame_def)
    from less.hyps [OF 2(4) 2(3) n2] show ?thesis
      using frame_trans [OF a(1) b(1)] evolves_trans [OF a(2) b(2)] by (blast intro: frame_trans evolves_trans)
  qed
qed

lemma copy_add_shape:
  assumes "as_partition_tables_copy_add c (cl_partition_tables c) to_add = Done c'"
  shows "current_tables c' = current_tables c @ map Some to_add" "current_nodes c' = current_nodes c" "table_heap c' = table_heap c"
    "n_partitions c' = n_partitions c" "slots c' = slots c + 1"
    and "cluster_ok held c \<Longrightarrow> \<forall>t \<in> set to_add. obj (table_heap c) t \<noteq> None \<Longrightarrow> slots c + 2 < 2 ^ 32 \<Longrightarrow> cluster_ok held c'"
proof -
  obtain old where old: "obj (tables_heap c) (cl_partition_tables c) = Some old" and
      c': "c' = c\<lparr>tables_heap := new_obj ((as_partition_tables_create (length (tables_array old) + length to_add))
          \<lparr>tables_array := tables_array old @ map Some to_add\<rparr>) (tables_heap c),
        cl_partition_tables := length (tables_heap c), cl_gc := cl_gc c @ [Gc_Tables (cl_partition_tables c)]\<rparr>"
    using assms(1) by (auto simp: as_partition_tables_copy_add_def outcome_bind_Done lift_opt_Done Let_def)
  show cur: "current_tables c' = current_tables c @ map Some to_add" "current_nodes c' = current_nodes c"
    using old by (simp_all add: c' current_tables_def current_nodes_def)
  show "table_heap c' = table_heap c" "n_partitions c' = n_partitions c"
    by (simp_all add: c')
  show "slots c' = slots c + 1"
    unfolding slots_def cur by (simp add: c')
  assume ok: "cluster_ok held c" and live: "\<forall>t \<in> set to_add. obj (table_heap c) t \<noteq> None" and small: "slots c + 2 < 2 ^ 32"
  have own: "node_owners c' = node_owners c"
    unfolding node_owners_def cur by (simp add: c')
  have "size (add_mset (cl_partition_tables c) (gc_tables_refs (cl_gc c))) + 1 < 2 ^ 32"
    using small size_gc_refs [of "cl_gc c"] by (simp add: slots_def)
  from counted_new [OF cluster_okD(3) [OF ok] _ this]
  have cnt: "counted tables_ref_count (tables_heap c') (add_mset (cl_partition_tables c') (gc_tables_refs (cl_gc c')))"
    by (simp add: c' as_partition_tables_create_def)
  show "cluster_ok held c'"
    unfolding cluster_ok_def cur own using cluster_okD [OF ok] cnt live by (auto simp: c')
qed

lemma copy_add_evolves:
  assumes a: "as_partition_tables_copy_add c (cl_partition_tables c) to_add = Done c'" and live: "\<forall>t \<in> set to_add. obj (table_heap c) t \<noteq> None"
  shows "evolves held new c new c'"
  using copy_add_shape(2-5) [OF a] copy_add_shape(6) [OF a _ live] by (auto simp: evolves_def leads_def tend_ok_def fits_def)

lemma tables_update_evolves:
  assumes u: "as_partition_tables_update c node buf start is_master = Done (ok, c', buf')" and node: "Some node \<in> set (current_nodes c)"
    and n: "n_partitions c \<noteq> 0"
  shows "evolves held new c new c'"
proof -
  obtain c1 to_add where l: "tables_update_loop c (cl_partition_tables c) node is_master buf start start [] = Done (ok, c1, buf', to_add)"
      and c': "c' = c1 \<or> as_partition_tables_copy_add c1 (cl_partition_tables c) to_add = Done c'"
    using u by (auto simp: as_partition_tables_update_def outcome_bind_Done split: if_splits)
  have e: "frame c c1" "evolves held new c new c1" "\<forall>t \<in> set to_add. obj (table_heap c1) t \<noteq> None"
    using tables_loop_evolves [OF l node n, of held new] by auto
  have "cl_partition_tables c1 = cl_partition_tables c"
    using e(1) by (simp add: frame_def)
  with c' copy_add_evolves [OF _ e(3)] have "evolves held new c1 new c'"
    by auto
  with e(2) show ?thesis
    by (rule evolves_trans)
qed


subsection \<open>Refreshing a node\<close>

lemma note_friend_evolves:
  assumes "note_friend e c friends name port = Done (c', friends')"
  shows "evolves held new c new c'"
proof -
  have "c' = c \<or> (\<exists>n x. obj (node_heap c) n = Some x \<and> c' = upd_node n (x\<lparr>node_friends := node_friends x + 1\<rparr>) c)"
    using assms by (auto simp: note_friend_def outcome_bind_Done lift_opt_Done split: option.splits if_splits)
  then show ?thesis
  proof (elim disjE exE conjE)
    fix n x assume x: "obj (node_heap c) n = Some x" and c': "c' = upd_node n (x\<lparr>node_friends := node_friends x + 1\<rparr>) c"
    show ?thesis
      unfolding c' using x by (rule evolves_upd) (auto simp: node_sane_def)
  qed simp
qed

lemma add_friends_cases:
  assumes "add_friends_loop e c buf addr_str p friends = Done (c', buf', friends')"
  obtains "c' = c"
  | name port c1 buf1 q friends1 where "note_friend e c friends name port = Done (c1, friends1)"
      "add_friends_loop e c1 buf1 q q friends1 = Done (c', buf', friends')" "length buf1 - q < length buf - p"
proof -
  obtain k where k: "scan (\<lambda>b. b = 58) buf p = Some k"
    using assms by (subst (asm) add_friends_loop.simps) (auto split: option.splits)
  note kb = scan_bounds [OF k]
  show thesis
  proof (cases "buf ! k = 0")
    case True
    with assms k show thesis
      by (subst (asm) add_friends_loop.simps) (auto intro: that(1))
  next
    case False
    obtain q where q: "scan (\<lambda>b. b = 59) (buf[k := 0]) (k + 1) = Some q"
      using assms k False by (subst (asm) add_friends_loop.simps) (auto simp: Let_def split: option.splits)
    have "k + 1 \<le> q" "q < length buf"
      using scan_bounds [OF q] by simp_all
    then have m: "length (buf[k := 0, q := 0]) - (q + 1) < length buf - p"
      using kb by (auto intro: diff_less_mono2)
    from assms k False q show thesis
      apply (subst (asm) add_friends_loop.simps)
      using m by (auto simp: Let_def outcome_bind_Done lift_opt_Done intro: that(2))
  qed
qed

lemma add_friends_loop_evolves:
  "add_friends_loop e c buf addr_str p friends = Done (c', buf', friends') \<Longrightarrow> evolves held new c new c'"
proof (induction "length buf - p" arbitrary: c buf addr_str p friends rule: less_induct)
  case less
  from less.prems show ?case
  proof (cases rule: add_friends_cases)
    case (2 name port c1 buf1 q friends1)
    from less.hyps [OF 2(3) 2(2)] note_friend_evolves [OF 2(1)] show ?thesis
      using evolves_trans by blast
  qed simp
qed

lemma add_friends_evolves: "as_node_add_friends e c buf start friends = Done (c', buf', friends') \<Longrightarrow> evolves held new c new c'"
  by (auto simp: as_node_add_friends_def outcome_bind_Done split: if_splits dest: add_friends_loop_evolves)

lemma verify_name_sane: "as_node_verify_name x v = (same, y) \<Longrightarrow> ref_count y = ref_count x \<and> (node_sane x \<longrightarrow> node_sane y)"
  by (auto simp: as_node_verify_name_def node_sane_def split: option.splits if_splits)

lemma process_response_evolves:
  "as_node_process_response e c n buf nvs friends status update = Done (status', update', c', friends') \<Longrightarrow> evolves held new c new c'"
proof (induction nvs arbitrary: c buf friends status update)
  case (Cons nv nvs)
  obtain name_p value_p where nv: "nv = (name_p, value_p)"
    by fastforce
  obtain x name where x: "obj (node_heap c) n = Some x" "str_at buf name_p = Some name"
    using Cons.prems nv by (auto simp: outcome_bind_Done lift_opt_Done)
  consider (name) "name = ascii ''node''" | (gen) "name = ascii ''partition-generation''" | (svc) "name = ascii ''services''"
    | (other) "name \<noteq> ascii ''node''" "name \<noteq> ascii ''partition-generation''" "name \<noteq> ascii ''services''"
    by blast
  then show ?case
  proof cases
    case name
    obtain v where s: "str_at buf value_p = Some v"
      using Cons.prems nv x name by (auto simp: outcome_bind_Done lift_opt_Done Let_def)
    obtain same y where v: "as_node_verify_name x (Some v) = (same, y)"
      by fastforce
    have r: "c' = upd_node n y c \<or> as_node_process_response e (upd_node n y c) n buf nvs friends True update = Done (status', update', c', friends')"
      using Cons.prems nv x name s v by (cases same) (auto simp: lift_opt_def Let_def)
    have "evolves held new c new (upd_node n y c)"
      using verify_name_sane [OF v] by (intro evolves_upd [OF x(1)]) auto
    with r Cons.IH show ?thesis
      using evolves_trans by blast
  next
    case gen
    then have "\<exists>u. as_node_process_response e c n buf nvs friends status u = Done (status', update', c', friends')"
      using Cons.prems nv x by (auto simp: ascii_def outcome_bind_Done lift_opt_Done)
    then show ?thesis
      using Cons.IH by blast
  next
    case svc
    then obtain c1 buf1 friends1 where "as_node_add_friends e c buf value_p friends = Done (c1, buf1, friends1)"
        "as_node_process_response e c1 n buf1 nvs friends1 status update = Done (status', update', c', friends')"
      using Cons.prems nv x by (auto simp: ascii_def outcome_bind_Done lift_opt_Done)
    then show ?thesis
      using Cons.IH add_friends_evolves [of e c buf value_p friends c1 buf1 friends1 held new] evolves_trans by blast
  next
    case other
    then show ?thesis
      using Cons nv x by (simp add: lift_opt_def)
  qed
qed simp

lemma process_partitions_evolves:
  "as_node_process_partitions c n buf nvs = Done c' \<Longrightarrow> Some n \<in> set (current_nodes c) \<Longrightarrow> n_partitions c \<noteq> 0 \<Longrightarrow> evolves held new c new c'"
proof (induction nvs arbitrary: c buf)
  case (Cons nv nvs)
  obtain name_p value_p where nv: "nv = (name_p, value_p)"
    by fastforce
  obtain c1 buf1 where e: "evolves held new c new c1" and r: "as_node_process_partitions c1 n buf1 nvs = Done c'"
  proof -
    obtain name where name: "str_at buf name_p = Some name"
      using Cons.prems nv by (auto simp: outcome_bind_Done lift_opt_Done)
    consider (gen) "name = ascii ''partition-generation''" | (tab) "name \<noteq> ascii ''partition-generation''" "name = ascii ''replicas-master'' \<or> name = ascii ''replicas-prole''"
      | (other) "name \<noteq> ascii ''partition-generation''" "name \<noteq> ascii ''replicas-master''" "name \<noteq> ascii ''replicas-prole''"
      by blast
    then show thesis
    proof cases
      case gen
      then obtain x g where x: "obj (node_heap c) n = Some x" and r: "as_node_process_partitions (upd_node n (x\<lparr>partition_generation := g\<rparr>) c) n buf nvs = Done c'"
        using Cons.prems nv name by (auto simp: outcome_bind_Done lift_opt_Done)
      have "evolves held new c new (upd_node n (x\<lparr>partition_generation := g\<rparr>) c)"
        using x by (rule evolves_upd) (auto simp: node_sane_def)
      with r that show thesis
        by blast
    next
      case tab
      then obtain m ok c1 buf1 where "as_partition_tables_update c n buf value_p m = Done (ok, c1, buf1)" "as_node_process_partitions c1 n buf1 nvs = Done c'"
        using Cons.prems nv name by (auto simp: outcome_bind_Done lift_opt_Done split: if_splits)
      then show thesis
        using tables_update_evolves [OF _ Cons.prems(2,3)] that by blast
    next
      case other
      then show thesis
        using Cons.prems nv name that [of c buf] by (auto simp: lift_opt_def)
    qed
  qed
  have "n_partitions c1 \<noteq> 0"
    using evolves_partitions [OF e] Cons.prems(3) by simp
  from Cons.IH [OF r evolves_node [OF e Cons.prems(2)] this] e show ?case
    using evolves_trans by blast
qed simp

lemma create_connection_sane:
  assumes "as_node_create_connection net conf x oe = Done (status, fd, y, closed)"
  shows "ref_count y = ref_count x \<and> (node_sane x \<longrightarrow> node_sane y)"
proof -
  have others: "connect_others connect is = Some (i, fd) \<Longrightarrow> i \<in> set is" for connect "is" i fd
    by (induction "is") (auto split: option.splits)
  have small: "i < k \<Longrightarrow> unat (of_nat i :: u32) < k" for i k
    by (simp add: unsigned_of_nat take_bit_eq_mod)
  consider "y = x" | i fd where "y = x\<lparr>address_index := of_nat i\<rparr>"
      "connect_others (oe_connect oe) (filter (\<lambda>i. i \<noteq> unat (address_index x)) [0..<length (addresses x)]) = Some (i, fd)"
    using assms by (auto simp: as_node_create_connection_def Let_def outcome_bind_Done split: option.splits if_splits)
  then show ?thesis
    by cases (auto simp: node_sane_def dest!: others intro: small)
qed

text \<open>A fact about every result, whatever the parts of the code return.\<close>

definition returns :: "('r \<Rightarrow> bool) \<Rightarrow> 'r outcome \<Rightarrow> bool" where
  "returns P r \<longleftrightarrow> (\<forall>v. r = Done v \<longrightarrow> P v)"

lemma returns_bind: "(\<And>u. returns P (f u)) \<Longrightarrow> returns P (outcome_bind r f)"
  by (auto simp: returns_def outcome_bind_Done)

lemma returns_ends: "P v \<Longrightarrow> returns P (Done v)" "returns P Fault" "returns P Timeout"
  by (simp_all add: returns_def)

lemma returns_if: "returns P x \<Longrightarrow> returns P y \<Longrightarrow> returns P (if b then x else y)"
  by simp

lemma returns_prod: "(\<And>a b. returns P (f a b)) \<Longrightarrow> returns P (case p of (a, b) \<Rightarrow> f a b)"
  by (cases p) simp

lemma returns_let: "(\<And>v. returns P (f v)) \<Longrightarrow> returns P (let v = x in f v)"
  by simp

lemma returns_option: "returns P a \<Longrightarrow> (\<And>v. returns P (f v)) \<Longrightarrow> returns P (case p of None \<Rightarrow> a | Some v \<Rightarrow> f v)"
  by (cases p) simp_all

lemmas returns_rules = returns_bind returns_ends returns_if returns_prod returns_let returns_option

lemma get_info_sane:
  assumes "as_node_get_info net x names timeout now = Done (buf, y)"
  shows "ref_count y = ref_count x \<and> (node_sane x \<longrightarrow> node_sane y)"
proof -
  have "returns (\<lambda>(buf, y). ref_count y = ref_count x \<and> (node_sane x \<longrightarrow> node_sane y)) (as_node_get_info net x names timeout now)"
    unfolding as_node_get_info_def by (intro returns_rules) (simp_all add: node_sane_def)
  with assms show ?thesis
    by (simp add: returns_def)
qed

lemma ask_node_evolves:
  assumes "ask_node e c n names now stack_buf = Done (buf, c')"
  shows "evolves held new c new c'"
proof -
  obtain x b y where x: "obj (node_heap c) n = Some x"
      and y: "as_node_get_info ((te_net e)\<lparr>net_stack := stack_buf\<rparr>) x names (cc_timeout_ms (cl_conf c)) now = Done (b, y)"
      and c': "c' = upd_node n y c \<or> (\<exists>fds. c' = (upd_node n (y\<lparr>info_fd := None\<rparr>) c)\<lparr>closed_fds := fds\<rparr>)"
    using assms by (auto simp: ask_node_def as_node_close_info_connection_def outcome_bind_Done lift_opt_Done split: option.splits)
  have "evolves held new c new (upd_node n y c)"
    using get_info_sane [OF y] by (intro evolves_upd [OF x]) auto
  moreover have "evolves held new c new (upd_node n (y\<lparr>info_fd := None\<rparr>) c)"
    using get_info_sane [OF y] by (intro evolves_upd [OF x]) (auto simp: node_sane_def)
  ultimately show ?thesis
    using c' evolves_trans [OF _ evolves_closed] by blast
qed

lemma replicas_evolves:
  assumes r: "replicas e n (status, update, c, friends) = Done (ok, c', friends')" and n: "Some n \<in> set (current_nodes c)" "n_partitions c \<noteq> 0"
  shows "evolves held new c new c'"
proof (cases "status \<and> update")
  case False
  with r show ?thesis
    by (auto simp: replicas_def)
next
  case True
  then obtain buf c1 where a: "ask_node e c n INFO_STR_GET_REPLICAS (snd (te_info_now e n)) (snd (te_info_stack e n)) = Done (buf, c1)"
    using r by (auto simp: replicas_def outcome_bind_Done)
  have e: "evolves held new c new c1"
    using a by (rule ask_node_evolves)
  show ?thesis
  proof (cases buf)
    case None
    with r a e True show ?thesis
      by (simp add: replicas_def)
  next
    case (Some b)
    then obtain b' nvs where "as_node_process_partitions c1 n b' nvs = Done c'"
      using r a True by (auto simp: replicas_def outcome_bind_Done)
    from process_partitions_evolves [OF this evolves_node [OF e n(1)]] evolves_partitions [OF e] n(2) have "evolves held new c1 new c'"
      by simp
    with e show ?thesis
      by (rule evolves_trans)
  qed
qed

lemma refresh_evolves:
  assumes r: "as_node_refresh e c n friends = Done (ok, c', friends')" and n: "Some n \<in> set (current_nodes c)" "n_partitions c \<noteq> 0"
  shows "evolves held new c new c'"
proof -
  obtain x ret y fds where x: "obj (node_heap c) n = Some x"
      and y: "as_node_get_info_connection (te_net e) (cl_conf c) x (te_open e n) = Done (ret, y, fds)"
    using r by (auto simp: as_node_refresh_def outcome_bind_Done lift_opt_Done)
  define c1 where "c1 = (upd_node n y c)\<lparr>closed_fds := closed_fds c @ fds\<rparr>"
  have "ref_count y = ref_count x \<and> (node_sane x \<longrightarrow> node_sane y)"
    using y create_connection_sane by (fastforce simp: as_node_get_info_connection_def outcome_bind_Done node_sane_def split: option.splits)
  then have "evolves held new c new (upd_node n y c)"
    by (intro evolves_upd [OF x]) auto
  then have e1: "evolves held new c new c1"
    unfolding c1_def by (rule evolves_trans) (rule evolves_closed)
  show ?thesis
  proof (cases "ret = 0")
    case False
    with r x y e1 show ?thesis
      by (simp add: as_node_refresh_def c1_def lift_opt_def)
  next
    case True
    then obtain buf c2 where a: "ask_node e c1 n INFO_STR_CHECK (fst (te_info_now e n)) (fst (te_info_stack e n)) = Done (buf, c2)"
        and r2: "(case buf of None \<Rightarrow> Done (False, c2, friends) | Some b \<Rightarrow>
           outcome_bind (lift_opt (as_info_parse_multi_response b 0)) (\<lambda>(b, nvs).
           outcome_bind (as_node_process_response e c2 n b nvs friends False False) (replicas e n))) = Done (ok, c', friends')"
      using r x y by (auto simp: as_node_refresh_def c1_def Let_def lift_opt_def outcome_bind_Done)
    have e2: "evolves held new c new c2"
      using e1 ask_node_evolves [OF a] by (rule evolves_trans)
    show ?thesis
    proof (cases buf)
      case None
      with r2 e2 show ?thesis
        by simp
    next
      case (Some b)
      then obtain b' nvs st up c3 friends3 where p: "as_node_process_response e c2 n b' nvs friends False False = Done (st, up, c3, friends3)"
          and r3: "replicas e n (st, up, c3, friends3) = Done (ok, c', friends')"
        using r2 by (auto simp: outcome_bind_Done)
      have e3: "evolves held new c new c3"
        using e2 process_response_evolves [OF p] by (rule evolves_trans)
      moreover have "evolves held new c3 new c'"
        using replicas_evolves [OF r3 evolves_node [OF e3 n(1)]] evolves_partitions [OF e3] n(2) by simp
      ultimately show ?thesis
        by (rule evolves_trans)
    qed
  qed
qed

lemma clear_friends_evolves: "clear_friends c ps = Done c' \<Longrightarrow> evolves held new c new c'"
proof (induction ps arbitrary: c)
  case (Cons p ps)
  obtain n x where x: "p = Some n" "obj (node_heap c) n = Some x" and r: "clear_friends (upd_node n (x\<lparr>node_friends := 0\<rparr>) c) ps = Done c'"
    using Cons.prems by (cases p) (auto simp: the_node_def outcome_bind_Done lift_opt_Done)
  have "evolves held new c new (upd_node n (x\<lparr>node_friends := 0\<rparr>) c)"
    using x(2) by (rule evolves_upd) (auto simp: node_sane_def)
  with Cons.IH [OF r] show ?case
    using evolves_trans by blast
qed simp

lemma refresh_all_evolves:
  "refresh_all e c friends k ps = Done (c', friends', k') \<Longrightarrow> set ps \<subseteq> set (current_nodes c) \<Longrightarrow> n_partitions c \<noteq> 0 \<Longrightarrow>
    evolves held new c new c'"
proof (induction ps arbitrary: c friends k)
  case (Cons p ps)
  obtain n x where x: "p = Some n" "obj (node_heap c) n = Some x"
    using Cons.prems(1) by (cases p) (auto simp: the_node_def outcome_bind_Done lift_opt_Done)
  show ?case
  proof (cases "node_active x")
    case False
    with Cons x show ?thesis
      by (simp add: the_node_def lift_opt_def)
  next
    case True
    then obtain ok c1 friends1 y f k1 where r: "as_node_refresh e c n friends = Done (ok, c1, friends1)" and y: "obj (node_heap c1) n = Some y"
        and rest: "refresh_all e (upd_node n (y\<lparr>node_failures := f\<rparr>) c1) friends1 k1 ps = Done (c', friends', k')"
      using Cons.prems(1) x by (auto simp: the_node_def outcome_bind_Done lift_opt_Done split: if_splits)
    have "evolves held new c new c1"
      using r by (rule refresh_evolves) (use Cons.prems(2,3) x in auto)
    moreover have "evolves held new c1 new (upd_node n (y\<lparr>node_failures := f\<rparr>) c1)"
      using y by (rule evolves_upd) (auto simp: node_sane_def)
    ultimately have e: "evolves held new c new (upd_node n (y\<lparr>node_failures := f\<rparr>) c1)"
      by (rule evolves_trans)
    have "evolves held new (upd_node n (y\<lparr>node_failures := f\<rparr>) c1) new c'"
      using rest by (rule Cons.IH) (use Cons.prems(2,3) evolves_node [OF e] evolves_partitions [OF e] in auto)
    with e show ?thesis
      by (rule evolves_trans)
  qed
qed simp

end
