(* ===== verification/ClusterLife.thy ===== *)
theory ClusterLife
  imports ClusterTend
begin

text \<open>
  The cluster between its creation and its destruction.  Whatever the passes of the tend thread and the commands do, in any
  order, every node that a command has reserved stays on the heap until the command releases it; at the end, everything is freed.
\<close>


subsection \<open>Collecting the garbage\<close>

definition cluster_inv :: "nat multiset \<Rightarrow> as_cluster \<Rightarrow> bool" where
  "cluster_inv held c \<longleftrightarrow> tend_ok held [] c \<and> (n_partitions c = 0 \<longrightarrow> table_heap c = [])"

lemma cluster_invD:
  assumes "cluster_inv held c"
  shows "cluster_ok held c" "distinct (current_nodes c)" "n_partitions c = 0 \<Longrightarrow> table_heap c = []"
  using assms by (simp_all add: cluster_inv_def tend_ok_def)

text \<open>The same cluster with less garbage: only counts and freed objects differ.\<close>

definition collected :: "as_cluster \<Rightarrow> as_cluster \<Rightarrow> bool" where
  "collected c c' \<longleftrightarrow> current_nodes c' = current_nodes c \<and> current_tables c' = current_tables c \<and> table_heap c' = table_heap c \<and>
     n_partitions c' = n_partitions c \<and> cl_nodes c' = cl_nodes c \<and> cl_partition_tables c' = cl_partition_tables c \<and> cl_conf c' = cl_conf c"

lemma collected_refl [simp]: "collected c c"
  by (simp add: collected_def)

lemma collected_trans: "collected a b \<Longrightarrow> collected b c \<Longrightarrow> collected a c"
  by (simp add: collected_def)

lemma release_in_gc: "release_in (c\<lparr>cl_gc := g\<rparr>) n = outcome_bind (release_in c n) (\<lambda>c. Done (c\<lparr>cl_gc := g\<rparr>))"
proof (cases "as_node_release (node_heap c) n")
  case (Some r)
  then show ?thesis
  proof (cases "snd r")
    case (Some x)
    with \<open>as_node_release (node_heap c) n = Some r\<close> show ?thesis
      by (cases "as_node_destroy x") (simp_all add: release_in_def lift_opt_def split_beta)
  qed (simp add: release_in_def lift_opt_def split_beta)
qed (simp add: release_in_def lift_opt_def)

lemma gc_node_ok:
  assumes "cluster_ok held (c\<lparr>cl_gc := Gc_Node n # g\<rparr>)"
  shows "\<exists>c'. release_in c n = Done c' \<and> cluster_ok held (c'\<lparr>cl_gc := g\<rparr>) \<and> collected c c'"
proof -
  have "cluster_ok (add_mset n held) (c\<lparr>cl_gc := g\<rparr>)"
    using assms by (simp add: cluster_ok_def node_owners_def current_nodes_def current_tables_def)
  then obtain d where d: "release_in (c\<lparr>cl_gc := g\<rparr>) n = Done d" "cluster_ok held d" "same_shape (c\<lparr>cl_gc := g\<rparr>) d"
    using release_in_ok by blast
  then obtain c' where c': "release_in c n = Done c'" "d = c'\<lparr>cl_gc := g\<rparr>"
    by (auto simp: release_in_gc outcome_bind_Done)
  have "collected c c'"
    using same_shapeD [OF release_in_shape [OF c'(1)]] by (simp add: collected_def)
  with c' d(2) show ?thesis
    by blast
qed

lemma nodes_release_array:
  assumes "as_nodes_release h i = Some (h', d)" and "obj h' j \<noteq> None"
  shows "map_option nodes_array (obj h' j) = map_option nodes_array (obj h j)"
  using assms by (auto simp: as_nodes_release_def Let_def split: option.splits if_splits)

lemma tables_release_array:
  assumes "as_partition_tables_release h i = Some (h', d)" and "obj h' j \<noteq> None"
  shows "map_option tables_array (obj h' j) = map_option tables_array (obj h j)"
  using assms by (auto simp: as_partition_tables_release_def Let_def split: option.splits if_splits)

lemma current_as_map: "current_nodes c = (case map_option nodes_array (obj (nodes_heap c) (cl_nodes c)) of None \<Rightarrow> [] | Some a \<Rightarrow> a)"
    "current_tables c = (case map_option tables_array (obj (tables_heap c) (cl_partition_tables c)) of None \<Rightarrow> [] | Some a \<Rightarrow> a)"
  by (simp_all add: current_nodes_def current_tables_def split: option.splits)

lemma gc_nodes_ok:
  assumes "cluster_ok held (c\<lparr>cl_gc := Gc_Nodes i # g\<rparr>)"
  shows "\<exists>c'. release_nodes c i = Done c' \<and> cluster_ok held (c'\<lparr>cl_gc := g\<rparr>) \<and> collected c c'"
proof -
  have "counted nodes_ref_count (nodes_heap c) (add_mset i (add_mset (cl_nodes c) (gc_nodes_refs g)))"
    using cluster_okD(2) [OF assms] by (simp add: add_mset_commute)
  then obtain h d where h: "as_nodes_release (nodes_heap c) i = Some (h, d)" "counted nodes_ref_count h (add_mset (cl_nodes c) (gc_nodes_refs g))"
    using nodes_count.release_counted by blast
  have "obj h (cl_nodes c) \<noteq> None"
    using counted_live [OF h(2)] by simp
  then have cur: "current_nodes (c\<lparr>nodes_heap := h\<rparr>) = current_nodes c"
    using nodes_release_array [OF h(1)] by (simp add: current_as_map)
  then have "cluster_ok held (c\<lparr>nodes_heap := h, cl_gc := g\<rparr>)"
    using assms h(2) by (simp add: cluster_ok_def node_owners_def current_tables_def current_nodes_def)
  moreover have "collected c (c\<lparr>nodes_heap := h\<rparr>)"
    using cur by (simp add: collected_def current_tables_def)
  ultimately show ?thesis
    using h(1) by (simp add: release_nodes_def lift_opt_def)
qed

lemma gc_tables_ok:
  assumes "cluster_ok held (c\<lparr>cl_gc := Gc_Tables i # g\<rparr>)"
  shows "\<exists>c'. release_partition_tables c i = Done c' \<and> cluster_ok held (c'\<lparr>cl_gc := g\<rparr>) \<and> collected c c'"
proof -
  have "counted tables_ref_count (tables_heap c) (add_mset i (add_mset (cl_partition_tables c) (gc_tables_refs g)))"
    using cluster_okD(3) [OF assms] by (simp add: add_mset_commute)
  then obtain h d where h: "as_partition_tables_release (tables_heap c) i = Some (h, d)"
      "counted tables_ref_count h (add_mset (cl_partition_tables c) (gc_tables_refs g))"
    using tables_count.release_counted by blast
  have "obj h (cl_partition_tables c) \<noteq> None"
    using counted_live [OF h(2)] by simp
  then have cur: "current_tables (c\<lparr>tables_heap := h\<rparr>) = current_tables c"
    using tables_release_array [OF h(1)] by (simp add: current_as_map)
  then have "cluster_ok held (c\<lparr>tables_heap := h, cl_gc := g\<rparr>)"
    using assms h(2) by (simp add: cluster_ok_def node_owners_def current_tables_def current_nodes_def)
  moreover have "collected c (c\<lparr>tables_heap := h\<rparr>)"
    using cur by (simp add: collected_def current_nodes_def)
  ultimately show ?thesis
    using h(1) by (simp add: release_partition_tables_def lift_opt_def)
qed

lemma gc_items_ok:
  "cluster_ok held (c\<lparr>cl_gc := g\<rparr>) \<Longrightarrow> \<exists>c'. gc_items c g = Done c' \<and> cluster_ok held (c'\<lparr>cl_gc := []\<rparr>) \<and> collected c c'"
proof (induction g arbitrary: c)
  case (Cons i g)
  have "\<exists>c'. gc_items c (i # g) = gc_items c' g \<and> cluster_ok held (c'\<lparr>cl_gc := g\<rparr>) \<and> collected c c'"
    using Cons.prems by (cases i) (auto dest!: gc_node_ok gc_nodes_ok gc_tables_ok)
  with Cons.IH show ?case
    using collected_trans by metis
qed auto

lemma gc_ok:
  assumes "cluster_ok held c"
  shows "\<exists>c'. as_cluster_gc c = Done c' \<and> cluster_ok held c' \<and> collected c c' \<and> cl_gc c' = []"
proof -
  have "cluster_ok held (c\<lparr>cl_gc := cl_gc c\<rparr>)"
    using assms by simp
  from gc_items_ok [OF this] show ?thesis
    by (auto simp: as_cluster_gc_def collected_def current_nodes_def current_tables_def)
qed


subsection \<open>One pass\<close>

lemma tend_changes_leads:
  assumes "tend_changes e c friends k = Done c'"
  shows "leads held [] c [] c'"
proof -
  obtain c1 to_add cur c2 rm c3 where a: "as_cluster_find_nodes_to_add e c [] friends = Done (c1, to_add)"
      and cur: "obj (nodes_heap c1) (cl_nodes c1) = Some cur"
      and r: "as_cluster_find_nodes_to_remove e k (length (nodes_array cur)) c1 [] (nodes_array cur) = Done (c2, rm)"
      and rm: "(if rm \<noteq> [] then as_cluster_remove_nodes c2 rm else Done c2) = Done c3"
      and add: "(if to_add \<noteq> [] then as_cluster_add_nodes_copy c3 to_add else Done c3) = Done c'"
    using assms by (auto simp: tend_changes_def outcome_bind_Done lift_opt_Done)
  have e2: "evolves held to_add c1 to_add c2" and m: "mset (map Some rm) \<subseteq># mset (nodes_array cur)"
    using find_to_remove_evolves [OF r, of held to_add] by auto
  have "leads held to_add c2 to_add c3"
  proof (cases "rm = []")
    case False
    then obtain d where d: "deactivate_all c2 rm = Done d" "as_cluster_remove_nodes_copy d rm = Done c3"
      using rm by (auto simp: as_cluster_remove_nodes_def outcome_bind_Done)
    have ed: "evolves held to_add c2 to_add d"
      using d(1) by (rule deactivate_evolves)
    have "current_nodes c1 = nodes_array cur"
      using cur by (simp add: current_nodes_def)
    then have "mset (map Some rm) \<subseteq># mset (current_nodes d)"
      using m evolves_trans [OF e2 ed] by (auto simp: evolves_def intro: subset_mset.trans)
    from remove_copy_leads [OF d(2) this] ed show ?thesis
      using leads_trans by (auto simp: evolves_def)
  qed (use rm in simp)
  moreover have "leads held to_add c3 [] c'"
    using add add_nodes_evolves [of c3 to_add c' held "[]"] by (auto simp: evolves_def split: if_splits)
  ultimately show ?thesis
    using find_to_add_evolves [OF a, of held] e2 leads_trans unfolding evolves_def by blast
qed

lemma cluster_ok_partitions: "cluster_ok held c \<Longrightarrow> table_heap c = [] \<Longrightarrow> cluster_ok held (c\<lparr>n_partitions := n\<rparr>)"
  by (simp add: cluster_ok_def node_owners_def current_nodes_def current_tables_def obj_def)

lemma partition_size_shape: "partition_size_loop e c err ps = Done (err', c') \<Longrightarrow> \<exists>n. c' = c\<lparr>n_partitions := n\<rparr>"
proof (induction ps arbitrary: c err)
  case Nil
  then have "c' = c\<lparr>n_partitions := n_partitions c\<rparr>"
    by simp
  then show ?case
    by blast
next
  case (Cons p ps)
  show ?case
  proof (cases "n_partitions c = 0")
    case True
    then obtain c1 err1 where "partition_size_loop e c1 err1 ps = Done (err', c')" "c1 = c \<or> (\<exists>n. c1 = c\<lparr>n_partitions := n\<rparr>)"
      using Cons.prems by (auto simp: outcome_bind_Done split: if_splits)
    with Cons.IH show ?thesis
      by fastforce
  next
    case False
    then have "c' = c\<lparr>n_partitions := n_partitions c\<rparr>"
      using Cons.prems by simp
    then show ?thesis
      by blast
  qed
qed

lemma set_size_shape:
  assumes "as_cluster_set_partition_size e c = Done (status, c')"
  shows "\<exists>n. c' = c\<lparr>n_partitions := n\<rparr>" and "status = 0 \<Longrightarrow> n_partitions c' \<noteq> 0"
proof -
  obtain ps err where l: "partition_size_loop e c 0 ps = Done (err, c')"
      and st: "status = (if n_partitions c' > 0 then 0 else if err \<noteq> 0 then err else AEROSPIKE_ERR_CLIENT)"
    using assms by (auto simp: as_cluster_set_partition_size_def outcome_bind_Done)
  show "\<exists>n. c' = c\<lparr>n_partitions := n\<rparr>"
    using l by (rule partition_size_shape)
  show "n_partitions c' \<noteq> 0" if "status = 0"
    using st that by (auto simp: AEROSPIKE_ERR_CLIENT_def split: if_splits)
qed

lemma leads_fits: "leads held a c b d \<Longrightarrow> fits held b d \<Longrightarrow> fits held a c"
  by (simp add: leads_def fits_def)

lemma leads_inv: "leads held [] c [] c' \<Longrightarrow> fits held [] c' \<Longrightarrow> cluster_inv held c \<Longrightarrow> cluster_inv held c'"
  by (simp add: leads_def cluster_inv_def)

lemma set_size_inv:
  assumes s: "as_cluster_set_partition_size e c = Done (status, c')" and n: "n_partitions c = 0"
  shows "cluster_inv held c \<Longrightarrow> cluster_inv held c'" and "fits held [] c' \<longleftrightarrow> fits held [] c"
proof -
  obtain n where c': "c' = c\<lparr>n_partitions := n\<rparr>"
    using set_size_shape(1) [OF s] by blast
  show "fits held [] c' \<longleftrightarrow> fits held [] c"
    by (simp add: c' fits_def slots_def current_nodes_def)
  show "cluster_inv held c'" if "cluster_inv held c"
    using cluster_ok_partitions [OF cluster_invD(1) [OF that] cluster_invD(3) [OF that n]] cluster_invD [OF that] n
    by (simp add: c' cluster_inv_def tend_ok_def current_nodes_def)
qed

lemma tend_cases:
  assumes "as_cluster_tend e c = Done (status, c')"
  obtains c1 c2 where "as_cluster_gc c = Done c1" "evolves held [] c1 [] c2" "c' = c2"
  | c1 c2 where "as_cluster_gc c = Done c1" "evolves held [] c1 [] c2" "n_partitions c2 = 0" "as_cluster_set_partition_size e c2 = Done (status, c')"
  | c1 c2 c3 where "as_cluster_gc c = Done c1" "evolves held [] c1 [] c2"
      "c3 = c2 \<or> n_partitions c2 = 0 \<and> as_cluster_set_partition_size e c2 = Done (0, c3)" "leads held [] c3 [] c'" "status = 0"
proof -
  obtain c1 nodes st c2 where gc: "as_cluster_gc c = Done c1" and nodes: "obj (nodes_heap c1) (cl_nodes c1) = Some nodes"
      and seed: "(if nodes_array nodes = [] then as_cluster_seed_nodes e 0 c1 else Done (0, c1)) = Done (st, c2)"
    using assms by (auto simp: as_cluster_tend_def outcome_bind_Done lift_opt_Done)
  have e2: "evolves held [] c1 [] c2"
    using seed seed_nodes_evolves by (auto split: if_splits)
  show thesis
  proof (cases "st = 0")
    case False
    with assms gc nodes seed have "c' = c2"
      by (simp add: as_cluster_tend_def lift_opt_def)
    with that(1) gc e2 show thesis
      by blast
  next
    case True
    obtain st3 c3 where size: "(if n_partitions c2 = 0 then as_cluster_set_partition_size e c2 else Done (0, c2)) = Done (st3, c3)"
      using assms gc nodes seed True by (auto simp: as_cluster_tend_def outcome_bind_Done lift_opt_def)
    show thesis
    proof (cases "st3 = 0")
      case False
      then have "n_partitions c2 = 0" "as_cluster_set_partition_size e c2 = Done (status, c')"
        using assms gc nodes seed True size by (auto simp: as_cluster_tend_def lift_opt_def split: if_splits)
      with that(2) gc e2 show thesis
        by blast
    next
      case st3: True
      obtain nodes3 c4 c5 friends k where nodes3: "obj (nodes_heap c3) (cl_nodes c3) = Some nodes3" and clear: "clear_friends c3 (nodes_array nodes3) = Done c4"
          and refresh: "refresh_all e c4 [] 0 (nodes_array nodes3) = Done (c5, friends, k)" and changes: "tend_changes e c5 friends k = Done c'"
        using assms gc nodes seed True size st3 by (auto simp: as_cluster_tend_def outcome_bind_Done lift_opt_def split: option.splits)
      have e4: "evolves held [] c3 [] c4"
        using clear by (rule clear_friends_evolves)
      have n3: "n_partitions c3 \<noteq> 0"
        using size st3 set_size_shape(2) by (auto split: if_splits)
      have "evolves held [] c4 [] c5"
        using refresh
      proof (rule refresh_all_evolves)
        show "set (nodes_array nodes3) \<subseteq> set (current_nodes c4)"
          using evolves_node [OF e4] nodes3 by (auto simp: current_nodes_def)
        show "n_partitions c4 \<noteq> 0"
          using evolves_partitions [OF e4] n3 by simp
      qed
      then have "leads held [] c3 [] c'"
        using e4 tend_changes_leads [OF changes, of held] leads_trans unfolding evolves_def by blast
      moreover have "c3 = c2 \<or> n_partitions c2 = 0 \<and> as_cluster_set_partition_size e c2 = Done (0, c3)"
        using size st3 by (auto split: if_splits)
      moreover have "status = 0"
        using assms gc nodes seed True size st3 nodes3 clear refresh changes by (simp add: as_cluster_tend_def lift_opt_def)
      ultimately show thesis
        using that(3) gc e2 by blast
    qed
  qed
qed

lemma gc_inv:
  assumes "cluster_inv held c"
  shows "\<exists>c'. as_cluster_gc c = Done c' \<and> cluster_inv held c' \<and> collected c c' \<and> cl_gc c' = []"
  using gc_ok [OF cluster_invD(1) [OF assms]] cluster_invD(2,3) [OF assms] by (auto simp: cluster_inv_def tend_ok_def collected_def)

lemma tend_inv:
  assumes inv: "cluster_inv held c" and t: "as_cluster_tend e c = Done (status, c')" and f: "fits held [] c'"
  shows "cluster_inv held c'"
proof -
  obtain d where d: "as_cluster_gc c = Done d" "cluster_inv held d"
    using gc_inv [OF inv] by blast
  have step: "cluster_inv held c2" if "evolves held [] d [] c2" "fits held [] c2" for c2
    using leads_inv that d(2) by (auto simp: evolves_def)
  from t show ?thesis
  proof (cases rule: tend_cases [where held = held])
    case (1 c1 c2)
    with d f step show ?thesis
      by auto
  next
    case (2 c1 c2)
    with d f step [of c2] set_size_inv [OF 2(4,3)] show ?thesis
      by auto
  next
    case (3 c1 c2 c3)
    have f3: "fits held [] c3"
      using leads_fits [OF 3(4) f] .
    have "cluster_inv held c3"
      using 3(3)
    proof
      assume "c3 = c2"
      with 3 d f3 step show ?thesis
        by auto
    next
      assume "n_partitions c2 = 0 \<and> as_cluster_set_partition_size e c2 = Done (0, c3)"
      with 3 d f3 step [of c2] set_size_inv [of e c2 0 c3] show ?thesis
        by auto
    qed
    with leads_inv [OF 3(4) f] show ?thesis
      by blast
  qed
qed


subsection \<open>Choosing a node\<close>

definition active :: "as_cluster \<Rightarrow> nat \<Rightarrow> bool" where
  "active c n \<longleftrightarrow> (case obj (node_heap c) n of None \<Rightarrow> False | Some x \<Rightarrow> node_active x)"

text \<open>The pair of a reservation and a release around a look at an array changes nothing.\<close>

lemma nodes_bracket:
  assumes "obj h i = Some x" and "nodes_ref_count x \<noteq> 0"
  obtains h' where "as_nodes_reserve h i = Some h'" "map_option nodes_array (obj h' i) = Some (nodes_array x)" "as_nodes_release h' i = Some (h, None)"
proof
  have i: "i < length h"
    using assms(1) by (rule obj_Some_length)
  have "h[i := Some x] = h"
    using assms(1) i by (simp add: obj_def list_update_same_conv)
  then show "as_nodes_release (set_obj i (Some (x\<lparr>nodes_ref_count := nodes_ref_count x + 1\<rparr>)) h) i = Some (h, None)"
    using assms(2) i by (simp add: as_nodes_release_def) (simp add: set_obj_def)
qed (use assms obj_Some_length [OF assms(1)] in \<open>simp_all add: as_nodes_reserve_def\<close>)

lemma tables_bracket:
  assumes "obj h i = Some x" and "tables_ref_count x \<noteq> 0"
  obtains h' where "as_partition_tables_reserve h i = Some h'" "map_option tables_array (obj h' i) = Some (tables_array x)"
    "as_partition_tables_release h' i = Some (h, None)"
proof
  have i: "i < length h"
    using assms(1) by (rule obj_Some_length)
  have "h[i := Some x] = h"
    using assms(1) i by (simp add: obj_def list_update_same_conv)
  then show "as_partition_tables_release (set_obj i (Some (x\<lparr>tables_ref_count := tables_ref_count x + 1\<rparr>)) h) i = Some (h, None)"
    using assms(2) i by (simp add: as_partition_tables_release_def) (simp add: set_obj_def)
qed (use assms obj_Some_length [OF assms(1)] in \<open>simp_all add: as_partition_tables_reserve_def\<close>)

lemma current_arrays:
  assumes "cluster_ok held c"
  obtains x y where "obj (nodes_heap c) (cl_nodes c) = Some x" "nodes_ref_count x \<noteq> 0" "nodes_array x = current_nodes c"
    "obj (tables_heap c) (cl_partition_tables c) = Some y" "tables_ref_count y \<noteq> 0" "tables_array y = current_tables c"
proof -
  obtain x where x: "obj (nodes_heap c) (cl_nodes c) = Some x" "unat (nodes_ref_count x) = Suc (count (gc_nodes_refs (cl_gc c)) (cl_nodes c))"
    using counted_obj [OF cluster_okD(2) [OF assms], of "cl_nodes c"] by auto
  obtain y where y: "obj (tables_heap c) (cl_partition_tables c) = Some y"
      "unat (tables_ref_count y) = Suc (count (gc_tables_refs (cl_gc c)) (cl_partition_tables c))"
    using counted_obj [OF cluster_okD(3) [OF assms], of "cl_partition_tables c"] by auto
  from x(2) y(2) have "nodes_ref_count x \<noteq> 0" "tables_ref_count y \<noteq> 0"
    by auto
  with x y show thesis
    by (intro that [of x y]) (simp_all add: current_nodes_def current_tables_def)
qed

lemma reserve_in_heap: "reserve_in (c\<lparr>nodes_heap := h\<rparr>) n = outcome_bind (reserve_in c n) (\<lambda>c. Done (c\<lparr>nodes_heap := h\<rparr>))"
  by (cases "as_node_reserve (node_heap c) n") (simp_all add: reserve_in_def lift_opt_def)

lemma random_loop_heap:
  "get_random_loop k nodes (c\<lparr>nodes_heap := h\<rparr>) = outcome_bind (get_random_loop k nodes c) (\<lambda>(p, c). Done (p, c\<lparr>nodes_heap := h\<rparr>))"
proof (induction k arbitrary: c)
  case (Suc k)
  define i where "i = node_index c"
  define p where "p = nodes ! (unat i mod length nodes)"
  show ?case
  proof (cases "the_node c p")
    case (Some x)
    define c1 where "c1 = c\<lparr>node_index := i + 1\<rparr>"
    have "c\<lparr>nodes_heap := h, node_index := i + 1\<rparr> = c1\<lparr>nodes_heap := h\<rparr>"
      by (simp add: c1_def)
    with Some Suc [of c1] show ?thesis
      by (cases "reserve_in c1 (the p)") (simp_all add: Let_def i_def [symmetric] p_def [symmetric] the_node_def c1_def [symmetric] reserve_in_heap)
  qed (simp add: Let_def i_def [symmetric] p_def [symmetric] the_node_def)
qed simp

lemma counters_irrelevant [simp]:
  "cluster_ok held (c\<lparr>node_index := i\<rparr>) = cluster_ok held c" "cluster_ok held (c\<lparr>randomizer := i\<rparr>) = cluster_ok held c"
  "room k held (c\<lparr>node_index := i\<rparr>) = room k held c" "room k held (c\<lparr>randomizer := i\<rparr>) = room k held c"
  "live (c\<lparr>node_index := i\<rparr>) n = live c n" "live (c\<lparr>randomizer := i\<rparr>) n = live c n"
  "active (c\<lparr>node_index := i\<rparr>) n = active c n" "active (c\<lparr>randomizer := i\<rparr>) n = active c n"
  by (simp_all add: cluster_ok_def room_def live_def active_def node_owners_def current_nodes_def current_tables_def)

text \<open>What choosing a node can change.\<close>

definition chosen_from :: "as_cluster \<Rightarrow> as_cluster \<Rightarrow> bool" where
  "chosen_from c c' \<longleftrightarrow> (\<exists>h i r. c' = c\<lparr>node_heap := h, node_index := i, randomizer := r\<rparr>)"

lemma chosen_from_heap: "chosen_from c (c\<lparr>node_heap := h\<rparr>)"
proof -
  have "c\<lparr>node_heap := h\<rparr> = c\<lparr>node_heap := h, node_index := node_index c, randomizer := randomizer c\<rparr>"
    by simp
  then show ?thesis
    unfolding chosen_from_def by blast
qed

lemma chosen_from_refl [simp]: "chosen_from c c"
  using chosen_from_heap [of c "node_heap c"] by simp

lemma chosen_from_counters [simp]: "chosen_from (c\<lparr>node_index := i\<rparr>) c' = chosen_from c c'" "chosen_from (c\<lparr>randomizer := i\<rparr>) c' = chosen_from c c'"
  by (simp_all add: chosen_from_def)

lemma reserve_chosen: "reserve_in c n = Done c' \<Longrightarrow> chosen_from c c'"
  by (auto simp: reserve_in_def outcome_bind_Done chosen_from_heap)

lemma chosen_same:
  assumes "chosen_from c c'"
  shows "current_nodes c' = current_nodes c" "n_partitions c' = n_partitions c" "table_heap c' = table_heap c" "nodes_heap c' = nodes_heap c"
    "cl_nodes c' = cl_nodes c"
  using assms by (auto simp: chosen_from_def current_nodes_def)

lemma reserve_active:
  assumes "cluster_ok held c" and "room 1 held c" and "active c n"
  shows "\<exists>c'. reserve_in c n = Done c' \<and> cluster_ok (add_mset n held) c' \<and> chosen_from c c'"
proof -
  have "live c n"
    using assms(3) by (auto simp: active_def live_def split: option.splits)
  then show ?thesis
    using reserve_in_ok [OF assms(1) _ assms(2)] reserve_chosen by blast
qed

lemma random_loop_ok:
  assumes "cluster_ok held c" and "room 1 held c" and "\<forall>p \<in> set nodes. \<exists>n. p = Some n \<and> live c n" and "nodes \<noteq> [] \<or> k = 0"
  shows "\<exists>p c'. get_random_loop k nodes c = Done (p, c') \<and> cluster_ok (opt_mset p + held) c' \<and> chosen_from c c' \<and>
    (case p of
       None \<Rightarrow> \<forall>j < k. \<not> active c (the (nodes ! (unat (node_index c + of_nat j) mod length nodes)))
     | Some n \<Rightarrow> active c n \<and> p \<in> set nodes)"
  using assms
proof (induction k arbitrary: c)
  case (Suc k)
  define c1 where "c1 = c\<lparr>node_index := node_index c + 1\<rparr>"
  define q where "q = nodes ! (unat (node_index c) mod length nodes)"
  have "unat (node_index c) mod length nodes < length nodes"
    using Suc.prems(4) by simp
  then have "q \<in> set nodes"
    unfolding q_def by (rule nth_mem)
  then obtain n x where n: "q = Some n" "obj (node_heap c) n = Some x"
    using Suc.prems(3) by (auto simp: live_def)
  have loop: "get_random_loop (Suc k) nodes c = (if active c n then outcome_bind (reserve_in c1 n) (\<lambda>c. Done (q, c)) else get_random_loop k nodes c1)"
    using n by (simp add: Let_def q_def [symmetric] c1_def [symmetric] the_node_def active_def)
  show ?case
  proof (cases "active c n")
    case True
    with Suc.prems obtain c2 where "reserve_in c1 n = Done c2" "cluster_ok (add_mset n held) c2" "chosen_from c c2"
      using reserve_active [of held c1 n] by (auto simp: c1_def)
    with True loop n \<open>q \<in> set nodes\<close> show ?thesis
      by auto
  next
    case False
    from Suc.prems have ih: "\<exists>p c'. get_random_loop k nodes c1 = Done (p, c') \<and> cluster_ok (opt_mset p + held) c' \<and> chosen_from c1 c' \<and>
      (case p of
         None \<Rightarrow> \<forall>j < k. \<not> active c1 (the (nodes ! (unat (node_index c1 + of_nat j) mod length nodes)))
       | Some n \<Rightarrow> active c1 n \<and> p \<in> set nodes)"
      by (intro Suc.IH) (auto simp: c1_def)
    have eqs: "active c1 = active c" "node_index c1 = node_index c + 1" "chosen_from c1 = chosen_from c"
      by (simp_all add: c1_def fun_eq_iff)
    from ih obtain p c' where p: "get_random_loop k nodes c1 = Done (p, c')" "cluster_ok (opt_mset p + held) c'" "chosen_from c c'"
        and r: "case p of None \<Rightarrow> \<forall>j < k. \<not> active c (the (nodes ! (unat (node_index c + 1 + of_nat j) mod length nodes)))
          | Some n \<Rightarrow> active c n \<and> p \<in> set nodes"
      unfolding eqs by blast
    have "\<not> active c (the (nodes ! (unat (node_index c + of_nat j) mod length nodes)))" if "p = None" "j < Suc k" for j
      using that r False n by (cases j) (auto simp: q_def [symmetric] algebra_simps)
    with p r loop False show ?thesis
      by (cases p) auto
  qed
qed simp

lemma current_all_live: "cluster_ok held c \<Longrightarrow> \<forall>p \<in> set (current_nodes c). \<exists>n. p = Some n \<and> live c n"
  using cluster_okD(5) [of held c] current_live [of held c] by (metis option.exhaust)

lemma residue_hit:
  fixes a len i :: nat
  assumes "i < len"
  shows "\<exists>j < len. (a + j) mod len = i"
proof -
  define j where "j = (i + (len - a mod len)) mod len"
  have "(a + j) mod len = (a mod len + (i + (len - a mod len))) mod len"
    unfolding j_def by (simp only: mod_add_left_eq mod_add_right_eq)
  also have "a mod len + (i + (len - a mod len)) = i + len"
    using assms mod_less_divisor [of len a] by linarith
  finally show ?thesis
    using assms by (intro exI [of _ j]) (simp add: j_def)
qed

text \<open>No node means that no node is active, unless the running index wraps in the middle of the loop.\<close>

definition random_ok :: "as_cluster \<Rightarrow> nat option \<Rightarrow> bool" where
  "random_ok c p \<longleftrightarrow>
     (case p of
        None \<Rightarrow> unat (node_index c) + length (current_nodes c) \<le> 2 ^ 32 \<longrightarrow> (\<forall>n. Some n \<in> set (current_nodes c) \<longrightarrow> \<not> active c n)
      | Some n \<Rightarrow> active c n \<and> Some n \<in> set (current_nodes c))"

lemma get_random_ok:
  assumes ok: "cluster_ok held c" and room: "room 1 held c"
  shows "\<exists>p c'. as_node_get_random c = Done (p, c') \<and> cluster_ok (opt_mset p + held) c' \<and> chosen_from c c' \<and> random_ok c p"
proof -
  obtain x y where x: "obj (nodes_heap c) (cl_nodes c) = Some x" "nodes_ref_count x \<noteq> 0" "nodes_array x = current_nodes c"
    using current_arrays [OF ok] by blast
  obtain h where h: "as_nodes_reserve (nodes_heap c) (cl_nodes c) = Some h" "map_option nodes_array (obj h (cl_nodes c)) = Some (nodes_array x)"
      "as_nodes_release h (cl_nodes c) = Some (nodes_heap c, None)"
    using nodes_bracket [OF x(1,2)] .
  obtain z where z: "obj h (cl_nodes c) = Some z" "nodes_array z = current_nodes c"
    using h(2) x(3) by auto
  define nodes where "nodes = current_nodes c"
  note live = current_all_live [OF ok, folded nodes_def]
  obtain p c' where p: "get_random_loop (length nodes) nodes c = Done (p, c')" "cluster_ok (opt_mset p + held) c'" "chosen_from c c'"
      and r: "case p of None \<Rightarrow> \<forall>j < length nodes. \<not> active c (the (nodes ! (unat (node_index c + of_nat j) mod length nodes)))
        | Some n \<Rightarrow> active c n \<and> p \<in> set nodes"
    using random_loop_ok [OF ok room live, of "length nodes"] by auto
  have "c'\<lparr>nodes_heap := nodes_heap c\<rparr> = c'"
    using chosen_same(4) [OF p(3)] by (metis as_cluster.surjective as_cluster.update_convs(2))
  then have "as_node_get_random c = Done (p, c')"
    using h z p(1) by (simp add: as_node_get_random_def lift_opt_def nodes_def [symmetric] random_loop_heap release_nodes_def)
  moreover have "random_ok c p"
  proof (cases p)
    case None
    have "\<not> active c n" if small: "unat (node_index c) + length nodes \<le> 2 ^ 32" and n: "Some n \<in> set nodes" for n
    proof -
      obtain i where i: "i < length nodes" "nodes ! i = Some n"
        using n by (auto simp: in_set_conv_nth)
      obtain j where j: "j < length nodes" "(unat (node_index c) + j) mod length nodes = i"
        using residue_hit [OF i(1)] by blast
      have "unat (node_index c + of_nat j) = unat (node_index c) + j"
        using small j(1) by (simp add: unat_word_ariths unsigned_of_nat take_bit_eq_mod)
      with r None i j show ?thesis
        by auto
    qed
    with None show ?thesis
      by (auto simp: random_ok_def nodes_def)
  qed (use r in \<open>simp add: random_ok_def nodes_def\<close>)
  ultimately show ?thesis
    using p(2,3) by blast
qed

text \<open>The first active candidate, or any node.\<close>

definition choice_ok :: "as_cluster \<Rightarrow> nat list \<Rightarrow> nat option \<Rightarrow> bool" where
  "choice_ok c candidates p \<longleftrightarrow> (case find (active c) candidates of Some n \<Rightarrow> p = Some n | None \<Rightarrow> random_ok c p)"

definition chooses :: "nat multiset \<Rightarrow> as_cluster \<Rightarrow> nat list \<Rightarrow> (nat option \<times> as_cluster) outcome \<Rightarrow> bool" where
  "chooses held c candidates r \<longleftrightarrow>
     (\<exists>p c'. r = Done (p, c') \<and> cluster_ok (opt_mset p + held) c' \<and> chosen_from c c' \<and> choice_ok c candidates p)"

lemma chooses_random: "cluster_ok held c \<Longrightarrow> room 1 held c \<Longrightarrow> find (active c) ns = None \<Longrightarrow> chooses held c ns (as_node_get_random c)"
  using get_random_ok by (fastforce simp: chooses_def choice_ok_def)

lemma chooses_active:
  "cluster_ok held c \<Longrightarrow> room 1 held c \<Longrightarrow> active c n \<Longrightarrow> chooses held c (n # ns) (outcome_bind (reserve_in c n) (\<lambda>c. Done (Some n, c)))"
  using reserve_active by (fastforce simp: chooses_def choice_ok_def)

lemma reserve_node_chooses:
  assumes "cluster_ok held c" and "room 1 held c" and "\<forall>n. p = Some n \<longrightarrow> live c n"
  shows "chooses held c (case p of None \<Rightarrow> [] | Some n \<Rightarrow> [n]) (reserve_node c p)"
proof (cases p)
  case (Some n)
  then obtain x where x: "obj (node_heap c) n = Some x"
    using assms(3) by (auto simp: live_def)
  show ?thesis
  proof (cases "active c n")
    case True
    with assms Some x chooses_active [of held c n "[]"] show ?thesis
      by (simp add: reserve_node_def lift_opt_def active_def)
  next
    case False
    with assms Some x chooses_random [of held c "[n]"] show ?thesis
      by (simp add: reserve_node_def lift_opt_def active_def)
  qed
qed (use assms chooses_random [of held c "[]"] in \<open>simp add: reserve_node_def\<close>)

lemma reserve_alternate_chooses:
  assumes ok: "cluster_ok held c" "room 1 held c" and n: "live c n" "live c m"
  shows "chooses held c [n, m] (reserve_node_alternate c n (Some m))"
proof -
  obtain x where x: "obj (node_heap c) n = Some x"
    using n(1) by (auto simp: live_def)
  show ?thesis
  proof (cases "active c n")
    case True
    with ok x chooses_active [of held c n "[m]"] show ?thesis
      by (simp add: reserve_node_alternate_def lift_opt_def active_def)
  next
    case False
    then have "chooses held c [n, m] r = chooses held c [m] r" for r
      by (simp add: chooses_def choice_ok_def)
    with False ok x n(2) reserve_node_chooses [of held c "Some m"] show ?thesis
      by (simp add: reserve_node_alternate_def lift_opt_def active_def)
  qed
qed

text \<open>The nodes of a key in the order in which they are tried.\<close>

definition replica_order :: "bool \<Rightarrow> as_policy_replica \<Rightarrow> u32 \<Rightarrow> as_partition \<Rightarrow> nat list" where
  "replica_order write replica r p =
     (let ms = (case master p of None \<Rightarrow> [] | Some n \<Rightarrow> [n]); ps = (case prole p of None \<Rightarrow> [] | Some n \<Rightarrow> [n]) in
      if write \<or> replica = AS_POLICY_REPLICA_MASTER then ms else if r AND 1 \<noteq> 0 then ms @ ps else ps @ ms)"

definition table_of :: "as_cluster \<Rightarrow> byte list \<Rightarrow> as_partition_table option" where
  "table_of c ns = find (\<lambda>tb. table_ns tb = ns) (map (\<lambda>p. the (obj (table_heap c) (the p))) (current_tables c))"

definition key_order :: "host \<Rightarrow> as_cluster \<Rightarrow> byte list \<Rightarrow> byte list \<Rightarrow> bool \<Rightarrow> as_policy_replica \<Rightarrow> nat list" where
  "key_order h c ns d write replica =
     (case table_of c ns of
        None \<Rightarrow> []
      | Some tb \<Rightarrow> replica_order write replica (randomizer c) (partitions tb ! unat (cl_partition_getid h (ucast (n_partitions c)) d)))"

lemma partition_id_less:
  assumes "n \<noteq> 0"
  shows "unat (cl_partition_getid h (ucast (n :: u16)) d) < unat n"
proof -
  define m where "m = (ucast n :: u32) - 1"
  have n32: "unat (ucast n :: u32) = unat n"
    using unsigned_less [of n, where ?'a = nat] by (simp add: unsigned_ucast_eq take_bit_nat_eq_self_iff)
  then have "(0 :: u32) < ucast n"
    using assms by (simp add: word_less_nat_alt unat_gt_0)
  then have m: "unat m = unat n - 1"
    using n32 by (simp add: m_def unat_dec)
  have "unat ((ucast (load16 h (take 2 d)) :: u32) AND m) \<le> unat m"
    by (metis word_and_le1 word_le_nat_alt)
  moreover have "unat (ucast ((ucast (load16 h (take 2 d)) :: u32) AND m) :: u16) \<le> unat ((ucast (load16 h (take 2 d)) :: u32) AND m)"
    by (simp add: unsigned_ucast_eq take_bit_nat_eq_self_iff unsigned_take_bit_eq take_bit_nat_less_eq_self)
  moreover have "0 < unat n"
    using assms by (simp add: unat_gt_0)
  ultimately show ?thesis
    unfolding cl_partition_getid_def m_def [symmetric] using m by linarith
qed

lemma find_table_of:
  assumes "\<forall>p \<in> set ps. \<exists>t. p = Some t \<and> obj (table_heap c) t \<noteq> None"
  shows "\<exists>r. find_table c ns ps = Done r \<and>
    map_option (\<lambda>t. the (obj (table_heap c) t)) r = find (\<lambda>tb. table_ns tb = ns) (map (\<lambda>p. the (obj (table_heap c) (the p))) ps) \<and>
    (\<forall>t. r = Some t \<longrightarrow> obj (table_heap c) t \<noteq> None)"
  using assms
proof (induction ps)
  case (Cons p ps)
  then obtain t tb where "p = Some t" "obj (table_heap c) t = Some tb"
    by auto
  with Cons show ?case
    by auto
qed simp

lemma find_table_heap: "find_table (c\<lparr>tables_heap := h\<rparr>) ns ps = find_table c ns ps"
  by (induction ps) (simp_all split: option.splits)

lemma get_table_ok:
  assumes ok: "cluster_ok held c"
  shows "\<exists>r. as_cluster_get_partition_table c ns = Done (r, c) \<and> map_option (\<lambda>t. the (obj (table_heap c) t)) r = table_of c ns \<and>
    (\<forall>t. r = Some t \<longrightarrow> obj (table_heap c) t \<noteq> None)"
proof -
  obtain x y where y: "obj (tables_heap c) (cl_partition_tables c) = Some y" "tables_ref_count y \<noteq> 0" "tables_array y = current_tables c"
    using current_arrays [OF ok] by blast
  obtain h where h: "as_partition_tables_reserve (tables_heap c) (cl_partition_tables c) = Some h"
      "map_option tables_array (obj h (cl_partition_tables c)) = Some (tables_array y)"
      "as_partition_tables_release h (cl_partition_tables c) = Some (tables_heap c, None)"
    using tables_bracket [OF y(1,2)] .
  obtain z where z: "obj h (cl_partition_tables c) = Some z" "tables_array z = current_tables c"
    using h(2) y(3) by auto
  have "\<forall>p \<in> set (current_tables c). \<exists>t. p = Some t \<and> obj (table_heap c) t \<noteq> None"
    using cluster_okD(6) [OF ok] by blast
  from find_table_of [OF this, of ns] show ?thesis
    using h z by (auto simp: as_cluster_get_partition_table_def as_partition_tables_get_def lift_opt_def Let_def find_table_heap
        release_partition_tables_def table_of_def)
qed

lemma partition_live:
  assumes ok: "cluster_ok held c" and tb: "obj (table_heap c) t = Some tb" and p: "p \<in> set (partitions tb)" and n: "master p = Some n \<or> prole p = Some n"
  shows "live c n"
proof -
  have "n \<in># partition_refs p"
    using n by (auto simp: partition_refs_def)
  then have "n \<in># table_refs (Some tb)"
    using p by auto
  moreover have "Some tb \<in> set (table_heap c)"
    using tb obj_Some_length [OF tb] by (simp add: obj_def in_set_conv_nth) blast
  ultimately have "n \<in># node_owners c"
    by (auto simp: node_owners_def simp del: table_refs_simps)
  then show ?thesis
    using live_iff [OF ok] by simp
qed

lemma table_get_node_chooses:
  assumes ok: "cluster_ok held c" "room 1 held c" and tb: "obj (table_heap c) t = Some tb" and n: "n_partitions c \<noteq> 0"
  shows "chooses held c (replica_order write replica (randomizer c) (partitions tb ! unat (cl_partition_getid h (ucast (n_partitions c)) d)))
    (as_partition_table_get_node h c (Some t) d write replica)"
proof -
  define i where "i = unat (cl_partition_getid h (ucast (n_partitions c)) d)"
  define p where "p = partitions tb ! i"
  have i: "i < length (partitions tb)"
    using partition_id_less [OF n] cluster_okD(7) [OF ok(1) tb] by (simp add: i_def)
  then have p: "mem_load (partitions tb) i = Some p" "p \<in> set (partitions tb)"
    by (simp_all add: mem_load_def p_def)
  define r where "r = randomizer c"
  define c1 where "c1 = c\<lparr>randomizer := r + 1\<rparr>"
  have lives: "\<forall>n. master p = Some n \<longrightarrow> live c n" "\<forall>n. prole p = Some n \<longrightarrow> live c n"
    using partition_live [OF ok(1) tb p(2)] by blast+
  note m = reserve_node_chooses [OF ok lives(1)] and pr = reserve_node_chooses [OF ok lives(2)]
  have c1: "chooses held c1 ns x = chooses held c ns x" for ns x
  proof -
    have "active c1 = active c" "random_ok c1 = random_ok c" "chosen_from c1 = chosen_from c"
      by (simp_all add: c1_def fun_eq_iff random_ok_def current_nodes_def split: option.splits)
    then show ?thesis
      unfolding chooses_def choice_ok_def by (simp only:)
  qed
  have both: "chooses held c [a, b] (reserve_node_alternate c1 a (Some b))" if "live c a" "live c b" for a b
    using reserve_alternate_chooses [of held c1 a b] that ok by (simp add: c1) (simp add: c1_def)
  have get: "as_partition_table_get_node h c (Some t) d write replica =
    (if write \<or> replica = AS_POLICY_REPLICA_MASTER then reserve_node c (master p)
     else case prole p of None \<Rightarrow> reserve_node c (master p) | Some a \<Rightarrow>
       (case master p of None \<Rightarrow> reserve_node c (prole p) | Some b \<Rightarrow>
          if r AND 1 \<noteq> 0 then reserve_node_alternate c1 b (prole p) else reserve_node_alternate c1 a (master p)))"
    using tb p(1) by (simp add: as_partition_table_get_node_def lift_opt_def i_def [symmetric] c1_def r_def Let_def split: as_policy_replica.splits option.splits)
  show ?thesis
  proof (cases "write \<or> replica = AS_POLICY_REPLICA_MASTER")
    case True
    with m show ?thesis
      unfolding get i_def [symmetric] p_def [symmetric] r_def [symmetric] by (simp add: replica_order_def)
  next
    case False
    show ?thesis
      unfolding get i_def [symmetric] p_def [symmetric] r_def [symmetric]
      using False m pr both lives by (cases "prole p"; cases "master p") (auto simp: replica_order_def Let_def)
  qed
qed

lemma node_get_chooses:
  assumes inv: "cluster_inv held c" and room: "room 1 held c"
  shows "chooses held c (key_order h c ns d write replica) (as_node_get h c ns d write replica)"
proof -
  note ok = cluster_invD(1) [OF inv]
  obtain r where r: "as_cluster_get_partition_table c ns = Done (r, c)" "map_option (\<lambda>t. the (obj (table_heap c) t)) r = table_of c ns"
      "\<forall>t. r = Some t \<longrightarrow> obj (table_heap c) t \<noteq> None"
    using get_table_ok [OF ok] by blast
  show ?thesis
  proof (cases r)
    case None
    with r chooses_random [OF ok room, of "[]"] show ?thesis
      by (simp add: as_node_get_def as_partition_table_get_node_def key_order_def)
  next
    case (Some t)
    then obtain tb where tb: "obj (table_heap c) t = Some tb"
      using r(3) by auto
    then have "n_partitions c \<noteq> 0"
      using cluster_invD(3) [OF inv] by (auto simp: obj_def)
    moreover have "table_of c ns = Some tb"
      using r(2) Some tb by simp
    ultimately show ?thesis
      using table_get_node_chooses [OF ok room tb] r(1) Some by (simp add: as_node_get_def key_order_def)
  qed
qed

lemma chosen_inv:
  assumes "cluster_inv held c" and "cluster_ok held' c'" and "chosen_from c c'"
  shows "cluster_inv held' c'"
  using assms chosen_same [OF assms(3)] by (simp add: cluster_inv_def tend_ok_def)

lemma find_by_name_live: "\<forall>p \<in> set ps. \<exists>n. p = Some n \<and> live c n \<Longrightarrow> \<exists>p. find_by_name c name ps = Done p \<and> (\<forall>n. p = Some n \<longrightarrow> p \<in> set ps)"
proof (induction ps)
  case (Cons p ps)
  then obtain x where "the_node c p = Some x"
    by (auto simp: live_def the_node_def)
  with Cons show ?case
    by auto
qed simp

lemma find_by_name_heap: "find_by_name (c\<lparr>nodes_heap := h\<rparr>) name ps = find_by_name c name ps"
  by (induction ps) (simp_all add: the_node_def split: option.splits)

lemma get_by_name_ok:
  assumes ok: "cluster_ok held c" and room: "room 1 held c"
  shows "\<exists>p c'. as_node_get_by_name c name = Done (p, c') \<and> cluster_ok (opt_mset p + held) c' \<and> chosen_from c c'"
proof -
  obtain x y where x: "obj (nodes_heap c) (cl_nodes c) = Some x" "nodes_ref_count x \<noteq> 0" "nodes_array x = current_nodes c"
    using current_arrays [OF ok] by blast
  obtain h where h: "as_nodes_reserve (nodes_heap c) (cl_nodes c) = Some h" "map_option nodes_array (obj h (cl_nodes c)) = Some (nodes_array x)"
      "as_nodes_release h (cl_nodes c) = Some (nodes_heap c, None)"
    using nodes_bracket [OF x(1,2)] .
  obtain z where z: "obj h (cl_nodes c) = Some z" "nodes_array z = current_nodes c"
    using h(2) x(3) by auto
  obtain p where p: "find_by_name c name (current_nodes c) = Done p" "\<forall>n. p = Some n \<longrightarrow> p \<in> set (current_nodes c)"
    using find_by_name_live [OF current_all_live [OF ok]] by blast
  obtain c' where c': "(case p of None \<Rightarrow> Done c | Some n \<Rightarrow> reserve_in c n) = Done c'" "cluster_ok (opt_mset p + held) c'" "chosen_from c c'"
  proof (cases p)
    case (Some n)
    then have "live c n"
      using p(2) current_live [OF ok] by simp
    with Some that reserve_in_ok [OF ok _ room] reserve_chosen show thesis
      by fastforce
  qed (use ok that in simp)
  have "c'\<lparr>nodes_heap := nodes_heap c\<rparr> = c'"
    using chosen_same(4) [OF c'(3)] by (metis as_cluster.surjective as_cluster.update_convs(2))
  then have "as_node_get_by_name c name = Done (p, c')"
    using h z p(1) c'(1)
    by (cases p) (simp_all add: as_node_get_by_name_def lift_opt_def find_by_name_heap release_nodes_def reserve_in_heap)
  with c' show ?thesis
    by blast
qed

end
