(* ===== verification/ClusterProps.thy ===== *)
theory ClusterProps
  imports ClusterLife InfoProps CommandExecProps
begin

text \<open>
  What the client relies on: destroying a cluster frees everything, a reserved node stays, keys go to the right node, and the
  partition tables follow the bitmaps of the servers.
\<close>

subsection \<open>Destroying the cluster\<close>

lemma release_opt_ok:
  "nodes_ok (opt_mset p + M) c \<Longrightarrow> \<exists>c'. (case p of None \<Rightarrow> Done c | Some n \<Rightarrow> release_in c n) = Done c' \<and> nodes_ok M c' \<and> same_shape c c'"
  using release_nodes_ok [of _ M c] by (cases p) auto

lemma destroy_partitions_ok:
  "nodes_ok (sum_list (map partition_refs ps) + M) c \<Longrightarrow> \<exists>c'. destroy_partitions c ps = Done c' \<and> nodes_ok M c' \<and> same_shape c c'"
proof (induction ps arbitrary: c)
  case (Cons p ps)
  define N where "N = sum_list (map partition_refs ps) + M"
  have "nodes_ok (opt_mset (master p) + (opt_mset (prole p) + N)) c"
    using Cons.prems by (simp add: partition_refs_def [of p] N_def ac_simps)
  from release_opt_ok [OF this] obtain c1 where c1: "(case master p of None \<Rightarrow> Done c | Some n \<Rightarrow> release_in c n) = Done c1"
      "nodes_ok (opt_mset (prole p) + N) c1" "same_shape c c1"
    by blast
  from release_opt_ok [OF c1(2)] obtain c2 where c2: "(case prole p of None \<Rightarrow> Done c1 | Some n \<Rightarrow> release_in c1 n) = Done c2"
      "nodes_ok N c2" "same_shape c1 c2"
    by blast
  from Cons.IH [OF c2(2) [unfolded N_def]] obtain c3 where c3: "destroy_partitions c2 ps = Done c3" "nodes_ok M c3" "same_shape c2 c3"
    by blast
  have "destroy_partitions c (p # ps) = Done c3"
    using c1(1) c2(1) c3(1) by (simp del: option.case)
  with c3(2) same_shape_trans [OF same_shape_trans [OF c1(3) c2(3)] c3(3)] show ?case
    by blast
qed simp

lemma table_refs_current:
  assumes "obj (table_heap c) t = Some tb"
  shows "sum_list (map table_refs (table_heap c)) = table_refs (Some tb) + sum_list (map table_refs (set_obj t None (table_heap c)))"
proof -
  have t: "t < length (table_heap c)" "table_heap c ! t = Some tb"
    using assms by (auto simp: obj_def split: if_splits)
  then have "sum_list (map table_refs (set_obj t None (table_heap c))) + table_refs (Some tb) = sum_list (map table_refs (table_heap c)) + {#}"
    using sum_list_upd [of t "map table_refs (table_heap c)" "{#}"] by (simp add: set_obj_def map_update)
  then show ?thesis
    by (metis add.commute add.right_neutral)
qed

lemma no_table_refs: "(\<And>t. t \<in> set th \<Longrightarrow> t = None) \<Longrightarrow> sum_list (map table_refs th) = {#}"
proof (induction th)
  case (Cons t th)
  have "t = None"
    by (rule Cons.prems) simp
  with Cons show ?case
    by simp
qed simp

text \<open>Everything but nodes, tables and closed connections.\<close>

definition rest_same :: "as_cluster \<Rightarrow> as_cluster \<Rightarrow> bool" where
  "rest_same c c' \<longleftrightarrow> nodes_heap c' = nodes_heap c \<and> tables_heap c' = tables_heap c \<and> cl_nodes c' = cl_nodes c \<and>
     cl_partition_tables c' = cl_partition_tables c"

lemma table_destroy_ok:
  assumes ok: "nodes_ok (sum_list (map table_refs (table_heap c)) + M) c" and tb: "obj (table_heap c) t = Some tb"
  shows "\<exists>c'. as_partition_table_destroy c t = Done c' \<and> nodes_ok (sum_list (map table_refs (table_heap c')) + M) c' \<and>
    table_heap c' = set_obj t None (table_heap c) \<and> rest_same c c'"
proof -
  define N where "N = sum_list (map table_refs (set_obj t None (table_heap c))) + M"
  have "nodes_ok (sum_list (map partition_refs (partitions tb)) + N) c"
    using ok unfolding table_refs_current [OF tb] N_def by (simp add: ac_simps)
  then obtain c1 where c1: "destroy_partitions c (partitions tb) = Done c1" "nodes_ok N c1" "same_shape c c1"
    using destroy_partitions_ok by blast
  then show ?thesis
    using tb same_shapeD [OF c1(3)] by (simp add: as_partition_table_destroy_def lift_opt_def N_def nodes_ok_def rest_same_def)
qed

lemma destroy_tables_ok:
  "nodes_ok (sum_list (map table_refs (table_heap c)) + M) c \<Longrightarrow> distinct ps \<Longrightarrow> \<forall>p \<in> set ps. \<exists>t. p = Some t \<and> obj (table_heap c) t \<noteq> None \<Longrightarrow>
    \<exists>c'. destroy_tables c ps = Done c' \<and> nodes_ok (sum_list (map table_refs (table_heap c')) + M) c' \<and>
      (\<forall>t. obj (table_heap c') t = (if Some t \<in> set ps then None else obj (table_heap c) t)) \<and> rest_same c c'"
proof (induction ps arbitrary: c)
  case Nil
  then show ?case
    by (simp add: rest_same_def)
next
  case (Cons p ps)
  then obtain t tb where t: "p = Some t" "obj (table_heap c) t = Some tb"
    by auto
  from table_destroy_ok [OF Cons.prems(1) t(2)] obtain c1 where c1: "as_partition_table_destroy c t = Done c1"
      "nodes_ok (sum_list (map table_refs (table_heap c1)) + M) c1" "table_heap c1 = set_obj t None (table_heap c)" "rest_same c c1"
    by blast
  have "\<forall>p \<in> set ps. \<exists>t. p = Some t \<and> obj (table_heap c1) t \<noteq> None"
  proof
    fix q assume q: "q \<in> set ps"
    then obtain u where u: "q = Some u" "obj (table_heap c) u \<noteq> None"
      using Cons.prems(3) by auto
    moreover have "u \<noteq> t"
      using q u(1) t(1) Cons.prems(2) by auto
    ultimately show "\<exists>t. q = Some t \<and> obj (table_heap c1) t \<noteq> None"
      by (simp add: c1(3))
  qed
  from Cons.IH [OF c1(2) _ this] Cons.prems(2) obtain c2 where "destroy_tables c1 ps = Done c2"
      "nodes_ok (sum_list (map table_refs (table_heap c2)) + M) c2"
      "\<forall>t. obj (table_heap c2) t = (if Some t \<in> set ps then None else obj (table_heap c1) t)" "rest_same c1 c2"
    by auto
  with t c1 show ?case
    using obj_Some_length [OF t(2)] by (auto simp: lift_opt_def rest_same_def)
qed

lemma release_all_ok:
  "nodes_ok (mset (map the ps) + M) c \<Longrightarrow> None \<notin> set ps \<Longrightarrow> \<exists>c'. release_all c ps = Done c' \<and> nodes_ok M c' \<and> same_shape c c'"
proof (induction ps arbitrary: c)
  case (Cons p ps)
  then obtain n where p: "p = Some n"
    by (cases p) auto
  have "nodes_ok (add_mset n (mset (map the ps) + M)) c"
    using Cons.prems(1) p by simp
  then obtain c1 where c1: "release_in c n = Done c1" "nodes_ok (mset (map the ps) + M) c1" "same_shape c c1"
    using release_nodes_ok by blast
  obtain c2 where c2: "release_all c1 ps = Done c2" "nodes_ok M c2" "same_shape c1 c2"
    using Cons.IH [OF c1(2)] Cons.prems(2) by auto
  have "release_all c (p # ps) = Done c2"
    using p c1(1) c2(1) by (simp add: lift_opt_def)
  with c2(2) same_shape_trans [OF c1(3) c2(3)] show ?case
    by blast
qed simp

text \<open>A table that no array holds any more is lost; \<open>no_lost_table\<close> says that there is none.\<close>

definition no_lost_table :: "as_cluster \<Rightarrow> bool" where
  "no_lost_table c \<longleftrightarrow> distinct (current_tables c) \<and> (\<forall>t < length (table_heap c). table_heap c ! t \<noteq> None \<longrightarrow> Some t \<in> set (current_tables c))"

lemma counted_empty: "counted cnt h {#} \<Longrightarrow> obj h i = None"
  by (auto simp: counted_def)

lemma destroy_ok:
  assumes inv: "cluster_inv held c" and lost: "no_lost_table c"
  shows "\<exists>c'. as_cluster_destroy c = Done c' \<and> counted ref_count (node_heap c') held \<and>
    (\<forall>i. obj (nodes_heap c') i = None \<and> obj (table_heap c') i = None \<and> obj (tables_heap c') i = None)"
proof -
  have inv': "cluster_inv held (c\<lparr>cl_valid := False\<rparr>)"
    using inv by (simp add: cluster_inv_def tend_ok_def cluster_ok_def node_owners_def current_nodes_def current_tables_def)
  obtain c1 where c1: "as_cluster_gc (c\<lparr>cl_valid := False\<rparr>) = Done c1" "cluster_inv held c1" "collected (c\<lparr>cl_valid := False\<rparr>) c1" "cl_gc c1 = []"
    using gc_inv [OF inv'] by blast
  note ok = cluster_invD(1) [OF c1(2)]
  obtain x y where xy: "obj (nodes_heap c1) (cl_nodes c1) = Some x" "nodes_array x = current_nodes c1"
      "obj (tables_heap c1) (cl_partition_tables c1) = Some y" "tables_array y = current_tables c1"
    using current_arrays [OF ok] by blast
  define M where "M = mset (map the (current_nodes c1)) + held"
  have none: "None \<notin> set (current_nodes c1)"
    by (rule cluster_okD(5) [OF ok])
  have "node_owners c1 + held = sum_list (map table_refs (table_heap c1)) + M"
    using opt_msets_the [OF none] c1(4) by (simp add: node_owners_def M_def ac_simps)
  then have nodes: "nodes_ok (sum_list (map table_refs (table_heap c1)) + M) c1"
    using cluster_okD(1,4) [OF ok] by (simp add: nodes_ok_def)
  have same: "current_tables c1 = current_tables c" "table_heap c1 = table_heap c"
  proof -
    have "current_tables (c\<lparr>cl_valid := False\<rparr>) = current_tables c"
      by (simp add: current_tables_def)
    with c1(3) show "current_tables c1 = current_tables c" "table_heap c1 = table_heap c"
      by (simp_all add: collected_def)
  qed
  obtain c2 where c2: "destroy_tables c1 (tables_array y) = Done c2" "nodes_ok (sum_list (map table_refs (table_heap c2)) + M) c2"
      "\<forall>t. obj (table_heap c2) t = (if Some t \<in> set (current_tables c1) then None else obj (table_heap c1) t)" "rest_same c1 c2"
    using destroy_tables_ok [OF nodes, of "tables_array y"] lost cluster_okD(6) [OF ok] unfolding xy same no_lost_table_def by blast
  have gone: "obj (table_heap c2) t = None" for t
    using c2(3) lost unfolding same no_lost_table_def by (auto simp: obj_def)
  then have "t = None" if "t \<in> set (table_heap c2)" for t
    using that by (metis in_set_conv_nth obj_def)
  then have refs: "sum_list (map table_refs (table_heap c2)) = {#}"
    by (rule no_table_refs)
  have "counted tables_ref_count (tables_heap c2) (add_mset (cl_partition_tables c2) {#})"
    using cluster_okD(3) [OF ok] c1(4) c2(4) by (simp add: rest_same_def)
  then obtain h3 d3 where h3: "as_partition_tables_release (tables_heap c2) (cl_partition_tables c2) = Some (h3, d3)" "counted tables_ref_count h3 {#}"
    using tables_count.release_counted by blast
  define c3 where "c3 = c2\<lparr>tables_heap := h3\<rparr>"
  have "nodes_ok (mset (map the (current_nodes c1)) + held) c3"
    using c2(2) refs by (simp add: c3_def nodes_ok_def M_def)
  then obtain c4 where c4: "release_all c3 (current_nodes c1) = Done c4" "nodes_ok held c4" "same_shape c3 c4"
    using release_all_ok [OF _ none] by blast
  have shape: "nodes_heap c4 = nodes_heap c1" "cl_nodes c4 = cl_nodes c1" "table_heap c4 = table_heap c2" "tables_heap c4 = h3"
    using same_shapeD [OF c4(3)] c2(4) by (simp_all add: c3_def rest_same_def)
  have "counted nodes_ref_count (nodes_heap c4) (add_mset (cl_nodes c4) {#})"
    using cluster_okD(2) [OF ok] c1(4) shape by simp
  then obtain h5 d5 where h5: "as_nodes_release (nodes_heap c4) (cl_nodes c4) = Some (h5, d5)" "counted nodes_ref_count h5 {#}"
    using nodes_count.release_counted by blast
  have rest: "nodes_heap c3 = nodes_heap c1" "cl_nodes c3 = cl_nodes c1" "cl_nodes c4 = cl_nodes c3"
    using c2(4) shape by (simp_all add: c3_def rest_same_def)
  have "as_cluster_destroy c = Done (c4\<lparr>nodes_heap := h5\<rparr>)"
    unfolding as_cluster_destroy_def using c1(1) xy c2(1) h3(1) c3_def rest c4(1) h5(1)
    by (simp add: lift_opt_def release_partition_tables_def release_nodes_def)
  then show ?thesis
    using c4(2) counted_empty [OF h5(2)] counted_empty [OF h3(2)] gone shape by (simp add: nodes_ok_def)
qed


subsection \<open>Any order of passes and commands\<close>

text \<open>
  \<open>cluster_run held c\<close>: the cluster can be in the state \<open>c\<close> while the commands hold the reservations \<open>held\<close>.  The tend thread makes its
  passes; commands choose a node, which reserves it, take connections from it and give them back, and release it.  As long
  as there are fewer than \<open>2\<^sup>3\<^sup>2\<close> references, this can go on for ever.
\<close>

inductive cluster_run :: "nat multiset \<Rightarrow> as_cluster \<Rightarrow> bool" where
  start: "cluster_run {#} (empty_cluster cfg)"
| seeds: "cluster_run held c \<Longrightarrow> as_cluster_add_seeds h ntoa c = Done c' \<Longrightarrow> cluster_run held (c'\<lparr>cl_valid := v\<rparr>)"
| password: "cluster_run held c \<Longrightarrow> cluster_run held (as_cluster_change_password c user pw)"
| tend: "cluster_run held c \<Longrightarrow> as_cluster_tend e c = Done (status, c') \<Longrightarrow> fits held [] c' \<Longrightarrow> cluster_run held c'"
| key: "cluster_run held c \<Longrightarrow> fits held [] c \<Longrightarrow> as_node_get h c ns d w replica = Done (p, c') \<Longrightarrow> cluster_run (opt_mset p + held) c'"
| random: "cluster_run held c \<Longrightarrow> fits held [] c \<Longrightarrow> as_node_get_random c = Done (p, c') \<Longrightarrow> cluster_run (opt_mset p + held) c'"
| by_name: "cluster_run held c \<Longrightarrow> fits held [] c \<Longrightarrow> as_node_get_by_name c name = Done (p, c') \<Longrightarrow> cluster_run (opt_mset p + held) c'"
| take_connection: "cluster_run held c \<Longrightarrow> n \<in># held \<Longrightarrow> obj (node_heap c) n = Some x \<Longrightarrow>
    as_node_get_connection net (cl_conf c) x oe = Done (status, fd, y, fds) \<Longrightarrow>
    cluster_run held ((upd_node n y c)\<lparr>closed_fds := closed_fds c @ fds\<rparr>)"
| put_connection: "cluster_run held c \<Longrightarrow> n \<in># held \<Longrightarrow> obj (node_heap c) n = Some x \<Longrightarrow>
    as_node_put_connection x fd = Some (y, fds) \<Longrightarrow> cluster_run held ((upd_node n y c)\<lparr>closed_fds := closed_fds c @ fds\<rparr>)"
| release: "cluster_run (add_mset n held) c \<Longrightarrow> release_in c n = Done c' \<Longrightarrow> cluster_run held c'"

lemma get_connection_sane:
  assumes "as_node_get_connection net conf x oe = Done (status, fd, y, fds)" and "node_sane x"
  shows "ref_count y = ref_count x \<and> node_sane y"
proof -
  obtain xs where xs: "q_rep (conn_q x) xs"
    using assms(2) by (auto simp: node_sane_def)
  have sane: "node_sane (x\<lparr>conn_q := q\<rparr>)" if "q_rep q ys" for q ys
    using assms(2) that by (auto simp: node_sane_def)
  show ?thesis
  proof (cases "dropWhile (\<lambda>fd. \<not> alive net fd) xs")
    case Nil
    then obtain q where "q_rep q []" and e: "as_node_get_connection net conf x oe =
        outcome_bind (as_node_create_connection net conf (x\<lparr>conn_q := q\<rparr>) oe) (\<lambda>(status, fd, node, more).
        Done (status, fd, node, map (peeked net) (filter (closable net) xs) @ more))"
      using pool_cases(1) [OF xs, of net conf oe] unfolding Nil by auto
    moreover obtain more where "as_node_create_connection net conf (x\<lparr>conn_q := q\<rparr>) oe = Done (status, fd, y, more)"
      using assms(1) unfolding e by (auto simp: outcome_bind_Done)
    ultimately have q: "q_rep q []" "as_node_create_connection net conf (x\<lparr>conn_q := q\<rparr>) oe = Done (status, fd, y, more)"
      by blast+
    with create_connection_sane [OF q(2)] sane show ?thesis
      by auto
  next
    case (Cons a rest)
    then obtain q where "y = x\<lparr>conn_q := q\<rparr>" "q_rep q rest"
      using pool_cases(1) [OF xs, of net conf oe] assms(1) unfolding Cons by auto
    with sane show ?thesis
      by auto
  qed
qed

lemma put_connection_sane:
  assumes "as_node_put_connection x fd = Some (y, fds)" and "node_sane x"
  shows "ref_count y = ref_count x \<and> node_sane y"
proof -
  obtain xs where "q_rep (conn_q x) xs"
    using assms(2) by (auto simp: node_sane_def)
  then show ?thesis
    using pool_cases(2) [of x xs fd] assms by (auto simp: node_sane_def)
qed

lemma same_shape_inv: "cluster_inv held c \<Longrightarrow> same_shape c c' \<Longrightarrow> cluster_ok held' c' \<Longrightarrow> cluster_inv held' c'"
  using same_shapeD [of c c'] by (simp add: cluster_inv_def tend_ok_def)

lemma upd_inv:
  assumes inv: "cluster_inv held c" and x: "obj (node_heap c) n = Some x" and y: "node_sane x \<Longrightarrow> ref_count y = ref_count x \<and> node_sane y"
  shows "cluster_inv held ((upd_node n y c)\<lparr>closed_fds := fds\<rparr>)"
proof (rule same_shape_inv [OF inv same_shape_trans [OF upd_node_shape closed_shape]])
  note ok = cluster_invD(1) [OF inv]
  show "cluster_ok held ((upd_node n y c)\<lparr>closed_fds := fds\<rparr>)"
    using upd_node_ok [OF ok x, of y] y [OF cluster_okD(4) [OF ok x]] by (simp add: closed_ok)
qed

lemma settings_inv:
  "cluster_inv held (c\<lparr>cl_seeds := s\<rparr>) = cluster_inv held c" "cluster_inv held (c\<lparr>cl_conf := conf\<rparr>) = cluster_inv held c"
  "cluster_inv held (c\<lparr>cl_valid := v\<rparr>) = cluster_inv held c"
  by (simp_all add: cluster_inv_def tend_ok_def cluster_ok_def node_owners_def current_nodes_def current_tables_def)

lemma empty_inv: "cluster_inv {#} (empty_cluster cfg)"
  by (auto simp: cluster_inv_def tend_ok_def cluster_ok_def node_owners_def current_nodes_def current_tables_def empty_cluster_def
      counted_def obj_def as_partition_tables_create_def split: if_splits)

lemma run_inv: "cluster_run held c \<Longrightarrow> cluster_inv held c"
proof (induction rule: cluster_run.induct)
  case (seeds held c h ntoa c' v)
  then obtain new where "c' = (if new \<noteq> [] then as_add_seeds c new else c)"
    by (auto simp: as_cluster_add_seeds_def outcome_bind_Done)
  with seeds show ?case
    by (simp add: settings_inv as_add_seeds_def)
next
  case (password held c user pw)
  then show ?case
    by (simp add: as_cluster_change_password_def settings_inv split: option.splits)
next
  case (tend held c e status c')
  then show ?case
    by (blast intro: tend_inv)
next
  case (key held c h ns d w replica p c')
  then show ?case
    using node_get_chooses [OF key.IH, of h ns d w replica] fits_room [of "[]" held c] cluster_invD(1) [OF key.IH] chosen_inv [OF key.IH]
    by (auto simp: chooses_def)
next
  case (random held c p c')
  then show ?case
    using get_random_ok [of held c] fits_room [of "[]" held c] cluster_invD(1) [OF random.IH] chosen_inv [OF random.IH] by auto
next
  case (by_name held c name p c')
  then show ?case
    using get_by_name_ok [of held c name] fits_room [of "[]" held c] cluster_invD(1) [OF by_name.IH] chosen_inv [OF by_name.IH] by auto
next
  case (take_connection held c n x net oe status fd y fds)
  then show ?case
    using get_connection_sane by (blast intro: upd_inv)
next
  case (put_connection held c n x fd y fds)
  then show ?case
    using put_connection_sane by (blast intro: upd_inv)
next
  case (release n held c c')
  then show ?case
    using release_in_ok [OF cluster_invD(1) [OF release.IH]] same_shape_inv [OF release.IH] by auto
qed (rule empty_inv)


subsection \<open>The first pass of a cluster with one seed\<close>

text \<open>
  The seed answers with the name of its node and the number of partitions; the connection for its state cannot be opened.
\<close>

definition info_answer :: "byte list \<Rightarrow> byte list" where
  "info_answer body = proto_wire \<lparr> proto_version = 2, proto_type = 1, proto_sz = of_nat (length body) \<rparr> @ body"

lemma prompt_info:
  assumes body: "body \<noteq> []" "length body \<le> 1000" and cmd: "cmd \<noteq> []" "length cmd \<le> 900" "dl \<noteq> 0"
    and v: "as_info_validate (body @ [0]) = Some (AEROSPIKE_OK, resp, None)"
  shows "\<exists>s. as_info_command some_errnos h as_error_reset (quick_sock (info_answer body) [quick_turn, quick_turn, quick_turn]) (Some cmd) True 0 dl 0 =
    Done (AEROSPIKE_OK, as_error_reset, Some resp, s)"
proof -
  define hdr where "hdr = proto_wire \<lparr> proto_version = 2, proto_type = 1, proto_sz = of_nat (length body) \<rparr>"
  define s where "s = quick_sock (info_answer body) [quick_turn, quick_turn, quick_turn]"
  define req where "req = info_request h (Some cmd) True"
  have "length (c_str cmd) \<le> length cmd"
    by (simp add: c_str_def length_takeWhile_le)
  then have "8 \<le> length req" "length req \<le> 1000"
    using cmd(2) by (auto simp: req_def info_request_def request_names_def Let_def)
  then have req: "req \<noteq> []" "length req \<le> 1000"
    by auto
  have hdr: "length hdr = 8" "hdr \<noteq> []"
    by (simp_all add: hdr_def length_greater_0_conv [symmetric] del: length_greater_0_conv)
  have s: "prompt s" "sk_turns s = [quick_turn, quick_turn, quick_turn]" "sk_in s = hdr @ body"
    by (simp_all add: s_def prompt_def quick_sock_def info_answer_def hdr_def)
  have w: "as_socket_write_deadline some_errnos as_error_reset s req 0 dl =
      Done (AEROSPIKE_OK, as_error_reset, s\<lparr>sk_out := sk_out s @ req, sk_turns := [quick_turn, quick_turn]\<rparr>)"
    using req s cmd(3) by (intro prompt_accepts) simp_all
  define s1 where "s1 = s\<lparr>sk_out := sk_out s @ req, sk_turns := [quick_turn, quick_turn]\<rparr>"
  have s1: "prompt s1" "sk_in s1 = hdr @ body" "sk_turns s1 = [quick_turn, quick_turn]"
    using s by (simp_all add: s1_def prompt_def)
  have d1: "delivers some_errnos as_error_reset dl s1 hdr (s1\<lparr>sk_in := body, sk_turns := [quick_turn]\<rparr>)"
    using s1 cmd(3) hdr by (intro prompt_delivers) auto
  have d2: "delivers some_errnos as_error_reset dl (s1\<lparr>sk_in := body, sk_turns := [quick_turn]\<rparr>) body
      (s1\<lparr>sk_in := body, sk_turns := [quick_turn]\<rparr>\<lparr>sk_in := [], sk_turns := []\<rparr>)"
    using s1 body cmd(3) by (intro prompt_delivers) (auto simp: prompt_def)
  have len: "unat (of_nat (length body) :: u64) = length body" "(of_nat (length body) :: u64) \<noteq> 0"
    "take_bit 48 (of_nat (length body) :: u64) = of_nat (length body)"
    using body by (simp_all add: unat_of_nat word_unat_eq_iff unsigned_take_bit_eq take_bit_nat_eq_self)
  from hdr(1) w d1 d2 len v show ?thesis
    unfolding s_def [symmetric] by (simp add: as_info_command_def req_def [symmetric] s1_def [symmetric] delivers_def hdr_def proto_from_wire' Let_def lift_opt_def AEROSPIKE_OK_def)
qed

definition first_env :: tend_env where
  "first_env =
     \<lparr> te_net = \<lparr> net_errnos = some_errnos, net_ebadf = 9, net_peek = (\<lambda>_. (0, 0)), net_peek_sets_flags = False, net_host = Big_Endian, net_stack = [] \<rparr>,
       te_inet_aton = (\<lambda>_. None), te_resolve = (\<lambda>_ _. Some [1]),
       te_connect = (\<lambda>occ _. (0, quick_sock (info_answer (case occ of Counting _ \<Rightarrow> [112, 9, 49, 10] | _ \<Rightarrow> [110, 9, 65, 10])) [quick_turn, quick_turn, quick_turn])),
       te_connect_now = (\<lambda>_ _. 0), te_open = (\<lambda>_. \<lparr> oe_socket = None, oe_connect = (\<lambda>_. None), oe_now = 0 \<rparr>),
       te_info_now = (\<lambda>_. (0, 0)), te_info_stack = (\<lambda>_. ([], [])) \<rparr>"

definition one_seed :: as_config where
  "one_seed = \<lparr> cfg_user = [], cfg_password = [], cfg_conn_timeout_ms = 1000, cfg_hosts = [(Some [97], 3000), (None, 0)], cfg_ip_map = [],
     cfg_fail_if_not_connected = True \<rparr>"

definition first_node :: as_node where
  "first_node = \<lparr> ref_count = 1, partition_generation = 0xFFFFFFFF, node_name = [65], address_index = 0, addresses = [(1, 3000)],
     conn_q = \<lparr> threadsafe = True, allocsz = 64, write_offset = 0, read_offset = 0, queue = Some (replicate 64 None) \<rparr>,
     info_fd = None, node_friends = 0, node_failures = 1, node_active = True \<rparr>"

definition first_cluster :: as_cluster where
  "first_cluster = (empty_cluster one_seed)
     \<lparr>node_heap := [Some first_node],
      nodes_heap := [Some \<lparr> nodes_ref_count = 1, nodes_array = [] \<rparr>, Some \<lparr> nodes_ref_count = 1, nodes_array = [Some 0] \<rparr>],
      cl_nodes := 1, cl_gc := [Gc_Nodes 0], n_partitions := 1\<rparr>"

lemma first_answers:
  "as_info_validate [110, 9, 65, 10, 0] = Some (AEROSPIKE_OK, [110, 9, 65, 10, 0], None)"
  "as_info_validate [112, 9, 49, 10, 0] = Some (AEROSPIKE_OK, [112, 9, 49, 10, 0], None)"
  by code_simp+

lemma first_values:
  "as_info_parse_single_response [110, 9, 65, 10, 0] 0 = Some (0, [110, 9, 65, 0, 0], Some 2)"
  "as_info_parse_single_response [112, 9, 49, 10, 0] 0 = Some (0, [112, 9, 49, 0, 0], Some 2)"
  "str_at [110, 9, 65, 0, 0] 2 = Some [65]" "str_at [112, 9, 49, 0, 0] 2 = Some [49]"
  by code_simp+

lemma ask_first:
  assumes "cc_login conf = None" "cc_timeout_ms conf = 1000"
  shows "ask_host first_env (Counting k) conf addr (ascii ''partitions'') = Done (0, [49])"
    and "ask_host first_env (Seeding r k) conf addr (ascii ''node'') = Done (0, [65])"
proof -
  have dl: "as_socket_deadline 0 1000 \<noteq> 0"
    by (simp add: as_socket_deadline_def)
  obtain s where "as_info_command some_errnos Big_Endian as_error_reset (quick_sock (info_answer [112, 9, 49, 10]) [quick_turn, quick_turn, quick_turn])
      (Some (ascii ''partitions'')) True 0 (as_socket_deadline 0 1000) 0 = Done (AEROSPIKE_OK, as_error_reset, Some [112, 9, 49, 10, 0], s)"
    using prompt_info [of "[112, 9, 49, 10]" "ascii ''partitions''", OF _ _ _ _ dl] first_answers(2) by (auto simp: ascii_def)
  then show "ask_host first_env (Counting k) conf addr (ascii ''partitions'') = Done (0, [49])"
    using assms by (simp add: ask_host_def first_env_def as_info_command_host_def AEROSPIKE_OK_def lift_opt_def first_values)
  obtain s where "as_info_command some_errnos Big_Endian as_error_reset (quick_sock (info_answer [110, 9, 65, 10]) [quick_turn, quick_turn, quick_turn])
      (Some (ascii ''node'')) True 0 (as_socket_deadline 0 1000) 0 = Done (AEROSPIKE_OK, as_error_reset, Some [110, 9, 65, 10, 0], s)"
    using prompt_info [of "[110, 9, 65, 10]" "ascii ''node''", OF _ _ _ _ dl] first_answers(1) by (auto simp: ascii_def)
  then show "ask_host first_env (Seeding r k) conf addr (ascii ''node'') = Done (0, [65])"
    using assms by (simp add: ask_host_def first_env_def as_info_command_host_def AEROSPIKE_OK_def lift_opt_def first_values)
qed

definition seeded_cluster :: as_cluster where
  "seeded_cluster = first_cluster\<lparr>node_heap := [Some (first_node\<lparr>node_failures := 0\<rparr>)], n_partitions := 0\<rparr>"

lemma seeded: "as_cluster_seed_nodes first_env 0 (empty_cluster one_seed) = Done (0, seeded_cluster)"
proof -
  have l: "as_lookup_node_name first_env (Seeding 0 0) (cl_conf (empty_cluster one_seed)) addr = Done (0, [65])" for addr
    using ask_first(2) [of "cl_conf (empty_cluster one_seed)"]
    by (simp add: as_lookup_node_name_def empty_cluster_def one_seed_def AEROSPIKE_OK_def as_strncpy_def c_str_def AS_NODE_NAME_SIZE_def)
  show ?thesis
    using l
    by (simp add: as_cluster_seed_nodes_def seeds_create_def one_seed_def as_lookup_def append_unique_def first_env_def empty_cluster_def
        create_in_def as_node_create_def cf_queue_create_def CF_QUEUE_ALLOCSZ_def as_node_add_address_def as_cluster_add_nodes_copy_def lift_opt_def
        obj_def new_obj_def Let_def seeded_cluster_def first_cluster_def first_node_def)
qed

lemma sized: "as_cluster_set_partition_size first_env seeded_cluster = Done (0, seeded_cluster\<lparr>n_partitions := 1\<rparr>)"
proof -
  have "atoi [49] = 1"
    by code_simp
  moreover have "ask_host first_env (Counting 0) (cl_conf seeded_cluster) addr (ascii ''partitions'') = Done (0, [49])" for addr
    by (rule ask_first) (simp_all add: seeded_cluster_def first_cluster_def empty_cluster_def one_seed_def)
  ultimately show ?thesis
    by (simp add: as_cluster_set_partition_size_def lift_opt_def obj_def the_node_def mem_load_def seeded_cluster_def first_cluster_def first_node_def AEROSPIKE_OK_def)
qed

lemma refreshed:
  defines "c \<equiv> seeded_cluster\<lparr>n_partitions := 1\<rparr>"
  shows "obj (nodes_heap c) (cl_nodes c) = Some \<lparr> nodes_ref_count = 1, nodes_array = [Some 0] \<rparr>"
    and "clear_friends c [Some 0] = Done c"
    and "refresh_all first_env c [] 0 [Some 0] = Done (first_cluster, [], 0)"
    and "tend_changes first_env first_cluster [] 0 = Done first_cluster"
  by (simp_all add: c_def seeded_cluster_def first_cluster_def first_node_def obj_def set_obj_def the_node_def upd_node_def first_env_def
      as_node_refresh_def as_node_get_info_connection_def as_node_create_connection_def tend_changes_def unwanted_def lift_opt_def Let_def
      AEROSPIKE_ERR_CLIENT_def word_le_nat_alt)

lemma first_tend: "as_cluster_tend first_env (empty_cluster one_seed) = Done (0, first_cluster)"
proof -
  have "as_cluster_gc (empty_cluster one_seed) = Done (empty_cluster one_seed)"
    by (simp add: as_cluster_gc_def empty_cluster_def)
  moreover have "obj (nodes_heap (empty_cluster one_seed)) (cl_nodes (empty_cluster one_seed)) = Some \<lparr> nodes_ref_count = 1, nodes_array = [] \<rparr>"
    by (simp add: empty_cluster_def obj_def)
  moreover have "n_partitions seeded_cluster = 0"
    by (simp add: seeded_cluster_def)
  ultimately show ?thesis
    using seeded sized refreshed by (simp add: as_cluster_tend_def lift_opt_def)
qed

lemma first_runs: "cluster_run {#} first_cluster" "fits {#} [] first_cluster"
proof -
  show f: "fits {#} [] first_cluster"
    by (simp add: fits_def slots_def current_nodes_def first_cluster_def obj_def empty_cluster_def)
  show "cluster_run {#} first_cluster"
    using cluster_run.tend [OF cluster_run.start first_tend f] .
qed

definition busy_cluster :: as_cluster where
  "busy_cluster = first_cluster\<lparr>node_heap := [Some (first_node\<lparr>ref_count := 2\<rparr>)], node_index := 1\<rparr>"

lemma first_reserved: "as_node_get_random first_cluster = Done (Some 0, busy_cluster)"
  by (simp add: as_node_get_random_def as_nodes_reserve_def release_nodes_def as_nodes_release_def first_cluster_def busy_cluster_def obj_def set_obj_def
      lift_opt_def the_node_def first_node_def reserve_in_def as_node_reserve_def Let_def empty_cluster_def)

lemma busy_runs: "cluster_run {#0#} busy_cluster"
  using cluster_run.random [OF first_runs first_reserved] by simp


subsection \<open>Properties\<close>



text \<open>
  C7.  Choosing the node of a key never meets a freed object.  It takes the first active one of the nodes of the partition of the
  digest, in the order of the policy: only the master for writes and for the master policy, the master and the copy in turns
  otherwise.  If none is active, it takes any active node of the cluster, and there is no node only if none is active, unless the
  running index wraps in between.  The node that it takes is reserved.
\<close>

theorem key_routed:
  assumes "cluster_run held c" and "fits held [] c"
  shows "\<exists>p c'. as_node_get h c ns d w replica = Done (p, c') \<and> cluster_run (opt_mset p + held) c' \<and> choice_ok c (key_order h c ns d w replica) p"
proof -
  note inv = run_inv [OF assms(1)]
  have "room 1 held c"
    using fits_room [of "[]" held c] cluster_invD(1) [OF inv] assms(2) by simp
  from node_get_chooses [OF inv this, of h ns d w replica] show ?thesis
    using cluster_run.key [OF assms] unfolding chooses_def by blast
qed

theorem key_routed_witness:
  "\<exists>c'. as_node_get Big_Endian first_cluster [116] (replicate 20 7) True AS_POLICY_REPLICA_MASTER = Done (Some 0, c') \<and> cluster_run {#0#} c'"
proof -
  have t: "key_order Big_Endian first_cluster [116] (replicate 20 7) True AS_POLICY_REPLICA_MASTER = []"
    by (simp add: key_order_def table_of_def current_tables_def first_cluster_def empty_cluster_def obj_def as_partition_tables_create_def)
  have r: "random_ok first_cluster p \<Longrightarrow> p = Some 0" for p
    by (cases p) (auto simp: random_ok_def current_nodes_def first_cluster_def obj_def active_def first_node_def empty_cluster_def)
  obtain p c' where "as_node_get Big_Endian first_cluster [116] (replicate 20 7) True AS_POLICY_REPLICA_MASTER = Done (p, c')"
      "cluster_run (opt_mset p + {#}) c'" "random_ok first_cluster p"
    using key_routed [OF first_runs, of Big_Endian "[116]" "replicate 20 7" True AS_POLICY_REPLICA_MASTER]
    unfolding t choice_ok_def by auto
  with r [of p] show ?thesis
    by simp
qed



text \<open>A client that cannot reach its cluster and was asked to fail gets the status and no cluster, and nothing is left on the heap.\<close>

lemma failed_tend_tables:
  assumes t: "as_cluster_tend e (empty_cluster cfg) = Done (status, c')" and st: "status \<noteq> 0"
  shows "table_heap c' = []"
proof -
  have none: "table_heap c2 = []" if gc: "as_cluster_gc (empty_cluster cfg) = Done c1" and e: "evolves {#} [] c1 [] c2" for c1 c2
  proof -
    have "c1 = empty_cluster cfg"
      using gc by (simp add: as_cluster_gc_def empty_cluster_def)
    then have "n_partitions c1 = 0" "table_heap c1 = []"
      by (simp_all add: empty_cluster_def)
    with e show ?thesis
      by (simp add: evolves_def leads_def)
  qed
  from t show ?thesis
  proof (cases rule: tend_cases [where held = "{#}"])
    case (1 c1 c2)
    with none show ?thesis
      by blast
  next
    case (2 c1 c2)
    with none [OF 2(1,2)] set_size_shape(1) [OF 2(4)] show ?thesis
      by auto
  next
    case 3
    with st show ?thesis
      by simp
  qed
qed

theorem unreachable_create_clean:
  assumes t: "as_cluster_tend e (empty_cluster cfg) = Done (status, c)" and st: "status \<noteq> 0" and f: "fits {#} [] c"
    and cfg: "cfg_fail_if_not_connected cfg"
  shows "\<exists>c'. as_cluster_create h ntoa now cfg ((e, clock) # es) = Done (status, None, c') \<and>
    (\<forall>i. obj (node_heap c') i = None \<and> obj (nodes_heap c') i = None \<and> obj (table_heap c') i = None \<and> obj (tables_heap c') i = None)"
proof -
  have run: "cluster_run {#} c"
    using cluster_run.tend [OF cluster_run.start t f] .
  have th: "table_heap c = []"
    by (rule failed_tend_tables [OF t st])
  then have "current_tables c = []"
    using cluster_okD(6) [OF cluster_invD(1) [OF run_inv [OF run]]] by (cases "current_tables c") (fastforce simp: obj_def)+
  with th have "no_lost_table c"
    by (simp add: no_lost_table_def)
  then obtain c' where "as_cluster_destroy c = Done c'" "counted ref_count (node_heap c') {#}"
      "\<forall>i. obj (nodes_heap c') i = None \<and> obj (table_heap c') i = None \<and> obj (tables_heap c') i = None"
    using destroy_ok [OF run_inv [OF run]] by blast
  with t st cfg show ?thesis
    by (simp add: as_cluster_create_def as_cluster_init_def as_wait_till_stabilized_def counted_empty)
qed

definition wrapping_cluster :: as_cluster where
  "wrapping_cluster = (empty_cluster one_seed)
     \<lparr>node_heap := [Some (first_node\<lparr>node_active := False\<rparr>), Some (first_node\<lparr>node_active := False\<rparr>), Some first_node],
      nodes_heap := [Some \<lparr> nodes_ref_count = 1, nodes_array = [Some 0, Some 1, Some 2] \<rparr>], node_index := 0xFFFFFFFF\<rparr>"


end
