(* ===== verification/TableProps.thy ===== *)
theory TableProps
  imports ClusterProps
begin

text \<open>
  The partition tables follow the servers: one update with a well-formed text changes the owners of the partitions exactly as
  the bitmaps say, creating the tables of new namespaces, and keeps the reference counts.
\<close>

subsection \<open>One bitmap\<close>

definition bit_of :: "byte list \<Rightarrow> nat \<Rightarrow> bool" where
  "bit_of bm i \<longleftrightarrow> bm ! (i div 8) AND drop_bit (i mod 8) 0x80 \<noteq> 0"

definition update_all :: "bool \<Rightarrow> nat \<Rightarrow> byte list \<Rightarrow> as_partition list \<Rightarrow> as_partition list" where
  "update_all is_master node bm ps = map (\<lambda>i. slot_after is_master node (bit_of bm i) (ps ! i)) [0..<length ps]"

lemma length_update_all [simp]: "length (update_all m node bm ps) = length ps"
  by (simp add: update_all_def)

lemma foldl_update:
  "k \<le> length ps \<Longrightarrow> foldl (\<lambda>ps i. ps[i := f i (ps ! i)]) ps [0..<k] = map (\<lambda>i. f i (ps ! i)) [0..<k] @ drop k ps"
proof (induction k)
  case (Suc k)
  have "drop k ps = ps ! k # drop (Suc k) ps"
    using Suc.prems by (simp add: Cons_nth_drop_Suc)
  with Suc show ?case
    by (simp add: nth_append list_update_append)
qed simp

lemma set_obj_same: "obj h i = Some x \<Longrightarrow> set_obj i (Some x) h = h"
  by (simp add: obj_def set_obj_def list_update_same_conv split: if_splits)

text \<open>What stays while one table changes.\<close>

definition table_step :: "nat multiset \<Rightarrow> as_cluster \<Rightarrow> nat \<Rightarrow> as_partition_table \<Rightarrow> as_cluster \<Rightarrow> bool" where
  "table_step held c t tb c' \<longleftrightarrow> cluster_ok held c' \<and> frame c c' \<and> table_heap c' = set_obj t (Some tb) (table_heap c)"

lemma frame_slots: "frame c c' \<Longrightarrow> length (table_heap c') = length (table_heap c) \<Longrightarrow> slots c' = slots c"
  by (simp add: frame_def slots_def)

lemma expand_bitmap_ok:
  assumes "cluster_ok held c" and "Some node \<in> set (current_nodes c)" and "fits held [] c" and "obj (table_heap c) t = Some tb"
    and "\<forall>i \<in> set is. i < length (partitions tb) \<and> i div 8 < length bm"
  shows "\<exists>c'. expand_bitmap c bm t node m is = Done c' \<and>
    table_step held c t (tb\<lparr>partitions := foldl (\<lambda>ps i. ps[i := slot_after m node (bit_of bm i) (ps ! i)]) (partitions tb) is\<rparr>) c'"
  using assms
proof (induction "is" arbitrary: c tb)
  case Nil
  then show ?case
    by (simp add: table_step_def set_obj_same)
next
  case (Cons i "is")
  define tb1 where "tb1 = tb\<lparr>partitions := (partitions tb)[i := slot_after m node (bit_of bm i) (partitions tb ! i)]\<rparr>"
  have owns: "bitmap_owns bm i = Some (bit_of bm i)"
    using Cons.prems(5) by (simp add: bitmap_owns_def bit_of_def mem_load_def)
  have room: "room 1 held c"
    using fits_room [of "[]" held c] Cons.prems(1,3) by simp
  obtain c1 where c1: "as_partition_update c t i node m (bit_of bm i) = Done c1" "cluster_ok held c1" "table_heap c1 = set_obj t (Some tb1) (table_heap c)"
    using partition_update_ok [OF Cons.prems(1) current_live [OF Cons.prems(1,2)] Cons.prems(4) _ room] Cons.prems(5) unfolding tb1_def by fastforce
  have f: "frame c c1"
    using c1(1) by (rule partition_update_frame)
  have "Some node \<in> set (current_nodes c1)" "fits held [] c1" "obj (table_heap c1) t = Some tb1"
      "\<forall>i \<in> set is. i < length (partitions tb1) \<and> i div 8 < length bm"
    using Cons.prems f frame_slots [OF f] c1(3) obj_Some_length [OF Cons.prems(4)] by (simp_all add: frame_def fits_def tb1_def)
  from Cons.IH [OF c1(2) this] obtain c2 where "expand_bitmap c1 bm t node m is = Done c2"
      "table_step held c1 t (tb1\<lparr>partitions := foldl (\<lambda>ps i. ps[i := slot_after m node (bit_of bm i) (ps ! i)]) (partitions tb1) is\<rparr>) c2"
    by blast
  with owns c1 f show ?case
    using frame_trans [OF f] by (auto simp: table_step_def lift_opt_def tb1_def set_obj_def)
qed

lemma decode_ok:
  assumes ok: "cluster_ok held c" and node: "Some node \<in> set (current_nodes c)" and fits: "fits held [] c" and tb: "obj (table_heap c) t = Some tb"
    and bm: "length bm = (unat (n_partitions c) + 7) div 8"
  shows "\<exists>c'. decode_and_update c (cf_b64_encode bm) t node m = Done c' \<and>
    table_step held c t (tb\<lparr>partitions := update_all m node bm (partitions tb)\<rparr>) c'"
proof -
  obtain out where out: "cf_b64_decode (cf_b64_encode bm) = Some (out, length bm)" "take (length bm) out = bm"
    using cf_b64_decode_encode by blast
  have len: "length (partitions tb) = unat (n_partitions c)"
    using cluster_okD(7) [OF ok tb] .
  have small: "i div 8 < length bm" if "i < length (partitions tb)" for i
    using that bm len by linarith
  have "length bm \<le> length out"
    using out(2) by (metis length_take min.bounded_iff order_refl)
  then have idx: "\<forall>i \<in> set [0..<length (partitions tb)]. i < length (partitions tb) \<and> i div 8 < length out"
    using small by (fastforce intro: less_le_trans)
  have bits: "bit_of out i = bit_of bm i" if "i < length (partitions tb)" for i
    using out(2) small [OF that] unfolding bit_of_def by (metis nth_take)
  have "foldl (\<lambda>ps i. ps[i := slot_after m node (bit_of out i) (ps ! i)]) (partitions tb) [0..<length (partitions tb)] = update_all m node bm (partitions tb)"
    using foldl_update [of "length (partitions tb)" "partitions tb" "\<lambda>i. slot_after m node (bit_of out i)"] bits by (simp add: update_all_def)
  with expand_bitmap_ok [OF ok node fits tb idx, of m] show ?thesis
    using tb out(1) by (simp add: decode_and_update_def lift_opt_def)
qed


subsection \<open>The text of the servers\<close>

text \<open>A namespace, its bitmap and the byte that ends it: a semicolon, or the zero byte or newline behind the value.\<close>

type_synonym entry = "byte list \<times> byte list \<times> byte"

definition table_text :: "entry list \<Rightarrow> byte list" where
  "table_text es = concat (map (\<lambda>(ns, bm, z). ns @ 58 # cf_b64_encode bm @ [z]) es)"

text \<open>What the client accepts.\<close>

definition entry_ok :: "nat \<Rightarrow> entry \<Rightarrow> bool" where
  "entry_ok n = (\<lambda>(ns, bm, z). ns \<noteq> [] \<and> length ns < 32 \<and> 0 \<notin> set ns \<and> 58 \<notin> set ns \<and> length bm = (n + 7) div 8 \<and> z \<in> {59, 10, 0})"

text \<open>The owners of the partitions of each namespace, and what an entry makes of them.\<close>

definition owners :: "as_cluster \<Rightarrow> byte list \<Rightarrow> as_partition list option" where
  "owners c ns = map_option partitions (table_of c ns)"

definition learn :: "nat \<Rightarrow> bool \<Rightarrow> nat \<Rightarrow> (byte list \<Rightarrow> as_partition list option) \<Rightarrow> entry \<Rightarrow> byte list \<Rightarrow> as_partition list option" where
  "learn n is_master node f = (\<lambda>(ns, bm, z).
     f(ns := Some (update_all is_master node bm (case f ns of Some ps \<Rightarrow> ps | None \<Rightarrow> replicate n \<lparr> master = None, prole = None \<rparr>))))"

text \<open>The owners while the update is running: \<open>ts\<close> are the tables of the cluster and the new ones.\<close>

definition owners_in :: "as_partition_table heap \<Rightarrow> nat list \<Rightarrow> byte list \<Rightarrow> as_partition list option" where
  "owners_in h ts ns = map_option partitions (find (\<lambda>tb. table_ns tb = ns) (map (\<lambda>t. the (obj h t)) ts))"

lemma find_table_find:
  "\<forall>t \<in> set ts. obj (table_heap c) t \<noteq> None \<Longrightarrow> find_table c ns (map Some ts) = Done (find (\<lambda>t. table_ns (the (obj (table_heap c) t)) = ns) ts)"
proof (induction ts)
  case (Cons t ts)
  then obtain tb where "obj (table_heap c) t = Some tb"
    by auto
  with Cons show ?case
    by simp
qed simp

lemma find_append: "find P (xs @ ys) = (case find P xs of None \<Rightarrow> find P ys | Some x \<Rightarrow> Some x)"
  by (induction xs) simp_all

lemma owners_in_None: "owners_in h ts ns = None \<longleftrightarrow> find (\<lambda>t. table_ns (the (obj h t)) = ns) ts = None"
  by (auto simp: owners_in_def find_None_iff)

lemma owners_in_found:
  assumes "find (\<lambda>t. table_ns (the (obj h t)) = ns) ts = Some t" and "obj h t = Some tb"
  shows "owners_in h ts ns = Some (partitions tb)" and "table_ns tb = ns"
  using assms by (induction ts) (auto simp: owners_in_def split: if_splits)

lemma owners_in_set:
  assumes "find (\<lambda>t. table_ns (the (obj h t)) = ns) ts = Some t" and "obj h t = Some tb" and "table_ns tb' = ns"
  shows "owners_in (set_obj t (Some tb') h) ts = (owners_in h ts)(ns := Some (partitions tb'))"
proof
  fix ns'
  have t: "t < length h"
    using assms(2) by (rule obj_Some_length)
  have ns: "table_ns tb = ns"
    by (rule owners_in_found(2) [OF assms(1,2)])
  show "owners_in (set_obj t (Some tb') h) ts ns' = ((owners_in h ts)(ns := Some (partitions tb'))) ns'"
  proof (cases "ns' = ns")
    case True
    with assms(1) t ns assms(2,3) show ?thesis
      by (induction ts) (auto simp: owners_in_def split: if_splits)
  next
    case False
    with t ns assms(2,3) show ?thesis
      by (induction ts) (auto simp: owners_in_def split: if_splits)
  qed
qed

lemma owners_in_new:
  assumes "owners_in h ts (table_ns tb) = None" and "\<forall>t \<in> set ts. obj h t \<noteq> None"
  shows "owners_in (new_obj tb h) (ts @ [length h]) = (owners_in h ts)(table_ns tb := Some (partitions tb))"
    and "find (\<lambda>t. table_ns (the (obj (new_obj tb h) t)) = table_ns tb) (ts @ [length h]) = Some (length h)"
proof -
  have old: "obj (new_obj tb h) t = obj h t" if "t \<in> set ts" for t
    using that assms(2) obj_Some_length by fastforce
  then have m: "map (\<lambda>t. the (obj (new_obj tb h) t)) ts = map (\<lambda>t. the (obj h t)) ts"
    by simp
  show "owners_in (new_obj tb h) (ts @ [length h]) = (owners_in h ts)(table_ns tb := Some (partitions tb))"
  proof -
    have "the (obj (new_obj tb h) (length h)) = tb"
      by simp
    with assms(1) show ?thesis
      by (auto simp: owners_in_def m find_append fun_eq_iff simp del: obj_new_obj split: option.splits)
  qed
  have "find (\<lambda>t. table_ns (the (obj (new_obj tb h) t)) = table_ns tb) ts = None"
    using assms(1) old by (auto simp: owners_in_None find_None_iff)
  then show "find (\<lambda>t. table_ns (the (obj (new_obj tb h) t)) = table_ns tb) (ts @ [length h]) = Some (length h)"
    by (simp add: find_append)
qed

text \<open>The state of the loop: the tables of the cluster are \<open>ts\<close>, those to be added \<open>to_add\<close>.\<close>

definition updating :: "nat multiset \<Rightarrow> nat list \<Rightarrow> as_cluster \<Rightarrow> nat list \<Rightarrow> bool" where
  "updating held ts c to_add \<longleftrightarrow> cluster_ok held c \<and> current_tables c = map Some ts \<and> (\<forall>t \<in> set (ts @ to_add). obj (table_heap c) t \<noteq> None)"

lemma updating_tables:
  assumes "updating held ts c to_add"
  obtains y where "obj (tables_heap c) (cl_partition_tables c) = Some y" "tables_array y = map Some ts"
  using assms current_arrays [of held c] by (metis updating_def)

lemma frame_tables: "frame c c' \<Longrightarrow> current_tables c' = current_tables c"
  by (simp add: frame_def current_tables_def)

lemma updating_frame: "updating held ts c to_add \<Longrightarrow> frame c c' \<Longrightarrow> cluster_ok held c' \<Longrightarrow> updating held ts c' to_add"
  using frame_tables [of c c'] by (auto simp: updating_def frame_def)

lemma table_for_ok:
  assumes up: "updating held ts c to_add" and ns: "0 \<notin> set ns" "length ns < 32"
  defines "own \<equiv> owners_in (table_heap c) (ts @ to_add)"
  shows "\<exists>t tb c' to_add'. table_for c (cl_partition_tables c) ns to_add = Done (t, c', to_add') \<and> updating held ts c' to_add' \<and> frame c c' \<and>
    length (table_heap c') \<le> length (table_heap c) + 1 \<and> obj (table_heap c') t = Some tb \<and> table_ns tb = ns \<and>
    find (\<lambda>t. table_ns (the (obj (table_heap c') t)) = ns) (ts @ to_add') = Some t \<and>
    partitions tb = (case own ns of Some ps \<Rightarrow> ps | None \<Rightarrow> replicate (unat (n_partitions c)) \<lparr> master = None, prole = None \<rparr>) \<and>
    owners_in (table_heap c') (ts @ to_add') = own(ns := Some (partitions tb))"
proof -
  obtain y where y: "obj (tables_heap c) (cl_partition_tables c) = Some y" "tables_array y = map Some ts"
    using updating_tables [OF up] .
  have live: "\<forall>t \<in> set ts. obj (table_heap c) t \<noteq> None" "\<forall>t \<in> set to_add. obj (table_heap c) t \<noteq> None"
    using up by (auto simp: updating_def)
  define r where "r = find (\<lambda>t. table_ns (the (obj (table_heap c) t)) = ns) (ts @ to_add)"
  have tf: "table_for c (cl_partition_tables c) ns to_add =
    (case r of Some t \<Rightarrow> Done (t, c, to_add) | None \<Rightarrow> Done (length (table_heap c), add_table ns c, to_add @ [length (table_heap c)]))"
    using y find_table_find [OF live(1), of ns] find_table_find [OF live(2), of ns]
    by (simp add: table_for_def as_partition_tables_get_def lift_opt_def r_def find_append Let_def split: option.splits)
  show ?thesis
  proof (cases r)
    case None
    define tb where "tb = as_partition_table_create ns (unat (n_partitions c))"
    have tb: "table_ns tb = ns" "partitions tb = replicate (unat (n_partitions c)) \<lparr> master = None, prole = None \<rparr>"
      using ns by (simp_all add: tb_def as_partition_table_create_def as_strncpy_def c_str_id AS_MAX_NAMESPACE_SIZE_def)
    have "own ns = None"
      using None by (simp add: own_def owners_in_None r_def)
    moreover have "\<forall>t \<in> set (ts @ to_add). obj (table_heap c) t \<noteq> None"
      using up by (simp add: updating_def)
    ultimately have "owners_in (table_heap (add_table ns c)) (ts @ to_add @ [length (table_heap c)]) = own(ns := Some (partitions tb))"
        "find (\<lambda>t. table_ns (the (obj (table_heap (add_table ns c)) t)) = ns) (ts @ to_add @ [length (table_heap c)]) = Some (length (table_heap c))"
      using owners_in_new [of "table_heap c" "ts @ to_add" tb] tb(1) by (simp_all add: own_def tb_def)
    moreover have "updating held ts (add_table ns c) (to_add @ [length (table_heap c)])"
      using up add_table_ok [of held c ns] by (auto simp: updating_def current_tables_def)
    ultimately show ?thesis
      using tf None tb \<open>own ns = None\<close> add_table_frame [of c ns]
      by (intro exI [of _ "length (table_heap c)"] exI [of _ tb] exI [of _ "add_table ns c"] exI [of _ "to_add @ [length (table_heap c)]"]) (simp add: tb_def)
  next
    case (Some t)
    then have "t \<in> set (ts @ to_add)"
      unfolding r_def by (metis find_Some_iff nth_mem)
    then obtain tb where tb: "obj (table_heap c) t = Some tb"
      using up by (auto simp: updating_def)
    from owners_in_found [OF Some [unfolded r_def] tb] tf Some tb up show ?thesis
      by (intro exI [of _ t] exI [of _ tb] exI [of _ c] exI [of _ to_add]) (auto simp: own_def r_def)
  qed
qed

lemma encode_chars: "b \<in> set (cf_b64_encode xs) \<Longrightarrow> VA b \<or> b = Base64.pad"
  by (induction xs rule: cf_b64_encode.induct) auto

lemma encode_plain: "b \<in> set (cf_b64_encode xs) \<Longrightarrow> b \<noteq> 0 \<and> b \<noteq> 10 \<and> b \<noteq> 59"
proof -
  have "\<not> VA 0" "\<not> VA 10" "\<not> VA 59"
    by code_simp+
  then show "b \<in> set (cf_b64_encode xs) \<Longrightarrow> b \<noteq> 0 \<and> b \<noteq> 10 \<and> b \<noteq> 59"
    using encode_chars [of b xs] by (auto simp: pad_eq)
qed

lemma expected_length:
  assumes "length bm = (unat (n_partitions c) + 7) div 8"
  shows "length (cf_b64_encode bm) = expected_len c"
proof -
  have n: "unat (n_partitions c) < 65536"
    using unsigned_less [of "n_partitions c", where ?'a = nat] by simp
  have "unat (ucast (n_partitions c) + 7 :: u32) = unat (n_partitions c) + 7"
    using n by (simp add: unat_word_ariths unsigned_ucast_eq take_bit_nat_eq_self)
  then have "unat ((ucast (n_partitions c) + 7 :: u32) div 8) = length bm"
    using assms by (simp add: unat_div)
  then have "(ucast (n_partitions c) + 7 :: u32) div 8 = of_nat (length bm)"
    by (metis of_nat_unat ucast_id)
  moreover have "length bm < 2 ^ 31"
    using assms n by simp
  ultimately show ?thesis
    using unat_encoded_len [of "length bm"] by (simp add: expected_len_def length_cf_b64_encode)
qed

lemma loop_entry:
  assumes e: "entry_ok (unat (n_partitions c)) (ns, bm, z)"
  defines "b64 \<equiv> cf_b64_encode bm"
  shows "tables_update_loop c old node m (pre @ ns @ 58 # b64 @ z # rest) (length pre) (length pre) to_add =
    outcome_bind (table_for c old ns to_add) (\<lambda>(t, c, to_add).
    outcome_bind (decode_and_update c b64 t node m) (\<lambda>c.
    tables_update_loop c old node m (pre @ ns @ 0 # b64 @ 0 # rest) (length (pre @ ns @ 0 # b64 @ [0])) (length (pre @ ns @ 0 # b64 @ [0])) to_add))"
proof -
  define buf where "buf = pre @ ns @ 58 # b64 @ z # rest"
  define buf1 where "buf1 = pre @ ns @ 0 # b64 @ z # rest"
  define buf2 where "buf2 = pre @ ns @ 0 # b64 @ 0 # rest"
  define p where "p = length pre + length ns"
  define q where "q = length pre + length ns + 1 + length b64"
  have ns: "ns \<noteq> []" "length ns < 32" "0 \<notin> set ns" "58 \<notin> set ns" and bm: "length bm = (unat (n_partitions c) + 7) div 8"
      and z: "z = 59 \<or> z = 10 \<or> z = 0"
    using e by (auto simp: entry_ok_def)
  have colon: "scan (\<lambda>b. b = 58) buf (length pre) = Some p"
    unfolding buf_def p_def by (rule scan_found) (use ns in auto)
  have at: "buf ! p = 58" "buf[p := 0] = buf1"
    by (simp_all add: buf_def buf1_def p_def nth_append list_update_append)
  have "scan (\<lambda>b. b = 59 \<or> b = 10) ((pre @ ns @ [0]) @ b64 @ z # rest) (length (pre @ ns @ [0])) = Some (length (pre @ ns @ [0]) + length b64)"
    by (rule scan_found) (use encode_plain [of _ bm] z in \<open>auto simp: b64_def\<close>)
  then have semi: "scan (\<lambda>b. b = 59 \<or> b = 10) buf1 (p + 1) = Some q"
    by (simp add: buf1_def p_def q_def)
  have buf2: "buf1[q := 0] = buf2"
    by (simp add: buf1_def buf2_def q_def list_update_append)
  have txt_eq: "take (q - (p + 1)) (drop (p + 1) buf2) = b64"
    by (simp add: buf2_def p_def q_def)
  have name: "str_at buf2 (length pre) = Some ns"
    using c_str_terminated [OF ns(3), of "b64 @ 0 # rest"] by (simp add: str_at_def buf2_def)
  have len: "\<not> (p - length pre \<le> 0 \<or> p - length pre \<ge> 32)"
    using ns by (simp add: p_def)
  have exp: "length b64 = expected_len c"
    unfolding b64_def by (rule expected_length [OF bm])
  have next_p: "length (pre @ ns @ 0 # b64 @ [0]) = q + 1"
    by (simp add: q_def)
  show ?thesis
    unfolding buf_def [symmetric] buf2_def [symmetric] next_p
    using colon at semi buf2 txt_eq name len exp by (subst tables_update_loop.simps) (simp add: Let_def lift_opt_def del: length_take length_drop)
qed

lemma tables_loop_ok:
  assumes "updating held ts c to_add" and "Some node \<in> set (current_nodes c)" and "\<forall>e \<in> set es. entry_ok (unat (n_partitions c)) e"
    and "slots c + 131072 * length es + size held + 2 < 2 ^ 32" and tail: "0 \<notin> set tail" "58 \<notin> set tail"
  shows "\<exists>c' buf' to_add'. tables_update_loop c (cl_partition_tables c) node m (pre @ table_text es @ tail @ 0 # post) (length pre) (length pre) to_add =
      Done (True, c', buf', to_add') \<and> updating held ts c' to_add' \<and> frame c c' \<and>
      owners_in (table_heap c') (ts @ to_add') = foldl (learn (unat (n_partitions c)) m node) (owners_in (table_heap c) (ts @ to_add)) es \<and>
      slots c' \<le> slots c + 131072 * length es"
  using assms(1-4)
proof (induction es arbitrary: c to_add pre)
  case Nil
  have "scan (\<lambda>b. b = 58) (pre @ tail @ 0 # post) (length pre) = Some (length pre + length tail)"
    by (rule scan_found) (use tail in auto)
  with Nil.prems(1) show ?case
    by (subst tables_update_loop.simps) (simp add: table_text_def nth_append)
next
  case (Cons e es)
  obtain ns bm z where e: "e = (ns, bm, z)"
    by (cases e) blast
  have ok: "entry_ok (unat (n_partitions c)) (ns, bm, z)"
    using Cons.prems(3) e by simp
  then have ns: "0 \<notin> set ns" "length ns < 32" and bm: "length bm = (unat (n_partitions c) + 7) div 8"
    by (simp_all add: entry_ok_def)
  define own where "own = owners_in (table_heap c) (ts @ to_add)"
  obtain t tb c1 to_add1 where t1: "table_for c (cl_partition_tables c) ns to_add = Done (t, c1, to_add1)" "updating held ts c1 to_add1" "frame c c1"
      and h1: "length (table_heap c1) \<le> length (table_heap c) + 1"
      and tb: "obj (table_heap c1) t = Some tb" "table_ns tb = ns" "find (\<lambda>t. table_ns (the (obj (table_heap c1) t)) = ns) (ts @ to_add1) = Some t"
      and own1: "partitions tb = (case own ns of Some ps \<Rightarrow> ps | None \<Rightarrow> replicate (unat (n_partitions c)) \<lparr> master = None, prole = None \<rparr>)"
        "owners_in (table_heap c1) (ts @ to_add1) = own(ns := Some (partitions tb))"
    using table_for_ok [OF Cons.prems(1) ns] unfolding own_def by blast
  have n1: "n_partitions c1 = n_partitions c" "current_nodes c1 = current_nodes c" "cl_partition_tables c1 = cl_partition_tables c"
    using t1(3) by (simp_all add: frame_def)
  have s1: "slots c1 \<le> slots c + 131072"
    using t1(3) h1 by (simp add: frame_def slots_def)
  have "cluster_ok held c1" "Some node \<in> set (current_nodes c1)" "fits held [] c1" "length bm = (unat (n_partitions c1) + 7) div 8"
    using t1(2) Cons.prems(2,4) s1 bm n1 by (simp_all add: updating_def fits_def)
  from decode_ok [OF this(1-3) tb(1) this(4), of m] obtain c2 where d: "decode_and_update c1 (cf_b64_encode bm) t node m = Done c2"
      and st: "table_step held c1 t (tb\<lparr>partitions := update_all m node bm (partitions tb)\<rparr>) c2"
    by blast
  have f: "frame c1 c2" and h2: "table_heap c2 = set_obj t (Some (tb\<lparr>partitions := update_all m node bm (partitions tb)\<rparr>)) (table_heap c1)"
    and ok2: "cluster_ok held c2"
    using st by (simp_all add: table_step_def)
  have up2: "updating held ts c2 to_add1"
    by (rule updating_frame [OF t1(2) f ok2])
  have s2: "slots c2 = slots c1"
    using frame_slots [OF f] h2 by simp
  have n2: "n_partitions c2 = n_partitions c" "current_nodes c2 = current_nodes c" "cl_partition_tables c2 = cl_partition_tables c"
    using f n1 by (simp_all add: frame_def)
  have own2: "owners_in (table_heap c2) (ts @ to_add1) = learn (unat (n_partitions c)) m node own e"
    using owners_in_set [OF tb(3,1), of "tb\<lparr>partitions := update_all m node bm (partitions tb)\<rparr>"] tb(2) own1
    by (simp add: h2 learn_def e)
  define pre2 where "pre2 = pre @ ns @ 0 # cf_b64_encode bm @ [0]"
  obtain c3 buf3 to_add3 where r: "tables_update_loop c2 (cl_partition_tables c2) node m (pre2 @ table_text es @ tail @ 0 # post) (length pre2) (length pre2) to_add1 =
      Done (True, c3, buf3, to_add3)" "updating held ts c3 to_add3" "frame c2 c3"
      "owners_in (table_heap c3) (ts @ to_add3) = foldl (learn (unat (n_partitions c2)) m node) (owners_in (table_heap c2) (ts @ to_add1)) es"
      "slots c3 \<le> slots c2 + 131072 * length es"
    using Cons.IH [OF up2, of pre2] Cons.prems(2-4) n2 s1 s2 by auto
  have "pre @ table_text (e # es) @ tail @ 0 # post = pre @ ns @ 58 # cf_b64_encode bm @ z # (table_text es @ tail @ 0 # post)"
    by (simp add: table_text_def e)
  then have "tables_update_loop c (cl_partition_tables c) node m (pre @ table_text (e # es) @ tail @ 0 # post) (length pre) (length pre) to_add =
      Done (True, c3, buf3, to_add3)"
    using loop_entry [OF ok, of "cl_partition_tables c" node m pre "table_text es @ tail @ 0 # post" to_add] t1(1) d r(1) n2(3)
    by (simp add: pre2_def)
  moreover have "frame c c3"
    using t1(3) f r(3) frame_trans by blast
  moreover have "slots c3 \<le> slots c + 131072 * length (e # es)"
    using r(5) s1 s2 by simp
  ultimately show ?case
    using r(2,4) own2 n2(1) by (auto simp: own_def)
qed

lemma owners_eq: "current_tables c = map Some ts \<Longrightarrow> owners c = owners_in (table_heap c) ts"
  by (simp add: fun_eq_iff owners_def owners_in_def table_of_def comp_def)

text \<open>
  C6.  When a node sends its partitions as a well-formed text, the update succeeds without leaving the buffer, provided that
  another string or, as the information requests ensure, another zero byte follows.  Afterwards each namespace has the owners
  that the bitmaps say: a set bit makes the node the master (or the holder of the copy) of its partition, a bit that is not
  set removes the node where it was the owner and leaves other owners alone, and new namespaces get tables.  The reference counts
  stay right.
\<close>

theorem tables_follow_servers:
  assumes ok: "cluster_ok held c" and node: "Some node \<in> set (current_nodes c)" and es: "\<forall>e \<in> set es. entry_ok (unat (n_partitions c)) e"
    and small: "slots c + 131072 * length es + size held + 2 < 2 ^ 32" and tail: "0 \<notin> set tail" "58 \<notin> set tail"
  shows "\<exists>c' buf'. as_partition_tables_update c node (pre @ table_text es @ tail @ 0 # post) (length pre) m = Done (True, c', buf') \<and>
    owners c' = foldl (learn (unat (n_partitions c)) m node) (owners c) es \<and> cluster_ok held c'"
proof -
  define ts where "ts = map the (current_tables c)"
  have "p = Some (the p)" if "p \<in> set (current_tables c)" for p
    using cluster_okD(6) [OF ok that] by auto
  then have ts: "current_tables c = map Some ts"
    unfolding ts_def by (simp add: map_idI)
  have up: "updating held ts c []"
    using ok ts cluster_okD(6) [OF ok] by (auto simp: updating_def)
  obtain c1 buf1 to_add where l: "tables_update_loop c (cl_partition_tables c) node m (pre @ table_text es @ tail @ 0 # post) (length pre) (length pre) [] =
      Done (True, c1, buf1, to_add)" "updating held ts c1 to_add" "frame c c1"
      "owners_in (table_heap c1) (ts @ to_add) = foldl (learn (unat (n_partitions c)) m node) (owners c) es"
      "slots c1 \<le> slots c + 131072 * length es"
    using tables_loop_ok [OF up node es small tail, of m pre post] owners_eq [OF ts] by auto
  have old: "cl_partition_tables c1 = cl_partition_tables c" and ts1: "current_tables c1 = map Some ts"
    using l(3) frame_tables [OF l(3)] ts by (simp_all add: frame_def)
  have ok1: "cluster_ok held c1" and live: "\<forall>t \<in> set to_add. obj (table_heap c1) t \<noteq> None"
    using l(2) by (auto simp: updating_def)
  show ?thesis
  proof (cases "to_add = []")
    case True
    with l ok1 owners_eq [OF ts1] show ?thesis
      by (simp add: as_partition_tables_update_def)
  next
    case False
    obtain y where "obj (tables_heap c1) (cl_partition_tables c1) = Some y"
      using updating_tables [OF l(2)] by blast
    then obtain c2 where c2: "as_partition_tables_copy_add c1 (cl_partition_tables c1) to_add = Done c2"
      by (simp add: as_partition_tables_copy_add_def lift_opt_def Let_def)
    have "current_tables c2 = map Some (ts @ to_add)"
      using copy_add_shape(1) [OF c2] ts1 by simp
    then have "owners c2 = foldl (learn (unat (n_partitions c)) m node) (owners c) es"
      using owners_eq [of c2 "ts @ to_add"] copy_add_shape(3) [OF c2] l(4) by simp
    moreover have "cluster_ok held c2"
      using copy_add_shape(6) [OF c2 ok1 live] l(5) small by simp
    ultimately show ?thesis
      using l(1) c2 old False by (simp add: as_partition_tables_update_def)
  qed
qed

theorem tables_follow_servers_witness:
  "\<exists>c' buf'. as_partition_tables_update first_cluster 0 ([116] @ [58] @ cf_b64_encode [0x80] @ [59, 0]) 0 True = Done (True, c', buf') \<and>
    owners c' [116] = Some [\<lparr> master = Some 0, prole = None \<rparr>] \<and> cluster_ok {#} c'"
proof -
  define es where "es = [([116 :: byte], [0x80 :: byte], 59 :: byte)]"
  have none: "owners first_cluster [116] = None"
    by (simp add: owners_def table_of_def current_tables_def first_cluster_def empty_cluster_def obj_def as_partition_tables_create_def)
  have n: "unat (n_partitions first_cluster) = 1"
    by (simp add: first_cluster_def)
  obtain c' buf' where "as_partition_tables_update first_cluster 0 ([] @ table_text es @ [] @ 0 # []) (length ([] :: byte list)) True = Done (True, c', buf')"
      "owners c' = foldl (learn 1 True 0) (owners first_cluster) es" "cluster_ok {#} c'"
    using tables_follow_servers [OF cluster_invD(1) [OF run_inv [OF first_runs(1)]], of 0 es "[]" "[]" "[]" True] n first_runs(2)
    by (auto simp: es_def entry_ok_def fits_def current_nodes_def first_cluster_def obj_def slots_def empty_cluster_def)
  moreover have "foldl (learn 1 True 0) (owners first_cluster) es [116] = Some [\<lparr> master = Some 0, prole = None \<rparr>]"
    using none by (simp add: es_def learn_def update_all_def slot_after_def set_slot_def bit_of_def)
  ultimately show ?thesis
    by (simp add: es_def table_text_def)
qed


end
