(* ===== verification/Spec2Isabelle.thy ===== *)
theory Spec2Isabelle
  imports Prelude ByteOrder Base64 CfQueue CfQueueProps PriorityQueue
    Counted KvTable Shash ShashProps AsVal ArrayList ArrayListProps HashMap HashMapProps Msgpack MsgpackProps MsgpackDecode AsRecord AsError Socket
    Proto Command KeyCommands CommandProps CommandParse CommandParseProps CommandExec KeyOps CommandExecProps KeyOpsProps
    Admin Info InfoProps AsNode ClusterState Partition ClusterInv Cluster ClusterTend ClusterLife ClusterProps TableProps
begin

text \<open>
  A verification development for the C client of the Aerospike database, in its port to HP-UX and AIX.  Paths below are relative to
  \<^verbatim>\<open>src/\<close>; \<^verbatim>\<open>common\<close> stands for \<^verbatim>\<open>modules/common/src\<close> and \<^verbatim>\<open>client\<close> for \<^verbatim>\<open>src/main/aerospike\<close>.

  The program.  An application calls the functions of \<^verbatim>\<open>client/aerospike_key.c\<close> with a key, a policy and bins.  Such a call computes
  the size of a command, writes the command into a buffer (\<^verbatim>\<open>client/as_command.c\<close>, \<^verbatim>\<open>as_proto.c\<close>), with lists and maps packed by
  \<^verbatim>\<open>common/main/aerospike/as_msgpack*.c\<close>, sends it on a connection taken from a node of the cluster (\<^verbatim>\<open>as_command_execute\<close>,
  \<^verbatim>\<open>client/as_socket.c\<close>), and reads the reply into a record (\<^verbatim>\<open>client/as_record.c\<close>) or a value.  The node comes from the partition
  tables (\<^verbatim>\<open>client/as_partition.c\<close>), which a thread keeps up to date: in every pass it asks all nodes for their state, their
  neighbours and their partitions (\<^verbatim>\<open>client/as_cluster.c\<close>, \<^verbatim>\<open>as_node.c\<close>, \<^verbatim>\<open>as_info.c\<close>).  Below it lies a library of values,
  lists and maps and of queues and hash tables.  Most of it depends on the byte order of the machine, and the port adds branches for
  the C library of HP-UX.

  Conventions.  Machine integers are words of their width.  Memory is a list with bounds: an access outside of it, a null pointer or
  a division by zero is \<^verbatim>\<open>None\<close>, or \<^verbatim>\<open>Fault\<close> of the type \<^verbatim>\<open>outcome\<close>, whose third case \<^verbatim>\<open>Timeout\<close> stands for a computation that
  used up its fuel.  Functions that return an error code return it together with the new state.  Memory the code leaves uninitialised
  is read from a parameter.  The machine is a record \<^verbatim>\<open>platform\<close> (byte order, C library, signedness of char);
  \<^verbatim>\<open>sound_platform\<close> says that a machine with the C library of HP-UX is big-endian.  Allocations succeed unless an operation says otherwise.

  Library.
  \<^item> Prelude: outcomes, memory, C strings and the lemmas on lists and words that all parts share.
  \<^item> ByteOrder: the macros of \<^verbatim>\<open>cf_byte_order.h\<close>; swapping back and forth is the identity, and what is stored does not depend on
    the host.
  \<^item> Base64: \<^verbatim>\<open>cf_b64.c\<close>; decoding inverts encoding, and decoding in place gives what decoding into a second buffer gives.

  Containers.
  \<^item> CfQueue, CfQueueProps, PriorityQueue: \<^verbatim>\<open>cf_queue.c\<close> with its ring of 32-bit offsets, its growth, deletion and reduction, and
    the three queues of \<^verbatim>\<open>cf_queue_priority.c\<close>.  A queue refines a bounded list; a locale states what the priority queue needs.
  \<^item> KvTable, Shash, ShashProps: \<^verbatim>\<open>cf_shash.c\<close>; the locale of KvTable is the contract of a finite map that the chained table fulfils.
  \<^item> AsVal, ArrayList, ArrayListProps, HashMap, HashMapProps: the values, \<^verbatim>\<open>as_arraylist.c\<close> as a list and \<^verbatim>\<open>as_hashmap.c\<close>, with its
    pool of elements and free list, as a map, and the places where they leave their contract.
  \<^item> AsRecord: \<^verbatim>\<open>as_record.c\<close>, \<^verbatim>\<open>_bin.c\<close>; a record is a map from names to values of bounded size.

  Encoding.
  \<^item> Msgpack, MsgpackProps, MsgpackDecode: \<^verbatim>\<open>as_msgpack.c\<close> and its serializer.  Packing gives the bytes of a reference encoding in
    every buffer, unpacking on any machine gives the value back, unpacking ends, and the buffers on which it does not.
  \<^item> Proto, Command, KeyCommands, CommandProps: \<^verbatim>\<open>as_proto.c\<close>, the writers and size computations of \<^verbatim>\<open>as_command.c\<close> and, for every
    call of \<^verbatim>\<open>aerospike_key.c\<close>, the part that builds its command.  Each command fills exactly the buffer it computed.
  \<^item> CommandParse, CommandParseProps: the readers of \<^verbatim>\<open>as_command.c\<close>; bins and keys written on one machine are read on another.

  Transport.
  \<^item> AsError, Socket: \<^verbatim>\<open>as_error.h\<close>, \<^verbatim>\<open>as_socket.c\<close>.  The operating system is a list of turns, one for each pass through
    \<^verbatim>\<open>select\<close> and \<^verbatim>\<open>read\<close> or \<^verbatim>\<open>write\<close>, with the clock read after it.  A transfer moves exactly its bytes and ends after its deadline.
  \<^item> CommandExec, KeyOps, CommandExecProps, KeyOpsProps: \<^verbatim>\<open>as_command_execute\<close> and the calls of \<^verbatim>\<open>aerospike_key.c\<close>.  The cluster is
    a list with the node and the connection of each pass; what happens to them is a list of events, in the order of the code.
  \<^item> This theory: properties of whole calls, from the key to the bytes on the connection to the record.

  Cluster.
  \<^item> Counted: heaps of objects with reference counts; a locale states the contract of reserving and releasing and what follows from
    it, and is interpreted for nodes, arrays of nodes and arrays of tables.
  \<^item> Admin, Info, InfoProps: the login of \<^verbatim>\<open>as_admin.c\<close> and the requests and parsers of \<^verbatim>\<open>as_info.c\<close>, with the answers that take
    them out of their buffer or through a null pointer.
  \<^item> AsNode: nodes, their pool of connections and the connection for information requests.
  \<^item> ClusterState, Partition: the record of a cluster, its partition tables, the choice of a node and the updates of \<^verbatim>\<open>as_partition.c\<close>.
  \<^item> Cluster: \<^verbatim>\<open>as_lookup.c\<close>, the refresh of a node and \<^verbatim>\<open>as_cluster.c\<close>: seeding, adding and removing nodes, the garbage list, a
    whole tend pass, creation and destruction.
  \<^item> ClusterInv, ClusterTend, ClusterLife: the invariant \<^verbatim>\<open>cluster_ok\<close>, that each object counts exactly the references to it, and that
    every operation keeps it.  A pass creates and drops references, so its operations are related by \<^verbatim>\<open>evolves\<close> and \<^verbatim>\<open>leads\<close>, which
    compose; \<^verbatim>\<open>fits\<close> bounds the references by \<open>2\<^sup>3\<^sup>2\<close>, the range of the counts.
  \<^item> ClusterProps, TableProps: the relation \<^verbatim>\<open>cluster_run\<close> of the states that passes and commands reach in any order, and what holds in
    all of them: reserved nodes stay, keys reach their nodes, destruction frees everything.  The tables refine a map from
    namespaces to owners.

  Fuel.  Decoding takes fuel for its recursion; more fuel than the buffer has bytes is enough for every buffer without the header
  byte of a 32-bit string (\<^verbatim>\<open>unpack_terminates\<close>) and for every buffer the encoder writes; a crafted buffer is shown for which no fuel
  is enough.  The reverse reduction of a queue takes fuel for its passes: more than the number of elements is enough when the read
  offset is not zero, and none is enough when it is.  Emptying the pool of a node and looking for a live connection in it take
  the size of the pool plus one, which is shown to be enough.  The sending loop, the socket loops and the wait for a stable cluster
  recurse on the lists that describe cluster and system: a list that is too short gives \<^verbatim>\<open>Timeout\<close>, and
  \<^verbatim>\<open>execute_terminates\<close> and \<^verbatim>\<open>socket_deadline_ends\<close> bound the length they need.

  Not modelled.  Threads and locks: every operation runs alone, as under its lock, and commands and passes interleave between
  operations.  The key digest, the clock, name resolution and the opening of connections are parameters or inputs; the sending
  loop takes the node and the connection of each pass as an input, while the choice of the node and the pool are modelled on their
  own.  The variant of the tables in shared memory (\<^verbatim>\<open>as_shm_cluster.c\<close>) is left out.  The printed form of values and log messages are
  pure output.  The batch, scan, query, index, user management and large-data-type calls, the builders of \<^verbatim>\<open>as_operations.c\<close>, the Lua
  bindings, \<^verbatim>\<open>cf_ll\<close>, \<^verbatim>\<open>cf_vector\<close>, \<^verbatim>\<open>cf_rchash\<close> and the vendored libraries are not part of the development.
\<close>


subsection \<open>Calls from end to end\<close>







text \<open>
  C31.  Asking whether a record exists returns wrong metadata.  The reader of the reply leaves the numbers of the record header in the byte
  order of the network, and the caller takes them as they are: on a little-endian machine the generation and the time to live have their
  bytes reversed, and on every machine the time to live is the expiry time of the server.
\<close>

theorem exists_wrong_metadata:
  assumes pf: "sound_platform (cl_platform cl)" and key: "digested cl k k'" "key_ready (pr_key pol) k'"
    and len: "length (key_wire (pr_key pol) k') < 2 ^ 47"
    and acc: "accepted cl (pr_timeout pol) (command_wire (read_msg (AS_MSG_INFO1_READ OR AS_MSG_INFO1_GET_NOBINDATA) (pr_consistency pol)
        (pr_timeout pol) (key_fields (pr_key pol)) 0) (key_wire (pr_key pol) k')) n s0 s"
    and hdr: "delivers (cl_errnos cl) as_error_reset (deadline_of cl (pr_timeout pol)) s (reply_header m 0) s1"
    and m: "msg_header_sz m = 22" "msg_result_code m = 0"
  shows "\<exists>r log. aerospike_key_exists cl (Some pol) k (Some None) = Done (AEROSPIKE_OK, as_error_reset, k', Some (Some r), log) \<and>
    (case byte_order (cl_platform cl) of
       Little_Endian \<Rightarrow> rec_gen r = ucast (my_swab32 (msg_generation m)) \<and> rec_ttl r = my_swab32 (msg_record_ttl m)
     | Big_Endian \<Rightarrow> rec_gen r = ucast (msg_generation m) \<and> rec_ttl r = msg_record_ttl m)"
proof -
  let ?h = "byte_order (cl_platform cl)"
  have swapped: "be_word (rev (be32 x)) = my_swab32 x" for x
    by (metis be_word_be32 length_be32 my_swab32_be_word)
  have raw: "msg_generation (pm_msg (raw_header h m)) = load32 h (be32 (msg_generation m))" "msg_record_ttl (pm_msg (raw_header h m)) = load32 h (be32 (msg_record_ttl m))" for h
    by (simp_all add: raw_header_def msg_fields_def msg_wire_def numeral_eq_Suc)
  have "as_command_parse_header (cl_errnos cl) ?h as_error_reset s (deadline_of cl (pr_timeout pol)) = Done (AEROSPIKE_OK, as_error_reset, Some (raw_header ?h m), s1)"
    using parse_header_delivered [OF hdr m(1)] m(2) by (simp add: AEROSPIKE_OK_def)
  then have "send cl (header_reader (cl_errnos cl) ?h) k' (key_exists_command (cl_platform cl) (cl_junk cl) pol k') (pr_timeout pol) AS_POLICY_RETRY_NONE None =
    Done (AEROSPIKE_OK, as_error_reset, k', Some (raw_header ?h m), [Node_Reserved n, Fd_Taken, Fd_Put s1, Node_Released n])"
    by (intro send_answered [OF exists_exact [OF pf key(2) len] acc]) (simp add: header_reader_def)
  then show ?thesis
    by (cases ?h) (auto simp: aerospike_key_exists_def policy_or_def with_digest_ok [OF key(1)] lift_opt_def Let_def raw swapped)
qed

theorem exists_wrong_metadata_witness:
  "\<exists>r log. aerospike_key_exists (some_client (reply_header (answer 0) 0)) (Some quick_read_policy) some_key (Some None) =
      Done (AEROSPIKE_OK, as_error_reset, some_key, Some (Some r), log) \<and> rec_gen r = 0 \<and> msg_generation (answer 0) = 7"
proof -
  let ?b = "reply_header (answer 0) 0"
  let ?cmd = "command_wire (read_msg (AS_MSG_INFO1_READ OR AS_MSG_INFO1_GET_NOBINDATA) (pr_consistency quick_read_policy) (pr_timeout quick_read_policy) (key_fields (pr_key quick_read_policy)) 0)
      (key_wire (pr_key quick_read_policy) some_key)"
  have acc: "accepted (some_client ?b) (pr_timeout quick_read_policy) ?cmd 1 (quick_sock ?b [quick_turn, quick_turn, quick_turn]) (sent ?cmd ?b [quick_turn, quick_turn])"
    unfolding quick_read_policy_simps by (rule some_client_accepts [OF command_not_empty]) (simp add: some_key_length)
  have hdr: "delivers (cl_errnos (some_client ?b)) as_error_reset (deadline_of (some_client ?b) (pr_timeout quick_read_policy))
      (sent ?cmd ?b [quick_turn, quick_turn]) ?b (sent ?cmd [] [quick_turn])"
    using sent_delivers [OF answer_header(1) [of "answer 0"], of as_error_reset ?cmd "[]" "[quick_turn]"] by (simp add: as_socket_deadline_def)
  have gen: "msg_generation (answer 0) = 7" "ucast (my_swab32 7) = (0 :: u16)"
    by (simp_all add: answer_def int_reply_def my_swab32_def)
  have le: "byte_order (cl_platform (some_client ?b)) = Little_Endian" "sound_platform (cl_platform (some_client ?b))"
      "length (key_wire (pr_key quick_read_policy) some_key) < 2 ^ 47"
    using sound_platforms(1) some_key_length by (simp_all add: linux_platform_def)
  show ?thesis
    using exists_wrong_metadata [OF le(2) some_key_digested some_key_ready le(3) acc hdr answer_header(2,3)]
    unfolding le(1) by (auto simp: gen)
qed

end
